(* ===== verification/Prelude.thy ===== *)
theory Prelude
  imports Main "HOL-Library.Word" "HOL-Library.Multiset"
begin

text \<open>
  Shared vocabulary of the MirageSSD development: the error kinds of
  \<open>crates/mirage-types/src/error.rs\<close>, results as sums, the unsigned 64-bit and 32-bit
  arithmetic the Rust code uses (checked, saturating, and the wrapping arithmetic of a release
  build), identifiers, and the list lemmas the component theories share.

  A \<open>u64\<close> (or \<open>u32\<close>, \<open>usize\<close>) is a natural number; the component invariants keep it at
  most \<open>u64_max\<close> and every place where the source adds or subtracts without a check uses
  \<open>wadd64\<close> / \<open>wsub64\<close>, whose wrap-around is written out. A 16-byte identifier is a
  \<open>128 word\<close> and a 32-byte hash a \<open>256 word\<close>: the derived Rust order on byte arrays
  (lexicographic) is the numeric order of the big-endian value.
\<close>

named_theorems u64_simps \<open>exactness of wrapping and checked 64-bit arithmetic\<close>

section \<open>Results and errors\<close>

datatype MirageErrorKind =
    InvalidArgument
  | UnsupportedLayout
  | ManifestInvalid
  | IntegrityMismatch
  | CacheFull
  | BackendUnauthenticated
  | BackendPermissionDenied
  | BackendRateLimited
  | BackendUnavailable
  | RemoteObjectMissing
  | RepositoryConflict
  | UpdateActive
  | ProviderUnavailable
  | Io
  | Cancelled
  | DeadlineExceeded
  | NotImplemented
  | InternalInvariant

type_synonym 'a result = "MirageErrorKind + 'a"

text \<open>The \<open>?\<close> operator: stop at the first error.\<close>

definition bind_result :: "('e + 'a) \<Rightarrow> ('a \<Rightarrow> 'e + 'b) \<Rightarrow> 'e + 'b" where
  "bind_result r f = (case r of Inl e \<Rightarrow> Inl e | Inr x \<Rightarrow> f x)"

lemma bind_result_simps [simp]:
  "bind_result (Inl e) f = Inl e"
  "bind_result (Inr x) f = f x"
  by (simp_all add: bind_result_def)

lemma bind_result_eq_Inr:
  "bind_result r f = Inr y \<longleftrightarrow> (\<exists>x. r = Inr x \<and> f x = Inr y)"
  by (cases r) auto

lemma bind_result_eq_Inl:
  "bind_result r f = Inl e \<longleftrightarrow> r = Inl e \<or> (\<exists>x. r = Inr x \<and> f x = Inl e)"
  by (cases r) auto

definition ok_or :: "'a option \<Rightarrow> 'e \<Rightarrow> 'e + 'a" where
  "ok_or x e = (case x of None \<Rightarrow> Inl e | Some v \<Rightarrow> Inr v)"

lemma ok_or_simps [simp]:
  "ok_or None e = Inl e"
  "ok_or (Some x) e = Inr x"
  by (simp_all add: ok_or_def)

lemma ok_or_eq_Inr [simp]: "ok_or v e = Inr x \<longleftrightarrow> v = Some x"
  by (cases v) auto

text \<open>Operations that can also panic (\<open>expect\<close>, indexing) fail with one of two kinds.\<close>

datatype failure = Panic | Err MirageErrorKind

type_synonym 'a run = "failure + 'a"

definition is_ok :: "('e + 'a) \<Rightarrow> bool" where
  "is_ok r = (case r of Inl _ \<Rightarrow> False | Inr _ \<Rightarrow> True)"

lemma is_ok_simps [simp]: "\<not> is_ok (Inl e)" "is_ok (Inr x)"
  by (simp_all add: is_ok_def)

lemma is_ok_iff: "is_ok r \<longleftrightarrow> (\<exists>x. r = Inr x)"
  by (cases r) auto

text \<open>Loops with an early return: \<open>collect::<Result<Vec<_>, _>>()\<close>, and a loop that threads a state.\<close>

fun map_results :: "('a \<Rightarrow> 'e + 'b) \<Rightarrow> 'a list \<Rightarrow> 'e + 'b list" where
  "map_results f [] = Inr []"
| "map_results f (x # xs) = bind_result (f x) (\<lambda>y. bind_result (map_results f xs) (\<lambda>ys. Inr (y # ys)))"

fun fold_results :: "('a \<Rightarrow> 's \<Rightarrow> 'e + 's) \<Rightarrow> 'a list \<Rightarrow> 's \<Rightarrow> 'e + 's" where
  "fold_results f [] s = Inr s"
| "fold_results f (x # xs) s = bind_result (f x s) (fold_results f xs)"

lemma map_results_all2: "map_results f xs = Inr ys \<longleftrightarrow> list_all2 (\<lambda>x y. f x = Inr y) xs ys"
  by (induction f xs arbitrary: ys rule: map_results.induct) (auto simp: bind_result_eq_Inr list_all2_Cons1)

lemma fold_results_append: "fold_results f (xs @ ys) s = bind_result (fold_results f xs s) (fold_results f ys)"
proof (induction xs arbitrary: s)
  case (Cons x xs)
  then show ?case by (cases "f x s") simp_all
qed simp

text \<open>A loop over an index range that ended without error, one iteration at a time.\<close>

lemma fold_results_range:
  "fold_results f [0..<n] s = Inr t \<Longrightarrow> k < n \<Longrightarrow>
   \<exists>u v. fold_results f [0..<k] s = Inr u \<and> f k u = Inr v \<and> fold_results f [0..<Suc k] s = Inr v"
proof -
  assume *: "fold_results f [0..<n] s = Inr t" "k < n"
  have "[0..<n] = [0..<k] @ k # [Suc k..<n]" using upt_add_eq_append [of 0 k "n - k"] *(2) by (simp add: upt_conv_Cons)
  with *(1) obtain u v where "fold_results f [0..<k] s = Inr u" "f k u = Inr v"
    by (auto simp: fold_results_append bind_result_eq_Inr)
  then show ?thesis by (simp add: fold_results_append)
qed

lemma unit_results: "r = Inr () \<longleftrightarrow> is_ok (r :: 'e + unit)"
  by (cases r) (simp_all add: is_ok_def)

section \<open>Identifiers\<close>

type_synonym page_hash = "256 word"
type_synonym id16 = "128 word"

section \<open>Unsigned machine arithmetic\<close>

type_synonym u64 = nat
type_synonym u32 = nat

definition u64_max :: nat where
  "u64_max = 18446744073709551615"

definition u32_max :: nat where
  "u32_max = 4294967295"

definition checked_add64 :: "u64 \<Rightarrow> u64 \<Rightarrow> u64 option" where
  "checked_add64 a b = (if a + b \<le> u64_max then Some (a + b) else None)"

definition checked_sub64 :: "u64 \<Rightarrow> u64 \<Rightarrow> u64 option" where
  "checked_sub64 a b = (if b \<le> a then Some (a - b) else None)"

definition checked_mul64 :: "u64 \<Rightarrow> u64 \<Rightarrow> u64 option" where
  "checked_mul64 a b = (if a * b \<le> u64_max then Some (a * b) else None)"

definition saturating_add64 :: "u64 \<Rightarrow> u64 \<Rightarrow> u64" where
  "saturating_add64 a b = min (a + b) u64_max"

definition saturating_mul64 :: "u64 \<Rightarrow> u64 \<Rightarrow> u64" where
  "saturating_mul64 a b = min (a * b) u64_max"

definition saturating_add32 :: "u32 \<Rightarrow> u32 \<Rightarrow> u32" where
  "saturating_add32 a b = min (a + b) u32_max"

definition saturating_mul32 :: "u32 \<Rightarrow> u32 \<Rightarrow> u32" where
  "saturating_mul32 a b = min (a * b) u32_max"

text \<open>The saturating subtraction of the source is subtraction on \<open>nat\<close>.\<close>

definition saturating_sub64 :: "u64 \<Rightarrow> u64 \<Rightarrow> u64" where
  "saturating_sub64 a b = a - b"

text \<open>Unchecked \<open>+\<close> and \<open>-\<close>, as a release build computes them: modulo \<open>2 ^ 64\<close>.\<close>

definition wadd64 :: "u64 \<Rightarrow> u64 \<Rightarrow> u64" where
  "wadd64 a b = (a + b) mod (u64_max + 1)"

definition wsub64 :: "u64 \<Rightarrow> u64 \<Rightarrow> u64" where
  "wsub64 a b = (a + (u64_max + 1) - b) mod (u64_max + 1)"

definition wmul64 :: "u64 \<Rightarrow> u64 \<Rightarrow> u64" where
  "wmul64 a b = (a * b) mod (u64_max + 1)"

text \<open>The narrowing cast \<open>x as u32\<close>.\<close>

definition as_u32 :: "nat \<Rightarrow> u32" where
  "as_u32 x = x mod (u32_max + 1)"

lemma u64_max_eq: "u64_max = 2 ^ 64 - 1"
  by (simp add: u64_max_def)

lemma u64_max_pos [simp]: "0 < u64_max" "u64_max \<noteq> 0"
  by (simp_all add: u64_max_def)

lemma u32_max_le_u64_max: "u32_max \<le> u64_max"
  by (simp add: u32_max_def u64_max_def)

lemma wadd64_exact [u64_simps]: "a + b \<le> u64_max \<Longrightarrow> wadd64 a b = a + b"
  by (simp add: wadd64_def)

lemma wsub64_exact [u64_simps]: "b \<le> a \<Longrightarrow> a \<le> u64_max \<Longrightarrow> wsub64 a b = a - b"
proof -
  assume "b \<le> a" "a \<le> u64_max"
  then have "a + (u64_max + 1) - b = (a - b) + (u64_max + 1)" "a - b < u64_max + 1"
    by auto
  then show ?thesis unfolding wsub64_def by (simp only: mod_add_self2 mod_less)
qed

lemma wmul64_exact [u64_simps]: "a * b \<le> u64_max \<Longrightarrow> wmul64 a b = a * b"
  by (simp add: wmul64_def)

lemma as_u32_exact [u64_simps]: "x \<le> u32_max \<Longrightarrow> as_u32 x = x"
  by (simp add: as_u32_def)

lemma wadd64_bound [simp]: "wadd64 a b \<le> u64_max"
  using mod_less_divisor [of "u64_max + 1" "a + b"] by (simp add: wadd64_def less_Suc_eq_le)

lemma checked_add64_eq_Some [simp]:
  "checked_add64 a b = Some c \<longleftrightarrow> c = a + b \<and> a + b \<le> u64_max"
  by (auto simp: checked_add64_def)

lemma checked_add64_eq_None [simp]: "checked_add64 a b = None \<longleftrightarrow> u64_max < a + b"
  by (auto simp: checked_add64_def)

lemma checked_sub64_eq_Some [simp]:
  "checked_sub64 a b = Some c \<longleftrightarrow> c = a - b \<and> b \<le> a"
  by (auto simp: checked_sub64_def)

lemma checked_sub64_eq_None [simp]: "checked_sub64 a b = None \<longleftrightarrow> a < b"
  by (auto simp: checked_sub64_def)

lemma checked_mul64_eq_Some [simp]:
  "checked_mul64 a b = Some c \<longleftrightarrow> c = a * b \<and> a * b \<le> u64_max"
  by (auto simp: checked_mul64_def)

lemma checked_mul64_eq_None [simp]: "checked_mul64 a b = None \<longleftrightarrow> u64_max < a * b"
  by (auto simp: checked_mul64_def)

text \<open>Signed 64-bit: the wrapping increment of a version counter.\<close>

definition i64_wrap :: "int \<Rightarrow> int" where
  "i64_wrap v = (v + 2 ^ 63) mod 2 ^ 64 - 2 ^ 63"

definition i64_max :: int where
  "i64_max = 9223372036854775807"

lemma i64_wrap_exact: "- (2 ^ 63) \<le> v \<Longrightarrow> v \<le> i64_max \<Longrightarrow> i64_wrap v = v"
  by (simp add: i64_wrap_def i64_max_def)

section \<open>Folding checked additions\<close>

text \<open>\<open>iter().try_fold(0, checked_add)\<close>: the sum, or \<open>None\<close> at the first overflow.\<close>

fun try_sum64 :: "u64 \<Rightarrow> u64 list \<Rightarrow> u64 option" where
  "try_sum64 acc [] = Some acc"
| "try_sum64 acc (x # xs) =
     (case checked_add64 acc x of None \<Rightarrow> None | Some s \<Rightarrow> try_sum64 s xs)"

lemma try_sum64_eq:
  "acc \<le> u64_max \<Longrightarrow>
   try_sum64 acc xs = (if acc + sum_list xs \<le> u64_max then Some (acc + sum_list xs) else None)"
proof (induction xs arbitrary: acc)
  case Nil
  then show ?case by simp
next
  case (Cons x xs)
  show ?case
  proof (cases "acc + x \<le> u64_max")
    case True
    then show ?thesis using Cons.IH [of "acc + x"] by (simp add: checked_add64_def add.assoc)
  next
    case False
    then show ?thesis by (simp add: checked_add64_def)
  qed
qed

section \<open>Lists\<close>

lemma sorted_wrt_insort_key_symmetric:
  assumes "\<And>a b. R a b \<Longrightarrow> R b a"
  shows "sorted_wrt R (insort_key f x xs) \<longleftrightarrow> (\<forall>y\<in>set xs. R x y) \<and> sorted_wrt R xs"
proof (induction xs)
  case Nil
  then show ?case by simp
next
  case (Cons y ys)
  have "R y x \<longleftrightarrow> R x y" using assms by blast
  with Cons show ?case by (auto simp: set_insort_key)
qed

lemma sorted_wrt_sort_key_symmetric:
  assumes "\<And>a b. R a b \<Longrightarrow> R b a"
  shows "sorted_wrt R (sort_key f xs) \<longleftrightarrow> sorted_wrt R xs"
  by (induction xs) (auto simp: sorted_wrt_insort_key_symmetric [OF assms])

lemma sort_key_sorted_id: "sorted (map f xs) \<Longrightarrow> sort_key f xs = xs"
proof (induction xs)
  case Nil
  then show ?case by simp
next
  case (Cons x xs)
  then show ?case by (cases xs) auto
qed

lemma map_upt_add: "map f [a..<a + n] = map (\<lambda>i. f (a + i)) [0..<n]"
  by (rule nth_equalityI) simp_all

lemma upt_split: "a \<le> b \<Longrightarrow> b \<le> c \<Longrightarrow> [a..<c] = [a..<b] @ [b..<c]"
  using upt_add_eq_append [of a b "c - b"] by simp

end
