(* ===== verification/Byte_Range.thy ===== *)
theory Byte_Range
  imports Prelude
begin

text \<open>
  Overflow-checked byte ranges and page arithmetic:
  \<open>crates/mirage-types/src/range.rs\<close> (\<open>CheckedRange\<close>, \<open>PageSlice\<close>) and the offset
  arithmetic of \<open>crates/mirage-types/src/bytes.rs\<close>. The lemmas read a range as the set of
  byte positions it covers; the two main results are that the set operations are exact and that
  splitting a range into page slices tiles it without gap or overlap.
\<close>

section \<open>Typed counts and offsets\<close>

type_synonym byte_count = u64
type_synonym file_offset = u64
type_synonym page_ordinal = u32

definition checked_add_bytes :: "file_offset \<Rightarrow> byte_count \<Rightarrow> file_offset option" where
  "checked_add_bytes off bytes = checked_add64 off bytes"

definition checked_sub_offset :: "file_offset \<Rightarrow> file_offset \<Rightarrow> byte_count option" where
  "checked_sub_offset off start = checked_sub64 off start"

definition from_kib :: "u64 \<Rightarrow> byte_count option" where
  "from_kib kib = checked_mul64 kib 1024"

definition from_mib :: "u64 \<Rightarrow> byte_count option" where
  "from_mib mib = checked_mul64 mib (1024 * 1024)"

definition from_gib :: "u64 \<Rightarrow> byte_count option" where
  "from_gib gib = checked_mul64 gib (1024 * 1024 * 1024)"

definition page_ordinal_of :: "file_offset \<Rightarrow> byte_count \<Rightarrow> page_ordinal option" where
  "page_ordinal_of off page_size =
     (if page_size = 0 then None
      else let page_u64 = off div page_size
           in if page_u64 > u32_max then None else Some (as_u32 page_u64))"

definition page_offset_of :: "file_offset \<Rightarrow> byte_count \<Rightarrow> u32 option" where
  "page_offset_of off page_size =
     (if page_size = 0 then None
      else let r = off mod page_size in if r > u32_max then None else Some (as_u32 r))"

definition to_file_offset :: "page_ordinal \<Rightarrow> byte_count \<Rightarrow> file_offset option" where
  "to_file_offset page page_size = checked_mul64 page page_size"

section \<open>Checked ranges\<close>

record CheckedRange =
  range_start :: u64
  range_len :: u64

definition range_new :: "u64 \<Rightarrow> u64 \<Rightarrow> CheckedRange result" where
  "range_new start len =
     (case checked_add64 start len of
        Some _ \<Rightarrow> Inr \<lparr>range_start = start, range_len = len\<rparr>
      | None \<Rightarrow> Inl InvalidArgument)"

definition range_try_new :: "u64 \<Rightarrow> u64 \<Rightarrow> CheckedRange option" where
  "range_try_new start len =
     (case checked_add64 start len of
        Some _ \<Rightarrow> Some \<lparr>range_start = start, range_len = len\<rparr>
      | None \<Rightarrow> None)"

definition from_start_and_end :: "u64 \<Rightarrow> u64 \<Rightarrow> CheckedRange result" where
  "from_start_and_end start end_exclusive =
     (if end_exclusive < start then Inl InvalidArgument
      else range_new start (end_exclusive - start))"

definition empty_range :: "u64 \<Rightarrow> CheckedRange" where
  "empty_range start = \<lparr>range_start = start, range_len = 0\<rparr>"

definition range_is_empty :: "CheckedRange \<Rightarrow> bool" where
  "range_is_empty r \<longleftrightarrow> range_len r = 0"

definition end_exclusive :: "CheckedRange \<Rightarrow> u64" where
  "end_exclusive r =
     (case checked_add64 (range_start r) (range_len r) of Some e \<Rightarrow> e | None \<Rightarrow> u64_max)"

definition contains_offset :: "CheckedRange \<Rightarrow> u64 \<Rightarrow> bool" where
  "contains_offset r off =
     (if range_is_empty r then False
      else off \<ge> range_start r \<and> off < end_exclusive r)"

definition contains_range :: "CheckedRange \<Rightarrow> CheckedRange \<Rightarrow> bool" where
  "contains_range r other =
     (if range_is_empty other
      then range_start other \<ge> range_start r \<and> range_start other \<le> end_exclusive r
      else if range_is_empty r then False
      else range_start other \<ge> range_start r \<and> end_exclusive other \<le> end_exclusive r)"

definition intersection :: "CheckedRange \<Rightarrow> CheckedRange \<Rightarrow> CheckedRange option" where
  "intersection r other =
     (if range_is_empty r \<or> range_is_empty other then None
      else let max_start = max (range_start r) (range_start other);
               min_end = min (end_exclusive r) (end_exclusive other)
           in if max_start < min_end
              then Some \<lparr>range_start = max_start, range_len = min_end - max_start\<rparr>
              else None)"

definition overlaps :: "CheckedRange \<Rightarrow> CheckedRange \<Rightarrow> bool" where
  "overlaps r other \<longleftrightarrow> intersection r other \<noteq> None"

definition clip_to_eof :: "CheckedRange \<Rightarrow> u64 \<Rightarrow> CheckedRange" where
  "clip_to_eof r file_size =
     (if range_start r \<ge> file_size then empty_range file_size
      else let clamped_end = min (end_exclusive r) file_size
           in \<lparr>range_start = range_start r, range_len = clamped_end - range_start r\<rparr>)"

section \<open>Page slices\<close>

record PageSlice =
  slice_page :: page_ordinal
  offset_in_page :: u32
  slice_length :: u32
  slice_file_offset :: file_offset

text \<open>The body of the \<open>for page in first_page..=last_page\<close> loop.\<close>

fun split_pages_loop :: "u64 list \<Rightarrow> u64 \<Rightarrow> u64 \<Rightarrow> u64 \<Rightarrow> PageSlice list" where
  "split_pages_loop [] page_size e cur = []"
| "split_pages_loop (page # pages) page_size e cur =
     (let page_start = wmul64 page page_size;
          in_page = as_u32 (wsub64 cur page_start);
          remaining_in_page = wsub64 page_size in_page;
          remaining_in_range = wsub64 e cur;
          bytes_in_page = as_u32 (min remaining_in_page remaining_in_range);
          slice = \<lparr>slice_page = as_u32 page, offset_in_page = in_page,
                   slice_length = bytes_in_page, slice_file_offset = cur\<rparr>
      in slice # (case checked_add64 cur bytes_in_page of
                    Some nxt \<Rightarrow> split_pages_loop pages page_size e nxt
                  | None \<Rightarrow> []))"

declare split_pages_loop.simps(2) [simp del]

definition split_to_pages :: "CheckedRange \<Rightarrow> u64 \<Rightarrow> PageSlice list result" where
  "split_to_pages r page_size =
     (if page_size = 0 then Inl InvalidArgument
      else if page_size > u32_max then Inl UnsupportedLayout
      else if range_is_empty r then Inr []
      else let e = end_exclusive r;
               first_page = range_start r div page_size;
               last_page = wsub64 e 1 div page_size
           in if last_page > u32_max then Inl UnsupportedLayout
              else Inr (split_pages_loop [first_page..<last_page + 1] page_size e (range_start r)))"

section \<open>Ranges as byte sets\<close>

text \<open>Every constructor of the module keeps \<open>start + len\<close> inside \<open>u64\<close>.\<close>

definition range_wf :: "CheckedRange \<Rightarrow> bool" where
  "range_wf r \<longleftrightarrow> range_start r + range_len r \<le> u64_max"

definition range_bytes :: "CheckedRange \<Rightarrow> nat set" where
  "range_bytes r = {range_start r..<range_start r + range_len r}"

lemma range_new_eq_Inr [simp]:
  "range_new s l = Inr r \<longleftrightarrow> s + l \<le> u64_max \<and> r = \<lparr>range_start = s, range_len = l\<rparr>"
  by (auto simp: range_new_def split: option.splits)

lemma range_new_wf: "range_new s l = Inr r \<Longrightarrow> range_wf r"
  by (auto simp: range_wf_def)

lemma end_exclusive_wf [simp]: "range_wf r \<Longrightarrow> end_exclusive r = range_start r + range_len r"
  by (simp add: end_exclusive_def range_wf_def checked_add64_def)

lemma from_start_and_end_Inr:
  "e \<le> u64_max \<Longrightarrow> s \<le> e \<Longrightarrow>
   from_start_and_end s e = Inr \<lparr>range_start = s, range_len = e - s\<rparr>"
  by (simp add: from_start_and_end_def)

lemma from_start_and_end_wf: "from_start_and_end s e = Inr r \<Longrightarrow> range_wf r"
  by (auto simp: from_start_and_end_def range_wf_def split: if_splits)

lemma intersection_wf:
  "range_wf r \<Longrightarrow> range_wf s \<Longrightarrow> intersection r s = Some t \<Longrightarrow> range_wf t"
  by (auto simp: intersection_def Let_def range_wf_def end_exclusive_def checked_add64_def
      split: if_splits)

lemma clip_to_eof_wf:
  assumes "range_wf r" "file_size \<le> u64_max"
  shows "range_wf (clip_to_eof r file_size)"
  using assms by (auto simp: clip_to_eof_def Let_def range_wf_def empty_range_def)

lemma contains_offset_iff: "range_wf r \<Longrightarrow> contains_offset r x \<longleftrightarrow> x \<in> range_bytes r"
  by (auto simp: contains_offset_def range_bytes_def range_is_empty_def)

lemma intersection_bytes:
  assumes "range_wf r" "range_wf s"
  shows "(case intersection r s of
            Some t \<Rightarrow> range_bytes t = range_bytes r \<inter> range_bytes s \<and> range_bytes t \<noteq> {}
          | None \<Rightarrow> range_bytes r \<inter> range_bytes s = {})"
  using assms
  by (auto simp: intersection_def Let_def range_bytes_def range_is_empty_def)

lemma clip_to_eof_bytes:
  assumes "range_wf r"
  shows "range_bytes (clip_to_eof r file_size) = range_bytes r \<inter> {..<file_size}"
  using assms by (auto simp: clip_to_eof_def Let_def range_bytes_def empty_range_def)

lemma contains_range_iff:
  assumes "range_wf r" "range_wf s" "\<not> range_is_empty s"
  shows "contains_range r s \<longleftrightarrow> range_bytes s \<subseteq> range_bytes r"
  using assms
  by (auto simp: contains_range_def range_bytes_def range_is_empty_def atLeastLessThan_subset_iff)

section \<open>Splitting into pages\<close>

definition slice_positions :: "PageSlice \<Rightarrow> nat list" where
  "slice_positions s = [slice_file_offset s..<slice_file_offset s + slice_length s]"

definition slice_ok :: "u64 \<Rightarrow> PageSlice \<Rightarrow> bool" where
  "slice_ok page_size s \<longleftrightarrow>
     0 < slice_length s \<and> offset_in_page s + slice_length s \<le> page_size \<and>
     slice_file_offset s = slice_page s * page_size + offset_in_page s \<and> slice_page s \<le> u32_max"

lemma page_step_arith:
  fixes cur e ps page :: nat
  assumes "0 < ps" "cur < e" "page = cur div ps"
  shows "page * ps \<le> cur" "cur - page * ps < ps"
    and "min (ps - (cur - page * ps)) (e - cur) =
         (if page = (e - 1) div ps then e - cur else (page + 1) * ps - cur)"
    and "page \<noteq> (e - 1) div ps \<Longrightarrow> cur < (page + 1) * ps \<and> (page + 1) * ps < e"
proof -
  show le: "page * ps \<le> cur" using assms by simp
  show lt: "cur - page * ps < ps"
    using assms by (simp add: minus_div_mult_eq_mod)
  from lt le have up: "cur < (page + 1) * ps" by (simp add: algebra_simps)
  have last: "page = (e - 1) div ps \<longleftrightarrow> e \<le> (page + 1) * ps"
  proof
    assume "page = (e - 1) div ps"
    then have "e - 1 < (page + 1) * ps"
      using assms(1) dividend_less_div_times [of ps "e - 1"] by (simp add: algebra_simps)
    then show "e \<le> (page + 1) * ps" by simp
  next
    assume "e \<le> (page + 1) * ps"
    with assms(2) le have "page * ps \<le> e - 1" "e - 1 < (page + 1) * ps" by auto
    then show "page = (e - 1) div ps"
      using assms(1) by (metis Suc_eq_plus1 div_nat_eqI mult.commute)
  qed
  show "min (ps - (cur - page * ps)) (e - cur) =
         (if page = (e - 1) div ps then e - cur else (page + 1) * ps - cur)"
  proof (cases "page = (e - 1) div ps")
    case True
    with last have "e \<le> (page + 1) * ps" by blast
    then have "e - cur \<le> ps - (cur - page * ps)" using le by simp
    with True show ?thesis by (simp add: min.absorb2)
  next
    case False
    with last have "(page + 1) * ps \<le> e" by simp
    then have "ps - (cur - page * ps) \<le> e - cur" using le by simp
    with False show ?thesis using le by (simp add: min.absorb1)
  qed
  show "cur < (page + 1) * ps \<and> (page + 1) * ps < e" if "page \<noteq> (e - 1) div ps"
    using that last up by simp
qed

lemma split_pages_loop_step:
  assumes ps: "0 < ps" "ps \<le> u32_max" and e: "cur < e" "e \<le> u64_max"
    and page: "page = cur div ps" "page \<le> u32_max"
  defines "n \<equiv> (if page = (e - 1) div ps then e else (page + 1) * ps)"
  shows "split_pages_loop (page # pages) ps e cur =
    \<lparr>slice_page = page, offset_in_page = cur - page * ps,
     slice_length = n - cur, slice_file_offset = cur\<rparr> # split_pages_loop pages ps e n"
proof -
  note ar = page_step_arith [OF ps(1) e(1) page(1)]
  have m: "page * ps \<le> u64_max" using ar(1) e by simp
  have c: "cur - page * ps \<le> u32_max" using ar(2) ps(2) by simp
  have n: "cur < n" "n \<le> e" using ar(4) e(1) by (auto simp: n_def)
  have b: "min (ps - (cur - page * ps)) (e - cur) = n - cur"
    using ar(3) by (simp add: n_def)
  then have "n - cur \<le> ps" by (metis diff_le_self le_trans min.cobounded1)
  with ps(2) have b32: "n - cur \<le> u32_max" by simp
  have p64: "ps \<le> u64_max" using ps(2) u32_max_le_u64_max by (rule le_trans)
  have s1: "wsub64 cur (page * ps) = cur - page * ps"
    using ar(1) e by (simp add: wsub64_exact)
  have s2: "wsub64 ps (cur - page * ps) = ps - (cur - page * ps)"
    using ar(2) p64 by (simp add: wsub64_exact)
  have s3: "wsub64 e cur = e - cur" using e by (simp add: wsub64_exact)
  show ?thesis
    using m c b b32 n e
    by (simp add: split_pages_loop.simps(2) Let_def wmul64_exact s1 s2 s3 as_u32_exact page(2) checked_add64_def)
qed

lemma split_pages_loop_correct:
  assumes "0 < ps" "ps \<le> u32_max" "cur < e" "e \<le> u64_max" "(e - 1) div ps \<le> u32_max"
  shows "let sl = split_pages_loop [cur div ps..<(e - 1) div ps + 1] ps e cur
         in concat (map slice_positions sl) = [cur..<e] \<and> list_all (slice_ok ps) sl \<and>
            map slice_page sl = [cur div ps..<(e - 1) div ps + 1]"
  using assms(3)
proof (induction "(e - 1) div ps - cur div ps" arbitrary: cur)
  case 0
  have "cur div ps \<le> (e - 1) div ps" using 0(2) by (intro div_le_mono) simp
  with 0(1) have eq: "cur div ps = (e - 1) div ps" by simp
  note step = split_pages_loop_step [OF assms(1,2) 0(2) assms(4) refl]
  note ar = page_step_arith [OF assms(1) 0(2) refl]
  have "e - cur \<le> ps - (cur - (cur div ps) * ps)" using ar(3) eq by (simp add: min_def split: if_splits)
  then have "e - (cur div ps) * ps \<le> ps" using ar(1,2) by linarith
  then show ?case
    using eq step [of "[]"] assms(5) 0(2) ar(1,2)
    by (simp add: Let_def slice_positions_def slice_ok_def)
next
  case (Suc k)
  let ?page = "cur div ps" and ?last = "(e - 1) div ps"
  have ne: "?page \<noteq> ?last" and lt: "?page < ?last" using Suc(2) by simp_all
  note step = split_pages_loop_step [OF assms(1,2) Suc(3) assms(4) refl]
  note ar = page_step_arith [OF assms(1) Suc(3) refl]
  let ?n = "(?page + 1) * ps"
  have n: "cur < ?n" "?n < e" using ar(4) [OF ne] by simp_all
  have nd: "?n div ps = ?page + 1" using assms(1) by simp
  have up: "[?page..<?last + 1] = ?page # [?page + 1..<?last + 1]"
    using lt by (simp add: upt_conv_Cons)
  have b: "?n - cur = ps - (cur - ?page * ps)"
    using ar(1,2) by (simp add: algebra_simps)
  have IH: "let sl = split_pages_loop [?page + 1..<?last + 1] ps e ?n
     in concat (map slice_positions sl) = [?n..<e] \<and> list_all (slice_ok ps) sl \<and>
        map slice_page sl = [?page + 1..<?last + 1]"
    using Suc(1) [of ?n, unfolded nd] n(2) Suc(2) by linarith
  have p32: "?page \<le> u32_max" using lt assms(5) by simp
  have ok: "slice_ok ps \<lparr>slice_page = ?page, offset_in_page = cur - ?page * ps,
     slice_length = ?n - cur, slice_file_offset = cur\<rparr>"
    using ar(1,2) b p32 n by (simp add: slice_ok_def)
  have ap: "[cur..<?n] @ [?n..<e] = [cur..<e]" using n by (simp add: upt_split [symmetric])
  show ?case
    using IH ok ne n ap
    unfolding up step [OF p32] by (simp add: Let_def slice_positions_def del: mult_Suc upt_Suc)
qed

lemma split_to_pages_cases:
  assumes "range_wf r"
  shows "split_to_pages r ps =
    (if ps = 0 then Inl InvalidArgument
     else if ps > u32_max then Inl UnsupportedLayout
     else if range_len r = 0 then Inr []
     else if (range_start r + range_len r - 1) div ps > u32_max then Inl UnsupportedLayout
     else Inr (split_pages_loop [range_start r div ps..<(range_start r + range_len r - 1) div ps + 1]
                 ps (range_start r + range_len r) (range_start r)))"
  using assms
  by (simp add: split_to_pages_def Let_def range_is_empty_def range_wf_def wsub64_exact)

section \<open>Properties\<close>

text \<open>C30: the set operations on well-formed ranges are exact: membership, overlap, intersection
  (\<open>None\<close> exactly for disjoint ranges) and clipping at end of file agree with the operations
  on sets of byte positions, and their results are well formed again.\<close>

theorem range_operations_exact:
  assumes "range_wf r" and "range_wf s" and "file_size \<le> u64_max"
  shows "(\<forall>x. contains_offset r x \<longleftrightarrow> x \<in> range_bytes r) \<and>
         (overlaps r s \<longleftrightarrow> range_bytes r \<inter> range_bytes s \<noteq> {}) \<and>
         (\<forall>t. intersection r s = Some t \<longrightarrow>
            range_wf t \<and> range_bytes t = range_bytes r \<inter> range_bytes s) \<and>
         range_bytes (clip_to_eof r file_size) = range_bytes r \<inter> {..<file_size} \<and>
         range_wf (clip_to_eof r file_size)"
  using assms intersection_bytes [OF assms(1,2)] intersection_wf [OF assms(1,2)]
  by (auto simp: contains_offset_iff overlaps_def clip_to_eof_bytes clip_to_eof_wf
      split: option.splits)

theorem range_operations_exact_witness:
  "intersection \<lparr>range_start = 100, range_len = 200\<rparr> \<lparr>range_start = 250, range_len = 100\<rparr> =
     Some \<lparr>range_start = 250, range_len = 50\<rparr> \<and>
   overlaps \<lparr>range_start = 100, range_len = 200\<rparr> \<lparr>range_start = 250, range_len = 100\<rparr> \<and>
   range_wf (clip_to_eof \<lparr>range_start = 100, range_len = 200\<rparr> 120)"
proof -
  let ?r = "\<lparr>range_start = 100, range_len = 200\<rparr>" and ?s = "\<lparr>range_start = 250, range_len = 100\<rparr>"
  have wf: "range_wf ?r" "range_wf ?s" "(120::nat) \<le> u64_max"
    by (simp_all add: range_wf_def u64_max_def)
  have "intersection ?r ?s = Some \<lparr>range_start = 250, range_len = 50\<rparr>"
    using wf(1,2) by (simp add: intersection_def range_is_empty_def)
  moreover have "overlaps ?r ?s \<longleftrightarrow> range_bytes ?r \<inter> range_bytes ?s \<noteq> {}"
    and "range_wf (clip_to_eof ?r 120)"
    using range_operations_exact [OF wf] by blast+
  moreover have "250 \<in> range_bytes ?r \<inter> range_bytes ?s" by (simp add: range_bytes_def)
  ultimately show ?thesis by blast
qed

text \<open>C29: splitting a well-formed range fails exactly on a zero page size (invalid argument), a
  page size beyond 32 bits or a last page beyond 32 bits (unsupported layout); otherwise the
  slices tile the range in order without gap or overlap, one per page from the first to the last,
  and each stays inside its page.\<close>

theorem split_to_pages_tiles:
  assumes "range_wf r"
  shows "case split_to_pages r ps of
      Inl err \<Rightarrow> (err = InvalidArgument \<and> ps = 0) \<or>
        (err = UnsupportedLayout \<and> 0 < ps \<and>
         (u32_max < ps \<or> (0 < range_len r \<and>
            u32_max < (range_start r + range_len r - 1) div ps)))
    | Inr slices \<Rightarrow>
        concat (map slice_positions slices) = [range_start r..<range_start r + range_len r] \<and>
        list_all (slice_ok ps) slices \<and>
        (0 < range_len r \<longrightarrow> map slice_page slices =
           [range_start r div ps..<(range_start r + range_len r - 1) div ps + 1])"
proof (cases "0 < ps \<and> ps \<le> u32_max \<and> 0 < range_len r \<and>
    (range_start r + range_len r - 1) div ps \<le> u32_max")
  case True
  then have "range_start r < range_start r + range_len r" by simp
  with True assms split_pages_loop_correct [of ps "range_start r" "range_start r + range_len r"]
  show ?thesis by (simp add: split_to_pages_cases range_wf_def Let_def)
next
  case False
  then show ?thesis using assms by (auto simp: split_to_pages_cases)
qed

theorem split_to_pages_tiles_witness:
  "range_wf \<lparr>range_start = 6, range_len = 5\<rparr> \<and>
   split_to_pages \<lparr>range_start = 6, range_len = 5\<rparr> 4 =
     Inr [\<lparr>slice_page = 1, offset_in_page = 2, slice_length = 2, slice_file_offset = 6\<rparr>,
          \<lparr>slice_page = 2, offset_in_page = 0, slice_length = 3, slice_file_offset = 8\<rparr>]"
proof -
  let ?r = "\<lparr>range_start = 6, range_len = 5\<rparr>"
  have wf: "range_wf ?r" by (simp add: range_wf_def u64_max_def)
  moreover have "split_to_pages ?r 4 =
     Inr [\<lparr>slice_page = 1, offset_in_page = 2, slice_length = 2, slice_file_offset = 6\<rparr>,
          \<lparr>slice_page = 2, offset_in_page = 0, slice_length = 3, slice_file_offset = 8\<rparr>]"
    by (simp add: split_to_pages_cases [OF wf] u32_max_def upt_rec split_pages_loop.simps(2)
        wmul64_def wsub64_def as_u32_def
        u64_max_def checked_add64_def Let_def)
  ultimately show ?thesis using split_to_pages_tiles [OF wf, of 4] by simp
qed

end
