(* ===== verification/Lifecycle.thy ===== *)
theory Lifecycle
  imports Prelude "HOL-Library.Sublist"
begin

text \<open>
  The five lifecycle state machines of \<open>crates/mirage-types/src/state.rs\<close> and
  \<open>crates/mirage-types/src/transition.rs\<close>: repository, page, session, update journal and
  backend health. Each transition table is one function from a state and an event to the next
  state or a \<open>TransitionError\<close> that names machine, state and event, with the arms in source
  order. The interface \<open>lifecycle\<close> says when a property of state and accepted history is kept
  by every step; \<open>ordered_lifecycle\<close> specialises it to milestones, the events that must have
  happened, in order, before a state is reached.
\<close>

section \<open>States and their wire names\<close>

datatype RepositoryState =
    Uninitialized
  | Importing
  | UploadingBase
  | VerifyingBase
  | ReadyUnmounted
  | Mounting
  | ReadyMounted
  | AdmittingSession
  | PlayingSealed
  | PlayingBalanced
  | Updating
  | Recovering
  | Degraded
  | Conflicted
  | Error

fun repository_state_str :: "RepositoryState \<Rightarrow> string" where
  "repository_state_str RepositoryState.Uninitialized = ''uninitialized''"
| "repository_state_str RepositoryState.Importing = ''importing''"
| "repository_state_str RepositoryState.UploadingBase = ''uploading_base''"
| "repository_state_str RepositoryState.VerifyingBase = ''verifying_base''"
| "repository_state_str RepositoryState.ReadyUnmounted = ''ready_unmounted''"
| "repository_state_str RepositoryState.Mounting = ''mounting''"
| "repository_state_str RepositoryState.ReadyMounted = ''ready_mounted''"
| "repository_state_str RepositoryState.AdmittingSession = ''admitting_session''"
| "repository_state_str RepositoryState.PlayingSealed = ''playing_sealed''"
| "repository_state_str RepositoryState.PlayingBalanced = ''playing_balanced''"
| "repository_state_str RepositoryState.Updating = ''updating''"
| "repository_state_str RepositoryState.Recovering = ''recovering''"
| "repository_state_str RepositoryState.Degraded = ''degraded''"
| "repository_state_str RepositoryState.Conflicted = ''conflicted''"
| "repository_state_str RepositoryState.Error = ''error''"

datatype PageState =
    Absent
  | Fetching
  | ResidentClean
  | SessionPinned
  | Evicting
  | DirtyLocal
  | Staging
  | StagedRemote
  | CommittedRemote
  | Quarantined

fun page_state_str :: "PageState \<Rightarrow> string" where
  "page_state_str PageState.Absent = ''absent''"
| "page_state_str PageState.Fetching = ''fetching''"
| "page_state_str PageState.ResidentClean = ''resident_clean''"
| "page_state_str PageState.SessionPinned = ''session_pinned''"
| "page_state_str PageState.Evicting = ''evicting''"
| "page_state_str PageState.DirtyLocal = ''dirty_local''"
| "page_state_str PageState.Staging = ''staging''"
| "page_state_str PageState.StagedRemote = ''staged_remote''"
| "page_state_str PageState.CommittedRemote = ''committed_remote''"
| "page_state_str PageState.Quarantined = ''quarantined''"

datatype SessionState =
    Planned
  | Reserving
  | Materializing
  | Verifying
  | SealedReady
  | Launching
  | Active
  | DrainingHelpers
  | Completed
  | Violated
  | Aborted

fun session_state_str :: "SessionState \<Rightarrow> string" where
  "session_state_str SessionState.Planned = ''planned''"
| "session_state_str SessionState.Reserving = ''reserving''"
| "session_state_str SessionState.Materializing = ''materializing''"
| "session_state_str SessionState.Verifying = ''verifying''"
| "session_state_str SessionState.SealedReady = ''sealed_ready''"
| "session_state_str SessionState.Launching = ''launching''"
| "session_state_str SessionState.Active = ''active''"
| "session_state_str SessionState.DrainingHelpers = ''draining_helpers''"
| "session_state_str SessionState.Completed = ''completed''"
| "session_state_str SessionState.Violated = ''violated''"
| "session_state_str SessionState.Aborted = ''aborted''"

datatype UpdateState =
    Created
  | NativeSnapshotInProgress
  | Applying
  | DirtyPagesPresent
  | Staging
  | AllContentStaged
  | ManifestUploaded
  | CommitUploaded
  | CommitVerified
  | LocalActivationPending
  | Committed
  | RollbackPending
  | RolledBack
  | RecoveryRequired

fun update_state_str :: "UpdateState \<Rightarrow> string" where
  "update_state_str UpdateState.Created = ''created''"
| "update_state_str UpdateState.NativeSnapshotInProgress = ''native_snapshot_in_progress''"
| "update_state_str UpdateState.Applying = ''applying''"
| "update_state_str UpdateState.DirtyPagesPresent = ''dirty_pages_present''"
| "update_state_str UpdateState.Staging = ''staging''"
| "update_state_str UpdateState.AllContentStaged = ''all_content_staged''"
| "update_state_str UpdateState.ManifestUploaded = ''manifest_uploaded''"
| "update_state_str UpdateState.CommitUploaded = ''commit_uploaded''"
| "update_state_str UpdateState.CommitVerified = ''commit_verified''"
| "update_state_str UpdateState.LocalActivationPending = ''local_activation_pending''"
| "update_state_str UpdateState.Committed = ''committed''"
| "update_state_str UpdateState.RollbackPending = ''rollback_pending''"
| "update_state_str UpdateState.RolledBack = ''rolled_back''"
| "update_state_str UpdateState.RecoveryRequired = ''recovery_required''"

datatype BackendHealthState =
    Unknown
  | Healthy
  | Degraded
  | RateLimited
  | Unauthenticated
  | Offline
  | Unavailable

fun backend_health_state_str :: "BackendHealthState \<Rightarrow> string" where
  "backend_health_state_str BackendHealthState.Unknown = ''unknown''"
| "backend_health_state_str BackendHealthState.Healthy = ''healthy''"
| "backend_health_state_str BackendHealthState.Degraded = ''degraded''"
| "backend_health_state_str BackendHealthState.RateLimited = ''rate_limited''"
| "backend_health_state_str BackendHealthState.Unauthenticated = ''unauthenticated''"
| "backend_health_state_str BackendHealthState.Offline = ''offline''"
| "backend_health_state_str BackendHealthState.Unavailable = ''unavailable''"

section \<open>State predicates\<close>

definition repository_is_terminal :: "RepositoryState \<Rightarrow> bool" where
  "repository_is_terminal s \<longleftrightarrow> s \<in> {RepositoryState.Conflicted, RepositoryState.Error}"

definition repository_is_readable :: "RepositoryState \<Rightarrow> bool" where
  "repository_is_readable s \<longleftrightarrow>
     s \<in> {RepositoryState.ReadyMounted, RepositoryState.AdmittingSession,
          RepositoryState.PlayingSealed, RepositoryState.PlayingBalanced,
          RepositoryState.Updating, RepositoryState.Degraded}"

definition repository_requires_journal :: "RepositoryState \<Rightarrow> bool" where
  "repository_requires_journal s \<longleftrightarrow>
     s \<in> {RepositoryState.Updating, RepositoryState.Recovering, RepositoryState.Conflicted}"

definition page_is_readable :: "PageState \<Rightarrow> bool" where
  "page_is_readable s \<longleftrightarrow>
     s \<in> {PageState.ResidentClean, PageState.SessionPinned, PageState.DirtyLocal,
          PageState.Staging}"

definition page_is_evictable :: "PageState \<Rightarrow> bool" where
  "page_is_evictable s \<longleftrightarrow>
     s \<in> {PageState.ResidentClean, PageState.StagedRemote, PageState.CommittedRemote}"

definition page_requires_journal :: "PageState \<Rightarrow> bool" where
  "page_requires_journal s \<longleftrightarrow>
     s \<in> {PageState.DirtyLocal, PageState.Staging, PageState.StagedRemote,
          PageState.CommittedRemote}"

definition session_is_terminal :: "SessionState \<Rightarrow> bool" where
  "session_is_terminal s \<longleftrightarrow>
     s \<in> {SessionState.Completed, SessionState.Violated, SessionState.Aborted}"

definition session_is_readable :: "SessionState \<Rightarrow> bool" where
  "session_is_readable s \<longleftrightarrow>
     s \<in> {SessionState.SealedReady, SessionState.Launching, SessionState.Active,
          SessionState.DrainingHelpers}"

definition update_is_terminal :: "UpdateState \<Rightarrow> bool" where
  "update_is_terminal s \<longleftrightarrow> s \<in> {UpdateState.Committed, UpdateState.RolledBack}"

definition backend_health_is_readable :: "BackendHealthState \<Rightarrow> bool" where
  "backend_health_is_readable s \<longleftrightarrow>
     s \<in> {BackendHealthState.Healthy, BackendHealthState.Degraded,
          BackendHealthState.RateLimited}"

section \<open>Events and transition errors\<close>

datatype RepositoryEvent =
    StartImport
  | BaseImported
  | BaseUploaded
  | BaseVerified
  | MountRequested
  | MountSucceeded
  | UnmountRequested
  | BeginAdmission
  | CapsuleSealed
  | BalancedLaunchRequested
  | SessionEnded
  | BeginUpdate
  | UpdateCommitted
  | RecoveryRequested
  | RecoverySucceededUnmounted
  | RecoverySucceededMounted
  | BackendDegraded
  | ConflictDetected
  | FatalError

fun repository_event_str :: "RepositoryEvent \<Rightarrow> string" where
  "repository_event_str RepositoryEvent.StartImport = ''start_import''"
| "repository_event_str RepositoryEvent.BaseImported = ''base_imported''"
| "repository_event_str RepositoryEvent.BaseUploaded = ''base_uploaded''"
| "repository_event_str RepositoryEvent.BaseVerified = ''base_verified''"
| "repository_event_str RepositoryEvent.MountRequested = ''mount_requested''"
| "repository_event_str RepositoryEvent.MountSucceeded = ''mount_succeeded''"
| "repository_event_str RepositoryEvent.UnmountRequested = ''unmount_requested''"
| "repository_event_str RepositoryEvent.BeginAdmission = ''begin_admission''"
| "repository_event_str RepositoryEvent.CapsuleSealed = ''capsule_sealed''"
| "repository_event_str RepositoryEvent.BalancedLaunchRequested = ''balanced_launch_requested''"
| "repository_event_str RepositoryEvent.SessionEnded = ''session_ended''"
| "repository_event_str RepositoryEvent.BeginUpdate = ''begin_update''"
| "repository_event_str RepositoryEvent.UpdateCommitted = ''update_committed''"
| "repository_event_str RepositoryEvent.RecoveryRequested = ''recovery_requested''"
| "repository_event_str RepositoryEvent.RecoverySucceededUnmounted = ''recovery_succeeded_unmounted''"
| "repository_event_str RepositoryEvent.RecoverySucceededMounted = ''recovery_succeeded_mounted''"
| "repository_event_str RepositoryEvent.BackendDegraded = ''backend_degraded''"
| "repository_event_str RepositoryEvent.ConflictDetected = ''conflict_detected''"
| "repository_event_str RepositoryEvent.FatalError = ''fatal_error''"

datatype PageEvent =
    FetchRequested
  | FetchVerified
  | SessionPinAdded
  | SessionPinReleased
  | EvictionStarted
  | EvictionCompleted
  | DirtyWrite
  | StagingStarted
  | StageVerified
  | CommitActivated
  | GenerationPromoted
  | VerificationFailed
  | QuarantineReleased

fun page_event_str :: "PageEvent \<Rightarrow> string" where
  "page_event_str PageEvent.FetchRequested = ''fetch_requested''"
| "page_event_str PageEvent.FetchVerified = ''fetch_verified''"
| "page_event_str PageEvent.SessionPinAdded = ''session_pin_added''"
| "page_event_str PageEvent.SessionPinReleased = ''session_pin_released''"
| "page_event_str PageEvent.EvictionStarted = ''eviction_started''"
| "page_event_str PageEvent.EvictionCompleted = ''eviction_completed''"
| "page_event_str PageEvent.DirtyWrite = ''dirty_write''"
| "page_event_str PageEvent.StagingStarted = ''staging_started''"
| "page_event_str PageEvent.StageVerified = ''stage_verified''"
| "page_event_str PageEvent.CommitActivated = ''commit_activated''"
| "page_event_str PageEvent.GenerationPromoted = ''generation_promoted''"
| "page_event_str PageEvent.VerificationFailed = ''verification_failed''"
| "page_event_str PageEvent.QuarantineReleased = ''quarantine_released''"

datatype SessionEvent =
    ReservationStarted
  | ReservationCompleted
  | MaterializationCompleted
  | VerificationPassed
  | LaunchRequested
  | LaunchObserved
  | HelpersDraining
  | ProcessesExited
  | SealViolated
  | AbortRequested

fun session_event_str :: "SessionEvent \<Rightarrow> string" where
  "session_event_str SessionEvent.ReservationStarted = ''reservation_started''"
| "session_event_str SessionEvent.ReservationCompleted = ''reservation_completed''"
| "session_event_str SessionEvent.MaterializationCompleted = ''materialization_completed''"
| "session_event_str SessionEvent.VerificationPassed = ''verification_passed''"
| "session_event_str SessionEvent.LaunchRequested = ''launch_requested''"
| "session_event_str SessionEvent.LaunchObserved = ''launch_observed''"
| "session_event_str SessionEvent.HelpersDraining = ''helpers_draining''"
| "session_event_str SessionEvent.ProcessesExited = ''processes_exited''"
| "session_event_str SessionEvent.SealViolated = ''seal_violated''"
| "session_event_str SessionEvent.AbortRequested = ''abort_requested''"

datatype UpdateEvent =
    NativeSnapshotStarted
  | ApplyStarted
  | DirtyPagesDetected
  | StagingStarted
  | ContentStaged
  | ManifestUploaded
  | CommitUploaded
  | CommitVerified
  | LocalActivationRequested
  | ActivationCommitted
  | RollbackRequested
  | RollbackCompleted
  | RecoveryNeeded

fun update_event_str :: "UpdateEvent \<Rightarrow> string" where
  "update_event_str UpdateEvent.NativeSnapshotStarted = ''native_snapshot_started''"
| "update_event_str UpdateEvent.ApplyStarted = ''apply_started''"
| "update_event_str UpdateEvent.DirtyPagesDetected = ''dirty_pages_detected''"
| "update_event_str UpdateEvent.StagingStarted = ''staging_started''"
| "update_event_str UpdateEvent.ContentStaged = ''content_staged''"
| "update_event_str UpdateEvent.ManifestUploaded = ''manifest_uploaded''"
| "update_event_str UpdateEvent.CommitUploaded = ''commit_uploaded''"
| "update_event_str UpdateEvent.CommitVerified = ''commit_verified''"
| "update_event_str UpdateEvent.LocalActivationRequested = ''local_activation_requested''"
| "update_event_str UpdateEvent.ActivationCommitted = ''activation_committed''"
| "update_event_str UpdateEvent.RollbackRequested = ''rollback_requested''"
| "update_event_str UpdateEvent.RollbackCompleted = ''rollback_completed''"
| "update_event_str UpdateEvent.RecoveryNeeded = ''recovery_needed''"

datatype BackendHealthEvent =
    ProbeSucceeded
  | ProbeDegraded
  | RateLimitObserved
  | AuthenticationFailed
  | NetworkOffline
  | ProviderUnavailable
  | ProbeRequested

fun backend_health_event_str :: "BackendHealthEvent \<Rightarrow> string" where
  "backend_health_event_str BackendHealthEvent.ProbeSucceeded = ''probe_succeeded''"
| "backend_health_event_str BackendHealthEvent.ProbeDegraded = ''probe_degraded''"
| "backend_health_event_str BackendHealthEvent.RateLimitObserved = ''rate_limit_observed''"
| "backend_health_event_str BackendHealthEvent.AuthenticationFailed = ''authentication_failed''"
| "backend_health_event_str BackendHealthEvent.NetworkOffline = ''network_offline''"
| "backend_health_event_str BackendHealthEvent.ProviderUnavailable = ''provider_unavailable''"
| "backend_health_event_str BackendHealthEvent.ProbeRequested = ''probe_requested''"

datatype StateMachine = Repository | Page | Session | Update | BackendHealth

record TransitionError =
  te_machine :: StateMachine
  te_from :: string
  te_event :: string

definition invalid :: "StateMachine \<Rightarrow> string \<Rightarrow> string \<Rightarrow> TransitionError" where
  "invalid machine from ev = \<lparr>te_machine = machine, te_from = from, te_event = ev\<rparr>"

section \<open>Transition tables\<close>

definition transition_repository :: "RepositoryState \<Rightarrow> RepositoryEvent \<Rightarrow> TransitionError + RepositoryState" where
  "transition_repository from ev =
     (if from = RepositoryState.Uninitialized \<and> ev = RepositoryEvent.StartImport
          then Inr RepositoryState.Importing
      else if from = RepositoryState.Importing \<and> ev = RepositoryEvent.BaseImported
          then Inr RepositoryState.UploadingBase
      else if from = RepositoryState.UploadingBase \<and> ev = RepositoryEvent.BaseUploaded
          then Inr RepositoryState.VerifyingBase
      else if from = RepositoryState.VerifyingBase \<and> ev = RepositoryEvent.BaseVerified
          then Inr RepositoryState.ReadyUnmounted
      else if from = RepositoryState.ReadyUnmounted \<and> ev = RepositoryEvent.MountRequested
          then Inr RepositoryState.Mounting
      else if from = RepositoryState.Mounting \<and> ev = RepositoryEvent.MountSucceeded
          then Inr RepositoryState.ReadyMounted
      else if from = RepositoryState.ReadyMounted \<and> ev = RepositoryEvent.UnmountRequested
          then Inr RepositoryState.ReadyUnmounted
      else if from = RepositoryState.ReadyMounted \<and> ev = RepositoryEvent.BeginAdmission
          then Inr RepositoryState.AdmittingSession
      else if from = RepositoryState.AdmittingSession \<and> ev = RepositoryEvent.CapsuleSealed
          then Inr RepositoryState.PlayingSealed
      else if from = RepositoryState.ReadyMounted \<and> ev = RepositoryEvent.BalancedLaunchRequested
          then Inr RepositoryState.PlayingBalanced
      else if from \<in> {RepositoryState.PlayingSealed, RepositoryState.PlayingBalanced} \<and>
          ev = RepositoryEvent.SessionEnded then Inr RepositoryState.ReadyMounted
      else if from \<in> {RepositoryState.ReadyUnmounted, RepositoryState.ReadyMounted} \<and>
          ev = RepositoryEvent.BeginUpdate then Inr RepositoryState.Updating
      else if from = RepositoryState.Updating \<and> ev = RepositoryEvent.UpdateCommitted
          then Inr RepositoryState.ReadyUnmounted
      else if from \<in> {RepositoryState.Importing, RepositoryState.UploadingBase, RepositoryState.VerifyingBase,
            RepositoryState.ReadyUnmounted, RepositoryState.Mounting, RepositoryState.ReadyMounted,
            RepositoryState.AdmittingSession, RepositoryState.PlayingSealed, RepositoryState.PlayingBalanced,
            RepositoryState.Updating, RepositoryState.Degraded, RepositoryState.Conflicted,
            RepositoryState.Error} \<and>
          ev = RepositoryEvent.RecoveryRequested then Inr RepositoryState.Recovering
      else if from = RepositoryState.Recovering \<and> ev = RepositoryEvent.RecoverySucceededUnmounted
          then Inr RepositoryState.ReadyUnmounted
      else if from = RepositoryState.Recovering \<and> ev = RepositoryEvent.RecoverySucceededMounted
          then Inr RepositoryState.ReadyMounted
      else if from \<in> {RepositoryState.ReadyUnmounted, RepositoryState.ReadyMounted, RepositoryState.AdmittingSession,
            RepositoryState.PlayingSealed, RepositoryState.PlayingBalanced} \<and>
          ev = RepositoryEvent.BackendDegraded then Inr RepositoryState.Degraded
      else if from \<in> {RepositoryState.Importing, RepositoryState.UploadingBase, RepositoryState.VerifyingBase,
            RepositoryState.ReadyUnmounted, RepositoryState.ReadyMounted, RepositoryState.Updating,
            RepositoryState.Recovering, RepositoryState.Degraded} \<and>
          ev = RepositoryEvent.ConflictDetected then Inr RepositoryState.Conflicted
      else if ev = RepositoryEvent.FatalError then Inr RepositoryState.Error
      else Inl (invalid Repository (repository_state_str from) (repository_event_str ev)))"


definition transition_page :: "PageState \<Rightarrow> PageEvent \<Rightarrow> TransitionError + PageState" where
  "transition_page from ev =
     (if from = PageState.Absent \<and> ev = PageEvent.FetchRequested then Inr PageState.Fetching
      else if from = PageState.Fetching \<and> ev = PageEvent.FetchVerified
          then Inr PageState.ResidentClean
      else if from = PageState.ResidentClean \<and> ev = PageEvent.SessionPinAdded
          then Inr PageState.SessionPinned
      else if from = PageState.SessionPinned \<and> ev = PageEvent.SessionPinReleased
          then Inr PageState.ResidentClean
      else if from = PageState.ResidentClean \<and> ev = PageEvent.EvictionStarted
          then Inr PageState.Evicting
      else if from = PageState.Evicting \<and> ev = PageEvent.EvictionCompleted
          then Inr PageState.Absent
      else if from = PageState.ResidentClean \<and> ev = PageEvent.DirtyWrite
          then Inr PageState.DirtyLocal
      else if from = PageState.DirtyLocal \<and> ev = PageEvent.StagingStarted
          then Inr PageState.Staging
      else if from = PageState.Staging \<and> ev = PageEvent.StageVerified
          then Inr PageState.StagedRemote
      else if from = PageState.StagedRemote \<and> ev = PageEvent.CommitActivated
          then Inr PageState.CommittedRemote
      else if from = PageState.CommittedRemote \<and> ev = PageEvent.GenerationPromoted
          then Inr PageState.ResidentClean
      else if from \<in> {PageState.Fetching, PageState.ResidentClean, PageState.SessionPinned,
            PageState.Evicting, PageState.DirtyLocal, PageState.Staging,
            PageState.StagedRemote, PageState.CommittedRemote} \<and>
          ev = PageEvent.VerificationFailed then Inr PageState.Quarantined
      else if from = PageState.Quarantined \<and> ev = PageEvent.QuarantineReleased
          then Inr PageState.Absent
      else Inl (invalid Page (page_state_str from) (page_event_str ev)))"


definition transition_session :: "SessionState \<Rightarrow> SessionEvent \<Rightarrow> TransitionError + SessionState" where
  "transition_session from ev =
     (if from = SessionState.Planned \<and> ev = SessionEvent.ReservationStarted
          then Inr SessionState.Reserving
      else if from = SessionState.Reserving \<and> ev = SessionEvent.ReservationCompleted
          then Inr SessionState.Materializing
      else if from = SessionState.Materializing \<and> ev = SessionEvent.MaterializationCompleted
          then Inr SessionState.Verifying
      else if from = SessionState.Verifying \<and> ev = SessionEvent.VerificationPassed
          then Inr SessionState.SealedReady
      else if from = SessionState.SealedReady \<and> ev = SessionEvent.LaunchRequested
          then Inr SessionState.Launching
      else if from = SessionState.Launching \<and> ev = SessionEvent.LaunchObserved
          then Inr SessionState.Active
      else if from = SessionState.Active \<and> ev = SessionEvent.HelpersDraining
          then Inr SessionState.DrainingHelpers
      else if from \<in> {SessionState.Active, SessionState.DrainingHelpers} \<and>
          ev = SessionEvent.ProcessesExited then Inr SessionState.Completed
      else if from \<in> {SessionState.SealedReady, SessionState.Launching, SessionState.Active,
            SessionState.DrainingHelpers} \<and>
          ev = SessionEvent.SealViolated then Inr SessionState.Violated
      else if from \<in> {SessionState.Planned, SessionState.Reserving, SessionState.Materializing,
            SessionState.Verifying, SessionState.SealedReady, SessionState.Launching,
            SessionState.Active, SessionState.DrainingHelpers} \<and>
          ev = SessionEvent.AbortRequested then Inr SessionState.Aborted
      else Inl (invalid Session (session_state_str from) (session_event_str ev)))"


definition transition_update :: "UpdateState \<Rightarrow> UpdateEvent \<Rightarrow> TransitionError + UpdateState" where
  "transition_update from ev =
     (if from \<in> {UpdateState.Created, UpdateState.NativeSnapshotInProgress} \<and>
          ev = UpdateEvent.NativeSnapshotStarted then Inr UpdateState.NativeSnapshotInProgress
      else if from \<in> {UpdateState.NativeSnapshotInProgress, UpdateState.Applying} \<and>
          ev = UpdateEvent.ApplyStarted then Inr UpdateState.Applying
      else if from \<in> {UpdateState.Applying, UpdateState.DirtyPagesPresent} \<and>
          ev = UpdateEvent.DirtyPagesDetected then Inr UpdateState.DirtyPagesPresent
      else if from \<in> {UpdateState.Applying, UpdateState.DirtyPagesPresent, UpdateState.Staging} \<and>
          ev = UpdateEvent.StagingStarted then Inr UpdateState.Staging
      else if from \<in> {UpdateState.Staging, UpdateState.AllContentStaged} \<and>
          ev = UpdateEvent.ContentStaged then Inr UpdateState.AllContentStaged
      else if from \<in> {UpdateState.AllContentStaged, UpdateState.ManifestUploaded} \<and>
          ev = UpdateEvent.ManifestUploaded then Inr UpdateState.ManifestUploaded
      else if from \<in> {UpdateState.ManifestUploaded, UpdateState.CommitUploaded} \<and>
          ev = UpdateEvent.CommitUploaded then Inr UpdateState.CommitUploaded
      else if from \<in> {UpdateState.CommitUploaded, UpdateState.CommitVerified} \<and>
          ev = UpdateEvent.CommitVerified then Inr UpdateState.CommitVerified
      else if from \<in> {UpdateState.CommitVerified, UpdateState.LocalActivationPending} \<and>
          ev = UpdateEvent.LocalActivationRequested then Inr UpdateState.LocalActivationPending
      else if from \<in> {UpdateState.LocalActivationPending, UpdateState.Committed} \<and>
          ev = UpdateEvent.ActivationCommitted then Inr UpdateState.Committed
      else if from \<in> {UpdateState.Created, UpdateState.NativeSnapshotInProgress, UpdateState.Applying,
            UpdateState.DirtyPagesPresent, UpdateState.Staging, UpdateState.AllContentStaged,
            UpdateState.ManifestUploaded, UpdateState.CommitUploaded, UpdateState.CommitVerified,
            UpdateState.LocalActivationPending, UpdateState.RecoveryRequired, UpdateState.RollbackPending} \<and>
          ev = UpdateEvent.RollbackRequested then Inr UpdateState.RollbackPending
      else if from \<in> {UpdateState.RollbackPending, UpdateState.RolledBack} \<and>
          ev = UpdateEvent.RollbackCompleted then Inr UpdateState.RolledBack
      else if from \<in> {UpdateState.Created, UpdateState.NativeSnapshotInProgress, UpdateState.Applying,
            UpdateState.DirtyPagesPresent, UpdateState.Staging, UpdateState.AllContentStaged,
            UpdateState.ManifestUploaded, UpdateState.CommitUploaded, UpdateState.CommitVerified,
            UpdateState.LocalActivationPending, UpdateState.RollbackPending, UpdateState.RecoveryRequired} \<and>
          ev = UpdateEvent.RecoveryNeeded then Inr UpdateState.RecoveryRequired
      else Inl (invalid Update (update_state_str from) (update_event_str ev)))"

fun transition_backend_health ::
  "BackendHealthState \<Rightarrow> BackendHealthEvent \<Rightarrow> TransitionError + BackendHealthState" where
  "transition_backend_health from BackendHealthEvent.ProbeSucceeded = Inr BackendHealthState.Healthy"
| "transition_backend_health from BackendHealthEvent.ProbeDegraded = Inr BackendHealthState.Degraded"
| "transition_backend_health from BackendHealthEvent.RateLimitObserved =
     Inr BackendHealthState.RateLimited"
| "transition_backend_health from BackendHealthEvent.AuthenticationFailed =
     Inr BackendHealthState.Unauthenticated"
| "transition_backend_health from BackendHealthEvent.NetworkOffline = Inr BackendHealthState.Offline"
| "transition_backend_health from BackendHealthEvent.ProviderUnavailable =
     Inr BackendHealthState.Unavailable"
| "transition_backend_health from BackendHealthEvent.ProbeRequested = Inr BackendHealthState.Unknown"

section \<open>Runs and the lifecycle interface\<close>

text \<open>A run applies events one after another and stops at the first rejected one.\<close>

fun run_machine :: "('s \<Rightarrow> 'e \<Rightarrow> 'err + 's) \<Rightarrow> 's \<Rightarrow> 'e list \<Rightarrow> 'err + 's" where
  "run_machine step s [] = Inr s"
| "run_machine step s (e # es) = bind_result (step s e) (\<lambda>t. run_machine step t es)"

locale lifecycle =
  fixes step :: "'s \<Rightarrow> 'e \<Rightarrow> 'err + 's"
    and init :: 's
    and holds :: "'s \<Rightarrow> 'e list \<Rightarrow> bool"
  assumes holds_init: "holds init []"
    and holds_step: "holds s h \<Longrightarrow> step s e = Inr t \<Longrightarrow> holds t (h @ [e])"
begin

lemma run_holds_from:
  "holds s h \<Longrightarrow> run_machine step s es = Inr t \<Longrightarrow> holds t (h @ es)"
proof (induction es arbitrary: s h)
  case Nil
  then show ?case by simp
next
  case (Cons e es)
  from Cons.prems(2) obtain u where u: "step s e = Inr u" "run_machine step u es = Inr t"
    by (auto simp: bind_result_eq_Inr)
  from Cons.IH [OF holds_step [OF Cons.prems(1) u(1)] u(2)] show ?case by simp
qed

lemma run_holds: "run_machine step init es = Inr t \<Longrightarrow> holds t es"
  using run_holds_from [OF holds_init] by simp

end

text \<open>Milestones: \<open>required s\<close> lists events that any run into \<open>s\<close> contains in this order.\<close>

locale ordered_lifecycle =
  fixes step :: "'s \<Rightarrow> 'e \<Rightarrow> 'err + 's"
    and init :: 's
    and required :: "'s \<Rightarrow> 'e list"
  assumes required_init: "required init = []"
    and required_step: "step s e = Inr t \<Longrightarrow> subseq (required t) (required s @ [e])"

sublocale ordered_lifecycle \<subseteq> lifecycle step init "\<lambda>s h. subseq (required s) h"
proof unfold_locales
  show "subseq (required init) []" by (simp add: required_init)
  fix s h e t
  assume "subseq (required s) h" and "step s e = Inr t"
  then have "subseq (required t) (required s @ [e])" "subseq (required s @ [e]) (h @ [e])"
    by (auto intro: required_step)
  then show "subseq (required t) (h @ [e])" by (rule subseq_order.trans)
qed

subsection \<open>Milestones of the update journal, the session and the page\<close>

definition update_path :: "UpdateEvent list" where
  "update_path =
     [UpdateEvent.NativeSnapshotStarted, UpdateEvent.ApplyStarted, UpdateEvent.StagingStarted,
      UpdateEvent.ContentStaged, UpdateEvent.ManifestUploaded, UpdateEvent.CommitUploaded,
      UpdateEvent.CommitVerified, UpdateEvent.LocalActivationRequested,
      UpdateEvent.ActivationCommitted]"

fun update_required :: "UpdateState \<Rightarrow> UpdateEvent list" where
  "update_required UpdateState.Created = []"
| "update_required UpdateState.NativeSnapshotInProgress = take 1 update_path"
| "update_required UpdateState.Applying = take 2 update_path"
| "update_required UpdateState.DirtyPagesPresent = take 2 update_path"
| "update_required UpdateState.Staging = take 3 update_path"
| "update_required UpdateState.AllContentStaged = take 4 update_path"
| "update_required UpdateState.ManifestUploaded = take 5 update_path"
| "update_required UpdateState.CommitUploaded = take 6 update_path"
| "update_required UpdateState.CommitVerified = take 7 update_path"
| "update_required UpdateState.LocalActivationPending = take 8 update_path"
| "update_required UpdateState.Committed = update_path"
| "update_required UpdateState.RollbackPending = [UpdateEvent.RollbackRequested]"
| "update_required UpdateState.RolledBack =
     [UpdateEvent.RollbackRequested, UpdateEvent.RollbackCompleted]"
| "update_required UpdateState.RecoveryRequired = [UpdateEvent.RecoveryNeeded]"

definition session_path :: "SessionEvent list" where
  "session_path =
     [SessionEvent.ReservationStarted, SessionEvent.ReservationCompleted,
      SessionEvent.MaterializationCompleted, SessionEvent.VerificationPassed,
      SessionEvent.LaunchRequested, SessionEvent.LaunchObserved]"

fun session_required :: "SessionState \<Rightarrow> SessionEvent list" where
  "session_required SessionState.Planned = []"
| "session_required SessionState.Reserving = take 1 session_path"
| "session_required SessionState.Materializing = take 2 session_path"
| "session_required SessionState.Verifying = take 3 session_path"
| "session_required SessionState.SealedReady = take 4 session_path"
| "session_required SessionState.Launching = take 5 session_path"
| "session_required SessionState.Active = session_path"
| "session_required SessionState.DrainingHelpers = session_path @ [SessionEvent.HelpersDraining]"
| "session_required SessionState.Completed = session_path @ [SessionEvent.ProcessesExited]"
| "session_required SessionState.Violated = take 4 session_path @ [SessionEvent.SealViolated]"
| "session_required SessionState.Aborted = [SessionEvent.AbortRequested]"

definition page_path :: "PageEvent list" where
  "page_path =
     [PageEvent.FetchRequested, PageEvent.FetchVerified, PageEvent.DirtyWrite,
      PageEvent.StagingStarted, PageEvent.StageVerified, PageEvent.CommitActivated]"

fun page_required :: "PageState \<Rightarrow> PageEvent list" where
  "page_required PageState.Absent = []"
| "page_required PageState.Fetching = take 1 page_path"
| "page_required PageState.ResidentClean = take 2 page_path"
| "page_required PageState.SessionPinned = take 2 page_path @ [PageEvent.SessionPinAdded]"
| "page_required PageState.Evicting = take 2 page_path @ [PageEvent.EvictionStarted]"
| "page_required PageState.DirtyLocal = take 3 page_path"
| "page_required PageState.Staging = take 4 page_path"
| "page_required PageState.StagedRemote = take 5 page_path"
| "page_required PageState.CommittedRemote = page_path"
| "page_required PageState.Quarantined = take 1 page_path @ [PageEvent.VerificationFailed]"

lemmas lifecycle_paths = update_path_def session_path_def page_path_def

interpretation update_journal: ordered_lifecycle transition_update UpdateState.Created update_required
  by unfold_locales (auto simp: lifecycle_paths transition_update_def split: if_splits)

interpretation session_life: ordered_lifecycle transition_session SessionState.Planned session_required
  by unfold_locales (auto simp: lifecycle_paths transition_session_def split: if_splits)

interpretation page_life: ordered_lifecycle transition_page PageState.Absent page_required
  by unfold_locales (auto simp: lifecycle_paths transition_page_def split: if_splits)

subsection \<open>The repository: readable only after verification or recovery\<close>

definition base_trusted :: "RepositoryState \<Rightarrow> RepositoryEvent list \<Rightarrow> bool" where
  "base_trusted s h \<longleftrightarrow>
     repository_is_readable s \<or> s \<in> {RepositoryState.ReadyUnmounted, RepositoryState.Mounting} \<longrightarrow>
     RepositoryEvent.BaseVerified \<in> set h \<or>
     RepositoryEvent.RecoverySucceededUnmounted \<in> set h \<or>
     RepositoryEvent.RecoverySucceededMounted \<in> set h"

interpretation repository_life:
  lifecycle transition_repository RepositoryState.Uninitialized base_trusted
  by unfold_locales
    (auto simp: base_trusted_def repository_is_readable_def transition_repository_def
      split: if_splits)

subsection \<open>Forward runs of the update journal\<close>

definition no_rollback :: "UpdateState \<Rightarrow> UpdateEvent list \<Rightarrow> bool" where
  "no_rollback s h \<longleftrightarrow>
     s \<notin> {UpdateState.RollbackPending, UpdateState.RolledBack, UpdateState.RecoveryRequired} \<longrightarrow>
     UpdateEvent.RollbackRequested \<notin> set h \<and> UpdateEvent.RecoveryNeeded \<notin> set h"

interpretation update_forward: lifecycle transition_update UpdateState.Created no_rollback
  by unfold_locales (auto simp: no_rollback_def transition_update_def split: if_splits)

lemma repository_state_str_inj: "repository_state_str s = repository_state_str t \<longleftrightarrow> s = t"
  by (cases s; cases t; simp)

lemma repository_event_str_inj: "repository_event_str s = repository_event_str t \<longleftrightarrow> s = t"
  by (cases s; cases t; simp)

lemma page_state_str_inj: "page_state_str s = page_state_str t \<longleftrightarrow> s = t"
  by (cases s; cases t; simp)

lemma page_event_str_inj: "page_event_str s = page_event_str t \<longleftrightarrow> s = t"
  by (cases s; cases t; simp)

lemma session_state_str_inj: "session_state_str s = session_state_str t \<longleftrightarrow> s = t"
  by (cases s; cases t; simp)

lemma session_event_str_inj: "session_event_str s = session_event_str t \<longleftrightarrow> s = t"
  by (cases s; cases t; simp)

lemma update_state_str_inj: "update_state_str s = update_state_str t \<longleftrightarrow> s = t"
  by (cases s; cases t; simp)

lemma update_event_str_inj: "update_event_str s = update_event_str t \<longleftrightarrow> s = t"
  by (cases s; cases t; simp)

lemmas wire_names_inj =
  repository_state_str_inj repository_event_str_inj page_state_str_inj page_event_str_inj
  session_state_str_inj session_event_str_inj update_state_str_inj update_event_str_inj

lemma rejections:
  "transition_repository rs re = Inl err \<Longrightarrow>
     err = invalid Repository (repository_state_str rs) (repository_event_str re)"
  "transition_page ps pe = Inl err \<Longrightarrow> err = invalid Page (page_state_str ps) (page_event_str pe)"
  "transition_session ss se = Inl err \<Longrightarrow>
     err = invalid Session (session_state_str ss) (session_event_str se)"
  "transition_update us ue = Inl err \<Longrightarrow>
     err = invalid Update (update_state_str us) (update_event_str ue)"
  by (auto simp: transition_repository_def transition_page_def transition_session_def
      transition_update_def split: if_splits)

section \<open>Properties\<close>

text \<open>C24: an update reaches Committed only through a run that contains, in this order, the native
  snapshot, apply, staging, content-staged, manifest-uploaded, commit-uploaded, commit-verified,
  activation-requested and activation-committed events, and in which no rollback was requested and
  no recovery was needed.\<close>

theorem update_commit_order:
  assumes "run_machine transition_update UpdateState.Created es = Inr UpdateState.Committed"
  shows "subseq update_path es \<and>
         UpdateEvent.RollbackRequested \<notin> set es \<and> UpdateEvent.RecoveryNeeded \<notin> set es"
  using update_journal.run_holds [OF assms] update_forward.run_holds [OF assms]
  by (simp add: no_rollback_def)

theorem update_commit_order_witness:
  "run_machine transition_update UpdateState.Created update_path = Inr UpdateState.Committed \<and>
   subseq update_path update_path"
proof -
  have "run_machine transition_update UpdateState.Created update_path = Inr UpdateState.Committed"
    by (simp add: update_path_def transition_update_def)
  then show ?thesis using update_commit_order [of update_path] by blast
qed

text \<open>C32: every update-journal event is idempotent at its target, so that crash recovery can
  replay it: when an event is accepted, applying it again is accepted and stays in the state
  reached. The two terminal states leave only to themselves.\<close>

theorem update_replay_idempotent:
  assumes "transition_update s e = Inr t"
  shows "transition_update t e = Inr t \<and> (update_is_terminal s \<longrightarrow> t = s)"
  using assms by (auto simp: transition_update_def update_is_terminal_def split: if_splits)

theorem update_replay_idempotent_witness:
  "transition_update UpdateState.Staging UpdateEvent.ContentStaged =
     Inr UpdateState.AllContentStaged \<and>
   transition_update UpdateState.AllContentStaged UpdateEvent.ContentStaged =
     Inr UpdateState.AllContentStaged"
  using update_replay_idempotent
    [of UpdateState.Staging UpdateEvent.ContentStaged UpdateState.AllContentStaged]
  by (simp add: transition_update_def)

text \<open>C31: a page is readable only after a fetch of it was requested and its bytes verified, in
  that order; its staged or committed states only after a dirty write was staged and the stage
  verified as well; and eviction never starts from a pinned page.\<close>

theorem page_readable_only_verified:
  assumes "run_machine transition_page PageState.Absent es = Inr s"
  shows "(page_is_readable s \<longrightarrow> subseq [PageEvent.FetchRequested, PageEvent.FetchVerified] es) \<and>
         (s = PageState.CommittedRemote \<longrightarrow> subseq page_path es) \<and>
         (s = PageState.SessionPinned \<longrightarrow> \<not> is_ok (transition_page s PageEvent.EvictionStarted))"
proof -
  have sub: "subseq (page_required s) es" using page_life.run_holds [OF assms] .
  have "subseq [PageEvent.FetchRequested, PageEvent.FetchVerified] (page_required s)"
    if "page_is_readable s"
    using that by (auto simp: page_is_readable_def page_path_def)
  with sub show ?thesis
    by (auto simp: transition_page_def intro: subseq_order.trans)
qed

theorem page_readable_only_verified_witness:
  "run_machine transition_page PageState.Absent
     [PageEvent.FetchRequested, PageEvent.FetchVerified, PageEvent.SessionPinAdded] =
     Inr PageState.SessionPinned \<and>
   \<not> is_ok (transition_page PageState.SessionPinned PageEvent.EvictionStarted)"
proof -
  have "run_machine transition_page PageState.Absent
     [PageEvent.FetchRequested, PageEvent.FetchVerified, PageEvent.SessionPinAdded] =
     Inr PageState.SessionPinned"
    by (simp add: transition_page_def)
  with page_readable_only_verified [OF this] show ?thesis by blast
qed

text \<open>A session is readable only after reservation, materialization and verification, in this
  order; it completes only after a launch was requested and observed; and a terminal session
  accepts no further event.\<close>

theorem session_readable_only_sealed:
  assumes "run_machine transition_session SessionState.Planned es = Inr s"
  shows "(session_is_readable s \<longrightarrow> subseq (take 4 session_path) es) \<and>
         (s = SessionState.Completed \<longrightarrow> subseq session_path es) \<and>
         (session_is_terminal s \<longrightarrow> (\<forall>e. \<not> is_ok (transition_session s e)))"
proof -
  have sub: "subseq (session_required s) es" using session_life.run_holds [OF assms] .
  have "subseq (take 4 session_path) (session_required s)" if "session_is_readable s"
    using that by (auto simp: session_is_readable_def session_path_def)
  moreover have "subseq session_path (session_required SessionState.Completed)"
    by (simp add: session_path_def)
  ultimately show ?thesis using sub
    by (auto simp: session_is_terminal_def transition_session_def intro: subseq_order.trans)
qed

theorem session_readable_only_sealed_witness:
  "run_machine transition_session SessionState.Planned
     (session_path @ [SessionEvent.ProcessesExited]) = Inr SessionState.Completed \<and>
   \<not> is_ok (transition_session SessionState.Completed SessionEvent.AbortRequested)"
proof -
  have "run_machine transition_session SessionState.Planned
     (session_path @ [SessionEvent.ProcessesExited]) = Inr SessionState.Completed"
    by (simp add: session_path_def transition_session_def)
  with session_readable_only_sealed [OF this] show ?thesis
    by (simp add: session_is_terminal_def)
qed

text \<open>A repository is readable only after its base was verified or a recovery succeeded, and
  the terminal states Conflicted and Error are left only by a recovery request (a fatal error
  keeps or enters Error).\<close>

theorem repository_readable_only_trusted:
  assumes "run_machine transition_repository RepositoryState.Uninitialized es = Inr s"
  shows "(repository_is_readable s \<longrightarrow>
            RepositoryEvent.BaseVerified \<in> set es \<or>
            RepositoryEvent.RecoverySucceededUnmounted \<in> set es \<or>
            RepositoryEvent.RecoverySucceededMounted \<in> set es) \<and>
         (repository_is_terminal s \<longrightarrow>
            (\<forall>e t. transition_repository s e = Inr t \<longrightarrow>
               (e = RepositoryEvent.RecoveryRequested \<and> t = RepositoryState.Recovering) \<or>
               (e = RepositoryEvent.FatalError \<and> t = RepositoryState.Error)))"
  using repository_life.run_holds [OF assms]
  by (auto simp: base_trusted_def repository_is_terminal_def transition_repository_def
      split: if_splits)

theorem repository_readable_only_trusted_witness:
  "run_machine transition_repository RepositoryState.Uninitialized
     [RepositoryEvent.StartImport, RepositoryEvent.BaseImported, RepositoryEvent.BaseUploaded,
      RepositoryEvent.BaseVerified, RepositoryEvent.MountRequested,
      RepositoryEvent.MountSucceeded] = Inr RepositoryState.ReadyMounted \<and>
   repository_is_readable RepositoryState.ReadyMounted"
proof -
  let ?es = "[RepositoryEvent.StartImport, RepositoryEvent.BaseImported,
      RepositoryEvent.BaseUploaded, RepositoryEvent.BaseVerified, RepositoryEvent.MountRequested,
      RepositoryEvent.MountSucceeded]"
  have r: "run_machine transition_repository RepositoryState.Uninitialized ?es =
      Inr RepositoryState.ReadyMounted"
    by (simp add: transition_repository_def)
  with repository_readable_only_trusted [OF r] show ?thesis
    by (simp add: repository_is_readable_def)
qed

text \<open>A rejected transition identifies its cause: two rejections of the same machine carry
  the same error only if both the state and the event are the same, and rejections of different
  machines never carry the same error.\<close>

theorem rejection_identifies_cause:
  shows "(transition_repository rs re = Inl err \<and> transition_repository rs' re' = Inl err \<longrightarrow>
            rs = rs' \<and> re = re') \<and>
         (transition_page ps pe = Inl err \<and> transition_page ps' pe' = Inl err \<longrightarrow>
            ps = ps' \<and> pe = pe') \<and>
         (transition_session ss se = Inl err \<and> transition_session ss' se' = Inl err \<longrightarrow>
            ss = ss' \<and> se = se') \<and>
         (transition_update us ue = Inl err \<and> transition_update us' ue' = Inl err \<longrightarrow>
            us = us' \<and> ue = ue') \<and>
         \<not> (transition_page ps pe = Inl err \<and> transition_update us ue = Inl err) \<and>
         \<not> (transition_session ss se = Inl err \<and> transition_repository rs re = Inl err)"
  by (auto dest!: rejections simp: invalid_def wire_names_inj)

theorem rejection_identifies_cause_witness:
  "transition_page PageState.SessionPinned PageEvent.EvictionStarted =
     Inl \<lparr>te_machine = Page, te_from = ''session_pinned'', te_event = ''eviction_started''\<rparr> \<and>
   transition_page PageState.Absent PageEvent.EvictionStarted \<noteq>
     Inl \<lparr>te_machine = Page, te_from = ''session_pinned'', te_event = ''eviction_started''\<rparr>"
proof -
  have "transition_page PageState.SessionPinned PageEvent.EvictionStarted =
     Inl \<lparr>te_machine = Page, te_from = ''session_pinned'', te_event = ''eviction_started''\<rparr>"
    by (simp add: transition_page_def invalid_def)
  with rejection_identifies_cause [of _ _ _ _ _ PageState.SessionPinned PageEvent.EvictionStarted
      PageState.Absent PageEvent.EvictionStarted]
  show ?thesis by blast
qed

text \<open>The predicate \<open>is_evictable\<close> and the table disagree: two states it calls evictable reject
  the start of an eviction.\<close>

lemma page_evictable_mismatch:
  "page_is_evictable s \<and> \<not> is_ok (transition_page s PageEvent.EvictionStarted) \<longleftrightarrow>
   s = PageState.StagedRemote \<or> s = PageState.CommittedRemote"
  by (cases s) (simp_all add: page_is_evictable_def transition_page_def)

end
