(* ===== verification/Extent_Map.thy ===== *)
theory Extent_Map
  imports Prelude
begin

text \<open>
  The per-inode byte-extent map of \<open>crates/mirage-engine/src/extent_map.rs\<close>: base, dirty and
  zero intervals, spliced by writes, clipped by truncation, resolved into slices by reads, and
  serialised to the durable \<open>ByteExtent\<close> rows of \<open>crates/mirage-db/src/extent.rs\<close>.

  A map denotes a file: for every byte position, where that byte comes from. The interface
  \<open>byte_file\<close> states the contract of the operations over this denotation, as plain list
  operations on the file's contents; the last section interprets it on the extent map. The
  invariant keeps intervals non-empty, sorted, pairwise disjoint, inside \<open>u64\<close> and inside the
  end of file; under it none of the unchecked additions of the source overflows.
\<close>

section \<open>Data\<close>

datatype ExtentSource =
    SrcBase page_hash u64
  | SrcDirty id16 u64
  | SrcZero

record Interval =
  iv_start :: u64
  iv_length :: u64
  iv_source :: ExtentSource

datatype ExtentSlice =
    SliceBase u64 u64 page_hash u64
  | SliceDirty u64 u64 id16 u64
  | SliceZero u64 u64

fun slice_start :: "ExtentSlice \<Rightarrow> u64" where
  "slice_start (SliceBase s _ _ _) = s"
| "slice_start (SliceDirty s _ _ _) = s"
| "slice_start (SliceZero s _) = s"

fun slice_len :: "ExtentSlice \<Rightarrow> u64" where
  "slice_len (SliceBase _ l _ _) = l"
| "slice_len (SliceDirty _ l _ _) = l"
| "slice_len (SliceZero _ l) = l"

record ExtentMap =
  intervals :: "Interval list"
  version :: int
  file_size :: u64
  historical :: bool

definition extent_map_default :: ExtentMap where
  "extent_map_default = \<lparr>intervals = [], version = 0, file_size = 0, historical = False\<rparr>"

datatype ExtentKind = KindBase | KindDirty | KindZero

record ByteExtent =
  extent_id :: id16
  volume_id :: id16
  inode :: id16
  be_version :: int
  be_start :: u64
  be_length :: u64
  be_kind :: ExtentKind
  be_page_hash :: "page_hash option"
  be_base_offset :: "u64 option"
  be_payload_id :: "id16 option"
  be_payload_offset :: "u64 option"
  created_ns :: int

definition byte_extent_validate :: "ByteExtent \<Rightarrow> unit result" where
  "byte_extent_validate x =
     (if be_length x = 0 then Inl InvalidArgument
      else if (case be_kind x of
                 KindBase \<Rightarrow> be_page_hash x \<noteq> None \<and> be_base_offset x \<noteq> None \<and>
                   be_payload_id x = None \<and> be_payload_offset x = None
               | KindDirty \<Rightarrow> be_payload_id x \<noteq> None \<and> be_payload_offset x \<noteq> None \<and>
                   be_page_hash x = None \<and> be_base_offset x = None
               | KindZero \<Rightarrow> be_page_hash x = None \<and> be_base_offset x = None \<and>
                   be_payload_id x = None \<and> be_payload_offset x = None)
      then Inr () else Inl InvalidArgument)"

section \<open>Operations\<close>

text \<open>\<open>interval.start + interval.length\<close>, unchecked in the source.\<close>

definition iv_end :: "Interval \<Rightarrow> u64" where
  "iv_end iv = wadd64 (iv_start iv) (iv_length iv)"

fun unwrap_or :: "'a option \<Rightarrow> 'a \<Rightarrow> 'a" where
  "unwrap_or None d = d"
| "unwrap_or (Some x) d = x"

definition interval_of_extent :: "ByteExtent \<Rightarrow> Interval" where
  "interval_of_extent x =
     \<lparr>iv_start = be_start x, iv_length = be_length x,
      iv_source = (case be_kind x of
          KindBase \<Rightarrow> SrcBase (unwrap_or (be_page_hash x) 0) (unwrap_or (be_base_offset x) 0)
        | KindDirty \<Rightarrow> SrcDirty (unwrap_or (be_payload_id x) 0) (unwrap_or (be_payload_offset x) 0)
        | KindZero \<Rightarrow> SrcZero)\<rparr>"

fun replay_loop :: "ExtentMap \<Rightarrow> ByteExtent list \<Rightarrow> ExtentMap" where
  "replay_loop m [] = m"
| "replay_loop m (x # xs) = replay_loop
     (m\<lparr>version := max (version m) (be_version x),
        file_size := max (file_size m) (saturating_add64 (be_start x) (be_length x)),
        intervals := intervals m @ [interval_of_extent x]\<rparr>) xs"

definition replay :: "ByteExtent list \<Rightarrow> ExtentMap" where
  "replay extents =
     (let m = replay_loop extent_map_default extents
      in m\<lparr>intervals := sort_key iv_start (intervals m), historical := True\<rparr>)"

definition set_head :: "ExtentMap \<Rightarrow> int \<Rightarrow> u64 \<Rightarrow> ExtentMap" where
  "set_head m ver eof = m\<lparr>version := max (version m) ver, file_size := eof, historical := True\<rparr>"

definition is_plain_base :: "ExtentMap \<Rightarrow> bool" where
  "is_plain_base m =
     (if version m \<noteq> 0 \<or> historical m then False
      else (case intervals m of
              [] \<Rightarrow> True
            | [iv] \<Rightarrow> iv_start iv = 0 \<and> iv_length iv = file_size m \<and>
                (case iv_source iv of SrcBase _ off \<Rightarrow> off = 0 | _ \<Rightarrow> False)
            | _ \<Rightarrow> False))"

definition seed_base :: "ExtentMap \<Rightarrow> u64 \<Rightarrow> page_hash \<Rightarrow> ExtentMap" where
  "seed_base m len base =
     (if len = 0 \<or> intervals m \<noteq> [] then m
      else m\<lparr>intervals := [\<lparr>iv_start = 0, iv_length = len, iv_source = SrcBase base 0\<rparr>],
             file_size := max (file_size m) len\<rparr>)"

text \<open>The source of the tail that survives a splice, advanced by the clipped length.\<close>

fun tail_source :: "ExtentSource \<Rightarrow> u64 \<Rightarrow> ExtentSource" where
  "tail_source (SrcBase h off) clipped = SrcBase h (wadd64 off clipped)"
| "tail_source (SrcDirty p off) clipped = SrcDirty p (wadd64 off clipped)"
| "tail_source SrcZero clipped = SrcZero"

definition splice_existing :: "u64 \<Rightarrow> u64 \<Rightarrow> Interval \<Rightarrow> Interval list" where
  "splice_existing start e ex =
     (if iv_end ex \<le> start \<or> iv_start ex \<ge> e then [ex]
      else (if iv_start ex < start
            then [\<lparr>iv_start = iv_start ex, iv_length = start - iv_start ex,
                   iv_source = iv_source ex\<rparr>] else []) @
           (if iv_end ex > e
            then [\<lparr>iv_start = e, iv_length = iv_end ex - e,
                   iv_source = tail_source (iv_source ex) (e - iv_start ex)\<rparr>] else []))"

definition splice_intervals :: "u64 \<Rightarrow> u64 \<Rightarrow> Interval \<Rightarrow> Interval list \<Rightarrow> Interval list" where
  "splice_intervals start e iv ivs = sort_key iv_start (concat (map (splice_existing start e) ivs) @ [iv])"

definition coalescible :: "Interval \<Rightarrow> Interval \<Rightarrow> bool" where
  "coalescible l r =
     (case (iv_source l, iv_source r) of
        (SrcDirty left_id left_off, SrcDirty right_id right_off) \<Rightarrow>
          left_id = right_id \<and> wadd64 (iv_start l) (iv_length l) = iv_start r \<and>
          wadd64 left_off (iv_length l) = right_off
      | _ \<Rightarrow> False)"

text \<open>One round of the \<open>loop\<close>: merge the first adjacent pair that can merge.\<close>

fun coalesce_once :: "Interval list \<Rightarrow> Interval list option" where
  "coalesce_once (l # r # rest) =
     (if coalescible l r
      then Some (l\<lparr>iv_length := wadd64 (iv_length l) (iv_length r)\<rparr> # rest)
      else map_option (Cons l) (coalesce_once (r # rest)))"
| "coalesce_once _ = None"

lemma coalesce_once_length: "coalesce_once ivs = Some ivs' \<Longrightarrow> length ivs = Suc (length ivs')"
  by (induction ivs arbitrary: ivs' rule: coalesce_once.induct) (auto split: if_splits)

function coalesce :: "Interval list \<Rightarrow> Interval list" where
  "coalesce ivs = (case coalesce_once ivs of None \<Rightarrow> ivs | Some ivs' \<Rightarrow> coalesce ivs')"
  by pat_completeness auto
termination
  by (relation "measure length") (auto dest: coalesce_once_length)

declare coalesce.simps [simp del]

definition write_at :: "ExtentMap \<Rightarrow> u64 \<Rightarrow> u64 \<Rightarrow> id16 \<Rightarrow> u64 \<Rightarrow> ExtentMap result" where
  "write_at m start len payload_id payload_offset =
     (if len = 0 then Inr m
      else bind_result (ok_or (checked_add64 start len) InvalidArgument) (\<lambda>e.
        Inr (m\<lparr>intervals := coalesce (splice_intervals start e
                 \<lparr>iv_start = start, iv_length = len,
                  iv_source = SrcDirty payload_id payload_offset\<rparr> (intervals m)),
               file_size := max (file_size m) e,
               version := i64_wrap (version m + 1)\<rparr>)))"

definition write_payload :: "ExtentMap \<Rightarrow> u64 \<Rightarrow> u64 \<Rightarrow> id16 \<Rightarrow> ExtentMap result" where
  "write_payload m start len payload_id = write_at m start len payload_id 0"

fun truncate_loop :: "u64 \<Rightarrow> Interval list \<Rightarrow> Interval list" where
  "truncate_loop len [] = []"
| "truncate_loop len (iv # ivs) =
     (if iv_start iv \<ge> len then truncate_loop len ivs
      else (if iv_end iv > len then iv\<lparr>iv_length := len - iv_start iv\<rparr> else iv)
             # truncate_loop len ivs)"

definition truncate :: "ExtentMap \<Rightarrow> u64 \<Rightarrow> ExtentMap result" where
  "truncate m len =
     Inr (m\<lparr>intervals := truncate_loop len (intervals m), file_size := len,
            version := i64_wrap (version m + 1)\<rparr>)"

fun slice_of_source :: "ExtentSource \<Rightarrow> u64 \<Rightarrow> u64 \<Rightarrow> u64 \<Rightarrow> ExtentSlice" where
  "slice_of_source (SrcBase h off) s l inside = SliceBase s l h (wadd64 off inside)"
| "slice_of_source (SrcDirty p off) s l inside = SliceDirty s l p (wadd64 off inside)"
| "slice_of_source SrcZero s l inside = SliceZero s l"

text \<open>The loop of \<open>read\<close> over the intervals: the slices it pushes and the final cursor.\<close>

fun read_loop :: "Interval list \<Rightarrow> u64 \<Rightarrow> u64 \<Rightarrow> ExtentSlice list \<times> u64" where
  "read_loop [] cursor e = ([], cursor)"
| "read_loop (iv # ivs) cursor e =
     (if iv_end iv \<le> cursor then read_loop ivs cursor e
      else
        let gap_end = min (iv_start iv) e;
            gap = (if iv_start iv > cursor then [SliceZero cursor (gap_end - cursor)] else []);
            c = (if iv_start iv > cursor then gap_end else cursor)
        in if iv_start iv \<ge> e \<or> c \<ge> e then (gap, c)
           else
             let overlap_start = max c (iv_start iv);
                 overlap_end = min e (iv_end iv)
             in if overlap_end \<le> overlap_start
                then (let (rest, c') = read_loop ivs c e in (gap @ rest, c'))
                else
                  let slice = slice_of_source (iv_source iv) overlap_start
                        (overlap_end - overlap_start) (overlap_start - iv_start iv)
                  in if overlap_end \<ge> e then (gap @ [slice], overlap_end)
                     else (let (rest, c') = read_loop ivs overlap_end e
                           in (gap @ slice # rest, c')))"

definition read :: "ExtentMap \<Rightarrow> u64 \<Rightarrow> u64 \<Rightarrow> ExtentSlice list result" where
  "read m start len =
     (if len = 0 \<or> start \<ge> file_size m then Inr []
      else bind_result (ok_or (checked_add64 start len) InvalidArgument) (\<lambda>e0.
        let e = min e0 (file_size m);
            (slices, cursor) = read_loop (intervals m) start e
        in Inr (if cursor < e then slices @ [SliceZero cursor (e - cursor)] else slices)))"

text \<open>Serialisation: holes become explicit zero intervals.\<close>

fun fill_loop :: "Interval list \<Rightarrow> u64 \<Rightarrow> Interval list \<times> u64" where
  "fill_loop [] cursor = ([], cursor)"
| "fill_loop (iv # ivs) cursor =
     (let hole = (if iv_start iv > cursor
                  then [\<lparr>iv_start = cursor, iv_length = iv_start iv - cursor,
                         iv_source = SrcZero\<rparr>] else []);
          (rest, c) = fill_loop ivs (max cursor (iv_end iv))
      in (hole @ iv # rest, c))"

definition filled_intervals :: "ExtentMap \<Rightarrow> Interval list" where
  "filled_intervals m =
     (let (ivs, cursor) = fill_loop (intervals m) 0
      in if cursor < file_size m
         then ivs @ [\<lparr>iv_start = cursor, iv_length = file_size m - cursor, iv_source = SrcZero\<rparr>]
         else ivs)"

definition extent_of_interval ::
  "id16 \<Rightarrow> id16 \<Rightarrow> int \<Rightarrow> int \<Rightarrow> id16 \<Rightarrow> Interval \<Rightarrow> ByteExtent" where
  "extent_of_interval vol ino ver now xid iv =
     \<lparr>extent_id = xid, volume_id = vol, inode = ino, be_version = ver,
      be_start = iv_start iv, be_length = iv_length iv,
      be_kind = (case iv_source iv of SrcBase _ _ \<Rightarrow> KindBase | SrcDirty _ _ \<Rightarrow> KindDirty
                 | SrcZero \<Rightarrow> KindZero),
      be_page_hash = (case iv_source iv of SrcBase h _ \<Rightarrow> Some h | _ \<Rightarrow> None),
      be_base_offset = (case iv_source iv of SrcBase _ off \<Rightarrow> Some off | _ \<Rightarrow> None),
      be_payload_id = (case iv_source iv of SrcDirty p _ \<Rightarrow> Some p | _ \<Rightarrow> None),
      be_payload_offset = (case iv_source iv of SrcDirty _ off \<Rightarrow> Some off | _ \<Rightarrow> None),
      created_ns = now\<rparr>"

text \<open>\<open>next_id k\<close> is the identifier the \<open>k\<close>-th call of the generator closure returns.\<close>

definition to_extents ::
  "ExtentMap \<Rightarrow> id16 \<Rightarrow> id16 \<Rightarrow> int \<Rightarrow> int \<Rightarrow> (nat \<Rightarrow> id16) \<Rightarrow> ByteExtent list" where
  "to_extents m vol ino ver now next_id =
     (let ivs = filled_intervals m
      in map (\<lambda>(k, iv). extent_of_interval vol ino ver now (next_id k) iv)
           (zip [0..<length ivs] ivs))"

section \<open>Denotation\<close>

datatype ByteOrigin = FromBase page_hash nat | FromPayload id16 nat | Zeros

fun origin_at :: "ExtentSource \<Rightarrow> nat \<Rightarrow> ByteOrigin" where
  "origin_at (SrcBase h off) k = FromBase h (off + k)"
| "origin_at (SrcDirty p off) k = FromPayload p (off + k)"
| "origin_at SrcZero k = Zeros"

definition covers :: "Interval \<Rightarrow> nat \<Rightarrow> bool" where
  "covers iv x \<longleftrightarrow> iv_start iv \<le> x \<and> x < iv_start iv + iv_length iv"

fun denote :: "Interval list \<Rightarrow> nat \<Rightarrow> ByteOrigin" where
  "denote [] x = Zeros"
| "denote (iv # ivs) x =
     (if covers iv x then origin_at (iv_source iv) (x - iv_start iv) else denote ivs x)"

definition iv_disjoint :: "Interval \<Rightarrow> Interval \<Rightarrow> bool" where
  "iv_disjoint a b \<longleftrightarrow>
     iv_start a + iv_length a \<le> iv_start b \<or> iv_start b + iv_length b \<le> iv_start a"

fun source_room :: "ExtentSource \<Rightarrow> nat \<Rightarrow> bool" where
  "source_room (SrcBase _ off) len \<longleftrightarrow> off + len \<le> u64_max"
| "source_room (SrcDirty _ off) len \<longleftrightarrow> off + len \<le> u64_max"
| "source_room SrcZero len \<longleftrightarrow> True"

definition interval_wf :: "Interval \<Rightarrow> bool" where
  "interval_wf iv \<longleftrightarrow>
     0 < iv_length iv \<and> iv_start iv + iv_length iv \<le> u64_max \<and>
     source_room (iv_source iv) (iv_length iv)"

definition intervals_wf :: "Interval list \<Rightarrow> bool" where
  "intervals_wf ivs \<longleftrightarrow>
     list_all interval_wf ivs \<and> sorted (map iv_start ivs) \<and> sorted_wrt iv_disjoint ivs"

definition extent_inv :: "ExtentMap \<Rightarrow> bool" where
  "extent_inv m \<longleftrightarrow>
     intervals_wf (intervals m) \<and> file_size m \<le> u64_max \<and>
     list_all (\<lambda>iv. iv_start iv + iv_length iv \<le> file_size m) (intervals m)"

definition contents :: "ExtentMap \<Rightarrow> ByteOrigin list" where
  "contents m = map (denote (intervals m)) [0..<file_size m]"

lemma iv_disjoint_sym: "iv_disjoint a b \<Longrightarrow> iv_disjoint b a"
  by (auto simp: iv_disjoint_def)

lemma iv_end_wf [simp]: "interval_wf iv \<Longrightarrow> iv_end iv = iv_start iv + iv_length iv"
  by (simp add: iv_end_def interval_wf_def wadd64_exact)

lemma denote_member:
  assumes "sorted_wrt iv_disjoint ivs" "iv \<in> set ivs" "covers iv x"
  shows "denote ivs x = origin_at (iv_source iv) (x - iv_start iv)"
  using assms
proof (induction ivs)
  case Nil
  then show ?case by simp
next
  case (Cons a ivs)
  show ?case
  proof (cases "iv \<in> set ivs")
    case True
    with Cons.prems have "iv_disjoint a iv" by simp
    with Cons.prems(3) have "\<not> covers a x" by (auto simp: covers_def iv_disjoint_def)
    with Cons True show ?thesis by simp
  next
    case False
    with Cons.prems show ?thesis by simp
  qed
qed

lemma denote_uncovered: "(\<And>iv. iv \<in> set ivs \<Longrightarrow> \<not> covers iv x) \<Longrightarrow> denote ivs x = Zeros"
  by (induction ivs) auto

lemma denote_cases:
  obtains iv where "iv \<in> set ivs" "covers iv x"
  | "\<And>iv. iv \<in> set ivs \<Longrightarrow> \<not> covers iv x"
  by blast

section \<open>Splicing\<close>

text \<open>What one existing interval leaves behind: well-formed disjoint pieces inside it, outside
  the written range, that cover everything else of it with the same origins.\<close>

definition piece_of :: "u64 \<Rightarrow> u64 \<Rightarrow> Interval \<Rightarrow> Interval \<Rightarrow> bool" where
  "piece_of start e ex p \<longleftrightarrow>
     interval_wf p \<and> iv_start ex \<le> iv_start p \<and>
     iv_start p + iv_length p \<le> iv_start ex + iv_length ex \<and>
     (iv_start p + iv_length p \<le> start \<or> e \<le> iv_start p) \<and>
     (\<forall>x. covers p x \<longrightarrow>
        origin_at (iv_source p) (x - iv_start p) = origin_at (iv_source ex) (x - iv_start ex))"

lemma tail_source_origin:
  assumes "source_room src len" "clipped \<le> len"
  shows "origin_at (tail_source src clipped) k = origin_at src (clipped + k)"
    and "source_room (tail_source src clipped) (len - clipped)"
  using assms by (cases src; simp add: wadd64_exact)+

lemma source_room_mono: "source_room src len \<Longrightarrow> len' \<le> len \<Longrightarrow> source_room src len'"
  by (cases src) auto

lemma splice_existing_pieces:
  assumes "interval_wf ex" "start < e"
  shows "list_all (piece_of start e ex) (splice_existing start e ex)"
    and "sorted_wrt iv_disjoint (splice_existing start e ex)"
    and "covers ex x \<Longrightarrow> \<not> (start \<le> x \<and> x < e) \<Longrightarrow>
           \<exists>p\<in>set (splice_existing start e ex). covers p x"
proof -
  have room: "source_room (iv_source ex) (iv_length ex)" and pos: "0 < iv_length ex"
    and bound: "iv_start ex + iv_length ex \<le> u64_max"
    using assms(1) by (simp_all add: interval_wf_def)
  have head: "piece_of start e ex \<lparr>iv_start = iv_start ex, iv_length = start - iv_start ex,
      iv_source = iv_source ex\<rparr>" if "iv_start ex < start" "start < iv_start ex + iv_length ex"
    using that bound source_room_mono [OF room]
    by (auto simp: piece_of_def interval_wf_def covers_def)
  have tail: "piece_of start e ex \<lparr>iv_start = e, iv_length = iv_start ex + iv_length ex - e,
      iv_source = tail_source (iv_source ex) (e - iv_start ex)\<rparr>"
    if "iv_start ex < e" "e < iv_start ex + iv_length ex"
  proof -
    have c: "e - iv_start ex \<le> iv_length ex" using that by simp
    have l: "iv_length ex - (e - iv_start ex) = iv_start ex + iv_length ex - e" using that by simp
    show ?thesis
      using that bound tail_source_origin [OF room c]
      by (auto simp: piece_of_def interval_wf_def covers_def l)
  qed
  show "list_all (piece_of start e ex) (splice_existing start e ex)"
    using assms head tail
    by (auto simp: splice_existing_def) (auto simp: piece_of_def)
  show "sorted_wrt iv_disjoint (splice_existing start e ex)"
    using assms by (auto simp: splice_existing_def iv_disjoint_def)
  show "\<exists>p\<in>set (splice_existing start e ex). covers p x"
    if "covers ex x" "\<not> (start \<le> x \<and> x < e)"
    using that assms by (auto simp: splice_existing_def covers_def)
qed

lemma pieces_disjoint:
  assumes "list_all interval_wf ivs" "sorted_wrt iv_disjoint ivs" "start < e"
  shows "sorted_wrt iv_disjoint (concat (map (splice_existing start e) ivs))"
  using assms(1,2)
proof (induction ivs)
  case Nil
  then show ?case by simp
next
  case (Cons ex ivs)
  have "iv_disjoint p q" if p: "p \<in> set (splice_existing start e ex)"
    and q: "q \<in> set (splice_existing start e ex')" "ex' \<in> set ivs" for p q ex'
  proof -
    have "interval_wf ex'" "iv_disjoint ex ex'" using Cons.prems q by (auto simp: list_all_iff)
    then show ?thesis
      using p q splice_existing_pieces(1) [OF _ assms(3), of ex]
        splice_existing_pieces(1) [OF _ assms(3), of ex'] Cons.prems(1)
      by (fastforce simp: list_all_iff piece_of_def iv_disjoint_def)
  qed
  then show ?case
    using Cons splice_existing_pieces(2) [OF _ assms(3), of ex]
    by (auto simp: sorted_wrt_append)
qed

lemma splice_correct:
  assumes wf: "intervals_wf ivs" and new: "interval_wf new"
    and range: "iv_start new = start" "start + iv_length new = e"
  shows "intervals_wf (splice_intervals start e new ivs)"
    and "denote (splice_intervals start e new ivs) x =
         (if start \<le> x \<and> x < e then origin_at (iv_source new) (x - start) else denote ivs x)"
    and "iv \<in> set (splice_intervals start e new ivs) \<Longrightarrow>
         iv = new \<or> (\<exists>ex\<in>set ivs. piece_of start e ex iv)"
proof -
  let ?parts = "concat (map (splice_existing start e) ivs)"
  have se: "start < e" using new range by (auto simp: interval_wf_def)
  have wfl: "list_all interval_wf ivs" and dis: "sorted_wrt iv_disjoint ivs"
    using wf by (simp_all add: intervals_wf_def)
  have piece: "\<exists>ex\<in>set ivs. piece_of start e ex p" if "p \<in> set ?parts" for p
    using that splice_existing_pieces(1) [OF _ se] wfl by (fastforce simp: list_all_iff)
  show mem: "iv = new \<or> (\<exists>ex\<in>set ivs. piece_of start e ex iv)"
    if "iv \<in> set (splice_intervals start e new ivs)" for iv
    using that piece by (auto simp: splice_intervals_def)
  have away: "iv_disjoint p new" if "p \<in> set ?parts" for p
    using piece [OF that] range by (auto simp: piece_of_def iv_disjoint_def)
  have dis': "sorted_wrt iv_disjoint (splice_intervals start e new ivs)"
    unfolding splice_intervals_def
    using pieces_disjoint [OF wfl dis se] away
    by (subst sorted_wrt_sort_key_symmetric [OF iv_disjoint_sym]) (simp_all add: sorted_wrt_append)
  show "intervals_wf (splice_intervals start e new ivs)"
    using dis' piece new
    by (auto simp: intervals_wf_def list_all_iff splice_intervals_def piece_of_def)
  show "denote (splice_intervals start e new ivs) x =
    (if start \<le> x \<and> x < e then origin_at (iv_source new) (x - start) else denote ivs x)"
  proof (cases "start \<le> x \<and> x < e")
    case True
    then have "covers new x" using range by (simp add: covers_def)
    with True range dis' show ?thesis
      using denote_member [OF dis', of new x] by (simp add: splice_intervals_def)
  next
    case False
    show ?thesis
    proof (cases ivs x rule: denote_cases)
      case (1 ex)
      then obtain p where p: "p \<in> set (splice_existing start e ex)" "covers p x"
        using splice_existing_pieces(3) [OF _ se] False wfl by (metis list_all_iff)
      then have "piece_of start e ex p"
        using splice_existing_pieces(1) [OF _ se] 1(1) wfl by (metis list_all_iff)
      moreover have "p \<in> set (splice_intervals start e new ivs)" using p 1(1) by (auto simp: splice_intervals_def)
      ultimately show ?thesis
        using False denote_member [OF dis'] denote_member [OF dis 1] p(2)
        by (auto simp: piece_of_def)
    next
      case 2
      have "\<not> covers p x" if "p \<in> set (splice_intervals start e new ivs)" for p
        using mem [OF that] 2 False range by (fastforce simp: covers_def piece_of_def)
      then show ?thesis using False 2 by (auto simp: denote_uncovered)
    qed
  qed
qed

section \<open>Coalescing\<close>

lemma coalescibleE:
  assumes "coalescible l r" "interval_wf l"
  obtains p off where "iv_source l = SrcDirty p off" "iv_source r = SrcDirty p (off + iv_length l)"
    "iv_start r = iv_start l + iv_length l"
  using assms
  by (auto simp: coalescible_def interval_wf_def wadd64_exact split: ExtentSource.splits)

lemma intervals_wf_Cons:
  "intervals_wf (a # ivs) \<longleftrightarrow>
   interval_wf a \<and> intervals_wf ivs \<and> (\<forall>iv\<in>set ivs. iv_start a + iv_length a \<le> iv_start iv)"
proof -
  have "iv_start a \<le> iv_start iv \<and> iv_disjoint a iv \<longleftrightarrow> iv_start a + iv_length a \<le> iv_start iv"
    if "interval_wf iv" for iv
    using that by (auto simp: iv_disjoint_def interval_wf_def)
  then show ?thesis by (auto simp: intervals_wf_def list_all_iff)
qed

lemma intervals_wf_Nil [simp]: "intervals_wf []"
  by (simp add: intervals_wf_def)

lemma merged_interval:
  assumes "coalescible l r" "interval_wf l" "interval_wf r"
  defines "m \<equiv> l\<lparr>iv_length := wadd64 (iv_length l) (iv_length r)\<rparr>"
  shows "interval_wf m" "iv_start m = iv_start l"
    and "iv_start m + iv_length m = iv_start r + iv_length r"
    and "denote (m # rest) x = denote (l # r # rest) x"
proof -
  obtain p off where src: "iv_source l = SrcDirty p off"
    "iv_source r = SrcDirty p (off + iv_length l)" and st: "iv_start r = iv_start l + iv_length l"
    using assms(1,2) by (rule coalescibleE)
  have bounds: "iv_start l + (iv_length l + iv_length r) \<le> u64_max"
    "off + (iv_length l + iv_length r) \<le> u64_max"
    using assms(3) src st by (simp_all add: interval_wf_def)
  then have m: "m = l\<lparr>iv_length := iv_length l + iv_length r\<rparr>"
    by (simp add: m_def wadd64_exact)
  show "interval_wf m" using bounds assms(2) src by (simp add: interval_wf_def m)
  show "iv_start m = iv_start l" by (simp add: m)
  show "iv_start m + iv_length m = iv_start r + iv_length r" using st by (simp add: m)
  show "denote (m # rest) x = denote (l # r # rest) x"
    using src st by (auto simp: covers_def m)
qed

lemma coalesce_once_lower:
  "coalesce_once ivs = Some ivs' \<Longrightarrow> \<forall>iv\<in>set ivs. n \<le> iv_start iv \<Longrightarrow>
   \<forall>iv\<in>set ivs'. n \<le> iv_start iv"
  by (induction ivs arbitrary: ivs' rule: coalesce_once.induct) (auto split: if_splits)

lemma coalesce_once_correct:
  assumes "coalesce_once ivs = Some ivs'" "intervals_wf ivs"
  shows "intervals_wf ivs' \<and> (\<forall>x. denote ivs' x = denote ivs x) \<and>
    (\<forall>n. list_all (\<lambda>iv. iv_start iv + iv_length iv \<le> n) ivs \<longrightarrow>
         list_all (\<lambda>iv. iv_start iv + iv_length iv \<le> n) ivs')"
  using assms
proof (induction ivs arbitrary: ivs' rule: coalesce_once.induct)
  case (1 l r rest)
  have wfl: "interval_wf l" and wfr: "interval_wf r" and wft: "intervals_wf (r # rest)"
    using "1.prems"(2) by (simp_all add: intervals_wf_Cons)
  show ?case
  proof (cases "coalescible l r")
    case True
    note m = merged_interval [OF True wfl wfr]
    let ?m = "l\<lparr>iv_length := wadd64 (iv_length l) (iv_length r)\<rparr>"
    have eq: "ivs' = ?m # rest" using "1.prems"(1) True by simp
    have "intervals_wf (?m # rest)"
      using wft m(1,3) by (simp add: intervals_wf_Cons)
    moreover have "\<forall>x. denote (?m # rest) x = denote (l # r # rest) x"
      using m(4) by blast
    moreover have "list_all (\<lambda>iv. iv_start iv + iv_length iv \<le> n) (?m # rest)"
      if "list_all (\<lambda>iv. iv_start iv + iv_length iv \<le> n) (l # r # rest)" for n
      using that unfolding list.pred_inject m(3) by blast
    ultimately show ?thesis unfolding eq by blast
  next
    case False
    with "1.prems"(1) obtain tl where tl: "coalesce_once (r # rest) = Some tl" "ivs' = l # tl"
      by auto
    have "\<forall>iv\<in>set tl. iv_start l + iv_length l \<le> iv_start iv"
      using "1.prems"(2) by (intro coalesce_once_lower [OF tl(1)]) (simp add: intervals_wf_Cons)
    then show ?thesis
      using "1.IH" [OF False tl(1) wft] wfl tl(2) by (simp add: intervals_wf_Cons)
  qed
qed auto

lemma coalesce_unfold:
  "coalesce_once ivs = None \<Longrightarrow> coalesce ivs = ivs"
  "coalesce_once ivs = Some ivs' \<Longrightarrow> coalesce ivs = coalesce ivs'"
  by (simp_all add: coalesce.simps [of ivs])

lemma coalesce_correct:
  assumes "intervals_wf ivs"
  shows "intervals_wf (coalesce ivs) \<and> (\<forall>x. denote (coalesce ivs) x = denote ivs x) \<and>
    (\<forall>n. list_all (\<lambda>iv. iv_start iv + iv_length iv \<le> n) ivs \<longrightarrow>
         list_all (\<lambda>iv. iv_start iv + iv_length iv \<le> n) (coalesce ivs)) \<and>
    coalesce_once (coalesce ivs) = None"
  using assms
proof (induction ivs rule: coalesce.induct)
  case (1 ivs)
  show ?case
  proof (cases "coalesce_once ivs")
    case None
    then show ?thesis using "1.prems" by (simp add: coalesce_unfold(1))
  next
    case (Some ivs')
    note once = coalesce_once_correct [OF Some "1.prems"]
    with "1.IH" [OF Some] show ?thesis
      unfolding coalesce_unfold(2) [OF Some] by metis
  qed
qed

section \<open>Truncation\<close>

lemma truncate_loop_lower:
  "\<forall>iv\<in>set ivs. n \<le> iv_start iv \<Longrightarrow> \<forall>iv\<in>set (truncate_loop len ivs). n \<le> iv_start iv"
  by (induction ivs) auto

lemma truncate_loop_wf:
  assumes "intervals_wf ivs"
  shows "intervals_wf (truncate_loop len ivs) \<and>
         list_all (\<lambda>iv. iv_start iv + iv_length iv \<le> len) (truncate_loop len ivs)"
  using assms
proof (induction ivs)
  case Nil
  then show ?case by simp
next
  case (Cons iv ivs)
  have wf: "interval_wf iv" and tail: "intervals_wf ivs"
    and low: "\<forall>b\<in>set ivs. iv_start iv + iv_length iv \<le> iv_start b"
    using Cons.prems by (simp_all add: intervals_wf_Cons)
  have clip: "interval_wf (iv\<lparr>iv_length := len - iv_start iv\<rparr>)"
    if "iv_start iv < len" "len < iv_start iv + iv_length iv"
    using that wf source_room_mono [of "iv_source iv" "iv_length iv" "len - iv_start iv"]
    by (simp add: interval_wf_def)
  note low' = truncate_loop_lower [OF low, of len]
  have near: "iv_start iv + (len - iv_start iv) \<le> iv_start b"
    if "b \<in> set (truncate_loop len ivs)" "iv_start iv < len" "len < iv_start iv + iv_length iv" for b
    using low' that by fastforce
  show ?case
    using Cons.IH [OF tail] wf clip low' near by (auto simp: intervals_wf_Cons)
qed

lemma truncate_loop_denote:
  assumes "list_all interval_wf ivs"
  shows "denote (truncate_loop len ivs) x = (if x < len then denote ivs x else Zeros)"
  using assms by (induction ivs) (auto simp: covers_def)

section \<open>Reading\<close>

definition slice_span :: "ExtentSlice \<Rightarrow> nat list" where
  "slice_span sl = [slice_start sl..<slice_start sl + slice_len sl]"

fun slice_origins :: "ExtentSlice \<Rightarrow> ByteOrigin list" where
  "slice_origins (SliceBase s l h off) = map (\<lambda>i. FromBase h (off + i)) [0..<l]"
| "slice_origins (SliceDirty s l p off) = map (\<lambda>i. FromPayload p (off + i)) [0..<l]"
| "slice_origins (SliceZero s l) = replicate l Zeros"

lemma slice_of_source_simps [simp]:
  "slice_start (slice_of_source src s l inside) = s"
  "slice_len (slice_of_source src s l inside) = l"
  by (cases src; simp)+

lemma slice_of_source_origins:
  assumes "interval_wf iv" "iv_start iv \<le> s" "s + l \<le> iv_start iv + iv_length iv"
  shows "slice_origins (slice_of_source (iv_source iv) s l (s - iv_start iv)) =
         map (\<lambda>x. origin_at (iv_source iv) (x - iv_start iv)) [s..<s + l]"
proof -
  have "source_room (iv_source iv) (s - iv_start iv)"
    using assms source_room_mono by (fastforce simp: interval_wf_def)
  with assms(2) show ?thesis
    by (cases "iv_source iv") (auto simp: map_upt_add wadd64_exact map_replicate_const intro!: nth_equalityI)
qed

lemma denote_below:
  "\<forall>iv\<in>set ivs. n \<le> iv_start iv \<Longrightarrow> x < n \<Longrightarrow> denote ivs x = Zeros"
  by (rule denote_uncovered) (auto simp: covers_def)

text \<open>What the loop guarantees about the slices and the cursor it returns.\<close>

definition read_ok :: "Interval list \<Rightarrow> u64 \<Rightarrow> u64 \<Rightarrow> ExtentSlice list \<times> u64 \<Rightarrow> bool" where
  "read_ok ivs c e r \<longleftrightarrow>
     c \<le> snd r \<and> snd r \<le> e \<and>
     concat (map slice_span (fst r)) = [c..<snd r] \<and>
     concat (map slice_origins (fst r)) = map (denote ivs) [c..<snd r] \<and>
     (\<forall>sl\<in>set (fst r). 0 < slice_len sl) \<and>
     (\<forall>x. snd r \<le> x \<and> x < e \<longrightarrow> denote ivs x = Zeros)"

lemma read_ok_prepend:
  assumes "read_ok ivs c' e (rest, d)" "c < c'"
    and "slice_start sl = c" "slice_len sl = c' - c"
    and "slice_origins sl = map (denote ivs) [c..<c']"
  shows "read_ok ivs c e (sl # rest, d)"
  using assms upt_split [of c c' d]
  by (auto simp: read_ok_def slice_span_def)

lemma read_ok_cong:
  assumes "read_ok ivs c e r" "\<And>x. c \<le> x \<Longrightarrow> denote ivs x = denote ivs' x"
  shows "read_ok ivs' c e r"
  using assms by (auto simp: read_ok_def)

lemma read_loop_correct:
  assumes "intervals_wf ivs" "c < e"
  shows "read_ok ivs c e (read_loop ivs c e)"
  using assms
proof (induction ivs arbitrary: c)
  case Nil
  then show ?case by (simp add: read_ok_def)
next
  case (Cons iv ivs)
  let ?s = "iv_start iv" and ?t = "iv_start iv + iv_length iv"
  have wf: "interval_wf iv" and tail: "intervals_wf ivs" and low: "\<forall>b\<in>set ivs. ?t \<le> iv_start b"
    and pos: "0 < iv_length iv"
    using Cons.prems by (simp_all add: intervals_wf_Cons interval_wf_def)
  have after: "denote ivs x = denote (iv # ivs) x" if "?t \<le> x" for x
    using that by (simp add: covers_def)
  have body: "read_ok (iv # ivs) c' e
      (let oe = min e ?t; sl = slice_of_source (iv_source iv) c' (oe - c') (c' - ?s)
       in if oe \<ge> e then ([sl], oe) else (let (rest, d) = read_loop ivs oe e in (sl # rest, d)))"
    if c': "?s \<le> c'" "c' < ?t" "c' < e" for c'
  proof -
    let ?oe = "min e ?t"
    let ?sl = "slice_of_source (iv_source iv) c' (?oe - c') (c' - ?s)"
    have or: "slice_origins ?sl = map (denote (iv # ivs)) [c'..<?oe]"
      using slice_of_source_origins [OF wf, of c' "?oe - c'"] c' by (auto simp: covers_def)
    have "read_ok (iv # ivs) ?oe e (if ?oe \<ge> e then ([], ?oe) else read_loop ivs ?oe e)"
    proof (cases "?oe \<ge> e")
      case True
      then show ?thesis by (auto simp: read_ok_def)
    next
      case False
      then have "read_ok ivs ?oe e (read_loop ivs ?oe e)" using Cons.IH [OF tail] by simp
      then have "read_ok (iv # ivs) ?oe e (read_loop ivs ?oe e)"
        by (rule read_ok_cong) (use False after in auto)
      with False show ?thesis by simp
    qed
    then show ?thesis
      using read_ok_prepend [OF _ _ _ _ or, where e = e] c'
      by (auto simp: Let_def split: if_splits prod.splits)
  qed
  consider (past) "?t \<le> c" | (inside) "?s \<le> c" "c < ?t" | (gap_end) "c < ?s" "e \<le> ?s"
    | (gap) "c < ?s" "?s < e" by linarith
  then show ?case
  proof cases
    case past
    then have "read_ok (iv # ivs) c e (read_loop ivs c e)"
      using Cons.IH [OF tail Cons.prems(2)] after by (elim read_ok_cong) auto
    with past wf show ?thesis by simp
  next
    case inside
    then show ?thesis using body [OF inside Cons.prems(2)] wf Cons.prems(2) pos
      by (auto simp: Let_def max_def min_def split: prod.splits if_splits)
  next
    case gap_end
    have z: "denote (iv # ivs) x = Zeros" if "x < ?s" for x
      using that low denote_below [of "iv # ivs" ?s] by fastforce
    have "read_ok (iv # ivs) c e ([SliceZero c (e - c)], e)"
      using Cons.prems(2) gap_end z
      by (auto simp: read_ok_def slice_span_def map_replicate_const [symmetric]
          simp del: denote.simps intro!: nth_equalityI)
    with gap_end wf pos show ?thesis by (simp add: Let_def min_def)
  next
    case gap
    have z: "denote (iv # ivs) x = Zeros" if "x < ?s" for x
      using that low denote_below [of "iv # ivs" ?s] by fastforce
    have or: "slice_origins (SliceZero c (?s - c)) = map (denote (iv # ivs)) [c..<?s]"
      using z by (auto simp del: denote.simps intro!: nth_equalityI)
    have "read_ok (iv # ivs) ?s e
      (let oe = min e ?t; sl = slice_of_source (iv_source iv) ?s (oe - ?s) 0
       in if oe \<ge> e then ([sl], oe) else (let (rest, d) = read_loop ivs oe e in (sl # rest, d)))"
      using body [of ?s] gap pos by simp
    then show ?thesis
      using read_ok_prepend [OF _ gap(1) _ _ or, where e = e] gap wf pos
      by (auto simp: Let_def min_def split: if_splits prod.splits)
  qed
qed

section \<open>The contract of a byte file\<close>

definition overwrite :: "ByteOrigin list \<Rightarrow> nat \<Rightarrow> ByteOrigin list \<Rightarrow> ByteOrigin list" where
  "overwrite xs s ys =
     take s (xs @ replicate (s - length xs) Zeros) @ ys @ drop (s + length ys) xs"

definition resize :: "ByteOrigin list \<Rightarrow> nat \<Rightarrow> ByteOrigin list" where
  "resize xs n = take n xs @ replicate (n - length xs) Zeros"

definition payload_bytes :: "id16 \<Rightarrow> nat \<Rightarrow> nat \<Rightarrow> ByteOrigin list" where
  "payload_bytes p off len = map (\<lambda>i. FromPayload p (off + i)) [0..<len]"

datatype file_op = OpWrite nat nat id16 nat | OpTruncate nat

fun op_bounded :: "file_op \<Rightarrow> bool" where
  "op_bounded (OpWrite s len p off) \<longleftrightarrow> s + len \<le> u64_max \<and> off + len \<le> u64_max"
| "op_bounded (OpTruncate n) \<longleftrightarrow> n \<le> u64_max"

fun spec_op :: "ByteOrigin list \<Rightarrow> file_op \<Rightarrow> ByteOrigin list" where
  "spec_op xs (OpWrite s len p off) =
     (if len = 0 then xs else overwrite xs s (payload_bytes p off len))"
| "spec_op xs (OpTruncate n) = resize xs n"

fun run_file_ops ::
  "('m \<Rightarrow> nat \<Rightarrow> nat \<Rightarrow> id16 \<Rightarrow> nat \<Rightarrow> 'm result) \<Rightarrow> ('m \<Rightarrow> nat \<Rightarrow> 'm result) \<Rightarrow>
   'm \<Rightarrow> file_op list \<Rightarrow> 'm result" where
  "run_file_ops w t m [] = Inr m"
| "run_file_ops w t m (OpWrite s len p off # ops) =
     bind_result (w m s len p off) (\<lambda>m'. run_file_ops w t m' ops)"
| "run_file_ops w t m (OpTruncate n # ops) =
     bind_result (t m n) (\<lambda>m'. run_file_ops w t m' ops)"

lemma overwrite_length [simp]:
  "length (overwrite xs s ys) = max (length xs) (s + length ys)"
  by (auto simp: overwrite_def)

lemma overwrite_nth:
  assumes "x < max (length xs) (s + length ys)"
  shows "overwrite xs s ys ! x =
    (if x < s then (if x < length xs then xs ! x else Zeros)
     else if x < s + length ys then ys ! (x - s) else xs ! x)"
proof -
  have l: "length (take s (xs @ replicate (s - length xs) Zeros)) = s" by auto
  show ?thesis
    using assms unfolding overwrite_def nth_append l by (auto simp: nth_append)
qed

lemma resize_length [simp]: "length (resize xs n) = n"
  by (auto simp: resize_def)

lemma resize_nth: "x < n \<Longrightarrow> resize xs n ! x = (if x < length xs then xs ! x else Zeros)"
  by (auto simp: resize_def nth_append)

lemma payload_bytes_length [simp]: "length (payload_bytes p off len) = len"
  by (simp add: payload_bytes_def)

locale byte_file =
  fixes inv :: "'m \<Rightarrow> bool"
    and file_bytes :: "'m \<Rightarrow> ByteOrigin list"
    and put :: "'m \<Rightarrow> nat \<Rightarrow> nat \<Rightarrow> id16 \<Rightarrow> nat \<Rightarrow> 'm result"
    and cut :: "'m \<Rightarrow> nat \<Rightarrow> 'm result"
    and get :: "'m \<Rightarrow> nat \<Rightarrow> nat \<Rightarrow> ExtentSlice list result"
  assumes put_empty: "put m s 0 p off = Inr m"
    and put_ok: "inv m \<Longrightarrow> 0 < len \<Longrightarrow> s + len \<le> u64_max \<Longrightarrow> off + len \<le> u64_max \<Longrightarrow>
      \<exists>m'. put m s len p off = Inr m' \<and> inv m' \<and>
           file_bytes m' = overwrite (file_bytes m) s (payload_bytes p off len)"
    and cut_ok: "inv m \<Longrightarrow> n \<le> u64_max \<Longrightarrow>
      \<exists>m'. cut m n = Inr m' \<and> inv m' \<and> file_bytes m' = resize (file_bytes m) n"
    and get_ok: "inv m \<Longrightarrow> s + len \<le> u64_max \<Longrightarrow>
      \<exists>sl. get m s len = Inr sl \<and>
           concat (map slice_origins sl) = take len (drop s (file_bytes m)) \<and>
           concat (map slice_span sl) = [s..<min (s + len) (length (file_bytes m))]"
begin

text \<open>Every sequence of in-range writes and truncations succeeds and computes the abstract file.\<close>

lemma run_refines:
  assumes "inv m" "list_all op_bounded ops"
  shows "\<exists>m'. run_file_ops put cut m ops = Inr m' \<and> inv m' \<and>
              file_bytes m' = foldl spec_op (file_bytes m) ops"
  using assms
proof (induction ops arbitrary: m)
  case Nil
  then show ?case by simp
next
  case (Cons op ops)
  have "\<exists>m'. inv m' \<and> file_bytes m' = spec_op (file_bytes m) op \<and>
      run_file_ops put cut m (op # ops) = run_file_ops put cut m' ops"
  proof (cases op)
    case (OpWrite s len p off)
    then show ?thesis
      using Cons.prems put_empty put_ok [of m len s off p] by (cases "len = 0") auto
  next
    case (OpTruncate n)
    then show ?thesis using Cons.prems cut_ok [of m n] by auto
  qed
  then show ?case using Cons.IH Cons.prems(2) by fastforce
qed

lemma read_after_write:
  assumes "inv m" "0 < len" "s + len \<le> u64_max" "off + len \<le> u64_max"
    and "put m s len p off = Inr m'"
  shows "\<exists>sl. get m' s len = Inr sl \<and> concat (map slice_origins sl) = payload_bytes p off len"
proof -
  have m': "inv m'" "file_bytes m' = overwrite (file_bytes m) s (payload_bytes p off len)"
    using put_ok [OF assms(1-4), of p] assms(5) by auto
  have "take len (drop s (overwrite (file_bytes m) s (payload_bytes p off len))) =
      payload_bytes p off len"
    by (simp add: overwrite_def)
  then show ?thesis using get_ok [OF m'(1) assms(3)] m'(2) by auto
qed

text \<open>A shrunken and regrown file exposes zeros, never its old tail.\<close>

lemma regrown_tail_zero:
  assumes "inv m" "n \<le> k" "k \<le> u64_max" "cut m n = Inr m1" "cut m1 k = Inr m2"
  shows "\<exists>sl. get m2 n (k - n) = Inr sl \<and> concat (map slice_origins sl) = replicate (k - n) Zeros"
proof -
  have m1: "inv m1" "file_bytes m1 = resize (file_bytes m) n"
    using cut_ok [OF assms(1), of n] assms(2-4) by auto
  then have m2: "inv m2" "file_bytes m2 = resize (file_bytes m1) k"
    using cut_ok [OF m1(1) assms(3)] assms(5) by auto
  have "take (k - n) (drop n (resize (file_bytes m1) k)) = replicate (k - n) Zeros"
    using assms(2) m1(2) by (auto simp: resize_nth intro!: nth_equalityI)
  then show ?thesis using get_ok [OF m2(1), of n "k - n"] m2(2) assms(2,3) by auto
qed

end

section \<open>The extent map is a byte file\<close>

lemma extent_inv_beyond:
  assumes "extent_inv m" "file_size m \<le> x"
  shows "denote (intervals m) x = Zeros"
  using assms by (intro denote_uncovered) (fastforce simp: extent_inv_def list_all_iff covers_def)

lemma contents_nth [simp]: "x < file_size m \<Longrightarrow> contents m ! x = denote (intervals m) x"
  by (simp add: contents_def)

lemma contents_length [simp]: "length (contents m) = file_size m"
  by (simp add: contents_def)

lemma write_at_correct:
  assumes inv: "extent_inv m" and pos: "0 < len"
    and bound: "s + len \<le> u64_max" and room: "off + len \<le> u64_max"
  shows "\<exists>m'. write_at m s len p off = Inr m' \<and> extent_inv m' \<and>
    contents m' = overwrite (contents m) s (payload_bytes p off len) \<and>
    file_size m' = max (file_size m) (s + len) \<and> version m' = i64_wrap (version m + 1) \<and>
    coalesce_once (intervals m') = None"
proof -
  let ?new = "\<lparr>iv_start = s, iv_length = len, iv_source = SrcDirty p off\<rparr>"
  let ?sp = "splice_intervals s (s + len) ?new (intervals m)"
  let ?m = "m\<lparr>intervals := coalesce ?sp, file_size := max (file_size m) (s + len),
              version := i64_wrap (version m + 1)\<rparr>"
  have new: "interval_wf ?new" using pos bound room by (simp add: interval_wf_def)
  have wf: "intervals_wf (intervals m)" using inv by (simp add: extent_inv_def)
  note sp = splice_correct [OF wf new, of s "s + len", simplified]
  note co = coalesce_correct [OF sp(1)]
  have "list_all (\<lambda>iv. iv_start iv + iv_length iv \<le> max (file_size m) (s + len)) ?sp"
    using sp(3) inv by (fastforce simp: list_all_iff extent_inv_def piece_of_def)
  then have inv': "extent_inv ?m" using co inv bound by (simp add: extent_inv_def)
  have dn: "denote (coalesce ?sp) x =
      (if s \<le> x \<and> x < s + len then FromPayload p (off + (x - s)) else denote (intervals m) x)" for x
    using co sp(2) by simp
  have "contents ?m = overwrite (contents m) s (payload_bytes p off len)"
  proof (rule nth_equalityI)
    fix x assume "x < length (contents ?m)"
    then show "contents ?m ! x = overwrite (contents m) s (payload_bytes p off len) ! x"
      using dn extent_inv_beyond [OF inv, of x]
      by (auto simp: overwrite_nth payload_bytes_def)
  qed simp
  moreover have "write_at m s len p off = Inr ?m"
    using pos bound by (simp add: write_at_def checked_add64_def)
  ultimately show ?thesis using inv' co by simp
qed

lemma truncate_correct:
  assumes inv: "extent_inv m" and bound: "n \<le> u64_max"
  shows "\<exists>m'. truncate m n = Inr m' \<and> extent_inv m' \<and> contents m' = resize (contents m) n \<and>
    file_size m' = n \<and> version m' = i64_wrap (version m + 1)"
proof -
  let ?m = "m\<lparr>intervals := truncate_loop n (intervals m), file_size := n,
              version := i64_wrap (version m + 1)\<rparr>"
  have wf: "intervals_wf (intervals m)" using inv by (simp add: extent_inv_def)
  then have all: "list_all interval_wf (intervals m)" by (simp add: intervals_wf_def)
  have "extent_inv ?m"
    using truncate_loop_wf [OF wf, of n] bound by (simp add: extent_inv_def)
  moreover have "contents ?m = resize (contents m) n"
    using extent_inv_beyond [OF inv]
    by (auto simp: truncate_loop_denote [OF all] resize_nth intro!: nth_equalityI)
  ultimately show ?thesis by (simp add: truncate_def)
qed

lemma read_correct:
  assumes inv: "extent_inv m" and bound: "s + len \<le> u64_max"
  shows "\<exists>sl. read m s len = Inr sl \<and>
    concat (map slice_origins sl) = take len (drop s (contents m)) \<and>
    concat (map slice_span sl) = [s..<min (s + len) (file_size m)] \<and>
    (\<forall>x\<in>set sl. 0 < slice_len x)"
proof (cases "len = 0 \<or> s \<ge> file_size m")
  case True
  then show ?thesis by (auto simp: read_def)
next
  case False
  let ?e = "min (s + len) (file_size m)"
  have se: "s < ?e" and wf: "intervals_wf (intervals m)" using False inv by (auto simp: extent_inv_def)
  obtain sl c where rl: "read_loop (intervals m) s ?e = (sl, c)" by fastforce
  have ok: "read_ok (intervals m) s ?e (sl, c)" using read_loop_correct [OF wf se] rl by simp
  let ?all = "if c < ?e then sl @ [SliceZero c (?e - c)] else sl"
  have rd: "read m s len = Inr ?all"
    using False bound rl by (simp add: read_def checked_add64_def Let_def)
  have c: "s \<le> c" "c \<le> ?e" using ok by (auto simp: read_ok_def)
  have split: "[s..<?e] = [s..<c] @ [c..<?e]" using upt_split [OF c] .
  have "map (denote (intervals m)) [c..<?e] = map (\<lambda>_. Zeros) [c..<?e]"
    using ok by (intro map_cong) (auto simp: read_ok_def)
  then have zeros: "map (denote (intervals m)) [c..<?e] = replicate (?e - c) Zeros"
    by (simp add: map_replicate_const)
  have "take len (drop s (contents m)) = map (denote (intervals m)) [s..<?e]"
    by (rule nth_equalityI) auto
  also have "\<dots> = concat (map slice_origins ?all)"
    using ok c zeros by (auto simp: split read_ok_def)
  finally have or: "concat (map slice_origins ?all) = take len (drop s (contents m))" by simp
  have "concat (map slice_span ?all) = [s..<?e]"
    using ok c by (auto simp: split read_ok_def slice_span_def)
  moreover have "\<forall>x\<in>set ?all. 0 < slice_len x" using ok by (auto simp: read_ok_def)
  ultimately show ?thesis using rd or by blast
qed

interpretation extents: byte_file extent_inv contents write_at truncate read
proof unfold_locales
  fix m s p off
  show "write_at m s 0 p off = Inr m" by (simp add: write_at_def)
next
  fix m len s off p
  assume "extent_inv m" "0 < len" "s + len \<le> u64_max" "off + len \<le> u64_max"
  then show "\<exists>m'. write_at m s len p off = Inr m' \<and> extent_inv m' \<and>
      contents m' = overwrite (contents m) s (payload_bytes p off len)"
    using write_at_correct by blast
next
  fix m n
  assume "extent_inv m" "n \<le> u64_max"
  then show "\<exists>m'. truncate m n = Inr m' \<and> extent_inv m' \<and> contents m' = resize (contents m) n"
    using truncate_correct by blast
next
  fix m s len
  assume "extent_inv m" "s + len \<le> u64_max"
  then show "\<exists>sl. read m s len = Inr sl \<and>
      concat (map slice_origins sl) = take len (drop s (contents m)) \<and>
      concat (map slice_span sl) = [s..<min (s + len) (length (contents m))]"
    using read_correct by fastforce
qed

section \<open>Serialisation and replay\<close>

definition iv_span :: "Interval \<Rightarrow> nat list" where
  "iv_span iv = [iv_start iv..<iv_start iv + iv_length iv]"

lemma interval_of_extent_inverse:
  "interval_of_extent (extent_of_interval vol ino ver now xid iv) = iv"
  by (cases "iv_source iv") (simp_all add: interval_of_extent_def extent_of_interval_def)

lemma extent_of_interval_valid:
  "interval_wf iv \<Longrightarrow> byte_extent_validate (extent_of_interval vol ino ver now xid iv) = Inr ()"
  by (cases "iv_source iv")
    (simp_all add: byte_extent_validate_def extent_of_interval_def interval_wf_def)

lemma replay_loop_eq:
  "replay_loop m xs =
     m\<lparr>version := foldl max (version m) (map be_version xs),
       file_size := foldl max (file_size m) (map (\<lambda>x. saturating_add64 (be_start x) (be_length x)) xs),
       intervals := intervals m @ map interval_of_extent xs\<rparr>"
  by (induction xs arbitrary: m) simp_all

lemma to_extents_intervals:
  "map interval_of_extent (to_extents m vol ino ver now ids) = filled_intervals m"
  by (auto simp: to_extents_def Let_def interval_of_extent_inverse intro!: nth_equalityI)

lemma to_extents_ends:
  "map (\<lambda>x. saturating_add64 (be_start x) (be_length x)) (to_extents m vol ino ver now ids) =
   map (\<lambda>iv. saturating_add64 (iv_start iv) (iv_length iv)) (filled_intervals m)"
  by (auto simp: to_extents_def Let_def extent_of_interval_def intro!: nth_equalityI)

lemma to_extents_versions:
  "map be_version (to_extents m vol ino ver now ids) = replicate (length (filled_intervals m)) ver"
  by (auto simp: to_extents_def Let_def extent_of_interval_def intro!: nth_equalityI)

text \<open>The filling loop tiles from its cursor to its final cursor and changes no byte.\<close>

lemma fill_loop_correct:
  assumes "intervals_wf ivs" "\<forall>iv\<in>set ivs. c \<le> iv_start iv" "fill_loop ivs c = (out, d)"
  shows "list_all interval_wf out \<and> concat (map iv_span out) = [c..<d] \<and> c \<le> d \<and>
    (\<forall>x. denote out x = denote ivs x) \<and> (c \<le> n \<longrightarrow>
      list_all (\<lambda>iv. iv_start iv + iv_length iv \<le> n) ivs \<longrightarrow> d \<le> n)"
  using assms
proof (induction ivs arbitrary: c out)
  case Nil
  then show ?case by simp
next
  case (Cons iv ivs)
  let ?t = "iv_start iv + iv_length iv"
  have wf: "interval_wf iv" and tail: "intervals_wf ivs" and low: "\<forall>b\<in>set ivs. ?t \<le> iv_start b"
    and c: "c \<le> iv_start iv"
    using Cons.prems by (simp_all add: intervals_wf_Cons)
  obtain rest where rest: "fill_loop ivs ?t = (rest, d)"
    and out: "out = (if iv_start iv > c then [\<lparr>iv_start = c, iv_length = iv_start iv - c,
       iv_source = SrcZero\<rparr>] else []) @ iv # rest"
    using Cons.prems(3) wf c by (auto simp: Let_def max_absorb2 split: prod.splits)
  note IH = Cons.IH [OF tail low rest]
  have b: "iv_start iv \<le> u64_max" using wf by (simp add: interval_wf_def)
  have span: "[c..<d] = [c..<iv_start iv] @ [iv_start iv..<?t] @ [?t..<d]"
    using c IH upt_split [of c "iv_start iv" d] upt_split [of "iv_start iv" ?t d] by simp
  have gap: "denote ivs x = Zeros \<and> \<not> covers iv x" if "x < iv_start iv" for x
    using that low denote_below [of ivs ?t x] by (auto simp: covers_def)
  have dn: "denote out x = denote (iv # ivs) x" for x
    using IH gap by (auto simp: out covers_def)
  have "interval_wf \<lparr>iv_start = c, iv_length = iv_start iv - c, iv_source = SrcZero\<rparr>" if "c < iv_start iv"
    using that b by (simp add: interval_wf_def)
  then have "list_all interval_wf out"
    using IH wf by (simp add: out)
  moreover have "concat (map iv_span out) = [c..<d]"
    using IH c by (simp add: out span iv_span_def [of iv]
        iv_span_def [of "\<lparr>iv_start = c, iv_length = iv_start iv - c, iv_source = SrcZero\<rparr>"])
  ultimately show ?case using IH dn c by simp
qed

lemma tiling_wf:
  assumes "list_all interval_wf ivs" "concat (map iv_span ivs) = [c..<d]"
  shows "intervals_wf ivs \<and> (\<forall>iv\<in>set ivs. c \<le> iv_start iv \<and> iv_start iv + iv_length iv \<le> d) \<and>
         (ivs \<noteq> [] \<longrightarrow> c < d)"
  using assms
proof (induction ivs arbitrary: c)
  case Nil
  then show ?case by simp
next
  case (Cons iv ivs)
  let ?t = "iv_start iv + iv_length iv"
  have wf: "interval_wf iv" and pos: "0 < iv_length iv"
    using Cons.prems(1) by (simp_all add: interval_wf_def)
  have eq: "[iv_start iv..<?t] @ concat (map iv_span ivs) = [c..<d]"
    using Cons.prems(2) iv_span_def [of iv] by simp
  have cd: "c < d" using eq pos by (cases "c < d") auto
  then have st: "iv_start iv = c"
    using eq pos by (simp add: upt_conv_Cons)
  have "length [c..<d] = iv_length iv + length (concat (map iv_span ivs))"
    using arg_cong [OF eq, of length] by simp
  then have td: "?t \<le> d" using st cd by simp
  have "concat (map iv_span ivs) = [?t..<d]"
    using eq upt_split [of c ?t d] st td by simp
  from Cons.IH [OF _ this] Cons.prems(1) have
    "intervals_wf ivs \<and> (\<forall>iv\<in>set ivs. ?t \<le> iv_start iv \<and> iv_start iv + iv_length iv \<le> d)" by simp
  then show ?case using wf st td cd pos by (auto simp: intervals_wf_Cons)
qed

lemma filled_correct:
  assumes "extent_inv m"
  shows "list_all interval_wf (filled_intervals m)"
    and "concat (map iv_span (filled_intervals m)) = [0..<file_size m]"
    and "denote (filled_intervals m) x = denote (intervals m) x"
proof -
  obtain out d where fl: "fill_loop (intervals m) 0 = (out, d)" by fastforce
  have wf: "intervals_wf (intervals m)" and b: "file_size m \<le> u64_max"
    and within: "list_all (\<lambda>iv. iv_start iv + iv_length iv \<le> file_size m) (intervals m)"
    using assms by (simp_all add: extent_inv_def)
  have fc: "list_all interval_wf out" "concat (map iv_span out) = [0..<d]"
      "\<And>x. denote out x = denote (intervals m) x" "d \<le> file_size m"
    using fill_loop_correct [OF wf _ fl, of "file_size m"] within by simp_all
  let ?z = "\<lparr>iv_start = d, iv_length = file_size m - d, iv_source = SrcZero\<rparr>"
  have f: "filled_intervals m = (if d < file_size m then out @ [?z] else out)"
    by (simp add: filled_intervals_def fl)
  have "interval_wf ?z" if "d < file_size m"
    using that b by (simp add: interval_wf_def)
  then show "list_all interval_wf (filled_intervals m)"
    using fc(1) by (simp add: f)
  show "concat (map iv_span (filled_intervals m)) = [0..<file_size m]"
  proof (cases "d < file_size m")
    case True
    then have "concat (map iv_span (filled_intervals m)) = [0..<d] @ iv_span ?z"
      by (simp add: f fc(2))
    moreover have "iv_span ?z = [d..<file_size m]" using True by (simp add: iv_span_def)
    ultimately show ?thesis using upt_split [of 0 d "file_size m"] fc(4) by simp
  next
    case False
    then show ?thesis using fc(2,4) by (simp add: f)
  qed
  have app: "denote (out @ [?z]) x = denote out x" by (induction out) simp_all
  show "denote (filled_intervals m) x = denote (intervals m) x"
    using fc(3) [of x] app by (simp add: f)
qed

lemma foldl_max_bounds:
  fixes xs :: "nat list"
  shows "a \<le> foldl max a xs" "x \<in> set xs \<Longrightarrow> x \<le> foldl max a xs"
    and "a \<le> n \<Longrightarrow> (\<And>x. x \<in> set xs \<Longrightarrow> x \<le> n) \<Longrightarrow> foldl max a xs \<le> n"
  by (induction xs arbitrary: a) (auto intro: order_trans [OF max.cobounded1] order_trans [OF max.cobounded2])

lemma tiling_end:
  assumes "list_all interval_wf ivs" "concat (map iv_span ivs) = [0..<d]" "d \<le> u64_max"
  shows "foldl max 0 (map (\<lambda>iv. saturating_add64 (iv_start iv) (iv_length iv)) ivs) = d"
proof (rule antisym)
  note t = tiling_wf [OF assms(1,2)]
  show "foldl max 0 (map (\<lambda>iv. saturating_add64 (iv_start iv) (iv_length iv)) ivs) \<le> d"
    using t by (intro foldl_max_bounds(3)) (auto simp: saturating_add64_def)
  show "d \<le> foldl max 0 (map (\<lambda>iv. saturating_add64 (iv_start iv) (iv_length iv)) ivs)"
  proof (cases "d = 0")
    case False
    then have "d - 1 \<in> set (concat (map iv_span ivs))" using assms(2) by simp
    then obtain iv where iv: "iv \<in> set ivs" "d - 1 < iv_start iv + iv_length iv"
      by (auto simp: iv_span_def)
    then have "d \<le> saturating_add64 (iv_start iv) (iv_length iv)"
      using assms(3) False by (simp add: saturating_add64_def)
    also have "\<dots> \<le> foldl max 0 (map (\<lambda>iv. saturating_add64 (iv_start iv) (iv_length iv)) ivs)"
      using iv(1) by (intro foldl_max_bounds(2)) simp
    finally show ?thesis .
  qed simp
qed

lemma foldl_max_replicate: "foldl max (a::int) (replicate n b) = (if n = 0 then a else max a b)"
  by (induction n arbitrary: a) (auto simp: max.assoc)

lemma replay_to_extents:
  assumes "extent_inv m"
  shows "intervals (replay (to_extents m vol ino ver now ids)) = filled_intervals m" "file_size (replay (to_extents m vol ino ver now ids)) = file_size m" "historical (replay (to_extents m vol ino ver now ids))"
    and "version (replay (to_extents m vol ino ver now ids)) = (if file_size m = 0 then 0 else max 0 ver)"
proof -
  note fc = filled_correct [OF assms(1)]
  have bound: "file_size m \<le> u64_max" using assms(1) by (simp add: extent_inv_def)
  have "intervals_wf (filled_intervals m)" using tiling_wf [OF fc(1,2)] by simp
  then have "sorted (map iv_start (filled_intervals m))"
    by (induction "filled_intervals m" rule: rev_induct) (auto simp: intervals_wf_def)
  then show "intervals (replay (to_extents m vol ino ver now ids)) = filled_intervals m"
    by (simp add: replay_def replay_loop_eq extent_map_default_def to_extents_intervals
        sort_key_sorted_id)
  show "file_size (replay (to_extents m vol ino ver now ids)) = file_size m"
    using tiling_end [OF fc(1,2) bound]
    by (simp add: replay_def replay_loop_eq extent_map_default_def to_extents_ends)
  show "historical (replay (to_extents m vol ino ver now ids))" by (simp add: replay_def Let_def)
  have "filled_intervals m = [] \<longleftrightarrow> file_size m = 0"
    using fc(2) tiling_wf [OF fc(1,2)] by (cases "file_size m") auto
  then show "version (replay (to_extents m vol ino ver now ids)) = (if file_size m = 0 then 0 else max 0 ver)"
    by (simp add: replay_def replay_loop_eq extent_map_default_def to_extents_versions
        foldl_max_replicate)
qed

lemma seed_base_correct:
  assumes "len \<le> u64_max"
  shows "extent_inv (seed_base extent_map_default len h)"
    and "contents (seed_base extent_map_default len h) = map (FromBase h) [0..<len]"
  using assms
  by (auto simp: extent_inv_def contents_def seed_base_def extent_map_default_def covers_def
      intervals_wf_def interval_wf_def)

section \<open>Properties\<close>

text \<open>C10: starting from a file seeded with its immutable base content, every sequence of in-range
  writes and truncations succeeds, keeps the interval invariant, and leaves exactly the bytes that
  plain overwriting, truncating and zero-extending of a byte array would leave; every later read
  of a range that ends within 64 bits returns exactly that range of the array, clipped at end of file, with no hole and no
  overlap between its slices.\<close>

theorem extent_ops_refine:
  assumes "len \<le> u64_max" "list_all op_bounded ops"
  shows "\<exists>m. run_file_ops write_at truncate (seed_base extent_map_default len h) ops = Inr m \<and>
    extent_inv m \<and> contents m = foldl spec_op (map (FromBase h) [0..<len]) ops \<and>
    (\<forall>s n. s + n \<le> u64_max \<longrightarrow> (\<exists>sl. read m s n = Inr sl \<and>
       concat (map slice_origins sl) = take n (drop s (foldl spec_op (map (FromBase h) [0..<len]) ops)) \<and>
       concat (map slice_span sl) = [s..<min (s + n) (file_size m)]))"
proof -
  obtain m where m: "run_file_ops write_at truncate (seed_base extent_map_default len h) ops = Inr m"
      "extent_inv m" "contents m = foldl spec_op (map (FromBase h) [0..<len]) ops"
    using extents.run_refines [OF seed_base_correct(1) [OF assms(1)] assms(2)]
      seed_base_correct(2) [OF assms(1)] by metis
  then show ?thesis using read_correct [OF m(2)] by metis
qed

theorem extent_ops_refine_witness:
  "\<exists>m. run_file_ops write_at truncate (seed_base extent_map_default 10 7)
      [OpWrite 2 3 5 0, OpTruncate 4, OpWrite 6 2 9 1] = Inr m \<and>
    contents m = [FromBase 7 0, FromBase 7 1, FromPayload 5 0, FromPayload 5 1, Zeros, Zeros,
      FromPayload 9 1, FromPayload 9 2]"
proof -
  have len: "(10::nat) \<le> u64_max"
    and ops: "list_all op_bounded [OpWrite 2 3 5 0, OpTruncate 4, OpWrite 6 2 9 1]"
    by (simp_all add: u64_max_def)
  have spec: "foldl spec_op (map (FromBase 7) [0..<10]) [OpWrite 2 3 5 0, OpTruncate 4, OpWrite 6 2 9 1] =
    [FromBase 7 0, FromBase 7 1, FromPayload 5 0, FromPayload 5 1, Zeros, Zeros,
      FromPayload 9 1, FromPayload 9 2]"
    by (simp add: overwrite_def resize_def payload_bytes_def upt_rec numeral_eq_Suc)
  show ?thesis using extent_ops_refine [OF len ops, of 7] unfolding spec by blast
qed

lemma read_exact:
  assumes "extent_inv m"
  shows "if 0 < len \<and> s < file_size m \<and> u64_max < s + len then read m s len = Inl InvalidArgument
    else \<exists>sl. read m s len = Inr sl \<and> concat (map slice_origins sl) = take len (drop s (contents m)) \<and>
      concat (map slice_span sl) = [s..<min (s + len) (file_size m)]"
proof (cases "s + len \<le> u64_max")
  case True
  then show ?thesis using read_correct [OF assms True] by auto
next
  case False
  then show ?thesis by (auto simp: read_def ok_or_def checked_add64_def)
qed

text \<open>C27: reads and writes fail only on overflow, and are otherwise exact.  A write returns an error exactly
  when it is not empty and its end does not fit in 64 bits; a read exactly when in addition it starts inside the
  file.  Every other read, at any position and of any length, returns slices that tile the part of the
  range inside the file and carry its contents.  A write whose payload range fits replaces exactly its
  range of the contents, and reading that range gives the written payload bytes.\<close>

theorem write_read_back:
  assumes "extent_inv m"
  shows "(if 0 < len \<and> u64_max < s + len then write_at m s len p off = Inl InvalidArgument
     else is_ok (write_at m s len p off)) \<and>
    (if 0 < len \<and> s < file_size m \<and> u64_max < s + len then read m s len = Inl InvalidArgument
     else \<exists>sl. read m s len = Inr sl \<and> concat (map slice_origins sl) = take len (drop s (contents m)) \<and>
       concat (map slice_span sl) = [s..<min (s + len) (file_size m)]) \<and>
    (0 < len \<and> s + len \<le> u64_max \<and> off + len \<le> u64_max \<longrightarrow>
      (\<exists>m' sl. write_at m s len p off = Inr m' \<and> contents m' = overwrite (contents m) s (payload_bytes p off len) \<and>
        read m' s len = Inr sl \<and> concat (map slice_origins sl) = payload_bytes p off len))"
proof -
  have "\<exists>m' sl. write_at m s len p off = Inr m' \<and> contents m' = overwrite (contents m) s (payload_bytes p off len) \<and>
      read m' s len = Inr sl \<and> concat (map slice_origins sl) = payload_bytes p off len"
    if b: "0 < len" "s + len \<le> u64_max" "off + len \<le> u64_max"
  proof -
    obtain m' where m': "write_at m s len p off = Inr m'" "contents m' = overwrite (contents m) s (payload_bytes p off len)"
      using write_at_correct [OF assms b] by blast
    then show ?thesis
      using extents.read_after_write [OF assms b m'(1)] by blast
  qed
  moreover have "if 0 < len \<and> u64_max < s + len then write_at m s len p off = Inl InvalidArgument
      else is_ok (write_at m s len p off)"
    by (auto simp: write_at_def ok_or_def checked_add64_def)
  ultimately show ?thesis using read_exact [OF assms, of len s] by blast
qed

theorem write_read_back_witness:
  "\<exists>m' sl. write_at (seed_base extent_map_default 10 7) 4 3 5 2 = Inr m' \<and> read m' 4 3 = Inr sl \<and>
    concat (map slice_origins sl) = [FromPayload 5 2, FromPayload 5 3, FromPayload 5 4]"
proof -
  have "extent_inv (seed_base extent_map_default 10 7)"
    by (rule seed_base_correct(1)) (simp add: u64_max_def)
  moreover have "payload_bytes 5 2 3 = [FromPayload 5 2, FromPayload 5 3, FromPayload 5 4]"
    by (simp add: payload_bytes_def upt_rec numeral_eq_Suc)
  ultimately show ?thesis
    using write_read_back [of "seed_base extent_map_default 10 7" 3 4 5 2] by (simp add: u64_max_def) blast
qed

text \<open>C28: shrinking a file and growing it again exposes zeros in the regrown range, never the
  bytes that were there before.\<close>

theorem regrown_tail_reads_zero:
  assumes "extent_inv m" "n \<le> k" "k \<le> u64_max"
  shows "\<exists>m1 m2 sl. truncate m n = Inr m1 \<and> truncate m1 k = Inr m2 \<and>
    read m2 n (k - n) = Inr sl \<and> concat (map slice_origins sl) = replicate (k - n) Zeros"
proof -
  have n: "n \<le> u64_max" using assms by simp
  obtain m1 where m1: "truncate m n = Inr m1" "extent_inv m1"
    using truncate_correct [OF assms(1) n] by blast
  obtain m2 where m2: "truncate m1 k = Inr m2" using truncate_correct [OF m1(2) assms(3)] by blast
  show ?thesis using extents.regrown_tail_zero [OF assms m1(1) m2] m1(1) m2 by blast
qed

theorem regrown_tail_reads_zero_witness:
  "\<exists>m1 m2 sl. truncate (seed_base extent_map_default 10 7) 4 = Inr m1 \<and> truncate m1 6 = Inr m2 \<and>
    read m2 4 2 = Inr sl \<and> concat (map slice_origins sl) = [Zeros, Zeros]"
proof -
  have "extent_inv (seed_base extent_map_default 10 7)"
    by (rule seed_base_correct(1)) (simp add: u64_max_def)
  moreover have "replicate 2 Zeros = [Zeros, Zeros]" by (simp add: numeral_eq_Suc)
  ultimately show ?thesis
    using regrown_tail_reads_zero [of "seed_base extent_map_default 10 7" 4 6]
    by (simp add: u64_max_def)
qed

text \<open>C21: serialising a map to durable extent rows and replaying the rows gives back the same file:
  the rows are individually valid, tile the file from byte zero to its end, and the replayed map
  has the same size and the same contents, keeps the invariant, is marked historical and carries
  the published version.\<close>

theorem extents_round_trip:
  assumes "extent_inv m"
  shows "list_all (\<lambda>x. byte_extent_validate x = Inr ()) (to_extents m vol ino ver now ids) \<and>
    concat (map (\<lambda>x. [be_start x..<be_start x + be_length x]) (to_extents m vol ino ver now ids)) =
      [0..<file_size m] \<and>
    (let m' = replay (to_extents m vol ino ver now ids)
     in extent_inv m' \<and> contents m' = contents m \<and> file_size m' = file_size m \<and> historical m' \<and>
        version m' = (if file_size m = 0 then 0 else max 0 ver))"
proof -
  note fc = filled_correct [OF assms] and rt = replay_to_extents [OF assms, of vol ino ver now ids]
  let ?rows = "to_extents m vol ino ver now ids"
  have valid: "list_all (\<lambda>x. byte_extent_validate x = Inr ()) ?rows"
    using fc(1) by (auto simp: to_extents_def Let_def list_all_iff extent_of_interval_valid
        dest: set_zip_rightD)
  have "map (\<lambda>x. [be_start x..<be_start x + be_length x]) ?rows = map iv_span (filled_intervals m)"
    by (auto simp: to_extents_def Let_def iv_span_def extent_of_interval_def intro!: nth_equalityI)
  then have tile: "concat (map (\<lambda>x. [be_start x..<be_start x + be_length x]) ?rows) = [0..<file_size m]"
    using fc(2) by simp
  have "extent_inv (replay ?rows)"
    using assms tiling_wf [OF fc(1,2)] by (auto simp: extent_inv_def rt list_all_iff)
  moreover have "contents (replay ?rows) = contents m"
    using fc(3) by (simp add: contents_def rt)
  ultimately show ?thesis using valid tile rt by (simp add: Let_def)
qed

theorem extents_round_trip_witness:
  "contents (replay (to_extents (seed_base extent_map_default 3 7) 1 2 4 0 word_of_nat)) =
     [FromBase 7 0, FromBase 7 1, FromBase 7 2]"
proof -
  have b: "(3::nat) \<le> u64_max" by (simp add: u64_max_def)
  have "contents (seed_base extent_map_default 3 7) = [FromBase 7 0, FromBase 7 1, FromBase 7 2]"
    unfolding seed_base_correct(2) [OF b] by (simp add: upt_rec numeral_eq_Suc)
  then show ?thesis
    using extents_round_trip [OF seed_base_correct(1) [OF b], of 7 1 2 4 0 word_of_nat]
    by (simp add: Let_def)
qed

text \<open>The fast path that serves a file from its base pack alone is sound: whenever the map
  reports a plain base, every byte of the file is the same byte of one base pack (or the file has
  no interval and is all zeros), and no map is a plain base after a non-empty write or a truncation
  (as long as the version counter has not reached the largest 64-bit integer).\<close>

theorem plain_base_sound:
  assumes "extent_inv m" "0 \<le> version m" "version m < i64_max"
  shows "(is_plain_base m \<longrightarrow> (\<exists>h. contents m = map (FromBase h) [0..<file_size m]) \<or>
            (intervals m = [] \<and> contents m = replicate (file_size m) Zeros)) \<and>
    (\<forall>s len p off m'. 0 < len \<longrightarrow> write_at m s len p off = Inr m' \<longrightarrow> \<not> is_plain_base m') \<and>
    (\<forall>n m'. truncate m n = Inr m' \<longrightarrow> \<not> is_plain_base m')"
proof -
  have v: "i64_wrap (version m + 1) \<noteq> 0"
    using assms(2,3) by (simp add: i64_wrap_exact)
  have "(\<exists>h. contents m = map (FromBase h) [0..<file_size m]) \<or>
      (intervals m = [] \<and> contents m = replicate (file_size m) Zeros)" if "is_plain_base m"
    using that map_cong [OF refl, of "[0..<file_size m]" "denote []" "\<lambda>x. Zeros"]
    by (auto simp: is_plain_base_def contents_def covers_def map_replicate_const
        split: if_splits list.splits ExtentSource.splits)
  then show ?thesis
    using v by (auto simp: write_at_def truncate_def is_plain_base_def bind_result_eq_Inr)
qed

theorem plain_base_sound_witness:
  "is_plain_base (seed_base extent_map_default 3 7) \<and>
   (\<exists>m'. truncate (seed_base extent_map_default 3 7) 2 = Inr m' \<and> \<not> is_plain_base m')"
proof -
  let ?m = "seed_base extent_map_default 3 7"
  have b: "(3::nat) \<le> u64_max" by (simp add: u64_max_def)
  have v: "0 \<le> version ?m" "version ?m < i64_max"
    by (simp_all add: seed_base_def extent_map_default_def i64_max_def)
  have "is_plain_base ?m" by (simp add: seed_base_def extent_map_default_def is_plain_base_def)
  then show ?thesis
    using plain_base_sound [OF seed_base_correct(1) [OF b] v] by (simp add: truncate_def)
qed

end
