(* ===== verification/Ordered_Map.thy ===== *)
theory Ordered_Map
  imports Prelude
begin

text \<open>Ordered finite maps: the standard library's \<open>BTreeMap\<close> as an association list with strictly
  ascending keys, so that iteration order, length and lookup all compute.  A \<open>HashMap\<close> whose
  iteration order the source never observes is modelled by the same lists.  Lookup is \<open>map_of\<close>.\<close>

section \<open>Operations\<close>

fun bt_insert :: "'k::linorder \<Rightarrow> 'v \<Rightarrow> ('k \<times> 'v) list \<Rightarrow> ('k \<times> 'v) list" where
  "bt_insert k v [] = [(k, v)]"
| "bt_insert k v ((k', v') # m) =
     (if k < k' then (k, v) # (k', v') # m
      else if k = k' then (k, v) # m
      else (k', v') # bt_insert k v m)"

definition bt_remove :: "'k \<Rightarrow> ('k \<times> 'v) list \<Rightarrow> ('k \<times> 'v) list" where
  "bt_remove k m = filter (\<lambda>e. fst e \<noteq> k) m"

definition bt_modify :: "'k \<Rightarrow> ('v \<Rightarrow> 'v) \<Rightarrow> ('k \<times> 'v) list \<Rightarrow> ('k \<times> 'v) list" where
  "bt_modify k f m = map (\<lambda>e. if fst e = k then (k, f (snd e)) else e) m"

definition bt_keys :: "('k \<times> 'v) list \<Rightarrow> 'k set" where
  "bt_keys m = fst ` set m"

definition bt_wf :: "('k::linorder \<times> 'v) list \<Rightarrow> bool" where
  "bt_wf m \<longleftrightarrow> sorted_wrt (<) (map fst m)"

section \<open>Lookup\<close>

lemma bt_insert_lookup [simp]: "map_of (bt_insert k v m) = (map_of m)(k \<mapsto> v)"
  by (induction m) auto

lemma bt_remove_lookup [simp]: "map_of (bt_remove k m) = (map_of m)(k := None)"
  by (induction m) (auto simp: bt_remove_def)

lemma bt_modify_lookup [simp]:
  "map_of (bt_modify k f m) = (map_of m)(k := map_option f (map_of m k))"
  by (induction m) (auto simp: bt_modify_def)

lemma bt_keys_lookup: "x \<in> bt_keys m \<longleftrightarrow> map_of m x \<noteq> None"
  by (simp add: bt_keys_def map_of_eq_None_iff)

lemma bt_keys_dom: "bt_keys m = dom (map_of m)"
  by (auto simp: bt_keys_lookup)

lemma bt_keys_simps [simp]:
  "bt_keys [] = {}"
  "bt_keys (bt_insert k v m) = insert k (bt_keys m)"
  "bt_keys (bt_remove k m) = bt_keys m - {k}"
  "bt_keys (bt_modify k f m) = bt_keys m"
  by (auto simp: bt_keys_dom)

lemma bt_keys_finite [simp]: "finite (bt_keys m)"
  by (simp add: bt_keys_def)

lemma bt_entry_key: "(k, v) \<in> set m \<Longrightarrow> k \<in> bt_keys m"
  by (force simp: bt_keys_def)

section \<open>Well-formedness and size\<close>

lemma bt_wf_simps [simp]:
  "bt_wf []"
  "bt_wf ((k, v) # m) \<longleftrightarrow> (\<forall>x\<in>bt_keys m. k < x) \<and> bt_wf m"
  by (auto simp: bt_wf_def bt_keys_def)

lemma bt_insert_wf [simp]: "bt_wf m \<Longrightarrow> bt_wf (bt_insert k v m)"
proof (induction m)
  case (Cons e m)
  obtain k' v' where e: "e = (k', v')" by (cases e)
  have "bt_keys ((k', v') # m) = insert k' (bt_keys m)" by (simp add: bt_keys_def)
  then show ?case using Cons by (auto simp: e dest: order.strict_trans)
qed simp

lemma bt_remove_wf [simp]: "bt_wf m \<Longrightarrow> bt_wf (bt_remove k m)"
  by (simp add: bt_wf_def bt_remove_def sorted_wrt_map sorted_wrt_filter)

lemma bt_modify_wf [simp]: "bt_wf (bt_modify k f m) \<longleftrightarrow> bt_wf m"
proof -
  have "map fst (bt_modify k f m) = map fst m" by (auto simp: bt_modify_def)
  then show ?thesis by (simp add: bt_wf_def)
qed

lemma bt_wf_distinct: "bt_wf m \<Longrightarrow> distinct (map fst m)"
  by (simp add: bt_wf_def strict_sorted_iff)

lemma bt_wf_entry: "bt_wf m \<Longrightarrow> (k, v) \<in> set m \<longleftrightarrow> map_of m k = Some v"
  by (simp add: bt_wf_distinct)

lemma bt_card: "bt_wf m \<Longrightarrow> card (bt_keys m) = length m"
  unfolding bt_keys_def using bt_wf_distinct [of m]
  by (metis distinct_card length_map list.set_map)

lemma bt_modify_length [simp]: "length (bt_modify k f m) = length m"
  by (simp add: bt_modify_def)

lemma bt_insert_length:
  "bt_wf m \<Longrightarrow> length (bt_insert k v m) = (if k \<in> bt_keys m then length m else Suc (length m))"
  using bt_card [of "bt_insert k v m"] bt_card [of m] by (auto simp: insert_absorb)

lemma bt_remove_length:
  "bt_wf m \<Longrightarrow> length (bt_remove k m) = (if k \<in> bt_keys m then length m - 1 else length m)"
  using bt_card [of "bt_remove k m"] bt_card [of m] by auto

lemma bt_remove_length_le: "length (bt_remove k m) \<le> length m"
  by (simp add: bt_remove_def)

lemma bt_remove_length_less: "k \<in> bt_keys m \<Longrightarrow> length (bt_remove k m) < length m"
  unfolding bt_keys_def bt_remove_def by (auto intro!: length_filter_less)

text \<open>Two ordered maps with the same lookup are the same list.\<close>

lemma bt_ext:
  assumes "bt_wf m" "bt_wf n" "map_of m = map_of n"
  shows "m = n"
proof -
  have "set m = set n" using assms by (auto simp: bt_wf_entry [of m] bt_wf_entry [of n])
  then show ?thesis
    using assms by (intro map_sorted_distinct_set_unique [of fst])
      (auto simp: bt_wf_def strict_sorted_iff distinct_map inj_on_def bt_wf_entry [symmetric])
qed

end
