(* ===== verification/Policy_Core.thy ===== *)
theory Policy_Core
  imports Ordered_Map "HOL-Library.Product_Lexorder"
begin

text \<open>The cache replacement policies of \<open>mirage-cache/src/policy_core.rs\<close>: LRU, segmented LRU, the
  TinyLFU hybrid and 2Q, over one table of resident entries.  The table, the frequency history and
  the protected 2Q maps are ordered maps; the 2Q queues keep both their order and their membership
  set, as the source does.  Every operation returns the state it leaves behind together with its
  result, because a refused access in the source keeps the mutations it has made.  Hash sets are
  HOL sets.\<close>

section \<open>State\<close>

datatype PolicyKind = Lru | SegmentedLru | TinyLfuHybrid | TwoQ

datatype PolicyEvent = Access u64 bool bool | Pin u64 | Unpin u64 | Remove u64

datatype PolicyOutcome = Hit | Admitted "u64 option" | Rejected | Updated

record Entry =
  last_tick :: u64
  frequency :: u32
  prefetched_unused :: bool
  pinned :: bool

record TwoQQueues =
  a1in :: "u64 list"
  a1in_set :: "u64 set"
  a1out :: "u64 list"
  a1out_set :: "u64 set"
  am_order :: "(u64 \<times> u64) list"
  am_index :: "(u64 \<times> u64) list"

record PolicyCore =
  kind :: PolicyKind
  capacity :: nat
  clock :: u64
  entries :: "(u64 \<times> Entry) list"
  history :: "(u64 \<times> u32) list"
  twoq :: "TwoQQueues option"

section \<open>Operations\<close>

definition twoq_default :: TwoQQueues where
  "twoq_default = \<lparr>a1in = [], a1in_set = {}, a1out = [], a1out_set = {}, am_order = [], am_index = []\<rparr>"

definition drop_id :: "TwoQQueues \<Rightarrow> u64 \<Rightarrow> TwoQQueues" where
  "drop_id q x =
     (let q1 = q\<lparr>a1in_set := a1in_set q - {x}, a1in := filter (\<lambda>e. e \<noteq> x) (a1in q),
                a1out_set := a1out_set q - {x}, a1out := filter (\<lambda>e. e \<noteq> x) (a1out q)\<rparr>
      in case map_of (am_index q1) x of
           Some tick \<Rightarrow> q1\<lparr>am_index := bt_remove x (am_index q1), am_order := bt_remove tick (am_order q1)\<rparr>
         | None \<Rightarrow> q1)"

fun ghost_trim :: "nat \<Rightarrow> u64 list \<Rightarrow> u64 set \<Rightarrow> u64 list \<times> u64 set" where
  "ghost_trim bound [] s = ([], s)"
| "ghost_trim bound (x # xs) s =
     (if length (x # xs) > bound then ghost_trim bound xs (s - {x}) else (x # xs, s))"

definition ghost :: "TwoQQueues \<Rightarrow> u64 \<Rightarrow> nat \<Rightarrow> TwoQQueues" where
  "ghost q x bound =
     (let (xs, s) = ghost_trim bound (a1out q @ [x]) (insert x (a1out_set q))
      in q\<lparr>a1out := xs, a1out_set := s\<rparr>)"

definition policy_new :: "PolicyKind \<Rightarrow> nat \<Rightarrow> PolicyCore result" where
  "policy_new k cap =
     (if cap = 0 then Inl InvalidArgument
      else Inr \<lparr>kind = k, capacity = cap, clock = 0, entries = [], history = [],
                twoq = (if k = TwoQ then Some twoq_default else None)\<rparr>)"

definition is_pinned :: "(u64 \<times> Entry) list \<Rightarrow> u64 \<Rightarrow> bool" where
  "is_pinned es x = (case map_of es x of Some e \<Rightarrow> pinned e | None \<Rightarrow> False)"

text \<open>The removal of a probationary victim at the first position that qualifies.\<close>

definition evict_probationary ::
  "nat \<Rightarrow> u64 \<Rightarrow> (u64 \<times> Entry) list \<Rightarrow> TwoQQueues \<Rightarrow> (u64 \<times> (u64 \<times> Entry) list \<times> TwoQQueues) option" where
  "evict_probationary cap exclude es q =
     (case List.extract (\<lambda>c. c \<noteq> exclude \<and> \<not> is_pinned es c) (a1in q) of
        Some (before, victim, after) \<Rightarrow>
          Some (victim, bt_remove victim es,
                ghost (q\<lparr>a1in := before @ after, a1in_set := a1in_set q - {victim}\<rparr>) victim cap)
      | None \<Rightarrow> None)"

definition twoq_evict_one ::
  "nat \<Rightarrow> u64 \<Rightarrow> bool \<Rightarrow> (u64 \<times> Entry) list \<Rightarrow> TwoQQueues \<Rightarrow> (u64 \<times> (u64 \<times> Entry) list \<times> TwoQQueues) option" where
  "twoq_evict_one cap exclude prefer_probationary es q =
     (case (if prefer_probationary then evict_probationary cap exclude es q else None) of
        Some r \<Rightarrow> Some r
      | None \<Rightarrow>
          (case List.find (\<lambda>(tick, c). c \<noteq> exclude \<and> \<not> is_pinned es c) (am_order q) of
             Some (tick, victim) \<Rightarrow>
               Some (victim, bt_remove victim es,
                     q\<lparr>am_order := bt_remove tick (am_order q), am_index := bt_remove victim (am_index q)\<rparr>)
           | None \<Rightarrow> evict_probationary cap exclude es q))"

lemma ghost_queues [simp]:
  "a1in (ghost q x b) = a1in q" "a1in_set (ghost q x b) = a1in_set q"
  "am_order (ghost q x b) = am_order q" "am_index (ghost q x b) = am_index q"
  by (simp_all add: ghost_def split: prod.splits)

lemma evict_probationary_Some:
  "evict_probationary cap x es q = Some (v, es', q') \<Longrightarrow>
   \<exists>before after. a1in q = before @ v # after \<and> v \<noteq> x \<and> \<not> is_pinned es v \<and> es' = bt_remove v es \<and>
      q' = ghost (q\<lparr>a1in := before @ after, a1in_set := a1in_set q - {v}\<rparr>) v cap"
  by (auto simp: evict_probationary_def extract_Some_iff split: option.splits prod.splits)

lemma evict_probationary_None:
  "evict_probationary cap x es q = None \<longleftrightarrow> (\<forall>c\<in>set (a1in q). c = x \<or> is_pinned es c)"
  by (auto simp: evict_probationary_def extract_None_iff split: option.splits prod.splits)
    (auto simp: extract_Some_iff)

definition am_victim :: "u64 \<Rightarrow> (u64 \<times> Entry) list \<Rightarrow> TwoQQueues \<Rightarrow> (u64 \<times> u64) option" where
  "am_victim x es q = List.find (\<lambda>(tick, c). c \<noteq> x \<and> \<not> is_pinned es c) (am_order q)"

lemma am_victim_Some:
  "am_victim x es q = Some (tick, v) \<Longrightarrow> (tick, v) \<in> set (am_order q) \<and> v \<noteq> x \<and> \<not> is_pinned es v"
  unfolding am_victim_def by (induction "am_order q") (auto simp: find_Some_iff in_set_conv_nth)

lemma am_victim_None:
  "am_victim x es q = None \<longleftrightarrow> (\<forall>(tick, c)\<in>set (am_order q). c = x \<or> is_pinned es c)"
  by (auto simp: am_victim_def find_None_iff)

lemma twoq_evict_one_cases:
  assumes "twoq_evict_one cap x pp es q = Some (v, es', q')"
  obtains (probationary) "evict_probationary cap x es q = Some (v, es', q')"
      "pp \<or> am_victim x es q = None"
    | (protected) tick where "am_victim x es q = Some (tick, v)" "es' = bt_remove v es"
      "q' = q\<lparr>am_order := bt_remove tick (am_order q), am_index := bt_remove v (am_index q)\<rparr>"
      "pp \<Longrightarrow> evict_probationary cap x es q = None"
  using assms
  by (auto simp: twoq_evict_one_def am_victim_def [symmetric] split: if_splits option.splits)

lemma twoq_evict_one_None:
  "twoq_evict_one cap x pp es q = None \<longleftrightarrow>
   evict_probationary cap x es q = None \<and> am_victim x es q = None"
  by (auto simp: twoq_evict_one_def am_victim_def [symmetric] split: if_splits option.splits)

lemma twoq_evict_one_shrinks:
  assumes "twoq_evict_one cap x pp es q = Some (v, es', q')"
  shows "length (a1in q') + length (am_order q') < length (a1in q) + length (am_order q)"
  using assms
proof (cases rule: twoq_evict_one_cases)
  case probationary
  then show ?thesis by (auto dest!: evict_probationary_Some)
next
  case (protected tick)
  then have "tick \<in> bt_keys (am_order q)" by (auto dest!: am_victim_Some bt_entry_key)
  with protected show ?thesis by (simp add: bt_remove_length_less)
qed

function twoq_evict_loop ::
  "nat \<Rightarrow> u64 \<Rightarrow> (u64 \<times> Entry) list \<Rightarrow> TwoQQueues \<Rightarrow> u64 option
     \<Rightarrow> bool \<times> u64 option \<times> (u64 \<times> Entry) list \<times> TwoQQueues" where
  "twoq_evict_loop cap x es q evicted =
     (let probationary = length (a1in q);
          total = length (a1in q) + length (am_index q);
          probationary_bound = max (cap div 4) 1
      in if probationary \<le> probationary_bound \<and> total \<le> cap then (True, evicted, es, q)
         else (case twoq_evict_one cap x (probationary > probationary_bound) es q of
                 None \<Rightarrow> (False, evicted, bt_remove x es, drop_id q x)
               | Some (victim, es', q') \<Rightarrow> twoq_evict_loop cap x es' q' (Some victim)))"
  by pat_completeness auto
termination
  by (relation "measure (\<lambda>(cap, x, es, q, ev). length (a1in q) + length (am_order q))")
    (auto dest: twoq_evict_one_shrinks)

declare twoq_evict_loop.simps [simp del]

definition touch_entry :: "u64 \<Rightarrow> u32 \<Rightarrow> Entry \<Rightarrow> Entry" where
  "touch_entry tick freq e = e\<lparr>last_tick := tick, frequency := freq, prefetched_unused := False\<rparr>"

definition access_twoq ::
  "PolicyCore \<Rightarrow> u64 \<Rightarrow> bool \<Rightarrow> u32 \<Rightarrow> PolicyCore \<times> PolicyOutcome run" where
  "access_twoq p x prefetched incoming_frequency =
     (case twoq p of
        None \<Rightarrow> (p, Inl Panic)
      | Some q \<Rightarrow>
          let tick = clock p in
          case map_of (am_index q) x of
            Some old \<Rightarrow>
              (p\<lparr>twoq := Some (q\<lparr>am_order := bt_insert tick x (bt_remove old (am_order q)),
                                 am_index := bt_insert x tick (am_index q)\<rparr>),
                 entries := bt_modify x (touch_entry tick incoming_frequency) (entries p)\<rparr>, Inr Hit)
          | None \<Rightarrow>
              if x \<in> a1in_set q then
                (p\<lparr>twoq := Some (q\<lparr>a1in_set := a1in_set q - {x},
                                   a1in := filter (\<lambda>e. e \<noteq> x) (a1in q),
                                   am_index := bt_insert x tick (am_index q),
                                   am_order := bt_insert tick x (am_order q)\<rparr>),
                   entries := bt_modify x (touch_entry tick incoming_frequency) (entries p)\<rparr>, Inr Hit)
              else
                let q1 = (if x \<in> a1out_set q
                          then q\<lparr>a1out_set := a1out_set q - {x},
                                 a1out := filter (\<lambda>e. e \<noteq> x) (a1out q),
                                 am_index := bt_insert x tick (am_index q),
                                 am_order := bt_insert tick x (am_order q)\<rparr>
                          else q\<lparr>a1in := a1in q @ [x], a1in_set := insert x (a1in_set q)\<rparr>);
                    es1 = bt_insert x \<lparr>last_tick = tick, frequency = incoming_frequency,
                             prefetched_unused = prefetched, pinned = False\<rparr> (entries p);
                    (ok, evicted, es2, q2) = twoq_evict_loop (capacity p) x es1 q1 None
                in (p\<lparr>entries := es2, twoq := Some q2\<rparr>,
                    if ok then Inr (Admitted evicted) else Inl (Err CacheFull)))"

text \<open>The ranking that selects a victim outside 2Q: smallest first.\<close>

definition victim_rank :: "PolicyKind \<Rightarrow> u64 \<times> Entry \<Rightarrow> nat \<times> nat \<times> nat \<times> nat" where
  "victim_rank k e =
     (if k = SegmentedLru \<and> prefetched_unused (snd e) then 0 else 1,
      if k = TinyLfuHybrid then frequency (snd e) else 0,
      last_tick (snd e), fst e)"

definition candidate :: "PolicyCore \<Rightarrow> (u64 \<times> Entry) option" where
  "candidate p =
     (case filter (\<lambda>e. \<not> pinned (snd e)) (entries p) of
        [] \<Rightarrow> None
      | cs \<Rightarrow> Some (arg_min_list (victim_rank (kind p)) cs))"

definition admit :: "PolicyCore \<Rightarrow> u64 \<Rightarrow> u32 \<Rightarrow> bool \<Rightarrow> u64 option \<Rightarrow> PolicyCore \<times> PolicyOutcome run" where
  "admit p x freq prefetched evicted =
     (p\<lparr>entries := bt_insert x \<lparr>last_tick = clock p, frequency = freq,
          prefetched_unused = prefetched, pinned = False\<rparr> (entries p)\<rparr>, Inr (Admitted evicted))"

text \<open>The part of \<open>access\<close> that serves the policies without queues.\<close>

definition access_table :: "PolicyCore \<Rightarrow> u64 \<Rightarrow> bool \<Rightarrow> bool \<Rightarrow> u32 \<Rightarrow> PolicyCore \<times> PolicyOutcome run" where
  "access_table p x blocking prefetched freq =
     (if x \<in> bt_keys (entries p) then
        (p\<lparr>entries := bt_modify x (touch_entry (clock p) freq) (entries p)\<rparr>, Inr Hit)
      else if length (entries p) = capacity p then
        (case candidate p of
           None \<Rightarrow> (p, Inl (Err CacheFull))
         | Some (v, e) \<Rightarrow>
             if kind p = TinyLfuHybrid \<and> \<not> blocking \<and> freq \<le> frequency e
             then (p, Inr Rejected)
             else admit (p\<lparr>entries := bt_remove v (entries p)\<rparr>) x freq prefetched (Some v))
      else admit p x freq prefetched None)"

definition access :: "PolicyCore \<Rightarrow> u64 \<Rightarrow> bool \<Rightarrow> bool \<Rightarrow> PolicyCore \<times> PolicyOutcome run" where
  "access p0 x blocking prefetched =
     (let freq = saturating_add32 (case map_of (history p0) x of Some f \<Rightarrow> f | None \<Rightarrow> 0) 1;
          p = p0\<lparr>history := bt_insert x freq (history p0)\<rparr>
      in if kind p = TwoQ then access_twoq p x prefetched freq
         else access_table p x blocking prefetched freq)"

definition policy_apply :: "PolicyCore \<Rightarrow> PolicyEvent \<Rightarrow> PolicyCore \<times> PolicyOutcome run" where
  "policy_apply p0 event =
     (let p = p0\<lparr>clock := saturating_add64 (clock p0) 1\<rparr>
      in case event of
           Pin x \<Rightarrow> (p\<lparr>entries := bt_modify x (pinned_update (\<lambda>_. True)) (entries p)\<rparr>, Inr Updated)
         | Unpin x \<Rightarrow> (p\<lparr>entries := bt_modify x (pinned_update (\<lambda>_. False)) (entries p)\<rparr>, Inr Updated)
         | Remove x \<Rightarrow>
             (p\<lparr>entries := bt_remove x (entries p),
                twoq := map_option (\<lambda>q. drop_id q x) (twoq p)\<rparr>, Inr Updated)
         | Access x blocking prefetched \<Rightarrow> access p x blocking prefetched)"

definition residents :: "PolicyCore \<Rightarrow> u64 list" where
  "residents p = map fst (entries p)"

section \<open>Invariant\<close>

definition resident_set :: "PolicyCore \<Rightarrow> u64 set" where
  "resident_set p = set (residents p)"

definition pinned_set :: "PolicyCore \<Rightarrow> u64 set" where
  "pinned_set p = {x. is_pinned (entries p) x}"

text \<open>The queues and the table describe one residency: probationary and protected ids are disjoint,
  together they are the table's keys, no resident is also a ghost, and the two protected maps are
  inverse to each other with ticks of the past.\<close>

definition inverse_maps :: "('a \<times> 'b) list \<Rightarrow> ('b \<times> 'a) list \<Rightarrow> bool" where
  "inverse_maps m n \<longleftrightarrow> (\<forall>a b. map_of m a = Some b \<longleftrightarrow> map_of n b = Some a)"

lemma inverse_maps_lookup: "inverse_maps m n \<Longrightarrow> map_of m a = Some b \<longleftrightarrow> map_of n b = Some a"
  by (simp add: inverse_maps_def)

lemma inverse_maps_remove:
  "inverse_maps m n \<Longrightarrow> map_of n b = Some a \<Longrightarrow> inverse_maps (bt_remove a m) (bt_remove b n)"
  unfolding inverse_maps_def by (auto split: if_splits) (metis option.inject)+

lemma inverse_maps_insert:
  "inverse_maps m n \<Longrightarrow> a \<notin> bt_keys m \<Longrightarrow> b \<notin> bt_keys n \<Longrightarrow>
   inverse_maps (bt_insert a b m) (bt_insert b a n)"
  by (auto simp: inverse_maps_def bt_keys_lookup)

lemma inverse_maps_move:
  "inverse_maps m n \<Longrightarrow> map_of n b = Some a \<Longrightarrow> a' \<notin> bt_keys m \<Longrightarrow>
   inverse_maps (bt_insert a' b (bt_remove a m)) (bt_insert b a' n)"
  unfolding inverse_maps_def bt_keys_lookup
  by (auto split: if_splits) (metis option.inject option.distinct(1))+

definition twoq_wf :: "u64 \<Rightarrow> (u64 \<times> Entry) list \<Rightarrow> TwoQQueues \<Rightarrow> bool" where
  "twoq_wf now es q \<longleftrightarrow>
     bt_wf es \<and> bt_wf (am_order q) \<and> bt_wf (am_index q) \<and>
     distinct (a1in q) \<and> a1in_set q = set (a1in q) \<and>
     distinct (a1out q) \<and> a1out_set q = set (a1out q) \<and>
     inverse_maps (am_order q) (am_index q) \<and>
     (\<forall>t\<in>bt_keys (am_order q). t \<le> now) \<and>
     bt_keys es = set (a1in q) \<union> bt_keys (am_index q) \<and>
     set (a1in q) \<inter> bt_keys (am_index q) = {} \<and> set (a1out q) \<inter> bt_keys es = {}"

definition twoq_bounds :: "nat \<Rightarrow> TwoQQueues \<Rightarrow> bool" where
  "twoq_bounds cap q \<longleftrightarrow>
     length (a1in q) \<le> max (cap div 4) 1 \<and> length (a1in q) + length (am_index q) \<le> cap"

definition policy_inv :: "PolicyCore \<Rightarrow> bool" where
  "policy_inv p \<longleftrightarrow>
     0 < capacity p \<and> bt_wf (entries p) \<and> length (entries p) \<le> capacity p \<and>
     (kind p = TwoQ \<longrightarrow> (\<exists>q. twoq p = Some q \<and> twoq_wf (clock p) (entries p) q \<and>
        twoq_bounds (capacity p) q)) \<and>
     (kind p \<noteq> TwoQ \<longrightarrow> twoq p = None)"

lemma is_pinned_simps [simp]:
  "is_pinned (bt_remove v es) x \<longleftrightarrow> x \<noteq> v \<and> is_pinned es x"
  "is_pinned (bt_insert v e es) x \<longleftrightarrow> (if x = v then pinned e else is_pinned es x)"
  "is_pinned (bt_modify v (touch_entry t f) es) x \<longleftrightarrow> is_pinned es x"
  by (auto simp: is_pinned_def touch_entry_def split: option.splits)

lemma is_pinned_resident: "is_pinned es x \<Longrightarrow> x \<in> bt_keys es"
  by (auto simp: is_pinned_def bt_keys_lookup split: option.splits)

lemma twoq_wf_length:
  assumes "twoq_wf now es q"
  shows "length es = length (a1in q) + length (am_index q)"
proof -
  have "card (bt_keys es) = card (set (a1in q)) + card (bt_keys (am_index q))"
    using assms by (simp add: twoq_wf_def card_Un_disjoint)
  moreover have "card (bt_keys es) = length es" "card (bt_keys (am_index q)) = length (am_index q)"
      "card (set (a1in q)) = length (a1in q)"
    using assms unfolding twoq_wf_def by (blast intro: bt_card distinct_card)+
  ultimately show ?thesis by simp
qed

lemma ghost_trim_subset:
  "distinct xs \<Longrightarrow> ghost_trim b xs (set xs) = (ys, s) \<Longrightarrow> distinct ys \<and> s = set ys \<and> set ys \<subseteq> set xs"
proof (induction xs)
  case (Cons x xs)
  then have "set (x # xs) - {x} = set xs" by auto
  with Cons show ?case by (auto split: if_splits)
qed simp

lemma ghost_wf:
  assumes "distinct (a1out q)" "a1out_set q = set (a1out q)" "x \<notin> set (a1out q)"
  shows "distinct (a1out (ghost q x b))" "a1out_set (ghost q x b) = set (a1out (ghost q x b))"
    "set (a1out (ghost q x b)) \<subseteq> insert x (set (a1out q))"
proof -
  obtain ys s where g: "ghost_trim b (a1out q @ [x]) (insert x (a1out_set q)) = (ys, s)" by fastforce
  have "distinct (a1out q @ [x])" "insert x (a1out_set q) = set (a1out q @ [x])"
    using assms by simp_all
  from ghost_trim_subset [OF this(1), of b ys s] g this(2)
  have "distinct ys \<and> s = set ys \<and> set ys \<subseteq> insert x (set (a1out q))" by simp
  then show "distinct (a1out (ghost q x b))" "a1out_set (ghost q x b) = set (a1out (ghost q x b))"
    "set (a1out (ghost q x b)) \<subseteq> insert x (set (a1out q))"
    by (simp_all add: ghost_def g)
qed

lemma am_index_unique:
  "twoq_wf now es q \<Longrightarrow> (t, i) \<in> set (am_order q) \<longleftrightarrow> map_of (am_index q) i = Some t"
  by (simp add: twoq_wf_def bt_wf_entry inverse_maps_lookup)

text \<open>What one eviction does to a well-formed state.\<close>

lemma probationary_removal_wf:
  assumes wf: "twoq_wf now es q" and a: "a1in q = before @ v # after"
  shows "twoq_wf now (bt_remove v es)
           (ghost (q\<lparr>a1in := before @ after, a1in_set := a1in_set q - {v}\<rparr>) v cap)"
proof -
  let ?q = "q\<lparr>a1in := before @ after, a1in_set := a1in_set q - {v}\<rparr>"
  note w = wf [unfolded twoq_wf_def]
  have out: "v \<notin> set (a1out q)" and d: "v \<notin> set before" "v \<notin> set after"
    and notam: "v \<notin> bt_keys (am_index q)" using w a by auto
  have keys: "bt_keys (bt_remove v es) = set (before @ after) \<union> bt_keys (am_index q)"
    using w a d notam by auto
  have g: "distinct (a1out (ghost ?q v cap))" "a1out_set (ghost ?q v cap) = set (a1out (ghost ?q v cap))"
    "set (a1out (ghost ?q v cap)) \<subseteq> insert v (set (a1out q))"
    using ghost_wf [of ?q v cap] w out by simp_all
  have "set (a1out (ghost ?q v cap)) \<inter> bt_keys (bt_remove v es) = {}"
    using g(3) w by (auto simp del: bt_keys_simps(3)) (auto simp: keys d notam)
  then show ?thesis
    unfolding twoq_wf_def using w a d g keys by (simp add: Int_Un_distrib2)
qed

lemma protected_removal_wf:
  assumes wf: "twoq_wf now es q" and v: "map_of (am_index q) v = Some tick"
  shows "twoq_wf now (bt_remove v es)
           (q\<lparr>am_order := bt_remove tick (am_order q), am_index := bt_remove v (am_index q)\<rparr>)"
proof -
  note w = wf [unfolded twoq_wf_def]
  have "v \<notin> set (a1in q)" using w v by (auto simp: bt_keys_lookup)
  then have "bt_keys (bt_remove v es) = set (a1in q) \<union> bt_keys (bt_remove v (am_index q))"
    using w by auto
  moreover have "set (a1out q) \<inter> bt_keys (bt_remove v es) = {}"
    "set (a1in q) \<inter> bt_keys (bt_remove v (am_index q)) = {}" using w by auto
  ultimately show ?thesis
    unfolding twoq_wf_def using w v by (simp add: inverse_maps_remove)
qed

lemma evict_one_wf:
  assumes wf: "twoq_wf now es q" and ev: "twoq_evict_one cap x pp es q = Some (v, es', q')"
  shows "twoq_wf now es' q' \<and> es' = bt_remove v es \<and> v \<noteq> x \<and> v \<in> bt_keys es \<and> \<not> is_pinned es v"
  using ev
proof (cases rule: twoq_evict_one_cases)
  case probationary
  then obtain before after where "a1in q = before @ v # after"
    "v \<noteq> x" "\<not> is_pinned es v" "es' = bt_remove v es"
    "q' = ghost (q\<lparr>a1in := before @ after, a1in_set := a1in_set q - {v}\<rparr>) v cap"
    by (auto dest!: evict_probationary_Some)
  moreover from this have "v \<in> bt_keys es" using wf by (simp add: twoq_wf_def)
  ultimately show ?thesis using probationary_removal_wf [OF wf] by simp
next
  case (protected tick)
  then have v: "map_of (am_index q) v = Some tick" "v \<noteq> x" "\<not> is_pinned es v"
    using am_victim_Some [of x es q tick v] am_index_unique [OF wf] by auto
  then have "v \<in> bt_keys es" using wf by (simp add: twoq_wf_def bt_keys_lookup)
  then show ?thesis using protected v protected_removal_wf [OF wf v(1)] by simp
qed

lemma drop_id_wf:
  assumes wf: "twoq_wf now es q"
  shows "twoq_wf now (bt_remove x es) (drop_id q x)"
proof -
  note w = wf [unfolded twoq_wf_def]
  show ?thesis
  proof (cases "map_of (am_index q) x")
    case None
    then have x: "x \<notin> bt_keys (am_index q)" by (simp add: bt_keys_lookup)
    have "bt_keys (bt_remove x es) = set (filter (\<lambda>e. e \<noteq> x) (a1in q)) \<union> bt_keys (am_index q)"
      "set (filter (\<lambda>e. e \<noteq> x) (a1in q)) \<inter> bt_keys (am_index q) = {}"
      "set (filter (\<lambda>e. e \<noteq> x) (a1out q)) \<inter> bt_keys (bt_remove x es) = {}"
      "set (a1in q) - {x} = set (filter (\<lambda>e. e \<noteq> x) (a1in q))"
      "set (a1out q) - {x} = set (filter (\<lambda>e. e \<noteq> x) (a1out q))"
      using w x by auto
    then show ?thesis unfolding twoq_wf_def drop_id_def Let_def using None w by simp
  next
    case (Some t)
    then have x: "x \<in> bt_keys (am_index q)" "x \<notin> set (a1in q)" "x \<notin> set (a1out q)"
      using w by (auto simp: bt_keys_lookup)
    then have "filter (\<lambda>e. e \<noteq> x) (a1in q) = a1in q" "filter (\<lambda>e. e \<noteq> x) (a1out q) = a1out q"
      "a1in_set q - {x} = a1in_set q" "a1out_set q - {x} = a1out_set q"
      using w by (auto intro: filter_True)
    then have "drop_id q x =
        q\<lparr>am_order := bt_remove t (am_order q), am_index := bt_remove x (am_index q)\<rparr>"
      using Some by (simp add: drop_id_def Let_def)
    then show ?thesis using protected_removal_wf [OF wf Some] by simp
  qed
qed

lemma twoq_unpinned_victim:
  assumes wf: "twoq_wf now es q" and none: "twoq_evict_one cap x pp es q = None"
    and y: "y \<in> bt_keys es" "y \<noteq> x"
  shows "is_pinned es y"
proof (cases "y \<in> set (a1in q)")
  case True
  then show ?thesis using none y(2) by (auto simp: twoq_evict_one_None evict_probationary_None)
next
  case False
  then obtain t where "map_of (am_index q) y = Some t"
    using wf y by (auto simp: twoq_wf_def bt_keys_lookup)
  then have "(t, y) \<in> set (am_order q)" using am_index_unique [OF wf] by simp
  then show ?thesis using none y(2) by (auto simp: twoq_evict_one_None am_victim_None)
qed

definition over_probation :: "nat \<Rightarrow> TwoQQueues \<Rightarrow> bool" where
  "over_probation cap q \<longleftrightarrow> max (cap div 4) 1 < length (a1in q)"

lemma evict_loop_steps:
  "twoq_bounds cap q \<Longrightarrow> twoq_evict_loop cap x es q ev = (True, ev, es, q)"
  "\<not> twoq_bounds cap q \<Longrightarrow> twoq_evict_one cap x (over_probation cap q) es q = None \<Longrightarrow>
   twoq_evict_loop cap x es q ev = (False, ev, bt_remove x es, drop_id q x)"
  "\<not> twoq_bounds cap q \<Longrightarrow> twoq_evict_one cap x (over_probation cap q) es q = Some (v, es1, q1) \<Longrightarrow>
   twoq_evict_loop cap x es q ev = twoq_evict_loop cap x es1 q1 (Some v)"
  by (auto simp: twoq_evict_loop.simps [of cap x es q ev] twoq_bounds_def over_probation_def Let_def
      simp del: max.bounded_iff max_less_iff_conj)

lemma evict_loop_induct:
  assumes "\<And>es q ev. (\<And>v es1 q1. \<not> twoq_bounds cap q \<Longrightarrow>
      twoq_evict_one cap x (over_probation cap q) es q = Some (v, es1, q1) \<Longrightarrow> P es1 q1 (Some v)) \<Longrightarrow> P es q ev"
  shows "P es q ev"
proof (induction "length (a1in q) + length (am_order q)" arbitrary: es q ev rule: less_induct)
  case less
  show ?case using less twoq_evict_one_shrinks by (blast intro: assms)
qed

text \<open>The eviction loop only removes unpinned residents other than the incoming one, never
  rewrites an entry, and gives up only when nothing but pinned residents is left.\<close>

definition loop_result ::
  "u64 \<Rightarrow> nat \<Rightarrow> u64 \<Rightarrow> (u64 \<times> Entry) list \<Rightarrow> bool \<times> u64 option \<times> (u64 \<times> Entry) list \<times> TwoQQueues \<Rightarrow> bool" where
  "loop_result now cap x es r \<longleftrightarrow> (case r of (ok, ev, es', q') \<Rightarrow>
     twoq_wf now es' q' \<and> (\<forall>y. map_of es' y = None \<or> map_of es' y = map_of es y) \<and>
     {y. is_pinned es y} \<subseteq> bt_keys es' \<and>
     (if ok then twoq_bounds cap q' \<and> x \<in> bt_keys es' else bt_keys es' = {y. is_pinned es y}))"

lemma loop_result_removed:
  assumes "loop_result now cap x (bt_remove v es) r" "\<not> is_pinned es v"
  shows "loop_result now cap x es r"
proof -
  have pins: "{y. is_pinned (bt_remove v es) y} = {y. is_pinned es y}"
    using assms(2) by auto
  show ?thesis
    using assms(1) unfolding loop_result_def pins by (auto split: prod.splits if_splits)
qed

lemma evict_loop_correct:
  "twoq_wf now es q \<Longrightarrow> x \<in> bt_keys es \<Longrightarrow> \<not> is_pinned es x \<Longrightarrow>
   loop_result now cap x es (twoq_evict_loop cap x es q ev)"
proof (induction es q ev rule: evict_loop_induct [where cap = cap and x = x])
  case (1 es q ev)
  show ?case
  proof (cases "twoq_bounds cap q")
    case True
    then show ?thesis
      using 1(2,3) by (auto simp: loop_result_def evict_loop_steps dest: is_pinned_resident)
  next
    case over: False
    show ?thesis
    proof (cases "twoq_evict_one cap x (over_probation cap q) es q")
      case None
      have "bt_keys es - {x} = {y. is_pinned es y}"
        using twoq_unpinned_victim [OF 1(2) None] 1(4) by (auto dest: is_pinned_resident)
      then show ?thesis
        using drop_id_wf [OF 1(2), of x] by (simp add: loop_result_def evict_loop_steps(2) [OF over None])
    next
      case (Some r)
      obtain v es1 q1 where r: "r = (v, es1, q1)" by (cases r)
      note e = evict_one_wf [OF 1(2) Some [unfolded r]]
      have "loop_result now cap x (bt_remove v es) (twoq_evict_loop cap x es1 q1 (Some v))"
        using 1(1) [OF over Some [unfolded r]] e 1(3,4) by auto
      then show ?thesis
        using loop_result_removed e by (simp add: evict_loop_steps(3) [OF over Some [unfolded r]])
    qed
  qed
qed

text \<open>Once the probationary queue is over its bound and holds only the incoming id and pinned ids,
  the loop cannot succeed.\<close>

lemma evict_loop_stuck:
  "evict_probationary cap x es q = None \<Longrightarrow> over_probation cap q \<Longrightarrow>
   \<not> fst (twoq_evict_loop cap x es q ev)"
proof (induction es q ev rule: evict_loop_induct [where cap = cap and x = x])
  case (1 es q ev)
  have over: "\<not> twoq_bounds cap q" using 1(3) by (auto simp: over_probation_def twoq_bounds_def)
  show ?case
  proof (cases "twoq_evict_one cap x (over_probation cap q) es q")
    case None
    then show ?thesis using over by (simp add: evict_loop_steps)
  next
    case (Some r)
    obtain v es1 q1 where r: "r = (v, es1, q1)" by (cases r)
    from Some [unfolded r] have "es1 = bt_remove v es \<and> a1in q1 = a1in q \<and> \<not> is_pinned es v"
      by (cases rule: twoq_evict_one_cases) (use 1(2) in \<open>auto dest: am_victim_Some\<close>)
    then have "evict_probationary cap x es1 q1 = None" "over_probation cap q1"
      using 1(2,3) by (auto simp: evict_probationary_None over_probation_def)
    then show ?thesis
      using 1(1) [OF over Some [unfolded r]] by (simp add: evict_loop_steps(3) [OF over Some [unfolded r]])
  qed
qed

lemma evict_loop_probationary:
  "twoq_evict_loop cap x es q ev = (ok, ev', es', q') \<Longrightarrow> set (a1in q') \<subseteq> set (a1in q)"
proof (induction es q ev rule: evict_loop_induct [where cap = cap and x = x])
  case (1 es q ev)
  show ?case
  proof (cases "twoq_bounds cap q")
    case True
    then show ?thesis using 1(2) by (simp add: evict_loop_steps)
  next
    case over: False
    show ?thesis
    proof (cases "twoq_evict_one cap x (over_probation cap q) es q")
      case None
      then show ?thesis
        using 1(2) over by (auto simp: evict_loop_steps drop_id_def Let_def split: option.splits)
    next
      case (Some r)
      obtain v es1 q1 where r: "r = (v, es1, q1)" by (cases r)
      from Some [unfolded r] have "set (a1in q1) \<subseteq> set (a1in q)"
        by (cases rule: twoq_evict_one_cases) (auto dest!: evict_probationary_Some)
      then show ?thesis
        using 1(1) [OF over Some [unfolded r]] 1(2) evict_loop_steps(3) [OF over Some [unfolded r]] by auto
    qed
  qed
qed

text \<open>When the state was within its bounds before the incoming id was added, one eviction, of a
  probationary id if the probationary queue is over its bound, restores them: success takes at
  most one eviction, and failure means there was none to make.\<close>

lemma evict_one_bounds:
  assumes wf: "twoq_wf now es q"
    and near: "length (a1in q) \<le> Suc (max (cap div 4) 1)" "length (a1in q) + length (am_index q) \<le> Suc cap"
    and e: "twoq_evict_one cap x (over_probation cap q) es q = Some (v, es1, q1)"
    and prob: "over_probation cap q \<Longrightarrow> evict_probationary cap x es q \<noteq> None"
  shows "twoq_bounds cap q1"
proof -
  note w = evict_one_wf [OF wf e]
  have len: "length es1 = length es - 1"
    using w wf by (simp add: twoq_wf_def bt_remove_length)
  have a1: "length (a1in q1) \<le> length (a1in q) - (if over_probation cap q then 1 else 0)"
    using e prob by (cases rule: twoq_evict_one_cases) (auto dest!: evict_probationary_Some)
  show ?thesis
    using near len a1 twoq_wf_length [OF wf] twoq_wf_length [of now es1 q1] w
    by (auto simp: twoq_bounds_def over_probation_def split: if_splits)
qed

lemma evict_loop_succeeds:
  assumes wf: "twoq_wf now es q"
    and near: "length (a1in q) \<le> Suc (max (cap div 4) 1)" "length (a1in q) + length (am_index q) \<le> Suc cap"
  shows "fst (twoq_evict_loop cap x es q None) \<longleftrightarrow> twoq_bounds cap q \<or>
    (\<exists>y\<in>(if over_probation cap q then set (a1in q) else bt_keys es). y \<noteq> x \<and> \<not> is_pinned es y)"
proof (cases "twoq_bounds cap q")
  case True
  then show ?thesis by (simp add: evict_loop_steps)
next
  case over: False
  show ?thesis
  proof (cases "twoq_evict_one cap x (over_probation cap q) es q")
    case None
    then have "\<forall>y\<in>bt_keys es. y = x \<or> is_pinned es y"
      using twoq_unpinned_victim [OF wf] by fastforce
    moreover have "set (a1in q) \<subseteq> bt_keys es" using wf by (simp add: twoq_wf_def)
    ultimately show ?thesis using None over by (auto simp: evict_loop_steps)
  next
    case (Some r)
    obtain v es1 q1 where r: "r = (v, es1, q1)" by (cases r)
    show ?thesis
    proof (cases "over_probation cap q \<and> evict_probationary cap x es q = None")
      case True
      then show ?thesis using over evict_loop_stuck [of cap x es q None] by (auto simp: evict_probationary_None)
    next
      case False
      then have "twoq_bounds cap q1" using evict_one_bounds [OF wf near Some [unfolded r]] by blast
      then have "fst (twoq_evict_loop cap x es q None)"
        by (simp add: evict_loop_steps(3) [OF over Some [unfolded r]] evict_loop_steps(1))
      moreover have "v \<in> bt_keys es" "v \<noteq> x" "\<not> is_pinned es v"
        using evict_one_wf [OF wf Some [unfolded r]] by auto
      moreover have "over_probation cap q \<Longrightarrow> \<exists>y\<in>set (a1in q). y \<noteq> x \<and> \<not> is_pinned es y"
        using False by (auto simp: evict_probationary_None)
      ultimately show ?thesis by auto
    qed
  qed
qed

lemma evict_loop_single:
  assumes wf: "twoq_wf now es q"
    and near: "length (a1in q) \<le> Suc (max (cap div 4) 1)" "length (a1in q) + length (am_index q) \<le> Suc cap"
    and loop: "twoq_evict_loop cap x es q None = (True, ev, es', q')"
  shows "(ev = None \<and> es' = es) \<or>
         (\<exists>v. ev = Some v \<and> es' = bt_remove v es \<and> v \<in> bt_keys es \<and> v \<noteq> x \<and> \<not> is_pinned es v)"
proof (cases "twoq_bounds cap q")
  case True
  then show ?thesis using loop by (simp add: evict_loop_steps)
next
  case over: False
  from loop over obtain v es1 q1
    where e: "twoq_evict_one cap x (over_probation cap q) es q = Some (v, es1, q1)"
    using evict_loop_steps(2) [OF over, of x es None]
    by (cases "twoq_evict_one cap x (over_probation cap q) es q") auto
  have l: "twoq_evict_loop cap x es1 q1 (Some v) = (True, ev, es', q')"
    using loop evict_loop_steps(3) [OF over e] by simp
  note w = evict_one_wf [OF wf e]
  have "over_probation cap q \<Longrightarrow> evict_probationary cap x es q \<noteq> None"
    using evict_loop_stuck [of cap x es q None] loop by (cases "evict_probationary cap x es q") auto
  then have "twoq_bounds cap q1" by (rule evict_one_bounds [OF wf near e])
  then have "ev = Some v \<and> es' = es1"
    using l evict_loop_steps(1) by simp
  then show ?thesis using w by auto
qed

section \<open>Accesses\<close>

lemma twoq_wf_promote:
  assumes wf: "twoq_wf now es q" and t: "t \<notin> bt_keys (am_order q)" "t \<le> now" and x: "x \<in> set (a1in q)"
  shows "twoq_wf now (bt_modify x f es)
    (q\<lparr>a1in_set := a1in_set q - {x}, a1in := filter (\<lambda>e. e \<noteq> x) (a1in q),
       am_index := bt_insert x t (am_index q), am_order := bt_insert t x (am_order q)\<rparr>)"
proof -
  note w = wf [unfolded twoq_wf_def]
  have nx: "x \<notin> bt_keys (am_index q)" using w x by auto
  have "bt_keys es = set (filter (\<lambda>e. e \<noteq> x) (a1in q)) \<union> bt_keys (bt_insert x t (am_index q))"
    "set (filter (\<lambda>e. e \<noteq> x) (a1in q)) \<inter> bt_keys (bt_insert x t (am_index q)) = {}"
    "set (a1in q) - {x} = set (filter (\<lambda>e. e \<noteq> x) (a1in q))"
    using w x nx by auto
  then show ?thesis
    unfolding twoq_wf_def using w t inverse_maps_insert [OF _ t(1) nx] by simp blast
qed

lemma twoq_wf_touch:
  assumes wf: "twoq_wf now es q" and t: "t \<notin> bt_keys (am_order q)" "t \<le> now"
    and x: "map_of (am_index q) x = Some old"
  shows "twoq_wf now (bt_modify x f es)
    (q\<lparr>am_order := bt_insert t x (bt_remove old (am_order q)), am_index := bt_insert x t (am_index q)\<rparr>)"
proof -
  note w = wf [unfolded twoq_wf_def]
  have "x \<in> bt_keys (am_index q)" using x by (simp add: bt_keys_lookup)
  then have "insert x (bt_keys (am_index q)) = bt_keys (am_index q)" by auto
  then show ?thesis
    unfolding twoq_wf_def using w t x inverse_maps_move [OF _ x t(1)] by simp blast
qed

lemma twoq_wf_ghost_hit:
  assumes wf: "twoq_wf now es q" and t: "t \<notin> bt_keys (am_order q)" "t \<le> now" and x: "x \<in> set (a1out q)"
  shows "twoq_wf now (bt_insert x e es)
    (q\<lparr>a1out_set := a1out_set q - {x}, a1out := filter (\<lambda>e. e \<noteq> x) (a1out q),
       am_index := bt_insert x t (am_index q), am_order := bt_insert t x (am_order q)\<rparr>)"
proof -
  note w = wf [unfolded twoq_wf_def]
  have nx: "x \<notin> bt_keys (am_index q)" "x \<notin> set (a1in q)" using w x by auto
  have "set (filter (\<lambda>e. e \<noteq> x) (a1out q)) \<inter> bt_keys (bt_insert x e es) = {}"
    "set (a1in q) \<inter> bt_keys (bt_insert x t (am_index q)) = {}"
    "set (a1out q) - {x} = set (filter (\<lambda>e. e \<noteq> x) (a1out q))"
    using w nx by auto
  then show ?thesis
    unfolding twoq_wf_def using w t inverse_maps_insert [OF _ t(1) nx(1)] by simp
qed

lemma twoq_wf_cold:
  assumes wf: "twoq_wf now es q" and x: "x \<notin> bt_keys es" "x \<notin> set (a1out q)"
  shows "twoq_wf now (bt_insert x e es) (q\<lparr>a1in := a1in q @ [x], a1in_set := insert x (a1in_set q)\<rparr>)"
proof -
  note w = wf [unfolded twoq_wf_def]
  have "set (a1out q) \<inter> bt_keys (bt_insert x e es) = {}"
    "set (a1in q @ [x]) \<inter> bt_keys (am_index q) = {}" "x \<notin> set (a1in q)"
    using w x by auto
  then show ?thesis unfolding twoq_wf_def using w by simp
qed

text \<open>The contract of one access, for every policy.\<close>

definition access_ok :: "PolicyCore \<Rightarrow> u64 \<Rightarrow> bool \<Rightarrow> PolicyCore \<Rightarrow> PolicyOutcome run \<Rightarrow> bool" where
  "access_ok p x blocking p' r \<longleftrightarrow>
     (\<forall>y. is_pinned (entries p) y \<longrightarrow> is_pinned (entries p') y) \<and>
     (case r of
        Inr Hit \<Rightarrow> x \<in> bt_keys (entries p) \<and> bt_keys (entries p') = bt_keys (entries p)
      | Inr (Admitted None) \<Rightarrow> x \<notin> bt_keys (entries p) \<and>
          bt_keys (entries p') = insert x (bt_keys (entries p))
      | Inr (Admitted (Some v)) \<Rightarrow> x \<notin> bt_keys (entries p) \<and> v \<in> bt_keys (entries p) \<and>
          \<not> is_pinned (entries p) v \<and> bt_keys (entries p') = insert x (bt_keys (entries p) - {v})
      | Inr Rejected \<Rightarrow> x \<notin> bt_keys (entries p) \<and> kind p = TinyLfuHybrid \<and> \<not> blocking \<and>
          entries p' = entries p
      | Inr Updated \<Rightarrow> False
      | Inl Panic \<Rightarrow> False
      | Inl (Err e) \<Rightarrow> e = CacheFull \<and> x \<notin> bt_keys (entries p) \<and>
          bt_keys (entries p') = {y. is_pinned (entries p) y})"

lemma access_ok_frame [simp]:
  "access_ok (p\<lparr>clock := c, history := h\<rparr>) x b p' r \<longleftrightarrow> access_ok p x b p' r"
  by (simp add: access_ok_def split: sum.split PolicyOutcome.split option.split failure.split)

text \<open>An incoming id that has just been made resident goes through the eviction loop.\<close>

lemma twoq_admission:
  assumes wf: "twoq_wf now (bt_insert x e es) q1" and fresh: "x \<notin> bt_keys es" "\<not> pinned e"
    and near: "length (a1in q1) \<le> Suc (max (cap div 4) 1)"
      "length (a1in q1) + length (am_index q1) \<le> Suc cap"
    and loop: "twoq_evict_loop cap x (bt_insert x e es) q1 None = (ok, ev, es2, q2)"
    and p: "entries p = es"
  shows "access_ok p x b (p\<lparr>entries := es2, twoq := Some q2\<rparr>)
      (if ok then Inr (Admitted ev) else Inl (Err CacheFull)) \<and> twoq_wf now es2 q2"
    and "ok \<Longrightarrow> twoq_bounds cap q2"
proof -
  have pin: "is_pinned (bt_insert x e es) y \<longleftrightarrow> is_pinned es y" for y
    using fresh by (auto dest: is_pinned_resident)
  then have pins: "{y. is_pinned (bt_insert x e es) y} = {y. is_pinned es y}" by blast
  have "loop_result now cap x (bt_insert x e es) (ok, ev, es2, q2)"
    using evict_loop_correct [OF wf, of x cap None] fresh loop by simp
  then have l: "twoq_wf now es2 q2" "\<And>y. map_of es2 y = None \<or> map_of es2 y = map_of (bt_insert x e es) y"
    "{y. is_pinned es y} \<subseteq> bt_keys es2"
    "if ok then twoq_bounds cap q2 \<and> x \<in> bt_keys es2 else bt_keys es2 = {y. is_pinned es y}"
    unfolding loop_result_def pins by simp_all
  then show "ok \<Longrightarrow> twoq_bounds cap q2" by simp
  have keep: "is_pinned es2 y" if y: "is_pinned es y" for y
  proof -
    have "map_of es2 y = map_of es y"
      using y l(2) [of y] l(3) fresh(1) is_pinned_resident [OF y] by (auto simp: bt_keys_lookup)
    then show ?thesis using y by (simp add: is_pinned_def)
  qed
  have "access_ok p x b (p\<lparr>entries := es2, twoq := Some q2\<rparr>)
      (if ok then Inr (Admitted ev) else Inl (Err CacheFull))"
  proof (cases ok)
    case True
    then have "(ev = None \<and> es2 = bt_insert x e es) \<or> (\<exists>v. ev = Some v \<and> es2 = bt_remove v (bt_insert x e es) \<and>
        v \<in> bt_keys (bt_insert x e es) \<and> v \<noteq> x \<and> \<not> is_pinned (bt_insert x e es) v)"
      using evict_loop_single [OF wf near] loop by simp
    then show ?thesis using True keep fresh(1) by (auto simp: access_ok_def p pin)
  next
    case False
    then show ?thesis using keep fresh(1) l(4) by (simp add: access_ok_def p)
  qed
  then show "access_ok p x b (p\<lparr>entries := es2, twoq := Some q2\<rparr>)
      (if ok then Inr (Admitted ev) else Inl (Err CacheFull)) \<and> twoq_wf now es2 q2" using l(1) by simp
qed

text \<open>A refused admission leaves the queues within their bounds.\<close>

lemma twoq_refusal_bounds:
  assumes wf: "twoq_wf now es2 q2" and sub: "set (a1in q2) \<subseteq> insert x (set (a1in q))"
    and keys: "bt_keys es2 \<subseteq> bt_keys es" "x \<notin> bt_keys es2"
    and old: "twoq_wf now es q" "twoq_bounds cap q"
  shows "twoq_bounds cap q2"
proof -
  have "set (a1in q2) \<subseteq> bt_keys es2" using wf by (simp add: twoq_wf_def)
  then have "set (a1in q2) \<subseteq> set (a1in q)" using sub keys(2) by blast
  then have "card (set (a1in q2)) \<le> card (set (a1in q))" by (simp add: card_mono)
  moreover have "distinct (a1in q2)" "distinct (a1in q)" "bt_wf es" "bt_wf es2"
    using wf old(1) unfolding twoq_wf_def by blast+
  moreover have "card (bt_keys es2) \<le> card (bt_keys es)" using keys(1) by (simp add: card_mono)
  ultimately show ?thesis
    using old(2) twoq_wf_length [OF wf] twoq_wf_length [OF old(1)]
    by (simp add: twoq_bounds_def distinct_card bt_card)
qed

lemma twoq_wf_mono: "twoq_wf t es q \<Longrightarrow> t \<le> t' \<Longrightarrow> twoq_wf t' es q"
  unfolding twoq_wf_def by (auto intro: order_trans)

lemma twoq_bounds_le: "length (a1in q') \<le> length (a1in q) \<Longrightarrow>
   length (a1in q') + length (am_index q') \<le> length (a1in q) + length (am_index q) \<Longrightarrow>
   twoq_bounds cap q \<Longrightarrow> twoq_bounds cap q'"
  by (auto simp: twoq_bounds_def)

lemma length_es_modify:
  "twoq_wf t es q \<Longrightarrow> twoq_wf t (bt_modify x f es) q' \<Longrightarrow>
   length (a1in q') + length (am_index q') = length (a1in q) + length (am_index q)"
  using twoq_wf_length [of t es q] twoq_wf_length [of t "bt_modify x f es" q'] by simp

definition twoq_ok :: "PolicyCore \<Rightarrow> bool" where
  "twoq_ok p \<longleftrightarrow> (\<exists>q. twoq p = Some q \<and> twoq_wf (clock p) (entries p) q \<and> twoq_bounds (capacity p) q)"

definition same_frame :: "PolicyCore \<Rightarrow> PolicyCore \<Rightarrow> bool" where
  "same_frame p p' \<longleftrightarrow> kind p' = kind p \<and> capacity p' = capacity p \<and> clock p' = clock p"

lemma access_twoq_hit:
  assumes q: "twoq p = Some q" and wf: "twoq_wf (clock p) (entries p) q"
    and fresh: "clock p \<notin> bt_keys (am_order q)" and bounds: "twoq_bounds (capacity p) q"
    and acc: "access_twoq p x pf f = (p', r)" and x: "x \<in> bt_keys (entries p)"
  shows "access_ok p x b p' r \<and> twoq_ok p' \<and> same_frame p p'"
proof -
  let ?n = "clock p" and ?es = "bt_modify x (touch_entry (clock p) f) (entries p)"
  have "\<exists>q'. p' = p\<lparr>twoq := Some q', entries := ?es\<rparr> \<and> r = Inr Hit \<and> twoq_wf ?n ?es q' \<and>
      length (a1in q') \<le> length (a1in q)"
  proof (cases "map_of (am_index q) x")
    case (Some old)
    then show ?thesis
      using acc q twoq_wf_touch [OF wf fresh _ Some] by (auto simp: access_twoq_def Let_def)
  next
    case None
    then have "x \<in> set (a1in q)" using x wf by (auto simp: twoq_wf_def bt_keys_lookup)
    moreover have "a1in_set q = set (a1in q)" using wf by (simp add: twoq_wf_def)
    ultimately show ?thesis
      using acc q None twoq_wf_promote [OF wf fresh] by (auto simp: access_twoq_def Let_def)
  qed
  then obtain q' where q': "p' = p\<lparr>twoq := Some q', entries := ?es\<rparr>" "r = Inr Hit"
    "twoq_wf ?n ?es q'" "length (a1in q') \<le> length (a1in q)" by blast
  have "twoq_bounds (capacity p) q'"
    by (rule twoq_bounds_le [OF q'(4) _ bounds]) (simp only: length_es_modify [OF wf q'(3)])
  then show ?thesis using q' x by (simp add: access_ok_def twoq_ok_def same_frame_def)
qed

lemma access_twoq_miss:
  assumes q: "twoq p = Some q" and wf: "twoq_wf (clock p) (entries p) q"
    and fresh: "clock p \<notin> bt_keys (am_order q)"
    and acc: "access_twoq p x pf f = (p', r)" and x: "x \<notin> bt_keys (entries p)"
  obtains e q1 ok ev es2 q2 where "\<not> pinned e" "twoq_wf (clock p) (bt_insert x e (entries p)) q1"
    "a1in q1 = (if x \<in> set (a1out q) then a1in q else a1in q @ [x])"
    "length (am_index q1) = length (am_index q) + (if x \<in> set (a1out q) then 1 else 0)"
    "twoq_evict_loop (capacity p) x (bt_insert x e (entries p)) q1 None = (ok, ev, es2, q2)"
    "p' = p\<lparr>entries := es2, twoq := Some q2\<rparr>" "r = (if ok then Inr (Admitted ev) else Inl (Err CacheFull))"
proof -
  let ?n = "clock p" and ?es = "entries p" and ?cap = "capacity p"
  let ?e = "\<lparr>last_tick = ?n, frequency = f, prefetched_unused = pf, pinned = False\<rparr>"
  let ?g = "q\<lparr>a1out_set := a1out_set q - {x}, a1out := filter (\<lambda>e. e \<noteq> x) (a1out q),
     am_index := bt_insert x ?n (am_index q), am_order := bt_insert ?n x (am_order q)\<rparr>"
  let ?c = "q\<lparr>a1in := a1in q @ [x], a1in_set := insert x (a1in_set q)\<rparr>"
  define q1 where "q1 = (if x \<in> a1out_set q then ?g else ?c)"
  note w = wf [unfolded twoq_wf_def]
  have nx: "x \<notin> bt_keys (am_index q)" "x \<notin> a1in_set q" using w x by auto
  have wq: "twoq_wf ?n (bt_insert x ?e ?es) q1"
    using twoq_wf_ghost_hit [OF wf fresh, of x ?e] twoq_wf_cold [OF wf x, of ?e] w by (simp add: q1_def)
  obtain ok ev es2 q2 where l: "twoq_evict_loop ?cap x (bt_insert x ?e ?es) q1 None = (ok, ev, es2, q2)"
    by (metis prod_cases4)
  have r: "p' = p\<lparr>entries := es2, twoq := Some q2\<rparr>"
      "r = (if ok then Inr (Admitted ev) else Inl (Err CacheFull))"
    using acc q nx l unfolding access_twoq_def q1_def bt_keys_lookup by (simp_all add: Let_def)
  have "a1in q1 = (if x \<in> set (a1out q) then a1in q else a1in q @ [x])"
    "length (am_index q1) = length (am_index q) + (if x \<in> set (a1out q) then 1 else 0)"
    using w nx by (simp_all add: q1_def bt_insert_length)
  then show thesis using that [of ?e, OF _ wq _ _ l r] by simp
qed

lemma access_twoq_fresh:
  assumes q: "twoq p = Some q" and wf: "twoq_wf (clock p) (entries p) q"
    and fresh: "clock p \<notin> bt_keys (am_order q)" and bounds: "twoq_bounds (capacity p) q"
    and acc: "access_twoq p x pf f = (p', r)" and x: "x \<notin> bt_keys (entries p)"
  shows "access_ok p x b p' r \<and> twoq_ok p' \<and> same_frame p p'"
    and "r = Inl (Err CacheFull) \<longleftrightarrow>
      (x \<notin> set (a1out q) \<and> length (a1in q) = max (capacity p div 4) 1 \<and>
         (\<forall>y\<in>set (a1in q). is_pinned (entries p) y)) \<or>
      (length (entries p) = capacity p \<and> (\<forall>y\<in>bt_keys (entries p). is_pinned (entries p) y))"
proof -
  let ?n = "clock p" and ?es = "entries p" and ?cap = "capacity p"
  obtain e q1 ok ev es2 q2 where e: "\<not> pinned e" and wq: "twoq_wf ?n (bt_insert x e ?es) q1"
    and a1: "a1in q1 = (if x \<in> set (a1out q) then a1in q else a1in q @ [x])"
    and am: "length (am_index q1) = length (am_index q) + (if x \<in> set (a1out q) then 1 else 0)"
    and l: "twoq_evict_loop ?cap x (bt_insert x e ?es) q1 None = (ok, ev, es2, q2)"
    and r: "p' = p\<lparr>entries := es2, twoq := Some q2\<rparr>"
      "r = (if ok then Inr (Admitted ev) else Inl (Err CacheFull))"
    by (rule access_twoq_miss [OF q wf fresh acc x])
  have near: "length (a1in q1) \<le> Suc (max (?cap div 4) 1)"
      "length (a1in q1) + length (am_index q1) \<le> Suc ?cap"
    using bounds by (auto simp: a1 am twoq_bounds_def)
  have adm: "access_ok p x b p' r" "twoq_wf ?n es2 q2"
    using twoq_admission(1) [OF wq x e near l refl, of b] by (simp_all add: r)
  have "twoq_bounds ?cap q2"
  proof (cases ok)
    case True
    then show ?thesis using twoq_admission(2) [OF wq x e near l refl] by simp
  next
    case False
    then have "bt_keys es2 = {y. is_pinned ?es y}" using adm(1) by (simp add: access_ok_def r)
    then have "bt_keys es2 \<subseteq> bt_keys ?es" "x \<notin> bt_keys es2" using x by (auto dest: is_pinned_resident)
    then show ?thesis
      using twoq_refusal_bounds [OF adm(2) _ _ _ wf bounds, of x] evict_loop_probationary [OF l]
      by (auto simp: a1 split: if_splits)
  qed
  then show "access_ok p x b p' r \<and> twoq_ok p' \<and> same_frame p p'"
    using adm by (simp add: r twoq_ok_def same_frame_def)
  have pin: "is_pinned (bt_insert x e ?es) y \<longleftrightarrow> is_pinned ?es y" for y
    using x e by (auto dest: is_pinned_resident)
  have inc: "x \<notin> set (a1in q)" "set (a1in q) \<subseteq> bt_keys ?es" using wf x by (auto simp: twoq_wf_def)
  have "r = Inl (Err CacheFull) \<longleftrightarrow> \<not> (twoq_bounds ?cap q1 \<or>
      (\<exists>y\<in>(if over_probation ?cap q1 then set (a1in q1) else bt_keys (bt_insert x e ?es)).
          y \<noteq> x \<and> \<not> is_pinned ?es y))"
    using evict_loop_succeeds [OF wq near, of x, unfolded pin] l by (simp add: r(2))
  also have "\<dots> \<longleftrightarrow> (x \<notin> set (a1out q) \<and> length (a1in q) = max (?cap div 4) 1 \<and>
         (\<forall>y\<in>set (a1in q). is_pinned ?es y)) \<or>
      (length ?es = ?cap \<and> (\<forall>y\<in>bt_keys ?es. is_pinned ?es y))"
    using bounds twoq_wf_length [OF wf] inc x
    by (auto simp: a1 am twoq_bounds_def over_probation_def simp del: max_less_iff_conj split: if_splits)
  finally show "r = Inl (Err CacheFull) \<longleftrightarrow>
      (x \<notin> set (a1out q) \<and> length (a1in q) = max (capacity p div 4) 1 \<and>
         (\<forall>y\<in>set (a1in q). is_pinned (entries p) y)) \<or>
      (length (entries p) = capacity p \<and> (\<forall>y\<in>bt_keys (entries p). is_pinned (entries p) y))" .
qed

section \<open>Properties\<close>

lemma admit_ok:
  assumes "bt_wf (entries p)" "x \<notin> bt_keys (entries p)" "same_frame p0 p"
  shows "bt_wf (entries (fst (admit p x f pf ev)))" "same_frame p0 (fst (admit p x f pf ev))"
    "twoq (fst (admit p x f pf ev)) = twoq p" "snd (admit p x f pf ev) = Inr (Admitted ev)"
    "bt_keys (entries (fst (admit p x f pf ev))) = insert x (bt_keys (entries p))"
    "length (entries (fst (admit p x f pf ev))) = Suc (length (entries p))"
    "is_pinned (entries (fst (admit p x f pf ev))) y \<longleftrightarrow> is_pinned (entries p) y"
  using assms is_pinned_resident [of "entries p" x]
  by (auto simp: admit_def bt_insert_length same_frame_def)

lemma candidate_Some:
  "candidate p = Some (v, e) \<Longrightarrow> bt_wf (entries p) \<Longrightarrow>
   map_of (entries p) v = Some e \<and> \<not> pinned e \<and>
   (\<forall>y e'. map_of (entries p) y = Some e' \<longrightarrow> \<not> pinned e' \<longrightarrow>
      victim_rank (kind p) (v, e) \<le> victim_rank (kind p) (y, e'))"
proof -
  assume c: "candidate p = Some (v, e)" and wf: "bt_wf (entries p)"
  let ?cs = "filter (\<lambda>e. \<not> pinned (snd e)) (entries p)"
  have ne: "?cs \<noteq> []" and m: "arg_min_list (victim_rank (kind p)) ?cs = (v, e)"
    using c by (auto simp: candidate_def split: list.splits)
  have "(v, e) \<in> set ?cs" using arg_min_list_in [OF ne, of "victim_rank (kind p)"] m by simp
  moreover have "victim_rank (kind p) (v, e) \<le> victim_rank (kind p) c" if "c \<in> set ?cs" for c
    using that f_arg_min_list_f [OF ne, of "victim_rank (kind p)"] m by simp
  ultimately show ?thesis by (auto simp: bt_wf_entry [OF wf, symmetric])
qed

lemma candidate_None:
  "candidate p = None \<Longrightarrow> bt_wf (entries p) \<Longrightarrow> bt_keys (entries p) = {y. is_pinned (entries p) y}"
  by (auto simp: candidate_def is_pinned_def filter_empty_conv bt_keys_lookup bt_wf_entry [symmetric]
      split: list.splits option.splits)

lemma access_twoq_step:
  assumes "policy_inv p" "kind p = TwoQ" "clock p < u64_max"
    and acc: "access_twoq (p\<lparr>clock := clock p + 1, history := h\<rparr>) x pf f = (p', r)"
  shows "access_ok p x b p' r \<and> policy_inv p'"
proof -
  let ?p = "p\<lparr>clock := clock p + 1, history := h\<rparr>"
  obtain q where q: "twoq p = Some q" "twoq_wf (clock p) (entries p) q" "twoq_bounds (capacity p) q"
    and cap: "0 < capacity p" using assms by (auto simp: policy_inv_def)
  have pre: "twoq ?p = Some q" "twoq_wf (clock ?p) (entries ?p) q" "twoq_bounds (capacity ?p) q"
    using q twoq_wf_mono [OF q(2)] by simp_all
  have fresh: "clock ?p \<notin> bt_keys (am_order q)" using q(2) by (auto simp: twoq_wf_def)
  have "access_ok ?p x b p' r \<and> twoq_ok p' \<and> same_frame ?p p'"
    using access_twoq_hit [OF pre(1,2) fresh pre(3) acc] access_twoq_fresh(1) [OF pre(1,2) fresh pre(3) acc]
    by blast
  then show ?thesis
    using assms(2) cap twoq_wf_length [of "clock p'" "entries p'"]
    by (auto simp: policy_inv_def twoq_ok_def same_frame_def twoq_wf_def twoq_bounds_def)
qed

definition table_ok :: "PolicyCore \<Rightarrow> bool" where
  "table_ok p \<longleftrightarrow> kind p \<noteq> TwoQ \<and> twoq p = None \<and> 0 < capacity p \<and> bt_wf (entries p) \<and>
     length (entries p) \<le> capacity p"

lemma access_table_step:
  assumes ok: "table_ok p" and acc: "access_table p x b pf f = (p', r)"
  shows "access_ok p x b p' r \<and> table_ok p'"
proof -
  have wf: "bt_wf (entries p)" using ok by (simp add: table_ok_def)
  consider "x \<in> bt_keys (entries p)"
    | "x \<notin> bt_keys (entries p)" "length (entries p) \<noteq> capacity p"
    | "x \<notin> bt_keys (entries p)" "length (entries p) = capacity p" "candidate p = None"
    | v e where "x \<notin> bt_keys (entries p)" "length (entries p) = capacity p" "candidate p = Some (v, e)"
    by (cases "candidate p") auto
  then show ?thesis
  proof cases
    case 1
    then show ?thesis using acc ok by (auto simp: access_table_def access_ok_def table_ok_def)
  next
    case 2
    then have "admit p x f pf None = (p', r)" using acc by (simp add: access_table_def)
    then show ?thesis
      using admit_ok [OF wf 2(1), of p f pf None] 2 ok
      by (auto simp: access_ok_def table_ok_def same_frame_def)
  next
    case 3
    then show ?thesis
      using acc candidate_None [OF 3(3) wf] ok by (auto simp: access_table_def access_ok_def)
  next
    case (4 v e)
    let ?p2 = "p\<lparr>entries := bt_remove v (entries p)\<rparr>"
    have v: "v \<in> bt_keys (entries p)" "\<not> is_pinned (entries p) v"
      using candidate_Some [OF 4(3) wf] by (simp_all add: bt_keys_lookup is_pinned_def)
    have w2: "bt_wf (entries ?p2)" "x \<notin> bt_keys (entries ?p2)" using wf 4(1) by simp_all
    show ?thesis
    proof (cases "kind p = TinyLfuHybrid \<and> \<not> b \<and> f \<le> frequency e")
      case True
      then show ?thesis using acc 4 ok by (auto simp: access_table_def access_ok_def)
    next
      case False
      then have "admit ?p2 x f pf (Some v) = (p', r)" using acc 4 by (auto simp: access_table_def)
      then show ?thesis
        using admit_ok [OF w2, of p f pf "Some v"] v 4 ok wf
        by (auto simp: access_ok_def table_ok_def same_frame_def bt_remove_length)
    qed
  qed
qed

lemma policy_inv_table: "kind p \<noteq> TwoQ \<Longrightarrow> policy_inv p \<longleftrightarrow> table_ok p"
  by (auto simp: policy_inv_def table_ok_def)

lemma access_step:
  assumes inv: "policy_inv p" and clk: "clock p < u64_max"
    and acc: "access (p\<lparr>clock := clock p + 1\<rparr>) x b pf = (p', r)"
  shows "access_ok p x b p' r \<and> policy_inv p'"
proof (cases "kind p = TwoQ")
  case True
  then show ?thesis using acc access_twoq_step [OF inv True clk] by (auto simp: access_def Let_def)
next
  case False
  obtain h f where acc': "access_table (p\<lparr>clock := clock p + 1, history := h\<rparr>) x b pf f = (p', r)"
    using acc False by (auto simp: access_def Let_def)
  have "table_ok (p\<lparr>clock := clock p + 1, history := h\<rparr>)"
    using inv False by (simp add: policy_inv_table) (simp add: table_ok_def)
  from access_table_step [OF this acc'] show ?thesis
    by (simp add: policy_inv_def table_ok_def)
qed

fun policy_run :: "PolicyCore \<Rightarrow> PolicyEvent list \<Rightarrow> PolicyCore" where
  "policy_run p [] = p"
| "policy_run p (e # es) = policy_run (fst (policy_apply p e)) es"

lemma is_pinned_modify: "is_pinned (bt_modify x (pinned_update (\<lambda>_. v)) es) y \<longleftrightarrow>
    (if y = x then v \<and> x \<in> bt_keys es else is_pinned es y)"
  by (auto simp: is_pinned_def bt_keys_lookup split: option.splits)

lemma twoq_wf_modify: "twoq_wf t (bt_modify x f es) q \<longleftrightarrow> twoq_wf t es q"
  by (simp add: twoq_wf_def)

lemma drop_id_lengths:
  "twoq_wf t es q \<Longrightarrow> twoq_bounds cap q \<Longrightarrow> twoq_bounds cap (drop_id q x)"
  by (rule twoq_bounds_le)
    (auto simp: drop_id_def Let_def split: option.splits
      intro!: add_mono length_filter_le bt_remove_length_le)

lemma access_frame: "same_frame p (fst (access p x b pf))"
  by (auto simp: same_frame_def access_def access_twoq_def access_table_def admit_def Let_def
      split: option.splits prod.splits)

lemma policy_apply_inv:
  assumes inv: "policy_inv p" and clk: "clock p < u64_max"
  shows "policy_inv (fst (policy_apply p e)) \<and> clock (fst (policy_apply p e)) = Suc (clock p) \<and>
         capacity (fst (policy_apply p e)) = capacity p \<and> snd (policy_apply p e) \<noteq> Inl Panic"
proof (cases e)
  case (Access x b pf)
  then have ap: "policy_apply p e = access (p\<lparr>clock := clock p + 1\<rparr>) x b pf"
    using clk by (simp add: policy_apply_def saturating_add64_def)
  then have "access_ok p x b (fst (policy_apply p e)) (snd (policy_apply p e)) \<and>
      policy_inv (fst (policy_apply p e))"
    using access_step [OF inv clk, of x b pf "fst (policy_apply p e)" "snd (policy_apply p e)"] by simp
  then show ?thesis
    using access_frame [of "p\<lparr>clock := clock p + 1\<rparr>" x b pf] ap
    by (auto simp: same_frame_def access_ok_def)
next
  case (Remove x)
  have ex: "twoq_wf (Suc (clock p)) (bt_remove x (entries p)) (drop_id q x) \<and>
      twoq_bounds (capacity p) (drop_id q x)" if "twoq p = Some q" "kind p = TwoQ" for q
    using that inv drop_id_lengths [of "clock p" "entries p" q]
      twoq_wf_mono [OF drop_id_wf, of "clock p" "entries p" q "Suc (clock p)"]
    by (auto simp: policy_inv_def)
  have "length (bt_remove x (entries p)) \<le> capacity p"
    using inv bt_remove_length_le [of x "entries p"] by (simp add: policy_inv_def)
  then show ?thesis
    using Remove inv clk ex by (auto simp: policy_apply_def policy_inv_def saturating_add64_def)
qed (use inv clk in \<open>auto simp: policy_apply_def policy_inv_def saturating_add64_def twoq_wf_modify
      intro: twoq_wf_mono [OF _ le_SucI [OF le_refl]]\<close>)

lemma policy_run_inv:
  "policy_inv p \<Longrightarrow> clock p + length es \<le> u64_max \<Longrightarrow>
   policy_inv (policy_run p es) \<and> clock (policy_run p es) = clock p + length es \<and>
   capacity (policy_run p es) = capacity p"
proof (induction es arbitrary: p)
  case (Cons e es)
  then show ?case using policy_apply_inv [of p e] by auto
qed simp

lemma policy_new_inv: "policy_new k cap = Inr p \<Longrightarrow> policy_inv p \<and> clock p = 0 \<and> capacity p = cap"
  by (auto simp: policy_new_def policy_inv_def twoq_default_def twoq_wf_def twoq_bounds_def
      inverse_maps_def split: if_splits)

lemma policy_apply_access:
  assumes "policy_inv p" "clock p < u64_max" "policy_apply p (Access x b pf) = (p', r)"
  shows "access_ok p x b p' r"
  using assms access_step [OF assms(1,2)] by (simp add: policy_apply_def saturating_add64_def)

lemmas policy_eval = policy_apply_def access_def access_twoq_def access_table_def admit_def
  candidate_def touch_entry_def bt_keys_def bt_remove_def bt_modify_def residents_def
  saturating_add64_def saturating_add32_def u64_max_def u32_max_def Let_def

text \<open>C22: for every policy and every run of events shorter than the 64-bit clock, the number of
  residents never exceeds the capacity, the queues and the table stay consistent, and no operation
  panics.\<close>

theorem policy_capacity_respected:
  assumes "policy_new k cap = Inr p" "length es < u64_max"
  shows "policy_inv (policy_run p es) \<and> length (residents (policy_run p es)) \<le> cap \<and>
         snd (policy_apply (policy_run p es) e) \<noteq> Inl Panic"
proof -
  have run: "policy_inv (policy_run p es)" "clock (policy_run p es) < u64_max"
    "capacity (policy_run p es) = cap"
    using policy_new_inv [OF assms(1)] policy_run_inv [of p es] assms(2) by auto
  then show ?thesis
    using policy_apply_inv [OF run(1,2)] by (auto simp: residents_def policy_inv_def)
qed

theorem policy_capacity_respected_witness:
  "\<exists>p. policy_new TwoQ 4 = Inr p \<and>
     length (residents (policy_run p [Access 1 True False, Access 2 True False, Access 1 True False])) \<le> 4"
proof -
  obtain p where p: "policy_new TwoQ 4 = Inr p" by (simp add: policy_new_def)
  have "length [Access 1 True False, Access 2 True False, Access 1 True False] < u64_max"
    by (simp add: u64_max_def)
  from policy_capacity_respected [OF p this] p show ?thesis by blast
qed

text \<open>C12: the contract of one access under every policy.  Pinned residents stay resident and
  pinned; a hit changes no residency; an admission adds the incoming id and removes exactly the
  victim it reports, which was resident and unpinned; only the TinyLFU hybrid rejects, and only
  non-blocking accesses; an error is always \<open>CacheFull\<close> for a non-resident id, and leaves
  exactly the pinned residents.\<close>

theorem policy_access_contract:
  assumes "policy_inv p" "clock p < u64_max" "policy_apply p (Access x blocking prefetched) = (p', r)"
  shows "(\<forall>y. is_pinned (entries p) y \<longrightarrow> is_pinned (entries p') y) \<and>
    (case r of
       Inr Hit \<Rightarrow> x \<in> set (residents p) \<and> set (residents p') = set (residents p)
     | Inr (Admitted None) \<Rightarrow> x \<notin> set (residents p) \<and> set (residents p') = insert x (set (residents p))
     | Inr (Admitted (Some v)) \<Rightarrow> x \<notin> set (residents p) \<and> v \<in> set (residents p) \<and>
         \<not> is_pinned (entries p) v \<and> set (residents p') = insert x (set (residents p) - {v})
     | Inr Rejected \<Rightarrow> x \<notin> set (residents p) \<and> kind p = TinyLfuHybrid \<and> \<not> blocking \<and>
         residents p' = residents p
     | Inr Updated \<Rightarrow> False
     | Inl Panic \<Rightarrow> False
     | Inl (Err e) \<Rightarrow> e = CacheFull \<and> x \<notin> set (residents p) \<and>
         set (residents p') = {y. is_pinned (entries p) y})"
proof -
  have "set (residents q) = bt_keys (entries q)" for q :: PolicyCore
    by (simp add: residents_def bt_keys_def)
  then show ?thesis
    using policy_apply_access [OF assms] unfolding access_ok_def
    by (auto simp: residents_def split: sum.splits PolicyOutcome.splits option.splits failure.splits)
qed

theorem policy_access_contract_witness:
  "\<exists>p p' r. policy_new Lru 1 = Inr p \<and>
     policy_apply (fst (policy_apply p (Access 1 True False))) (Access 2 True False) = (p', r) \<and>
     r = Inr (Admitted (Some 1)) \<and> set (residents p') = {2}"
proof -
  obtain p where p: "policy_new Lru 1 = Inr p" by (simp add: policy_new_def)
  then have pe: "p = \<lparr>kind = Lru, capacity = 1, clock = 0, entries = [], history = [], twoq = None\<rparr>"
    by (simp add: policy_new_def)
  let ?p1 = "fst (policy_apply p (Access 1 True False))"
  have inv: "policy_inv ?p1" "clock ?p1 < u64_max"
    using policy_apply_inv [of p "Access 1 True False"] policy_new_inv [OF p] by (simp_all add: u64_max_def)
  obtain p' r where a: "policy_apply ?p1 (Access 2 True False) = (p', r)" by fastforce
  have r: "r = Inr (Admitted (Some 1))" and s: "set (residents ?p1) = {1}"
    using a by (auto simp: pe policy_eval)
  show ?thesis using policy_access_contract [OF inv a] p a r s by auto
qed

text \<open>Outside 2Q the victim of an admission is minimal among the unpinned residents in the
  policy's ranking: the least recently used for LRU, an unused prefetch before the least recently
  used for the segmented policy, the least frequently used with ties by recency for TinyLFU; an
  eviction only happens when the cache is full.\<close>

theorem policy_victim_minimal:
  assumes "policy_inv p" "kind p \<noteq> TwoQ" "policy_apply p (Access x blocking prefetched) = (p', Inr (Admitted (Some v)))"
  shows "length (residents p) = capacity p \<and> (\<exists>e. map_of (entries p) v = Some e \<and> \<not> pinned e \<and>
    (\<forall>y e'. map_of (entries p) y = Some e' \<longrightarrow> \<not> pinned e' \<longrightarrow>
       victim_rank (kind p) (v, e) \<le> victim_rank (kind p) (y, e')))"
proof -
  obtain c h f where acc: "access_table (p\<lparr>clock := c, history := h\<rparr>) x blocking prefetched f =
      (p', Inr (Admitted (Some v)))"
    using assms(2,3) by (auto simp: policy_apply_def access_def Let_def)
  then obtain e where "length (entries p) = capacity p"
    "candidate (p\<lparr>clock := c, history := h\<rparr>) = Some (v, e)"
    by (auto simp: access_table_def admit_def split: if_splits option.splits)
  then show ?thesis
    using candidate_Some [of "p\<lparr>clock := c, history := h\<rparr>" v e] assms(1)
    by (auto simp: policy_inv_def residents_def)
qed

theorem policy_victim_minimal_witness:
  "\<exists>p p'. policy_new Lru 1 = Inr p \<and>
     policy_apply (fst (policy_apply p (Access 1 True False))) (Access 2 True False) =
       (p', Inr (Admitted (Some 1))) \<and>
     length (residents (fst (policy_apply p (Access 1 True False)))) = 1"
proof -
  obtain p where p: "policy_new Lru 1 = Inr p" by (simp add: policy_new_def)
  then have pe: "p = \<lparr>kind = Lru, capacity = 1, clock = 0, entries = [], history = [], twoq = None\<rparr>"
    by (simp add: policy_new_def)
  let ?p1 = "fst (policy_apply p (Access 1 True False))"
  have inv: "policy_inv ?p1" "capacity ?p1 = 1" "kind ?p1 \<noteq> TwoQ"
    using policy_apply_inv [of p "Access 1 True False"] policy_new_inv [OF p]
    by (simp_all add: pe policy_eval)
  obtain p' where a: "policy_apply ?p1 (Access 2 True False) = (p', Inr (Admitted (Some 1)))"
    by (simp add: pe policy_eval)
  show ?thesis using policy_victim_minimal [OF inv(1,3) a] inv(2) p a by auto
qed

text \<open>C25: 2Q is scan resistant: when the probationary queue is at its bound and holds an unpinned
  id, a cold access (neither resident nor remembered as a ghost) is admitted by evicting the
  oldest unpinned probationary id, and the protected set and its order do not change.\<close>

theorem twoq_scan_resistant:
  assumes "policy_inv p" "kind p = TwoQ" "twoq p = Some q"
    and cold: "x \<notin> set (residents p)" "x \<notin> set (a1out q)"
    and full: "length (a1in q) = max (capacity p div 4) 1"
    and a1in: "a1in q = before @ v # after" "\<not> is_pinned (entries p) v"
      "\<forall>y\<in>set before. is_pinned (entries p) y"
  shows "\<exists>p' q'. policy_apply p (Access x blocking prefetched) = (p', Inr (Admitted (Some v))) \<and>
    twoq p' = Some q' \<and> am_index q' = am_index q \<and> am_order q' = am_order q \<and>
    a1in q' = before @ after @ [x]"
proof -
  let ?cap = "capacity p"
  obtain n h f where acc: "policy_apply p (Access x blocking prefetched) =
      access_twoq (p\<lparr>clock := n, history := h\<rparr>) x prefetched f"
    using assms(2) by (auto simp: policy_apply_def access_def Let_def)
  have wf: "twoq_wf (clock p) (entries p) q" "twoq_bounds ?cap q"
    using assms(1-3) by (auto simp: policy_inv_def)
  then have x: "map_of (am_index q) x = None" "x \<notin> a1in_set q" "x \<notin> a1out_set q" "v \<noteq> x"
      "x \<notin> bt_keys (entries p)"
    using cold a1in(1) by (auto simp: twoq_wf_def residents_def bt_keys_def [of "entries p"]
        bt_keys_lookup [of _ "am_index q"] simp del: not_None_eq)
  let ?e = "\<lparr>last_tick = n, frequency = f, prefetched_unused = prefetched, pinned = False\<rparr>"
  let ?es = "bt_insert x ?e (entries p)"
  let ?q = "q\<lparr>a1in := a1in q @ [x], a1in_set := insert x (a1in_set q)\<rparr>"
  have pin: "is_pinned ?es y \<longleftrightarrow> is_pinned (entries p) y" for y
    using x(5) by (auto dest: is_pinned_resident)
  have ext: "List.extract (\<lambda>c. c \<noteq> x \<and> \<not> is_pinned ?es c) (a1in ?q) = Some (before, v, after @ [x])"
    unfolding extract_Some_iff pin using a1in x(4) by auto
  define q1 where "q1 = ghost (?q\<lparr>a1in := before @ after @ [x], a1in_set := a1in_set ?q - {v}\<rparr>) v ?cap"
  have over: "over_probation ?cap ?q" "\<not> twoq_bounds ?cap ?q"
    using full by (auto simp: over_probation_def twoq_bounds_def)
  have one: "twoq_evict_one ?cap x (over_probation ?cap ?q) ?es ?q = Some (v, bt_remove v ?es, q1)"
    using over(1) ext by (simp add: twoq_evict_one_def evict_probationary_def q1_def)
  have "twoq_bounds ?cap q1"
    using wf(2) full a1in(1) by (auto simp: twoq_bounds_def q1_def)
  then have "twoq_evict_loop ?cap x ?es ?q None = (True, Some v, bt_remove v ?es, q1)"
    by (simp add: evict_loop_steps(3) [OF over(2) one] evict_loop_steps(1))
  then show ?thesis
    using assms(3) x by (simp add: acc access_twoq_def Let_def) (simp add: q1_def)
qed

text \<open>The eight-slot cache of the next two statements: three protected ids and two pinned
  probationary ids.\<close>

definition twoq_example :: PolicyCore where
  "twoq_example = policy_run
     \<lparr>kind = TwoQ, capacity = 8, clock = 0, entries = [], history = [], twoq = Some twoq_default\<rparr>
     [Access 1 True False, Access 1 True False, Access 2 True False, Access 2 True False,
      Access 3 True False, Access 3 True False, Access 4 True False, Access 5 True False,
      Pin 4, Pin 5]"

lemmas twoq_eval = policy_eval twoq_default_def twoq_evict_loop.simps twoq_evict_one_def
  evict_probationary_def is_pinned_def drop_id_def ghost_def List.extract_def o_def

lemma twoq_example_value:
  "twoq_example =
     \<lparr>kind = TwoQ, capacity = 8, clock = 10,
      entries =
        [(1, \<lparr>last_tick = 2, frequency = 2, prefetched_unused = False, pinned = False\<rparr>),
         (2, \<lparr>last_tick = 4, frequency = 2, prefetched_unused = False, pinned = False\<rparr>),
         (3, \<lparr>last_tick = 6, frequency = 2, prefetched_unused = False, pinned = False\<rparr>),
         (4, \<lparr>last_tick = 7, frequency = 1, prefetched_unused = False, pinned = True\<rparr>),
         (5, \<lparr>last_tick = 8, frequency = 1, prefetched_unused = False, pinned = True\<rparr>)],
      history = [(1, 2), (2, 2), (3, 2), (4, 1), (5, 1)],
      twoq = Some \<lparr>a1in = [4, 5], a1in_set = {5, 4}, a1out = [], a1out_set = {},
        am_order = [(2, 1), (4, 2), (6, 3)], am_index = [(1, 2), (2, 4), (3, 6)]\<rparr>\<rparr>"
  by (simp add: twoq_example_def twoq_eval)

lemma twoq_example_inv: "policy_inv twoq_example"
proof -
  obtain p where p: "policy_new TwoQ 8 = Inr p" by (simp add: policy_new_def)
  then have pe: "\<lparr>kind = TwoQ, capacity = 8, clock = 0, entries = [], history = [],
      twoq = Some twoq_default\<rparr> = p" by (simp add: policy_new_def)
  show ?thesis
    unfolding twoq_example_def pe
    by (rule policy_run_inv [THEN conjunct1]) (use policy_new_inv [OF p] in \<open>simp_all add: u64_max_def\<close>)
qed

theorem twoq_scan_resistant_witness:
  "\<exists>p' q'. policy_apply (fst (policy_apply twoq_example (Unpin 5))) (Access 9 True False) =
     (p', Inr (Admitted (Some 5))) \<and> twoq p' = Some q' \<and> map fst (am_index q') = [1, 2, 3]"
proof -
  let ?p = "fst (policy_apply twoq_example (Unpin 5))"
  have "clock twoq_example < u64_max" by (simp add: twoq_example_value u64_max_def)
  then have inv: "policy_inv ?p" using policy_apply_inv twoq_example_inv by blast
  define q where "q = \<lparr>a1in = [4, 5], a1in_set = {5, 4}, a1out = [], a1out_set = {},
        am_order = [(2, 1), (4, 2), (6, 3)], am_index = [(1, 2), (2, 4), (3, 6)]\<rparr>"
  have p: "twoq ?p = Some q" "kind ?p = TwoQ" "capacity ?p = 8" "residents ?p = [1, 2, 3, 4, 5]"
    "\<not> is_pinned (entries ?p) 5" "is_pinned (entries ?p) 4"
    by (simp_all add: twoq_example_value twoq_eval q_def)
  have q: "a1in q = [4] @ 5 # []" "a1out q = []" "map fst (am_index q) = [1, 2, 3]"
    by (simp_all add: q_def)
  show ?thesis
    using twoq_scan_resistant [OF inv p(2,1) _ _ _ q(1) p(5), of 9 True False] p q by auto
qed

text \<open>C26: when 2Q refuses an admission.  In a 2Q state that satisfies the invariant, an access to
  an id that is not resident returns \<open>CacheFull\<close> exactly when the id is not a ghost and the
  probationary queue is at its quota, a quarter of the capacity, with every probationary id
  pinned, or the cache is full and every resident is pinned.  In the first case the cache need not
  be full.  A refused access nevertheless leaves exactly the pinned residents, so every unpinned
  id, the protected ones included, has been evicted.\<close>

theorem twoq_refusal_exact:
  assumes inv: "policy_inv p" and clk: "clock p < u64_max"
    and twoq: "kind p = TwoQ" "twoq p = Some q" and x: "x \<notin> set (residents p)"
    and acc: "policy_apply p (Access x blocking prefetched) = (p', r)"
  shows "(r = Inl (Err CacheFull) \<longleftrightarrow>
      (x \<notin> set (a1out q) \<and> length (a1in q) = max (capacity p div 4) 1 \<and>
         (\<forall>y\<in>set (a1in q). is_pinned (entries p) y)) \<or>
      (length (residents p) = capacity p \<and> (\<forall>y\<in>set (residents p). is_pinned (entries p) y))) \<and>
    (r = Inl (Err CacheFull) \<longrightarrow>
       set (residents p') = {y \<in> set (residents p). is_pinned (entries p) y})"
proof -
  obtain h f where a: "access_twoq (p\<lparr>clock := clock p + 1, history := h\<rparr>) x prefetched f = (p', r)"
    using acc twoq clk by (auto simp: policy_apply_def saturating_add64_def access_def Let_def)
  let ?p = "p\<lparr>clock := clock p + 1, history := h\<rparr>"
  have wf: "twoq_wf (clock p) (entries p) q" "twoq_bounds (capacity p) q"
    using inv twoq by (auto simp: policy_inv_def)
  have pre: "twoq ?p = Some q" "twoq_wf (clock ?p) (entries ?p) q"
      "clock ?p \<notin> bt_keys (am_order q)" "twoq_bounds (capacity ?p) q" "x \<notin> bt_keys (entries ?p)"
    using twoq wf(2) twoq_wf_mono [OF wf(1)] wf(1) [unfolded twoq_wf_def] x
    by (auto simp: residents_def bt_keys_def [of "entries p"])
  note step = access_twoq_fresh [OF pre(1-4) a pre(5)]
  have "bt_keys (entries p') = {y. is_pinned (entries p) y}" if "r = Inl (Err CacheFull)"
    using step(1) [of True] that by (simp add: access_ok_def)
  then show ?thesis
    using step(2) by (auto simp: residents_def bt_keys_def dest: is_pinned_resident)
qed

theorem twoq_refusal_exact_witness:
  "capacity twoq_example = 8 \<and> length (residents twoq_example) = 5 \<and>
   (\<exists>p'. policy_apply twoq_example (Access 6 True False) = (p', Inl (Err CacheFull)) \<and>
         set (residents p') = {4, 5})"
proof -
  obtain q where q: "twoq twoq_example = Some q" "a1in q = [4, 5]" "a1out q = []"
    by (simp add: twoq_example_value)
  obtain p' r where acc: "policy_apply twoq_example (Access 6 True False) = (p', r)" by fastforce
  have e: "kind twoq_example = TwoQ" "capacity twoq_example = 8" "clock twoq_example < u64_max"
      "residents twoq_example = [1, 2, 3, 4, 5]"
      "is_pinned (entries twoq_example) y \<longleftrightarrow> y \<in> {4, 5}" for y
    by (auto simp: twoq_example_value u64_max_def residents_def is_pinned_def)
  have "r = Inl (Err CacheFull) \<and> set (residents p') = {y \<in> {1, 2, 3, 4, 5}. y \<in> {4, 5}}"
    using twoq_refusal_exact [OF twoq_example_inv e(3,1) q(1) _ acc] q e by simp
  then show ?thesis using acc e by auto
qed

end
