(* ===== verification/Segmented_Recency.thy ===== *)
theory Segmented_Recency
  imports Ordered_Map
begin

text \<open>The segmented recency index of \<open>mirage-cache/src/segments.rs\<close>: four intrusive doubly linked
  lists over one table of nodes, driven by the touch, pin and unpin events that readers submit
  through the bounded queue of \<open>recency.rs\<close>.  Links are slot numbers looked up in the table, so a
  dangling or cyclic link is representable, and every \<open>expect\<close> of the source is a panic of the
  model.  The abstraction is one list of slots per segment.\<close>

section \<open>State\<close>

datatype Segment = Window | Probationary | Protected | PrefetchedUnused | Detached

datatype RecencyEvent = Touch u32 | PinSlot u32 | UnpinSlot u32

record Node =
  node_segment :: Segment
  prev_link :: "u32 option"
  next_link :: "u32 option"

record LinkList =
  list_head :: "u32 option"
  list_tail :: "u32 option"
  list_len :: nat

record SegmentedRecency =
  nodes :: "(u32 \<times> Node) list"
  lists :: "LinkList list"
  protected_target :: nat

text \<open>The bounded touch queue: capacity, pending events and the overflow counter.\<close>

record TouchQueue =
  queue_capacity :: nat
  pending :: "RecencyEvent list"
  overflow :: u64

section \<open>Operations\<close>

definition empty_list :: LinkList where
  "empty_list = \<lparr>list_head = None, list_tail = None, list_len = 0\<rparr>"

definition recency_new :: "nat \<Rightarrow> nat \<Rightarrow> SegmentedRecency \<times> TouchQueue" where
  "recency_new target cap =
     (\<lparr>nodes = [], lists = replicate 4 empty_list, protected_target = target\<rparr>,
      \<lparr>queue_capacity = cap, pending = [], overflow = 0\<rparr>)"

text \<open>A capacity of zero is a rendezvous channel, on which a non-blocking send succeeds only while a
  receiver waits; \<open>drain\<close> never waits, so such a queue refuses every event.\<close>

definition submit :: "TouchQueue \<Rightarrow> RecencyEvent \<Rightarrow> TouchQueue \<times> bool" where
  "submit q e =
     (if length (pending q) < queue_capacity q then (q\<lparr>pending := pending q @ [e]\<rparr>, True)
      else (q\<lparr>overflow := wadd64 (overflow q) 1\<rparr>, False))"

fun segment_index :: "Segment \<Rightarrow> nat result" where
  "segment_index Window = Inr 0"
| "segment_index Probationary = Inr 1"
| "segment_index Protected = Inr 2"
| "segment_index PrefetchedUnused = Inr 3"
| "segment_index Detached = Inl InvalidArgument"

definition raise :: "'a result \<Rightarrow> 'a run" where
  "raise r = (case r of Inl e \<Rightarrow> Inl (Err e) | Inr x \<Rightarrow> Inr x)"

definition expect :: "'a option \<Rightarrow> 'a run" where
  "expect x = ok_or x Panic"

definition list_of :: "SegmentedRecency \<Rightarrow> Segment \<Rightarrow> LinkList run" where
  "list_of s g = (case segment_index g of Inl _ \<Rightarrow> Inl Panic | Inr i \<Rightarrow> Inr (lists s ! i))"

text \<open>\<open>nodes.get_mut(..).expect(..)\<close> followed by a write.\<close>

definition modify_node :: "SegmentedRecency \<Rightarrow> u32 \<Rightarrow> (Node \<Rightarrow> Node) \<Rightarrow> SegmentedRecency run" where
  "modify_node s x f =
     (if x \<in> bt_keys (nodes s) then Inr (s\<lparr>nodes := bt_modify x f (nodes s)\<rparr>) else Inl Panic)"

definition modify_list :: "SegmentedRecency \<Rightarrow> nat \<Rightarrow> (LinkList \<Rightarrow> LinkList) \<Rightarrow> SegmentedRecency" where
  "modify_list s i f = s\<lparr>lists := (lists s)[i := f (lists s ! i)]\<rparr>"

definition push_head :: "SegmentedRecency \<Rightarrow> u32 \<Rightarrow> Segment \<Rightarrow> SegmentedRecency run" where
  "push_head s slot g =
     bind_result (raise (segment_index g)) (\<lambda>i.
       let old = list_head (lists s ! i) in
       if slot \<notin> bt_keys (nodes s) then Inl (Err InternalInvariant)
       else
         let s1 = s\<lparr>nodes := bt_modify slot
               (\<lambda>n. n\<lparr>node_segment := g, prev_link := None, next_link := old\<rparr>) (nodes s)\<rparr>
         in bind_result
              (case old of
                 Some o' \<Rightarrow> modify_node s1 o' (\<lambda>n. n\<lparr>prev_link := Some slot\<rparr>)
               | None \<Rightarrow> Inr (modify_list s1 i (\<lambda>l. l\<lparr>list_tail := Some slot\<rparr>)))
              (\<lambda>s2. Inr (modify_list s2 i (\<lambda>l. l\<lparr>list_head := Some slot, list_len := wadd64 (list_len l) 1\<rparr>))))"

definition detach :: "SegmentedRecency \<Rightarrow> u32 \<Rightarrow> SegmentedRecency run" where
  "detach s slot =
     bind_result (ok_or (map_of (nodes s) slot) (Err InternalInvariant)) (\<lambda>node.
       if node_segment node = Detached then Inr s
       else bind_result (raise (segment_index (node_segment node))) (\<lambda>i.
         bind_result
           (case prev_link node of
              Some p \<Rightarrow> modify_node s p (\<lambda>n. n\<lparr>next_link := next_link node\<rparr>)
            | None \<Rightarrow> Inr (modify_list s i (\<lambda>l. l\<lparr>list_head := next_link node\<rparr>))) (\<lambda>s1.
         bind_result
           (case next_link node of
              Some m \<Rightarrow> modify_node s1 m (\<lambda>n. n\<lparr>prev_link := prev_link node\<rparr>)
            | None \<Rightarrow> Inr (modify_list s1 i (\<lambda>l. l\<lparr>list_tail := prev_link node\<rparr>))) (\<lambda>s2.
         modify_node (modify_list s2 i (\<lambda>l. l\<lparr>list_len := wsub64 (list_len l) 1\<rparr>)) slot
           (\<lambda>n. \<lparr>node_segment = Detached, prev_link = None, next_link = None\<rparr>)))))"

definition recency_insert :: "SegmentedRecency \<Rightarrow> u32 \<Rightarrow> Segment \<Rightarrow> SegmentedRecency run" where
  "recency_insert s slot g =
     (if g = Detached \<or> slot \<in> bt_keys (nodes s) then Inl (Err InvalidArgument)
      else push_head (s\<lparr>nodes := bt_insert slot
             \<lparr>node_segment = Detached, prev_link = None, next_link = None\<rparr> (nodes s)\<rparr>) slot g)"

definition segment_of :: "SegmentedRecency \<Rightarrow> u32 \<Rightarrow> Segment option" where
  "segment_of s slot = map_option node_segment (map_of (nodes s) slot)"

fun event_slot :: "RecencyEvent \<Rightarrow> u32" where
  "event_slot (Touch x) = x"
| "event_slot (PinSlot x) = x"
| "event_slot (UnpinSlot x) = x"

text \<open>The demotion that follows a touch: the protected tail returns to probation when the protected
  list is over its target.\<close>

definition demote :: "SegmentedRecency \<Rightarrow> SegmentedRecency run" where
  "demote s =
     bind_result (list_of s Protected) (\<lambda>l.
       if list_len l > protected_target s then
         (case list_tail l of
            Some t \<Rightarrow> bind_result (detach s t) (\<lambda>s1. push_head s1 t Probationary)
          | None \<Rightarrow> Inr s)
       else Inr s)"

fun touch_target :: "Segment \<Rightarrow> Segment option" where
  "touch_target Probationary = Some Protected"
| "touch_target PrefetchedUnused = Some Protected"
| "touch_target Window = Some Window"
| "touch_target Protected = Some Protected"
| "touch_target Detached = None"

definition recency_apply :: "SegmentedRecency \<Rightarrow> RecencyEvent \<Rightarrow> SegmentedRecency run" where
  "recency_apply s event =
     (case segment_of s (event_slot event) of
        None \<Rightarrow> Inr s
      | Some g \<Rightarrow>
          (case event of
             PinSlot x \<Rightarrow> detach s x
           | UnpinSlot x \<Rightarrow> if g = Detached then push_head s x Probationary else Inr s
           | Touch x \<Rightarrow>
               (case touch_target g of
                  None \<Rightarrow> Inr s
                | Some target \<Rightarrow>
                    bind_result (detach s x) (\<lambda>s1.
                    bind_result (push_head s1 x target) demote))))"

fun apply_all :: "SegmentedRecency \<Rightarrow> RecencyEvent list \<Rightarrow> SegmentedRecency run" where
  "apply_all s [] = Inr s"
| "apply_all s (e # es) = bind_result (recency_apply s e) (\<lambda>s1. apply_all s1 es)"

definition drain :: "SegmentedRecency \<Rightarrow> TouchQueue \<Rightarrow> (SegmentedRecency \<times> nat) run \<times> TouchQueue" where
  "drain s q =
     (bind_result (apply_all s (pending q)) (\<lambda>s1. Inr (s1, length (pending q))), q\<lparr>pending := []\<rparr>)"

definition victim :: "SegmentedRecency \<Rightarrow> u32 option" where
  "victim s =
     (let tail = (\<lambda>i. list_tail (lists s ! i))
      in case tail 3 of Some x \<Rightarrow> Some x
         | None \<Rightarrow> (case tail 1 of Some x \<Rightarrow> Some x
         | None \<Rightarrow> (case tail 0 of Some x \<Rightarrow> Some x
         | None \<Rightarrow> tail 2)))"

text \<open>The walk of \<open>verify\<close> over one list.\<close>

function verify_walk ::
  "(u32 \<times> Node) list \<Rightarrow> Segment \<Rightarrow> u32 option \<Rightarrow> u32 option \<Rightarrow> nat \<Rightarrow> (u32 option \<times> nat) result" where
  "verify_walk ns g current previous n =
     (case current of
        None \<Rightarrow> Inr (previous, n)
      | Some slot \<Rightarrow>
          (case map_of ns slot of
             None \<Rightarrow> Inl InternalInvariant
           | Some node \<Rightarrow>
               if node_segment node \<noteq> g \<or> prev_link node \<noteq> previous then Inl InternalInvariant
               else if Suc n > length ns then Inl InternalInvariant
               else verify_walk ns g (next_link node) (Some slot) (Suc n)))"
  by pat_completeness auto
termination
  by (relation "measure (\<lambda>(ns, g, c, p, n). Suc (length ns) - n)") auto

declare verify_walk.simps [simp del]

definition verify_list :: "SegmentedRecency \<Rightarrow> nat \<Rightarrow> Segment \<Rightarrow> nat result" where
  "verify_list s i g =
     bind_result (verify_walk (nodes s) g (list_head (lists s ! i)) None 0) (\<lambda>(previous, n).
       if previous \<noteq> list_tail (lists s ! i) \<or> n \<noteq> list_len (lists s ! i)
       then Inl InternalInvariant else Inr n)"

definition verify :: "SegmentedRecency \<Rightarrow> unit result" where
  "verify s =
     bind_result (verify_list s 0 Window) (\<lambda>a.
     bind_result (verify_list s 1 Probationary) (\<lambda>b.
     bind_result (verify_list s 2 Protected) (\<lambda>c.
     bind_result (verify_list s 3 PrefetchedUnused) (\<lambda>d.
       let detached = length (filter (\<lambda>e. node_segment (snd e) = Detached) (nodes s))
       in if a + b + c + d + detached \<noteq> length (nodes s) then Inl InternalInvariant else Inr ()))))"

section \<open>Linked lists\<close>

definition first_link :: "u32 list \<Rightarrow> u32 option \<Rightarrow> u32 option" where
  "first_link xs d = (case xs of [] \<Rightarrow> d | x # _ \<Rightarrow> Some x)"

definition last_link :: "u32 list \<Rightarrow> u32 option \<Rightarrow> u32 option" where
  "last_link xs d = (if xs = [] then d else Some (last xs))"

lemma link_simps [simp]:
  "first_link [] d = d" "first_link (x # xs) d = Some x"
  "last_link [] d = d" "last_link (x # xs) d = last_link xs (Some x)"
  by (simp_all add: first_link_def last_link_def)

lemma link_append [simp]:
  "first_link (xs @ ys) d = first_link xs (first_link ys d)"
  "last_link (xs @ ys) d = last_link ys (last_link xs d)"
  by (cases xs; simp add: first_link_def) (simp add: last_link_def)

text \<open>\<open>chain ns g p xs n\<close>: the nodes \<open>xs\<close> of segment \<open>g\<close> are linked in this order, from the
  predecessor \<open>p\<close> of the first to the successor \<open>n\<close> of the last.\<close>

fun chain :: "(u32 \<rightharpoonup> Node) \<Rightarrow> Segment \<Rightarrow> u32 option \<Rightarrow> u32 list \<Rightarrow> u32 option \<Rightarrow> bool" where
  "chain ns g p [] n \<longleftrightarrow> True"
| "chain ns g p (x # xs) n \<longleftrightarrow>
     ns x = Some \<lparr>node_segment = g, prev_link = p, next_link = first_link xs n\<rparr> \<and>
     chain ns g (Some x) xs n"

lemma chain_append:
  "chain ns g p (xs @ ys) n \<longleftrightarrow> chain ns g p xs (first_link ys n) \<and> chain ns g (last_link xs p) ys n"
  by (induction xs arbitrary: p) auto

lemma chain_cong:
  "(\<And>x. x \<in> set xs \<Longrightarrow> ns' x = ns x) \<Longrightarrow> chain ns' g p xs n \<longleftrightarrow> chain ns g p xs n"
  by (induction xs arbitrary: p) auto

lemma chain_frame [simp]: "x \<notin> set xs \<Longrightarrow> chain (ns(x := v)) g p xs n \<longleftrightarrow> chain ns g p xs n"
  by (rule chain_cong) auto

lemma chain_member:
  "chain ns g p xs n \<Longrightarrow> x \<in> set xs \<Longrightarrow> \<exists>node. ns x = Some node \<and> node_segment node = g"
  by (induction xs arbitrary: p) auto

lemma chain_set_prev:
  "chain ns g p xs n \<Longrightarrow> distinct xs \<Longrightarrow> xs \<noteq> [] \<Longrightarrow>
   chain (ns(hd xs := map_option (prev_link_update (\<lambda>_. p')) (ns (hd xs)))) g p' xs n"
proof (cases xs)
  case (Cons x ys)
  assume "chain ns g p xs n" "distinct xs"
  then show ?thesis using Cons by auto
qed simp

lemma chain_set_next:
  "chain ns g p xs n \<Longrightarrow> distinct xs \<Longrightarrow> xs \<noteq> [] \<Longrightarrow>
   chain (ns(last xs := map_option (next_link_update (\<lambda>_. n')) (ns (last xs)))) g p xs n'"
proof (induction xs arbitrary: p)
  case (Cons x xs)
  show ?case
  proof (cases "xs = []")
    case False
    then obtain y ys where xs: "xs = y # ys" by (cases xs) auto
    have "x \<noteq> last xs" using Cons.prems(2) False by auto
    moreover have "chain ns g (Some x) xs n" "distinct xs" using Cons.prems by simp_all
    note Cons.IH [OF this False]
    ultimately show ?thesis using Cons.prems(1) False by (simp add: xs)
  qed (use Cons in simp)
qed simp

text \<open>A chain is determined by its first node, hence has no repetition.\<close>

lemma chain_unique:
  "chain ns g p (x # xs) None \<Longrightarrow> chain ns h q (x # ys) None \<Longrightarrow> xs = ys"
proof (induction xs arbitrary: x p q ys)
  case Nil
  then show ?case by (cases ys) auto
next
  case (Cons y xs)
  then obtain zs where "ys = y # zs" by (cases ys) auto
  with Cons.IH [of "Some x" y "Some x" zs] Cons.prems show ?case by simp
qed

lemma chain_distinct: "chain ns g p xs None \<Longrightarrow> distinct xs"
proof (induction xs arbitrary: p)
  case (Cons x xs)
  have "x \<notin> set xs"
  proof
    assume "x \<in> set xs"
    then obtain as bs where xs: "xs = as @ x # bs" by (meson split_list)
    then have "chain ns g (last_link (x # as) p) (x # bs) None"
      using Cons.prems iffD1 [OF chain_append, of ns g p "x # as" "x # bs" None]
      by (simp del: chain.simps link_simps(4))
    with chain_unique [OF Cons.prems this] xs show False by simp
  qed
  then show ?case using Cons by auto
qed simp

section \<open>Representation\<close>

fun seg_at :: "nat \<Rightarrow> Segment" where
  "seg_at 0 = Window"
| "seg_at (Suc 0) = Probationary"
| "seg_at (Suc (Suc 0)) = Protected"
| "seg_at _ = PrefetchedUnused"

lemma segment_index_seg_at: "segment_index g = Inr i \<longleftrightarrow> i < 4 \<and> g = seg_at i"
  by (cases g; cases i rule: seg_at.cases) (auto simp: numeral_eq_Suc)

definition list_rep :: "(u32 \<rightharpoonup> Node) \<Rightarrow> Segment \<Rightarrow> LinkList \<Rightarrow> u32 list \<Rightarrow> bool" where
  "list_rep ns g l xs \<longleftrightarrow> chain ns g None xs None \<and>
     l = \<lparr>list_head = first_link xs None, list_tail = last_link xs None, list_len = length xs\<rparr>"

text \<open>The state represents one list per segment; every node of an attached segment is in its
  list.\<close>

definition rep :: "SegmentedRecency \<Rightarrow> (Segment \<Rightarrow> u32 list) \<Rightarrow> bool" where
  "rep s A \<longleftrightarrow> bt_wf (nodes s) \<and> bt_keys (nodes s) \<subseteq> {..u32_max} \<and> length (lists s) = 4 \<and>
     A Detached = [] \<and>
     (\<forall>i<4. list_rep (map_of (nodes s)) (seg_at i) (lists s ! i) (A (seg_at i))) \<and>
     (\<forall>x n. map_of (nodes s) x = Some n \<longrightarrow> node_segment n \<noteq> Detached \<longrightarrow> x \<in> set (A (node_segment n)))"

lemma seg_at_inj: "i < 4 \<Longrightarrow> j < 4 \<Longrightarrow> seg_at i = seg_at j \<longleftrightarrow> i = j"
  by (cases i rule: seg_at.cases; cases j rule: seg_at.cases) auto

lemma seg_at_attached: "seg_at i \<noteq> Detached"
  by (cases i rule: seg_at.cases) auto

lemma attached_seg_at: "g \<noteq> Detached \<Longrightarrow> \<exists>i<4. g = seg_at i"
  using segment_index_seg_at by (cases g) (metis segment_index.simps)+

lemma rep_member:
  assumes "rep s A" "x \<in> set (A g)"
  shows "\<exists>n. map_of (nodes s) x = Some n \<and> node_segment n = g"
proof -
  have "g \<noteq> Detached" using assms by (auto simp: rep_def)
  then obtain i where "i < 4" "g = seg_at i" using attached_seg_at by blast
  then show ?thesis using assms chain_member by (fastforce simp: rep_def list_rep_def)
qed

lemma rep_disjoint: "rep s A \<Longrightarrow> x \<in> set (A g) \<Longrightarrow> x \<in> set (A h) \<Longrightarrow> g = h"
  by (metis rep_member option.inject)

lemma rep_complete:
  "rep s A \<Longrightarrow> map_option node_segment (map_of (nodes s) x) = Some g \<Longrightarrow> g \<noteq> Detached \<Longrightarrow> x \<in> set (A g)"
  unfolding rep_def by blast

lemma rep_list:
  assumes "rep s A" "i < 4"
  shows "list_rep (map_of (nodes s)) (seg_at i) (lists s ! i) (A (seg_at i))" "distinct (A (seg_at i))"
  using assms chain_distinct by (auto simp: rep_def list_rep_def)

text \<open>To establish a new representation after a change to one segment and its nodes.\<close>

lemma rep_change:
  assumes rep: "rep s A" and i: "i < 4"
    and ns: "bt_wf (nodes s')" "bt_keys (nodes s') \<subseteq> {..u32_max}" "length (lists s') = 4"
    and same: "\<And>j. j < 4 \<Longrightarrow> j \<noteq> i \<Longrightarrow> lists s' ! j = lists s ! j"
    and frame: "\<And>j x. j < 4 \<Longrightarrow> j \<noteq> i \<Longrightarrow> x \<in> set (A (seg_at j)) \<Longrightarrow>
      map_of (nodes s') x = map_of (nodes s) x"
    and new: "list_rep (map_of (nodes s')) (seg_at i) (lists s' ! i) xs"
    and complete: "\<And>x n. map_of (nodes s') x = Some n \<Longrightarrow> node_segment n \<noteq> Detached \<Longrightarrow>
      (node_segment n = seg_at i \<and> x \<in> set xs) \<or>
      (node_segment n \<noteq> seg_at i \<and> x \<in> set (A (node_segment n)))"
  shows "rep s' (A(seg_at i := xs))"
proof -
  have "list_rep (map_of (nodes s')) (seg_at j) (lists s' ! j) ((A(seg_at i := xs)) (seg_at j))"
    if j: "j < 4" for j
  proof (cases "j = i")
    case False
    then have "list_rep (map_of (nodes s)) (seg_at j) (lists s' ! j) (A (seg_at j))"
      using rep_list(1) [OF rep j] same j by simp
    moreover have "chain (map_of (nodes s')) (seg_at j) None (A (seg_at j)) None =
        chain (map_of (nodes s)) (seg_at j) None (A (seg_at j)) None"
      by (rule chain_cong) (rule frame [OF j False])
    ultimately have "list_rep (map_of (nodes s')) (seg_at j) (lists s' ! j) (A (seg_at j))"
      unfolding list_rep_def by blast
    then show ?thesis using seg_at_inj [OF j i] False by simp
  qed (use new in simp)
  moreover have "(A(seg_at i := xs)) Detached = []"
    using rep seg_at_attached [of i] by (simp add: rep_def)
  moreover have "x \<in> set ((A(seg_at i := xs)) (node_segment n))"
    if "map_of (nodes s') x = Some n" "node_segment n \<noteq> Detached" for x n
    using complete [OF that] by auto
  ultimately show ?thesis unfolding rep_def using ns by blast
qed

lemma rep_length:
  assumes "rep s A"
  shows "length (A g) < u64_max"
proof -
  have keys: "bt_keys (nodes s) \<subseteq> {..u32_max}" using assms by (simp add: rep_def)
  have "x \<in> bt_keys (nodes s)" if "x \<in> set (A g)" for x
    using rep_member [OF assms that] by (auto simp: bt_keys_lookup)
  then have "card (set (A g)) \<le> card {..u32_max}" using keys by (intro card_mono) auto
  moreover have "distinct (A g)"
  proof (cases "g = Detached")
    case True
    then show ?thesis using assms by (simp add: rep_def)
  qed (use rep_list(2) [OF assms] attached_seg_at in blast)
  ultimately have "length (A g) \<le> Suc u32_max" by (simp add: distinct_card)
  then show ?thesis by (simp add: u32_max_def u64_max_def)
qed

lemma rep_facts:
  assumes "rep s A" "i < 4"
  shows "lists s ! i = \<lparr>list_head = first_link (A (seg_at i)) None, list_tail = last_link (A (seg_at i)) None,
      list_len = length (A (seg_at i))\<rparr>"
    and "chain (map_of (nodes s)) (seg_at i) None (A (seg_at i)) None" "distinct (A (seg_at i))"
    and "segment_index (seg_at i) = Inr i" "length (lists s) = 4" "bt_wf (nodes s)"
    and "bt_keys (nodes s) \<subseteq> {..u32_max}"
  using rep_list [OF assms] assms by (simp_all add: rep_def list_rep_def segment_index_seg_at)

lemma rep_key: "rep s A \<Longrightarrow> x \<in> set (A g) \<Longrightarrow> x \<in> bt_keys (nodes s)"
  using rep_member by (fastforce simp: bt_keys_lookup)

text \<open>The node table after \<open>push_head\<close>.\<close>

definition pushed_nodes :: "(u32 \<times> Node) list \<Rightarrow> u32 \<Rightarrow> Segment \<Rightarrow> u32 list \<Rightarrow> (u32 \<times> Node) list" where
  "pushed_nodes ns x g xs =
     (let n1 = bt_modify x (\<lambda>n. n\<lparr>node_segment := g, prev_link := None, next_link := first_link xs None\<rparr>) ns
      in case xs of [] \<Rightarrow> n1 | y # _ \<Rightarrow> bt_modify y (\<lambda>n. n\<lparr>prev_link := Some x\<rparr>) n1)"

lemma pushed_nodes_lookup:
  assumes "map_of ns x = Some n" "x \<notin> set xs"
  shows "map_of (pushed_nodes ns x g xs) x = Some \<lparr>node_segment = g, prev_link = None, next_link = first_link xs None\<rparr>"
    and "y \<noteq> x \<Longrightarrow> y \<notin> set xs \<Longrightarrow> map_of (pushed_nodes ns x g xs) y = map_of ns y"
    and "y \<noteq> x \<Longrightarrow> map_option node_segment (map_of (pushed_nodes ns x g xs) y) = map_option node_segment (map_of ns y)"
    and "bt_keys (pushed_nodes ns x g xs) = bt_keys ns" "bt_wf (pushed_nodes ns x g xs) = bt_wf ns"
  using assms by (cases n; cases xs; auto simp: pushed_nodes_def option.map_comp o_def)+

lemma pushed_nodes_chain:
  assumes "map_of ns x = Some n" "x \<notin> set xs" "chain (map_of ns) g None xs None" "distinct xs"
  shows "chain (map_of (pushed_nodes ns x g xs)) g None (x # xs) None"
proof (cases xs)
  case Nil
  then show ?thesis using pushed_nodes_lookup(1) [OF assms(1,2)] by simp
next
  case (Cons y ys)
  let ?ns' = "(map_of ns)(y := map_option (prev_link_update (\<lambda>_. Some x)) (map_of ns y))"
  have "chain (map_of (pushed_nodes ns x g xs)) g (Some x) xs None = chain ?ns' g (Some x) xs None"
    by (rule chain_cong) (use assms(2) Cons in \<open>auto simp: pushed_nodes_def\<close>)
  then show ?thesis
    using chain_set_prev [OF assms(3,4), of "Some x"] pushed_nodes_lookup(1) [OF assms(1,2)] Cons by simp
qed

definition pushed :: "SegmentedRecency \<Rightarrow> u32 \<Rightarrow> nat \<Rightarrow> u32 list \<Rightarrow> SegmentedRecency" where
  "pushed s x i xs = s\<lparr>nodes := pushed_nodes (nodes s) x (seg_at i) xs,
     lists := (lists s)[i := \<lparr>list_head = Some x, list_tail = last_link (x # xs) None, list_len = Suc (length xs)\<rparr>]\<rparr>"

lemma push_head_eval:
  assumes rep: "rep s A" and i: "i < 4" and x: "x \<in> bt_keys (nodes s)"
  shows "push_head s x (seg_at i) = Inr (pushed s x i (A (seg_at i)))"
proof -
  have "wadd64 (length (A (seg_at i))) 1 = Suc (length (A (seg_at i)))"
    using rep_length [OF rep, of "seg_at i"] by (simp add: wadd64_exact)
  then show ?thesis
    using x i rep_facts [OF rep i] rep_key [OF rep, of _ "seg_at i"]
    by (cases "A (seg_at i)") (simp_all add: push_head_def raise_def modify_node_def modify_list_def
        pushed_def pushed_nodes_def Let_def)
qed

lemma push_head_correct:
  assumes rep: "rep s A" and i: "i < 4" and x: "map_of (nodes s) x = Some n" "node_segment n = Detached"
  shows "push_head s x (seg_at i) = Inr (pushed s x i (A (seg_at i)))"
    and "rep (pushed s x i (A (seg_at i))) (A(seg_at i := x # A (seg_at i)))"
proof -
  let ?g = "seg_at i" and ?xs = "A (seg_at i)" and ?ns = "pushed_nodes (nodes s) x (seg_at i) (A (seg_at i))"
  have fresh: "x \<notin> set (A h)" for h
    using rep_member [OF rep, of x h] x rep by (cases "h = Detached") (auto simp: rep_def)
  note f = rep_facts [OF rep i] and pn = pushed_nodes_lookup [OF x(1) fresh [of ?g], where g = ?g]
  show "push_head s x ?g = Inr (pushed s x i ?xs)"
    using push_head_eval [OF rep i] x by (simp add: bt_keys_lookup)
  show "rep (pushed s x i ?xs) (A(?g := x # ?xs))"
  proof (rule rep_change [OF rep i])
    show "map_of (nodes (pushed s x i ?xs)) y = map_of (nodes s) y"
      if "j < 4" "j \<noteq> i" "y \<in> set (A (seg_at j))" for j y
    proof -
      have "y \<noteq> x" using fresh that(3) by auto
      moreover have "y \<notin> set ?xs"
        using rep_disjoint [OF rep that(3), of ?g] seg_at_inj [OF that(1) i] that(2) by auto
      ultimately show ?thesis using pn(2) by (simp add: pushed_def)
    qed
    show "list_rep (map_of (nodes (pushed s x i ?xs))) ?g (lists (pushed s x i ?xs) ! i) (x # ?xs)"
      using pushed_nodes_chain [OF x(1) fresh f(2,3)] i f(5) by (simp add: list_rep_def pushed_def)
    show "(node_segment m = ?g \<and> y \<in> set (x # ?xs)) \<or> (node_segment m \<noteq> ?g \<and> y \<in> set (A (node_segment m)))"
      if y: "map_of (nodes (pushed s x i ?xs)) y = Some m" "node_segment m \<noteq> Detached" for y m
    proof (cases "y = x")
      case True
      then show ?thesis using y pn(1) by (auto simp: pushed_def)
    next
      case False
      then have "map_option node_segment (map_of (nodes s) y) = Some (node_segment m)"
        using y(1) pn(3) [of y] by (simp add: pushed_def)
      then have "y \<in> set (A (node_segment m))" using rep_complete [OF rep] y(2) by blast
      then show ?thesis by auto
    qed
  qed (use f i pn(4,5) in \<open>auto simp: pushed_def\<close>)
qed

text \<open>The node table after \<open>detach\<close> of \<open>x\<close> between \<open>as\<close> and \<open>bs\<close>.\<close>

definition detached_node :: Node where
  "detached_node = \<lparr>node_segment = Detached, prev_link = None, next_link = None\<rparr>"

definition detached_nodes :: "(u32 \<times> Node) list \<Rightarrow> u32 list \<Rightarrow> u32 \<Rightarrow> u32 list \<Rightarrow> (u32 \<times> Node) list" where
  "detached_nodes ns as x bs =
     (let n1 = (if as = [] then ns else bt_modify (last as) (\<lambda>n. n\<lparr>next_link := first_link bs None\<rparr>) ns);
          n2 = (if bs = [] then n1 else bt_modify (hd bs) (\<lambda>n. n\<lparr>prev_link := last_link as None\<rparr>) n1)
      in bt_modify x (\<lambda>_. detached_node) n2)"

lemma detached_nodes_map:
  "map_of (detached_nodes ns as x bs) y =
     (if y = x then map_option (\<lambda>_. detached_node) (map_of ns x)
      else map_option
        ((if bs \<noteq> [] \<and> y = hd bs then prev_link_update (\<lambda>_. last_link as None) else id) \<circ>
         (if as \<noteq> [] \<and> y = last as then next_link_update (\<lambda>_. first_link bs None) else id)) (map_of ns y))"
  unfolding detached_nodes_def Let_def
  by (cases "as = []"; cases "bs = []"; cases "y = x"; cases "y = hd bs"; cases "y = last as";
      simp only: bt_modify_lookup fun_upd_apply if_True if_False not_False_eq_True simp_thms
        option.map_comp o_id id_o option.map_id o_def id_def option.map_ident)

lemma detached_nodes_lookup:
  assumes "x \<in> bt_keys ns"
  shows "map_of (detached_nodes ns as x bs) x = Some detached_node"
    and "y \<noteq> x \<Longrightarrow> y \<notin> set (as @ bs) \<Longrightarrow> map_of (detached_nodes ns as x bs) y = map_of ns y"
    and "y \<noteq> x \<Longrightarrow> map_option node_segment (map_of (detached_nodes ns as x bs) y) = map_option node_segment (map_of ns y)"
    and "bt_keys (detached_nodes ns as x bs) = bt_keys ns" "bt_wf (detached_nodes ns as x bs) = bt_wf ns"
proof -
  show "map_of (detached_nodes ns as x bs) x = Some detached_node"
    using assms by (auto simp: detached_nodes_map bt_keys_lookup)
  show "map_of (detached_nodes ns as x bs) y = map_of ns y" if "y \<noteq> x" "y \<notin> set (as @ bs)"
  proof -
    have "\<not> (as \<noteq> [] \<and> y = last as)" "\<not> (bs \<noteq> [] \<and> y = hd bs)" using that(2) by auto
    then show ?thesis using that(1) unfolding detached_nodes_map by (simp only: if_False id_o option.map_id)
  qed
  show "map_option node_segment (map_of (detached_nodes ns as x bs) y) = map_option node_segment (map_of ns y)"
    if "y \<noteq> x" using that by (cases "map_of ns y") (simp_all add: detached_nodes_map)
  show "bt_keys (detached_nodes ns as x bs) = bt_keys ns" "bt_wf (detached_nodes ns as x bs) = bt_wf ns"
    by (simp_all add: detached_nodes_def Let_def)
qed

lemma detached_nodes_chain:
  assumes ch: "chain (map_of ns) g None (as @ x # bs) None" and d: "distinct (as @ x # bs)"
  shows "chain (map_of (detached_nodes ns as x bs)) g None (as @ bs) None"
proof -
  have a: "chain (map_of ns) g None as (Some x)" and b: "chain (map_of ns) g (Some x) bs None"
    using ch by (simp_all add: chain_append)
  let ?f = "map_of (detached_nodes ns as x bs)"
  have "chain ?f g None as (first_link bs None)"
  proof (cases "as = []")
    case False
    let ?na = "(map_of ns)(last as := map_option (next_link_update (\<lambda>_. first_link bs None)) (map_of ns (last as)))"
    have "?f y = ?na y" if "y \<in> set as" for y
    proof -
      have "y \<noteq> x" "bs \<noteq> [] \<longrightarrow> y \<noteq> hd bs" using that d by auto
      then show ?thesis using False by (simp add: detached_nodes_def Let_def)
    qed
    then have "chain ?f g None as (first_link bs None) = chain ?na g None as (first_link bs None)"
      by (rule chain_cong)
    then show ?thesis using chain_set_next [OF a _ False] d by simp
  qed simp
  moreover have "chain ?f g (last_link as None) bs None"
  proof (cases "bs = []")
    case False
    let ?nb = "(map_of ns)(hd bs := map_option (prev_link_update (\<lambda>_. last_link as None)) (map_of ns (hd bs)))"
    have "?f y = ?nb y" if "y \<in> set bs" for y
    proof -
      have "y \<noteq> x" "as \<noteq> [] \<longrightarrow> y \<noteq> last as" using that d last_in_set by fastforce+
      then show ?thesis using False by (simp add: detached_nodes_def Let_def)
    qed
    then have "chain ?f g (last_link as None) bs None = chain ?nb g (last_link as None) bs None"
      by (rule chain_cong)
    then show ?thesis using chain_set_prev [OF b _ False] d by simp
  qed simp
  ultimately show ?thesis by (simp add: chain_append)
qed

definition unlinked :: "SegmentedRecency \<Rightarrow> nat \<Rightarrow> u32 list \<Rightarrow> u32 \<Rightarrow> u32 list \<Rightarrow> SegmentedRecency" where
  "unlinked s i as x bs = s\<lparr>nodes := detached_nodes (nodes s) as x bs,
     lists := (lists s)[i := \<lparr>list_head = first_link (as @ bs) None, list_tail = last_link (as @ bs) None,
                              list_len = length (as @ bs)\<rparr>]\<rparr>"

lemma detach_eval:
  assumes rep: "rep s A" and i: "i < 4" and x: "A (seg_at i) = as @ x # bs"
  shows "detach s x = Inr (unlinked s i as x bs)"
proof -
  note f = rep_facts [OF rep i]
  have node: "map_of (nodes s) x = Some \<lparr>node_segment = seg_at i, prev_link = last_link as None,
      next_link = first_link bs None\<rparr>"
    using f(2) by (simp add: x chain_append)
  have keys: "y \<in> bt_keys (nodes s)" if "y \<in> set (as @ x # bs)" for y
    using rep_key [OF rep, of y "seg_at i"] x that by simp
  have w: "wsub64 (length (A (seg_at i))) 1 = length as + length bs"
    using rep_length [OF rep, of "seg_at i"] by (simp add: x wsub64_exact)
  show ?thesis
    using f(1,4,5) i node w keys seg_at_attached [of i]
    by (cases s; cases as rule: rev_cases; cases bs;
        simp add: detach_def raise_def modify_node_def modify_list_def x
          unlinked_def detached_nodes_def detached_node_def Let_def)
qed

lemma detach_correct:
  assumes rep: "rep s A" and i: "i < 4" and x: "A (seg_at i) = as @ x # bs"
  shows "rep (unlinked s i as x bs) (A(seg_at i := as @ bs))"
proof -
  let ?g = "seg_at i" and ?s = "unlinked s i as x bs"
  note f = rep_facts [OF rep i]
  have key: "x \<in> bt_keys (nodes s)" using rep_key [OF rep, of x ?g] x by simp
  note dn = detached_nodes_lookup [OF key]
  show ?thesis
  proof (rule rep_change [OF rep i])
    show "map_of (nodes ?s) y = map_of (nodes s) y" if "j < 4" "j \<noteq> i" "y \<in> set (A (seg_at j))" for j y
    proof -
      have "y \<notin> set (as @ x # bs)"
        using rep_disjoint [OF rep that(3), of ?g] seg_at_inj [OF that(1) i] that(2) x by auto
      then show ?thesis using dn(2) by (simp add: unlinked_def)
    qed
    show "list_rep (map_of (nodes ?s)) ?g (lists ?s ! i) (as @ bs)"
      using detached_nodes_chain [of "nodes s" ?g as x bs] f x i by (simp add: list_rep_def unlinked_def)
    show "(node_segment m = ?g \<and> y \<in> set (as @ bs)) \<or> (node_segment m \<noteq> ?g \<and> y \<in> set (A (node_segment m)))"
      if y: "map_of (nodes ?s) y = Some m" "node_segment m \<noteq> Detached" for y m
    proof -
      have "y \<noteq> x" using y dn(1) by (auto simp: unlinked_def detached_node_def)
      moreover from this have "y \<in> set (A (node_segment m))"
        using y dn(3) [of y as bs] rep_complete [OF rep, of y "node_segment m"] by (simp add: unlinked_def)
      ultimately show ?thesis using x by auto
    qed
  qed (use f i dn(4,5) in \<open>auto simp: unlinked_def\<close>)
qed

section \<open>Specification\<close>

text \<open>What the index means: which slots it knows, and the slots of each segment, most recent
  first.\<close>

record recency_spec =
  known :: "u32 set"
  seg_list :: "Segment \<Rightarrow> u32 list"

definition spec_segment :: "recency_spec \<Rightarrow> u32 \<Rightarrow> Segment" where
  "spec_segment a x =
     (if x \<in> set (seg_list a Window) then Window
      else if x \<in> set (seg_list a Probationary) then Probationary
      else if x \<in> set (seg_list a Protected) then Protected
      else if x \<in> set (seg_list a PrefetchedUnused) then PrefetchedUnused else Detached)"

definition spec_detach :: "recency_spec \<Rightarrow> u32 \<Rightarrow> recency_spec" where
  "spec_detach a x = a\<lparr>seg_list := \<lambda>g. filter (\<lambda>y. y \<noteq> x) (seg_list a g)\<rparr>"

definition spec_push :: "recency_spec \<Rightarrow> u32 \<Rightarrow> Segment \<Rightarrow> recency_spec" where
  "spec_push a x g = a\<lparr>seg_list := (seg_list a)(g := x # seg_list a g)\<rparr>"

definition spec_demote :: "nat \<Rightarrow> recency_spec \<Rightarrow> recency_spec" where
  "spec_demote target a =
     (if length (seg_list a Protected) > target then
        (let t = last (seg_list a Protected) in spec_push (spec_detach a t) t Probationary)
      else a)"

fun spec_apply :: "nat \<Rightarrow> recency_spec \<Rightarrow> RecencyEvent \<Rightarrow> recency_spec" where
  "spec_apply target a (PinSlot x) = (if x \<in> known a then spec_detach a x else a)"
| "spec_apply target a (UnpinSlot x) =
     (if x \<in> known a \<and> spec_segment a x = Detached then spec_push a x Probationary else a)"
| "spec_apply target a (Touch x) =
     (if x \<in> known a then
        (case touch_target (spec_segment a x) of
           None \<Rightarrow> a
         | Some g \<Rightarrow> spec_demote target (spec_push (spec_detach a x) x g))
      else a)"

definition implements :: "SegmentedRecency \<Rightarrow> recency_spec \<Rightarrow> bool" where
  "implements s a \<longleftrightarrow> rep s (seg_list a) \<and> known a = bt_keys (nodes s)"

lemma spec_segment_iff:
  assumes "implements s a" "g \<noteq> Detached"
  shows "spec_segment a x = g \<longleftrightarrow> x \<in> set (seg_list a g)"
  using assms rep_disjoint [of s "seg_list a" x]
  by (cases g) (auto simp: spec_segment_def implements_def)

lemma spec_segment_detached:
  assumes "implements s a"
  shows "spec_segment a x = Detached \<longleftrightarrow> (\<forall>g. x \<notin> set (seg_list a g))"
proof -
  have "seg_list a Detached = []" using assms by (simp add: implements_def rep_def)
  then show ?thesis using spec_segment_iff [OF assms] by (metis empty_iff list.set(1))
qed

lemma segment_of_spec:
  assumes impl: "implements s a"
  shows "segment_of s x = (if x \<in> known a then Some (spec_segment a x) else None)"
proof (cases "map_of (nodes s) x")
  case None
  then show ?thesis using impl by (simp add: segment_of_def implements_def bt_keys_lookup)
next
  case (Some n)
  have "spec_segment a x = node_segment n"
  proof (cases "node_segment n = Detached")
    case True
    have "x \<notin> set (seg_list a g)" for g
      using rep_member [of s "seg_list a" x g] impl Some True by (cases "g = Detached") (auto simp: implements_def rep_def)
    then show ?thesis using True spec_segment_detached [OF impl] by simp
  next
    case False
    then show ?thesis
      using spec_segment_iff [OF impl False] rep_complete [of s "seg_list a" x] impl Some
      by (simp add: implements_def)
  qed
  then show ?thesis using impl Some by (simp add: segment_of_def implements_def bt_keys_lookup)
qed

lemma known_node:
  "implements s a \<Longrightarrow> x \<in> known a \<Longrightarrow> \<exists>n. map_of (nodes s) x = Some n \<and> node_segment n = spec_segment a x"
  using segment_of_spec [of s a x] by (auto simp: segment_of_def)

lemma push_head_implements:
  assumes impl: "implements s a" and x: "x \<in> known a" "spec_segment a x = Detached" and g: "g \<noteq> Detached"
  shows "\<exists>s'. push_head s x g = Inr s' \<and> implements s' (spec_push a x g) \<and>
    protected_target s' = protected_target s"
proof -
  obtain i where i: "i < 4" "g = seg_at i" using attached_seg_at [OF g] by blast
  obtain n where n: "map_of (nodes s) x = Some n" "node_segment n = Detached"
    using known_node [OF impl x(1)] x(2) by auto
  have rep: "rep s (seg_list a)" using impl by (simp add: implements_def)
  have "x \<notin> set (seg_list a g)" using x spec_segment_detached [OF impl] by simp
  then have "bt_keys (nodes (pushed s x i (seg_list a g))) = known a"
    using pushed_nodes_lookup(4) [OF n(1), of "seg_list a g"] impl i
    by (simp add: pushed_def implements_def)
  then show ?thesis
    using push_head_correct [OF rep i(1) n] i(2)
    by (simp add: implements_def spec_push_def pushed_def)
qed

lemma detach_implements:
  assumes impl: "implements s a" and x: "x \<in> known a"
  shows "\<exists>s'. detach s x = Inr s' \<and> implements s' (spec_detach a x) \<and>
    protected_target s' = protected_target s \<and> spec_segment (spec_detach a x) x = Detached"
proof -
  have gone: "spec_segment (spec_detach a x) x = Detached"
    by (simp add: spec_segment_def spec_detach_def)
  have rep: "rep s (seg_list a)" using impl by (simp add: implements_def)
  obtain n where n: "map_of (nodes s) x = Some n" "node_segment n = spec_segment a x"
    using known_node [OF impl x] by blast
  show ?thesis
  proof (cases "spec_segment a x = Detached")
    case True
    then have "filter (\<lambda>y. y \<noteq> x) (seg_list a g) = seg_list a g" for g
      using spec_segment_detached [OF impl] by (auto intro: filter_True)
    then have "spec_detach a x = a" by (simp add: spec_detach_def)
    then show ?thesis using n True impl gone by (simp add: detach_def)
  next
    case False
    then obtain i where i: "i < 4" "spec_segment a x = seg_at i" using attached_seg_at by blast
    then have mem: "x \<in> set (seg_list a (seg_at i))" using spec_segment_iff [OF impl False] by simp
    then obtain as bs where ab: "seg_list a (seg_at i) = as @ x # bs" by (meson split_list)
    have "x \<notin> set as" "x \<notin> set bs" using rep_facts(3) [OF rep i(1)] ab by auto
    then have "filter (\<lambda>y. y \<noteq> x) as = as" "filter (\<lambda>y. y \<noteq> x) bs = bs" by (auto intro: filter_True)
    then have "filter (\<lambda>y. y \<noteq> x) (seg_list a (seg_at i)) = as @ bs" by (simp add: ab)
    moreover have "filter (\<lambda>y. y \<noteq> x) (seg_list a g) = seg_list a g" if "g \<noteq> seg_at i" for g
      using that rep_disjoint [OF rep mem] by (auto intro: filter_True)
    ultimately have "(\<lambda>g. filter (\<lambda>y. y \<noteq> x) (seg_list a g)) = (seg_list a)(seg_at i := as @ bs)" by auto
    moreover have "bt_keys (nodes (unlinked s i as x bs)) = known a"
      using detached_nodes_lookup(4) [of x "nodes s"] impl x by (simp add: unlinked_def implements_def)
    ultimately show ?thesis
      using detach_correct [OF rep i(1) ab] detach_eval [OF rep i(1) ab] gone
      by (simp add: implements_def spec_detach_def unlinked_def)
  qed
qed

lemma spec_known [simp]:
  "known (spec_push a x g) = known a" "known (spec_detach a x) = known a"
  "known (spec_demote t a) = known a"
  by (simp_all add: spec_push_def spec_detach_def spec_demote_def Let_def)

lemma demote_implements:
  assumes impl: "implements s a"
  shows "\<exists>s'. demote s = Inr s' \<and> implements s' (spec_demote (protected_target s) a) \<and>
    protected_target s' = protected_target s"
proof -
  have rep: "rep s (seg_list a)" using impl by (simp add: implements_def)
  let ?xs = "seg_list a Protected"
  have l: "lists s ! 2 = \<lparr>list_head = first_link ?xs None, list_tail = last_link ?xs None, list_len = length ?xs\<rparr>"
    using rep_facts(1) [OF rep, of 2] by (simp add: numeral_2_eq_2)
  show ?thesis
  proof (cases "length ?xs > protected_target s")
    case True
    then have ne: "?xs \<noteq> []" by auto
    let ?t = "last ?xs"
    have t: "?t \<in> known a" using rep_key [OF rep, of ?t Protected] ne impl by (simp add: implements_def)
    obtain s1 where s1: "detach s ?t = Inr s1" "implements s1 (spec_detach a ?t)"
        "protected_target s1 = protected_target s" "spec_segment (spec_detach a ?t) ?t = Detached"
      using detach_implements [OF impl t] by blast
    obtain s2 where "push_head s1 ?t Probationary = Inr s2"
        "implements s2 (spec_push (spec_detach a ?t) ?t Probationary)" "protected_target s2 = protected_target s1"
      using push_head_implements [OF s1(2) _ s1(4), of Probationary] t by auto
    then show ?thesis
      using True ne s1 l by (simp add: demote_def list_of_def spec_demote_def last_link_def Let_def)
  next
    case False
    then show ?thesis using impl l by (simp add: demote_def list_of_def spec_demote_def)
  qed
qed

text \<open>Every event is accepted and computes its specification.\<close>

lemma apply_implements:
  assumes impl: "implements s a"
  shows "\<exists>s'. recency_apply s e = Inr s' \<and> implements s' (spec_apply (protected_target s) a e) \<and>
    protected_target s' = protected_target s"
proof (cases "event_slot e \<in> known a")
  case False
  then show ?thesis using impl by (cases e) (simp_all add: recency_apply_def segment_of_spec)
next
  case k: True
  let ?g = "spec_segment a (event_slot e)"
  show ?thesis
  proof (cases e)
    case (PinSlot x)
    then show ?thesis
      using k detach_implements [OF impl, of x] by (auto simp: recency_apply_def segment_of_spec [OF impl])
  next
    case (UnpinSlot x)
    then show ?thesis
      using k impl push_head_implements [OF impl, of x Probationary]
      by (auto simp: recency_apply_def segment_of_spec [OF impl])
  next
    case (Touch x)
    show ?thesis
    proof (cases "touch_target ?g")
      case None
      then show ?thesis using Touch k impl by (simp add: recency_apply_def segment_of_spec [OF impl])
    next
      case (Some g)
      then have g: "g \<noteq> Detached" by (cases ?g) auto
      obtain s1 where s1: "detach s x = Inr s1" "implements s1 (spec_detach a x)"
          "protected_target s1 = protected_target s" "spec_segment (spec_detach a x) x = Detached"
        using detach_implements [OF impl, of x] k Touch by auto
      obtain s2 where s2: "push_head s1 x g = Inr s2" "implements s2 (spec_push (spec_detach a x) x g)"
          "protected_target s2 = protected_target s1"
        using push_head_implements [OF s1(2) _ s1(4) g] k Touch by auto
      show ?thesis
        using demote_implements [OF s2(2)] s1 s2 Some k Touch
        by (simp add: recency_apply_def segment_of_spec [OF impl])
    qed
  qed
qed

lemma insert_implements:
  assumes impl: "implements s a" and x: "x \<notin> known a" "x \<le> u32_max" and g: "g \<noteq> Detached"
  shows "\<exists>s'. recency_insert s x g = Inr s' \<and> protected_target s' = protected_target s \<and>
    implements s' (spec_push (a\<lparr>known := insert x (known a)\<rparr>) x g)"
proof -
  let ?s = "s\<lparr>nodes := bt_insert x detached_node (nodes s)\<rparr>" and ?a = "a\<lparr>known := insert x (known a)\<rparr>"
  have rep: "rep s (seg_list a)" using impl by (simp add: implements_def)
  have out: "x \<notin> set (seg_list a h)" for h using rep_key [OF rep, of x h] impl x by (auto simp: implements_def)
  have "chain (map_of (nodes ?s)) h None (seg_list a h) None = chain (map_of (nodes s)) h None (seg_list a h) None" for h
    using out [of h] by simp
  then have "rep ?s (seg_list a)"
    using rep x(2) by (auto simp: rep_def list_rep_def detached_node_def split: if_splits)
  then have impl': "implements ?s ?a" using impl by (simp add: implements_def)
  moreover have "spec_segment ?a x = Detached" using spec_segment_detached [OF impl'] out by simp
  ultimately have "\<exists>s'. push_head ?s x g = Inr s' \<and> implements s' (spec_push ?a x g) \<and>
      protected_target s' = protected_target ?s"
    using push_head_implements [of ?s ?a x g] g by simp
  then show ?thesis
    using x g impl by (auto simp: recency_insert_def implements_def detached_node_def)
qed

lemma victim_spec:
  assumes "implements s a"
  shows "victim s = last_link (seg_list a Protected @ seg_list a Window @ seg_list a Probationary @
           seg_list a PrefetchedUnused) None"
proof -
  have rep: "rep s (seg_list a)" using assms by (simp add: implements_def)
  have "list_tail (lists s ! i) = last_link (seg_list a (seg_at i)) None" if "i < 4" for i
    using rep_facts(1) [OF rep that] by simp
  from this [of 0] this [of 1] this [of 2] this [of 3] show ?thesis
    by (auto simp: victim_def Let_def last_link_def numeral_2_eq_2 numeral_3_eq_3)
qed

section \<open>The checker\<close>

lemma verify_walk_chain:
  assumes "chain (map_of ns) g p xs None" "n + length xs \<le> length ns"
  shows "verify_walk ns g (first_link xs None) p n = Inr (last_link xs p, n + length xs)"
  using assms
proof (induction xs arbitrary: p n)
  case Nil
  then show ?case by (simp add: verify_walk.simps)
next
  case (Cons x xs)
  then have "verify_walk ns g (first_link (x # xs) None) p n =
      verify_walk ns g (first_link xs None) (Some x) (Suc n)"
    by (simp add: verify_walk.simps [of ns g "Some x"])
  then show ?case using Cons by simp
qed

lemma verify_walk_sound:
  "verify_walk ns g cur p n = Inr (p', n') \<Longrightarrow>
   \<exists>xs. cur = first_link xs None \<and> chain (map_of ns) g p xs None \<and> p' = last_link xs p \<and> n' = n + length xs"
proof (induction ns g cur p n rule: verify_walk.induct)
  case (1 ns g cur p n)
  show ?case
  proof (cases cur)
    case None
    then show ?thesis using 1(2) by (intro exI [of _ "[]"]) (simp add: verify_walk.simps)
  next
    case (Some x)
    then obtain node where n: "map_of ns x = Some node" "node_segment node = g" "prev_link node = p"
        "Suc n \<le> length ns" "verify_walk ns g (next_link node) (Some x) (Suc n) = Inr (p', n')"
      using 1(2) by (auto simp: verify_walk.simps [of ns g "Some x"] split: option.splits if_splits)
    then obtain xs where "next_link node = first_link xs None" "chain (map_of ns) g (Some x) xs None"
        "p' = last_link xs (Some x)" "n' = Suc n + length xs"
      using 1(1) [OF Some n(1)] by auto
    then show ?thesis using Some n by (intro exI [of _ "x # xs"]) (cases node, simp)
  qed
qed

lemma list_rep_length:
  assumes "bt_wf ns" "list_rep (map_of ns) g l xs"
  shows "length xs \<le> length ns"
proof -
  have ch: "chain (map_of ns) g None xs None" using assms(2) by (simp add: list_rep_def)
  have "x \<in> bt_keys ns" if "x \<in> set xs" for x
    using chain_member [OF ch that] by (auto simp: bt_keys_lookup)
  then have "card (set xs) \<le> card (bt_keys ns)" by (intro card_mono) auto
  then show ?thesis using chain_distinct [OF ch] bt_card [OF assms(1)] by (simp add: distinct_card)
qed

lemma verify_list_iff:
  assumes "bt_wf (nodes s)"
  shows "verify_list s i g = Inr k \<longleftrightarrow> (\<exists>xs. list_rep (map_of (nodes s)) g (lists s ! i) xs \<and> k = length xs)"
proof
  assume v: "verify_list s i g = Inr k"
  then obtain p n where w: "verify_walk (nodes s) g (list_head (lists s ! i)) None 0 = Inr (p, n)"
    unfolding verify_list_def bind_result_eq_Inr by (metis surj_pair)
  have pk: "p = list_tail (lists s ! i)" "k = list_len (lists s ! i)" "n = k"
    using v by (simp_all add: verify_list_def w split: if_splits)
  obtain xs where xs: "list_head (lists s ! i) = first_link xs None" "chain (map_of (nodes s)) g None xs None"
    "p = last_link xs None" "n = 0 + length xs" using verify_walk_sound [OF w] by blast
  have "lists s ! i = \<lparr>list_head = first_link xs None, list_tail = last_link xs None, list_len = length xs\<rparr>"
    using pk xs by (cases "lists s ! i") simp
  then show "\<exists>xs. list_rep (map_of (nodes s)) g (lists s ! i) xs \<and> k = length xs"
    using xs pk(3) by (intro exI [of _ xs]) (simp add: list_rep_def)
next
  assume "\<exists>xs. list_rep (map_of (nodes s)) g (lists s ! i) xs \<and> k = length xs"
  then obtain xs where xs: "list_rep (map_of (nodes s)) g (lists s ! i) xs" "k = length xs" by blast
  then show "verify_list s i g = Inr k"
    using verify_walk_chain [of "nodes s" g None xs 0] list_rep_length [OF assms xs(1)]
    by (simp add: verify_list_def list_rep_def)
qed

definition attached :: "SegmentedRecency \<Rightarrow> u32 set" where
  "attached s = {x. \<exists>n. map_of (nodes s) x = Some n \<and> node_segment n \<noteq> Detached}"

lemma attached_count:
  assumes "bt_wf (nodes s)"
  shows "card (attached s) + length (filter (\<lambda>e. node_segment (snd e) = Detached) (nodes s)) = length (nodes s)"
proof -
  let ?f = "filter (\<lambda>e. node_segment (snd e) \<noteq> Detached) (nodes s)"
  have "attached s = set (map fst ?f)"
    using bt_wf_entry [OF assms] by (auto simp: attached_def image_iff Bex_def)
  moreover have "distinct (map fst ?f)" using bt_wf_distinct [OF assms] by (rule distinct_map_filter)
  ultimately have "card (attached s) = length ?f"
    using distinct_card [of "map fst ?f"] by (simp only: length_map)
  then show ?thesis
    using sum_length_filter_compl [of "\<lambda>e. node_segment (snd e) = Detached" "nodes s"] by simp
qed

text \<open>Four chains of different segments: their slots are attached, and they are disjoint.\<close>

lemma chains_card:
  assumes "list_rep (map_of (nodes s)) Window l0 w" "list_rep (map_of (nodes s)) Probationary l1 p"
    "list_rep (map_of (nodes s)) Protected l2 q" "list_rep (map_of (nodes s)) PrefetchedUnused l3 f"
  shows "set w \<union> set p \<union> set q \<union> set f \<subseteq> attached s"
    and "card (set w \<union> set p \<union> set q \<union> set f) = length w + length p + length q + length f"
proof -
  have seg: "\<exists>n. map_of (nodes s) x = Some n \<and> node_segment n = g"
    if "list_rep (map_of (nodes s)) g l xs" "x \<in> set xs" for g l xs x
    using that chain_member by (auto simp: list_rep_def)
  show "set w \<union> set p \<union> set q \<union> set f \<subseteq> attached s"
    using seg [OF assms(1)] seg [OF assms(2)] seg [OF assms(3)] seg [OF assms(4)]
    unfolding attached_def by (auto; metis Segment.distinct)
  have d: "distinct w" "distinct p" "distinct q" "distinct f"
    using assms chain_distinct by (auto simp: list_rep_def)
  have "set w \<inter> set p = {}" "(set w \<union> set p) \<inter> set q = {}" "(set w \<union> set p \<union> set q) \<inter> set f = {}"
    using seg [OF assms(1)] seg [OF assms(2)] seg [OF assms(3)] seg [OF assms(4)]
    by (auto; metis Segment.distinct option.inject)+
  then show "card (set w \<union> set p \<union> set q \<union> set f) = length w + length p + length q + length f"
    using d by (simp add: card_Un_disjoint distinct_card)
qed

lemma verify_iff:
  assumes "bt_wf (nodes s)"
  shows "verify s = Inr () \<longleftrightarrow> (\<exists>w p q f.
    list_rep (map_of (nodes s)) Window (lists s ! 0) w \<and> list_rep (map_of (nodes s)) Probationary (lists s ! 1) p \<and>
    list_rep (map_of (nodes s)) Protected (lists s ! 2) q \<and>
    list_rep (map_of (nodes s)) PrefetchedUnused (lists s ! 3) f \<and>
    set w \<union> set p \<union> set q \<union> set f = attached s)"
proof -
  have fin: "finite (attached s)"
    by (rule finite_subset [OF _ bt_keys_finite [of "nodes s"]]) (auto simp: attached_def bt_keys_lookup)
  have "length w + length p + length q + length f + length (filter (\<lambda>e. node_segment (snd e) = Detached) (nodes s)) =
      length (nodes s) \<longleftrightarrow> set w \<union> set p \<union> set q \<union> set f = attached s"
    if "list_rep (map_of (nodes s)) Window (lists s ! 0) w" "list_rep (map_of (nodes s)) Probationary (lists s ! 1) p"
      "list_rep (map_of (nodes s)) Protected (lists s ! 2) q" "list_rep (map_of (nodes s)) PrefetchedUnused (lists s ! 3) f"
    for w p q f
  proof -
    let ?U = "set w \<union> set p \<union> set q \<union> set f"
    have "card ?U = card (attached s) \<longleftrightarrow> ?U = attached s"
      using card_subset_eq [OF fin chains_card(1) [OF that]] by auto
    then show ?thesis using attached_count [OF assms] chains_card(2) [OF that] by linarith
  qed
  then show ?thesis
    unfolding verify_def bind_result_eq_Inr verify_list_iff [OF assms] Let_def
    by (simp split: if_splits) blast
qed

definition lists_of :: "u32 list \<Rightarrow> u32 list \<Rightarrow> u32 list \<Rightarrow> u32 list \<Rightarrow> Segment \<Rightarrow> u32 list" where
  "lists_of w p q f g = (case g of Window \<Rightarrow> w | Probationary \<Rightarrow> p | Protected \<Rightarrow> q
     | PrefetchedUnused \<Rightarrow> f | Detached \<Rightarrow> [])"

lemma all_lt_4: "(\<forall>i<4. P i) \<longleftrightarrow> P 0 \<and> P 1 \<and> P 2 \<and> P (3::nat)"
  by (auto simp: less_Suc_eq numeral_eq_Suc)

lemma rep_iff:
  assumes "bt_wf (nodes s)" "bt_keys (nodes s) \<subseteq> {..u32_max}" "length (lists s) = 4"
  shows "(\<exists>A. rep s A) \<longleftrightarrow> verify s = Inr ()"
proof
  assume "\<exists>A. rep s A"
  then obtain A where rep: "rep s A" by blast
  have l: "list_rep (map_of (nodes s)) Window (lists s ! 0) (A Window)"
    "list_rep (map_of (nodes s)) Probationary (lists s ! 1) (A Probationary)"
    "list_rep (map_of (nodes s)) Protected (lists s ! 2) (A Protected)"
    "list_rep (map_of (nodes s)) PrefetchedUnused (lists s ! 3) (A PrefetchedUnused)"
    using rep unfolding rep_def all_lt_4 by (simp_all add: numeral_2_eq_2 numeral_3_eq_3)
  have "x \<in> set (A Window) \<union> set (A Probationary) \<union> set (A Protected) \<union> set (A PrefetchedUnused)"
    if att: "x \<in> attached s" for x
  proof -
    obtain n where n: "map_of (nodes s) x = Some n" "node_segment n \<noteq> Detached"
      using att by (auto simp: attached_def)
    then have "x \<in> set (A (node_segment n))" using rep_complete [OF rep] by simp
    then show ?thesis using n(2) by (cases "node_segment n") auto
  qed
  then show "verify s = Inr ()"
    unfolding verify_iff [OF assms(1)] using l chains_card(1) [OF l] by blast
next
  assume "verify s = Inr ()"
  then obtain w p q f where l: "list_rep (map_of (nodes s)) Window (lists s ! 0) w"
    "list_rep (map_of (nodes s)) Probationary (lists s ! 1) p" "list_rep (map_of (nodes s)) Protected (lists s ! 2) q"
    "list_rep (map_of (nodes s)) PrefetchedUnused (lists s ! 3) f" and all: "set w \<union> set p \<union> set q \<union> set f = attached s"
    unfolding verify_iff [OF assms(1)] by blast
  have "x \<in> set (lists_of w p q f (node_segment n))"
    if x: "map_of (nodes s) x = Some n" "node_segment n \<noteq> Detached" for x n
  proof -
    have "x \<in> set w \<union> set p \<union> set q \<union> set f" using all x by (auto simp: attached_def)
    moreover have "\<exists>n. map_of (nodes s) x = Some n \<and> node_segment n = g"
      if "list_rep (map_of (nodes s)) g l xs" "x \<in> set xs" for g l xs
      using that chain_member by (auto simp: list_rep_def)
    ultimately show ?thesis using l x(1) by (fastforce simp: lists_of_def)
  qed
  then have "rep s (lists_of w p q f)"
    unfolding rep_def all_lt_4 using assms l
    by (simp add: numeral_2_eq_2 numeral_3_eq_3) (simp add: lists_of_def)
  then show "\<exists>A. rep s A" by blast
qed

section \<open>Properties\<close>

lemma apply_all_implements:
  "implements s a \<Longrightarrow>
   \<exists>s'. apply_all s es = Inr s' \<and> implements s' (foldl (spec_apply (protected_target s)) a es) \<and>
        protected_target s' = protected_target s"
proof (induction es arbitrary: s a)
  case (Cons e es)
  then obtain s1 where s1: "recency_apply s e = Inr s1" "implements s1 (spec_apply (protected_target s) a e)"
      "protected_target s1 = protected_target s" using apply_implements [of s a e] by blast
  then show ?case using Cons.IH [OF s1(2)] by simp
qed simp

lemma implements_verify: "implements s a \<Longrightarrow> verify s = Inr ()"
  using rep_iff [of s] rep_facts(5-7) [of s "seg_list a" 0] by (auto simp: implements_def)

definition empty_spec :: recency_spec where
  "empty_spec = \<lparr>known = {}, seg_list = \<lambda>_. []\<rparr>"

lemma recency_new_implements: "implements (fst (recency_new target cap)) empty_spec"
  unfolding implements_def rep_def all_lt_4
  by (simp add: recency_new_def empty_spec_def list_rep_def empty_list_def numeral_eq_Suc)

text \<open>C11: draining the touch queue never fails and never panics: the linked lists end up holding
  exactly what applying the pending events in order to four plain lists gives, the structure checker
  accepts the result, and the next victim is the last slot of the first non-empty list among unused
  prefetches, probation, window and protected.\<close>

theorem recency_drain_refines:
  assumes "implements s a"
  shows "\<exists>s'. drain s q = (Inr (s', length (pending q)), q\<lparr>pending := []\<rparr>) \<and>
    (let a' = foldl (spec_apply (protected_target s)) a (pending q)
     in implements s' a' \<and> verify s' = Inr () \<and>
        victim s' = last_link (seg_list a' Protected @ seg_list a' Window @ seg_list a' Probationary @
          seg_list a' PrefetchedUnused) None)"
proof -
  obtain s' where s': "apply_all s (pending q) = Inr s'"
      "implements s' (foldl (spec_apply (protected_target s)) a (pending q))"
    using apply_all_implements [OF assms] by blast
  then show ?thesis
    using implements_verify [OF s'(2)] victim_spec [OF s'(2)] by (simp add: drain_def Let_def)
qed

text \<open>An insertion is refused exactly for the detached segment or a slot already known, and
  otherwise puts the slot at the head of its segment.\<close>

theorem recency_insert_contract:
  assumes "implements s a" "x \<le> u32_max"
  shows "if g = Detached \<or> x \<in> known a then recency_insert s x g = Inl (Err InvalidArgument)
    else \<exists>s'. recency_insert s x g = Inr s' \<and>
           implements s' (spec_push (a\<lparr>known := insert x (known a)\<rparr>) x g)"
  using assms insert_implements [OF assms(1) _ assms(2), of g]
  by (auto simp: recency_insert_def implements_def)

theorem recency_insert_contract_witness:
  "\<exists>s'. recency_insert (fst (recency_new 2 8)) 5 Window = Inr s' \<and>
        implements s' (spec_push (empty_spec\<lparr>known := {5}\<rparr>) 5 Window)"
  using recency_insert_contract [OF recency_new_implements [of 2 8], of 5 Window]
  by (simp add: u32_max_def) (simp add: empty_spec_def)

theorem recency_drain_refines_witness:
  "\<exists>s s'. recency_insert (fst (recency_new 2 8)) 5 Probationary = Inr s \<and>
     fst (drain s \<lparr>queue_capacity = 8, pending = [Touch 5], overflow = 0\<rparr>) = Inr (s', 1) \<and> victim s' = Some 5"
proof -
  obtain s where s: "recency_insert (fst (recency_new 2 8)) 5 Probationary = Inr s"
      "implements s (spec_push (empty_spec\<lparr>known := insert 5 (known empty_spec)\<rparr>) 5 Probationary)"
      "protected_target s = 2"
    using insert_implements [OF recency_new_implements [of 2 8], of 5 Probationary]
    by (auto simp: u32_max_def empty_spec_def recency_new_def)
  show ?thesis
    using recency_drain_refines [OF s(2), of "\<lparr>queue_capacity = 8, pending = [Touch 5], overflow = 0\<rparr>"] s(1,3)
    by (auto simp: Let_def empty_spec_def spec_push_def spec_detach_def spec_segment_def spec_demote_def)
qed

text \<open>C23: the structure checker is exact: on a state whose table is ordered and whose slots fit in
  32 bits, it accepts if and only if the links describe four disjoint lists that contain every
  attached slot; cycles, dangling links, wrong lengths and lost slots are all reported.\<close>

theorem recency_verify_exact:
  assumes "bt_wf (nodes s)" "bt_keys (nodes s) \<subseteq> {..u32_max}" "length (lists s) = 4"
  shows "verify s = Inr () \<longleftrightarrow> (\<exists>a. implements s a)"
proof -
  have "(\<exists>a. implements s a) \<longleftrightarrow> (\<exists>A. rep s A)"
    unfolding implements_def by (metis recency_spec.select_convs)
  then show ?thesis using rep_iff [OF assms] by simp
qed

theorem recency_verify_exact_witness:
  "verify (fst (recency_new 2 8)) = Inr () \<and> (\<exists>a. implements (fst (recency_new 2 8)) a)"
proof -
  have "bt_wf (nodes (fst (recency_new 2 8)))" "bt_keys (nodes (fst (recency_new 2 8))) \<subseteq> {..u32_max}"
    "length (lists (fst (recency_new 2 8))) = 4" by (simp_all add: recency_new_def)
  from recency_verify_exact [OF this] recency_new_implements [of 2 8] show ?thesis by blast
qed

lemma spec_segment_none: "(\<And>g. x \<notin> set (seg_list a g)) \<Longrightarrow> spec_segment a x = Detached"
  by (simp add: spec_segment_def)

lemma spec_apply_detached:
  assumes "\<And>g. x \<notin> set (seg_list a g)" "e \<noteq> UnpinSlot x"
  shows "x \<notin> set (seg_list (spec_apply t a e) g)"
proof (cases e)
  case (Touch y)
  show ?thesis
  proof (cases "y = x")
    case True
    then show ?thesis using Touch assms spec_segment_none [of x a] by simp
  next
    case False
    let ?a = "\<lambda>h. spec_push (spec_detach a y) y h"
    have push: "x \<notin> set (seg_list (?a h) g)" for h g
      using assms(1) False by (simp add: spec_push_def spec_detach_def)
    have "x \<notin> set (seg_list (spec_demote t (?a h)) g)" for h
    proof (cases "length (seg_list (?a h) Protected) > t")
      case True
      then have "last (seg_list (?a h) Protected) \<noteq> x" using push [of h Protected] by (metis last_in_set length_0_conv not_less0)
      then show ?thesis using True push [of h] by (simp add: spec_demote_def Let_def) (simp add: spec_push_def spec_detach_def)
    qed (use push in \<open>simp add: spec_demote_def\<close>)
    then show ?thesis using Touch assms(1) by (simp split: option.split)
  qed
qed (use assms in \<open>auto simp: spec_push_def spec_detach_def\<close>)

lemma spec_run_detached:
  "\<forall>g. x \<notin> set (seg_list a g) \<Longrightarrow> UnpinSlot x \<notin> set es \<Longrightarrow>
   \<forall>g. x \<notin> set (seg_list (foldl (spec_apply t) a es) g)"
proof (induction es arbitrary: a)
  case (Cons e es)
  have "\<forall>g. x \<notin> set (seg_list (spec_apply t a e) g)"
    using Cons.prems by (intro allI spec_apply_detached) auto
  then show ?case using Cons.IH Cons.prems(2) by simp
qed simp

text \<open>A pinned slot is never offered as a victim: after a pin event, whatever other events
  follow, the victim is not that slot until it is unpinned.\<close>

theorem recency_pinned_not_victim:
  assumes "implements s a" "x \<in> known a" "UnpinSlot x \<notin> set es"
  shows "\<exists>s'. apply_all s (PinSlot x # es) = Inr s' \<and> victim s' \<noteq> Some x"
proof -
  let ?t = "protected_target s" and ?a = "spec_detach a x"
  obtain s' where s': "apply_all s (PinSlot x # es) = Inr s'"
      "implements s' (foldl (spec_apply ?t) ?a es)"
    using apply_all_implements [OF assms(1), of "PinSlot x # es"] assms(2) by auto
  have "\<forall>g. x \<notin> set (seg_list ?a g)" by (simp add: spec_detach_def)
  then have out: "x \<notin> set (seg_list (foldl (spec_apply ?t) ?a es) g)" for g
    using spec_run_detached assms(3) by blast
  have "last_link xs d \<noteq> Some x" if "x \<notin> set xs" "d \<noteq> Some x" for xs d
    using that by (auto simp: last_link_def)
  then show ?thesis using s' victim_spec [OF s'(2)] out by simp
qed

theorem recency_pinned_not_victim_witness:
  "\<exists>s s'. recency_insert (fst (recency_new 2 8)) 5 Probationary = Inr s \<and>
     apply_all s [PinSlot 5, Touch 5] = Inr s' \<and> victim s' \<noteq> Some 5"
proof -
  obtain s where s: "recency_insert (fst (recency_new 2 8)) 5 Probationary = Inr s"
      "implements s (spec_push (empty_spec\<lparr>known := insert 5 (known empty_spec)\<rparr>) 5 Probationary)"
    using insert_implements [OF recency_new_implements [of 2 8], of 5 Probationary]
    by (auto simp: u32_max_def empty_spec_def)
  show ?thesis using recency_pinned_not_victim [OF s(2), of 5 "[Touch 5]"] s(1) by simp
qed

end
