(* ===== verification/Reservation_Ledger.thy ===== *)
theory Reservation_Ledger
  imports Prelude
begin

text \<open>The byte ledger of the cache: \<open>mirage-cache/src/budget.rs\<close> and \<open>reservation_ledger.rs\<close>.  The
  ledger is the state behind the mutex; every operation runs under the lock and is one step.  A
  reservation handle owns its bytes until it is released, dropped or committed; the inductive
  relation \<open>ledger_step\<close> interleaves the operations of any number of outstanding handles.  The
  subtractions of the source are unchecked, so they wrap in the model; the invariant shows that they
  never do.  A poisoned lock needs a panic inside a critical section and is not represented.\<close>

section \<open>State\<close>

datatype ReservationClass = Blocking | Capsule | Prefetch | DirtyUpdate | Staging

record BudgetConfig =
  hard_bytes :: u64
  prefetch_soft_bytes :: u64
  update_safety_reserve :: u64
  dirty_update_bytes :: u64

record Ledger =
  config :: BudgetConfig
  committed :: u64
  reserved :: u64
  dirty_reserved :: u64
  peak :: u64

record BudgetReservation =
  res_bytes :: u64
  res_class :: ReservationClass
  active :: bool

section \<open>Operations\<close>

definition budget_validate :: "BudgetConfig \<Rightarrow> unit result" where
  "budget_validate c =
     (if hard_bytes c = 0 \<or> prefetch_soft_bytes c > hard_bytes c \<or>
         update_safety_reserve c > hard_bytes c \<or> dirty_update_bytes c > update_safety_reserve c
      then Inl InvalidArgument else Inr ())"

definition ledger_new :: "BudgetConfig \<Rightarrow> u64 \<Rightarrow> Ledger result" where
  "ledger_new c committed_bytes =
     bind_result (budget_validate c) (\<lambda>_.
       if committed_bytes > hard_bytes c then Inl CacheFull
       else Inr \<lparr>config = c, committed = committed_bytes, reserved = 0, dirty_reserved = 0,
                 peak = committed_bytes\<rparr>)"

definition is_dirty_class :: "ReservationClass \<Rightarrow> bool" where
  "is_dirty_class c \<longleftrightarrow> c = DirtyUpdate \<or> c = Staging"

fun class_limit :: "BudgetConfig \<Rightarrow> ReservationClass \<Rightarrow> u64" where
  "class_limit c Prefetch = prefetch_soft_bytes c"
| "class_limit c DirtyUpdate = hard_bytes c"
| "class_limit c Staging = hard_bytes c"
| "class_limit c Blocking = wsub64 (hard_bytes c) (update_safety_reserve c)"
| "class_limit c Capsule = wsub64 (hard_bytes c) (update_safety_reserve c)"

definition next_dirty :: "Ledger \<Rightarrow> u64 \<Rightarrow> ReservationClass \<Rightarrow> u64 result" where
  "next_dirty l bytes cls =
     (if is_dirty_class cls then
        bind_result (ok_or (checked_add64 (dirty_reserved l) bytes) InvalidArgument) (\<lambda>v.
          if v > dirty_update_bytes (config l) then Inl CacheFull else Inr v)
      else Inr (dirty_reserved l))"

definition reserve :: "Ledger \<Rightarrow> u64 \<Rightarrow> ReservationClass \<Rightarrow> (Ledger \<times> BudgetReservation) result" where
  "reserve l bytes cls =
     (if bytes = 0 then Inl InvalidArgument
      else bind_result (ok_or (checked_add64 (reserved l) bytes) InvalidArgument) (\<lambda>next_reserved.
        bind_result (ok_or (checked_add64 (committed l) next_reserved) InvalidArgument) (\<lambda>envelope.
          if envelope > class_limit (config l) cls then Inl CacheFull
          else bind_result (next_dirty l bytes cls) (\<lambda>dirty.
            Inr (l\<lparr>reserved := next_reserved, dirty_reserved := dirty, peak := max (peak l) envelope\<rparr>,
                 \<lparr>res_bytes = bytes, res_class = cls, active = True\<rparr>)))))"

definition set_committed :: "Ledger \<Rightarrow> u64 \<Rightarrow> Ledger result" where
  "set_committed l bytes =
     (case checked_add64 bytes (reserved l) of
        None \<Rightarrow> Inl CacheFull
      | Some t \<Rightarrow>
          if t > hard_bytes (config l) then Inl CacheFull
          else Inr (l\<lparr>committed := bytes, peak := max (peak l) (wadd64 bytes (reserved l))\<rparr>))"

definition sub_reserved :: "Ledger \<Rightarrow> BudgetReservation \<Rightarrow> Ledger" where
  "sub_reserved l r =
     l\<lparr>reserved := wsub64 (reserved l) (res_bytes r),
       dirty_reserved := (if is_dirty_class (res_class r) then wsub64 (dirty_reserved l) (res_bytes r)
                          else dirty_reserved l)\<rparr>"

definition release_inner :: "Ledger \<Rightarrow> BudgetReservation \<Rightarrow> Ledger \<times> BudgetReservation" where
  "release_inner l r =
     (if \<not> active r then (l, r) else (sub_reserved l r, r\<lparr>active := False\<rparr>))"

text \<open>\<open>commit\<close> consumes its handle: after an overflow the handle is dropped, which releases it.\<close>

definition commit :: "Ledger \<Rightarrow> BudgetReservation \<Rightarrow> Ledger \<times> unit result" where
  "commit l r =
     (case checked_add64 (committed l) (res_bytes r) of
        None \<Rightarrow> (fst (release_inner l r), Inl InvalidArgument)
      | Some c \<Rightarrow> ((sub_reserved l r)\<lparr>committed := c\<rparr>, Inr ()))"

section \<open>Interleavings\<close>

type_synonym ledger_state = "Ledger \<times> BudgetReservation list"

inductive ledger_step :: "ledger_state \<Rightarrow> ledger_state \<Rightarrow> bool" where
  step_reserve: "reserve l bytes cls = Inr (l', r) \<Longrightarrow> ledger_step (l, rs) (l', r # rs)"
| step_set_committed: "set_committed l bytes = Inr l' \<Longrightarrow> ledger_step (l, rs) (l', rs)"
| step_release: "ledger_step (l, as @ r # bs) (fst (release_inner l r), as @ bs)"
| step_commit: "ledger_step (l, as @ r # bs) (fst (commit l r), as @ bs)"

inductive ledger_reachable :: "Ledger \<Rightarrow> ledger_state \<Rightarrow> bool" for l0 where
  start: "ledger_reachable l0 (l0, [])"
| step: "ledger_reachable l0 s \<Longrightarrow> ledger_step s t \<Longrightarrow> ledger_reachable l0 t"

inductive_cases ledger_stepE: "ledger_step s t"

section \<open>Invariant\<close>

definition held :: "BudgetReservation list \<Rightarrow> nat" where
  "held rs = sum_list (map res_bytes rs)"

definition dirty_held :: "BudgetReservation list \<Rightarrow> nat" where
  "dirty_held rs = sum_list (map (\<lambda>r. if is_dirty_class (res_class r) then res_bytes r else 0) rs)"

lemma held_simps [simp]:
  "held [] = 0" "held (r # rs) = res_bytes r + held rs" "held (as @ bs) = held as + held bs"
  "dirty_held [] = 0"
  "dirty_held (r # rs) = (if is_dirty_class (res_class r) then res_bytes r else 0) + dirty_held rs"
  "dirty_held (as @ bs) = dirty_held as + dirty_held bs"
  by (simp_all add: held_def dirty_held_def)

lemma dirty_held_le: "dirty_held rs \<le> held rs"
  by (induction rs) auto

definition config_ok :: "BudgetConfig \<Rightarrow> bool" where
  "config_ok c \<longleftrightarrow> budget_validate c = Inr () \<and> hard_bytes c \<le> u64_max"

text \<open>The ledger and its outstanding handles agree, and the envelope respects the hard budget.\<close>

definition ledger_inv :: "ledger_state \<Rightarrow> bool" where
  "ledger_inv s \<longleftrightarrow> (case s of (l, rs) \<Rightarrow>
     config_ok (config l) \<and> list_all active rs \<and>
     reserved l = held rs \<and> dirty_reserved l = dirty_held rs \<and>
     committed l + reserved l \<le> peak l \<and> peak l \<le> hard_bytes (config l) \<and>
     dirty_reserved l \<le> dirty_update_bytes (config l))"

lemma config_okD:
  assumes "config_ok c"
  shows "0 < hard_bytes c" "prefetch_soft_bytes c \<le> hard_bytes c"
    "dirty_update_bytes c \<le> update_safety_reserve c" "update_safety_reserve c \<le> hard_bytes c"
    "hard_bytes c \<le> u64_max"
  using assms by (auto simp: config_ok_def budget_validate_def split: if_splits)

lemma class_limit_exact:
  assumes "config_ok c"
  shows "class_limit c cls = (case cls of Prefetch \<Rightarrow> prefetch_soft_bytes c
    | DirtyUpdate \<Rightarrow> hard_bytes c | Staging \<Rightarrow> hard_bytes c
    | _ \<Rightarrow> hard_bytes c - update_safety_reserve c)"
    and "class_limit c cls \<le> hard_bytes c"
  using config_okD [OF assms] by (cases cls; simp add: wsub64_exact)+

lemma reserve_exact:
  assumes ok: "config_ok (config l)" and room: "committed l + reserved l \<le> hard_bytes (config l)"
  shows "reserve l bytes cls =
    (if bytes = 0 \<or> u64_max < committed l + reserved l + bytes then Inl InvalidArgument
     else if class_limit (config l) cls < committed l + reserved l + bytes \<or>
        (is_dirty_class cls \<and> dirty_update_bytes (config l) < dirty_reserved l + bytes) then
          (if is_dirty_class cls \<and> committed l + reserved l + bytes \<le> hard_bytes (config l) \<and>
              u64_max < dirty_reserved l + bytes then Inl InvalidArgument else Inl CacheFull)
     else Inr (l\<lparr>reserved := reserved l + bytes,
                 dirty_reserved := dirty_reserved l + (if is_dirty_class cls then bytes else 0),
                 peak := max (peak l) (committed l + reserved l + bytes)\<rparr>,
               \<lparr>res_bytes = bytes, res_class = cls, active = True\<rparr>))"
  using config_okD [OF ok] room
  by (cases cls)
    (auto simp: reserve_def next_dirty_def is_dirty_class_def ok_or_def checked_add64_def ac_simps
      split: option.splits)

lemma ledger_step_inv:
  assumes step: "ledger_step s t" and inv: "ledger_inv s"
  shows "ledger_inv t"
  using step
proof (cases rule: ledger_step.cases)
  case (step_reserve l bytes cls l' r rs)
  have i: "config_ok (config l)" "committed l + reserved l \<le> hard_bytes (config l)"
    using inv step_reserve(1) by (auto simp: ledger_inv_def)
  show ?thesis
    using inv step_reserve class_limit_exact(2) [OF i(1), of cls]
    by (auto simp: ledger_inv_def reserve_exact [OF i] split: if_splits)
next
  case (step_set_committed l bytes l' rs)
  then show ?thesis
    using inv config_okD(5) [of "config l"]
    by (auto simp: ledger_inv_def set_committed_def wadd64_exact split: option.splits if_splits)
next
  case (step_release l as r bs)
  then show ?thesis
    using inv config_okD(5) [of "config l"] config_okD(3,4) [of "config l"]
    by (auto simp: ledger_inv_def release_inner_def sub_reserved_def wsub64_exact)
next
  case (step_commit l as r bs)
  then show ?thesis
    using inv config_okD(5) [of "config l"] config_okD(3,4) [of "config l"]
    by (auto simp: ledger_inv_def commit_def release_inner_def sub_reserved_def wsub64_exact
        split: option.splits)
qed

lemma ledger_new_inv:
  assumes "ledger_new c n = Inr l" "hard_bytes c \<le> u64_max"
  shows "ledger_inv (l, [])" "config l = c"
  using assms by (auto simp: ledger_new_def bind_result_eq_Inr ledger_inv_def config_ok_def split: if_splits)

lemma ledger_step_config: "ledger_step (l, rs) (l', rs') \<Longrightarrow> config l' = config l"
  by (auto elim!: ledger_stepE simp: reserve_def set_committed_def release_inner_def commit_def
      sub_reserved_def bind_result_eq_Inr split: if_splits option.splits)

section \<open>Properties\<close>

text \<open>C16: whatever interleaving of reservations, releases, commits and committed-byte updates runs
  over a ledger, the bytes committed plus the bytes held by outstanding handles never exceed the
  hard budget, the counters equal what the outstanding handles hold (so no subtraction wraps), the
  dirty handles stay within the dirty allowance, and the recorded peak bounds the envelope.\<close>

theorem ledger_conservation:
  assumes "ledger_new c n = Inr l0" "hard_bytes c \<le> u64_max" "ledger_reachable l0 (l, rs)"
  shows "reserved l = held rs \<and> dirty_reserved l = dirty_held rs \<and>
    committed l + held rs \<le> peak l \<and> peak l \<le> hard_bytes c \<and> dirty_held rs \<le> dirty_update_bytes c"
proof -
  have "ledger_inv s \<and> config (fst s) = c" if "ledger_reachable l0 s" for s
    using that
  proof (induction rule: ledger_reachable.induct)
    case start
    then show ?case using ledger_new_inv [OF assms(1,2)] by simp
  next
    case (step s t)
    then show ?case using ledger_step_inv ledger_step_config by (metis prod.collapse)
  qed
  from this [OF assms(3)] show ?thesis by (auto simp: ledger_inv_def)
qed

definition example_budget :: BudgetConfig where
  "example_budget = \<lparr>hard_bytes = 100, prefetch_soft_bytes = 60, update_safety_reserve = 30,
                     dirty_update_bytes = 20\<rparr>"

theorem ledger_conservation_witness:
  "\<exists>l0 l r. ledger_new example_budget 10 = Inr l0 \<and> reserve l0 40 Blocking = Inr (l, r) \<and>
     committed l + held [r] \<le> hard_bytes example_budget"
proof -
  obtain l0 where l0: "ledger_new example_budget 10 = Inr l0" "config l0 = example_budget"
      "committed l0 = 10" "reserved l0 = 0" "dirty_reserved l0 = 0"
    by (simp add: ledger_new_def budget_validate_def example_budget_def)
  have b: "hard_bytes example_budget \<le> u64_max" by (simp add: example_budget_def u64_max_def)
  obtain l r where lr: "reserve l0 40 Blocking = Inr (l, r)"
    using l0 by (auto simp: reserve_def next_dirty_def is_dirty_class_def example_budget_def ok_or_def
        checked_add64_def u64_max_def wsub64_def)
  then have "ledger_reachable l0 (l, [r])"
    using ledger_reachable.start ledger_reachable.step ledger_step.step_reserve by blast
  from ledger_conservation [OF l0(1) b this] lr l0 show ?thesis by auto
qed

text \<open>C33: a reservation is granted exactly when it is non-empty, the envelope with it stays within the
  limit of its class, and a dirty one stays within the dirty allowance, whatever the size of the
  request.  A refusal is \<open>InvalidArgument\<close> exactly for an empty request or one whose envelope does not fit in
  64 bits, and \<open>CacheFull\<close> otherwise.  A granted request adds exactly its bytes to the ledger, and no
  blocking or capsule reservation eats into the update safety reserve.\<close>

theorem reserve_grant_exact:
  assumes "ledger_inv (l, rs)"
  shows "(is_ok (reserve l bytes cls) \<longleftrightarrow>
      0 < bytes \<and> committed l + reserved l + bytes \<le> class_limit (config l) cls \<and>
      (is_dirty_class cls \<longrightarrow> dirty_reserved l + bytes \<le> dirty_update_bytes (config l))) \<and>
    (\<forall>e. reserve l bytes cls = Inl e \<longrightarrow>
      e = (if bytes = 0 \<or> u64_max < committed l + reserved l + bytes then InvalidArgument else CacheFull)) \<and>
    (\<forall>l' r. reserve l bytes cls = Inr (l', r) \<longrightarrow>
      reserved l' = reserved l + bytes \<and> committed l' = committed l \<and> res_bytes r = bytes \<and>
      dirty_reserved l' = dirty_reserved l + (if is_dirty_class cls then bytes else 0) \<and>
      (cls = Blocking \<or> cls = Capsule \<longrightarrow>
        committed l' + reserved l' + update_safety_reserve (config l) \<le> hard_bytes (config l)))"
proof -
  have i: "config_ok (config l)" "committed l + reserved l \<le> hard_bytes (config l)"
    using assms by (auto simp: ledger_inv_def)
  note c = config_okD [OF i(1)] class_limit_exact(2) [OF i(1), of cls]
  have "dirty_reserved l \<le> reserved l" using assms dirty_held_le [of rs] by (auto simp: ledger_inv_def)
  then have dirty: "committed l + reserved l + bytes \<le> hard_bytes (config l) \<Longrightarrow> dirty_reserved l + bytes \<le> u64_max"
    using c(5) by simp
  have "is_ok (reserve l bytes cls) \<longleftrightarrow>
      0 < bytes \<and> committed l + reserved l + bytes \<le> class_limit (config l) cls \<and>
      (is_dirty_class cls \<longrightarrow> dirty_reserved l + bytes \<le> dirty_update_bytes (config l))"
    using c(5,6) by (auto simp: reserve_exact [OF i])
  moreover have "e = (if bytes = 0 \<or> u64_max < committed l + reserved l + bytes then InvalidArgument else CacheFull)"
    if "reserve l bytes cls = Inl e" for e
    using that dirty by (auto simp: reserve_exact [OF i] split: if_splits)
  moreover have "reserved l' = reserved l + bytes \<and> committed l' = committed l \<and> res_bytes r = bytes \<and>
      dirty_reserved l' = dirty_reserved l + (if is_dirty_class cls then bytes else 0) \<and>
      (cls = Blocking \<or> cls = Capsule \<longrightarrow>
        committed l' + reserved l' + update_safety_reserve (config l) \<le> hard_bytes (config l))"
    if "reserve l bytes cls = Inr (l', r)" for l' r
    using that c by (auto simp: reserve_exact [OF i] wsub64_exact split: if_splits)
  ultimately show ?thesis by blast
qed

theorem reserve_grant_exact_witness:
  "\<exists>l. ledger_new example_budget 10 = Inr l \<and> is_ok (reserve l 60 Blocking) \<and>
       reserve l 61 Blocking = Inl CacheFull \<and> reserve l u64_max Staging = Inl InvalidArgument"
proof -
  obtain l where l: "ledger_new example_budget 10 = Inr l" "config l = example_budget"
      "committed l = 10" "reserved l = 0" "dirty_reserved l = 0"
    by (simp add: ledger_new_def budget_validate_def example_budget_def)
  have inv: "ledger_inv (l, [])" using ledger_new_inv [OF l(1)] by (simp add: example_budget_def u64_max_def)
  have lim: "class_limit (config l) Blocking = 70" "class_limit (config l) Staging = 100"
    by (simp_all add: l example_budget_def wsub64_exact u64_max_def)
  note g = reserve_grant_exact [OF inv]
  have "\<not> is_ok (reserve l 61 Blocking)" "\<not> is_ok (reserve l u64_max Staging)"
    using g [of 61 Blocking] g [of u64_max Staging] l lim by (simp_all add: u64_max_def)
  then obtain e f where ef: "reserve l 61 Blocking = Inl e" "reserve l u64_max Staging = Inl f"
    by (cases "reserve l 61 Blocking"; cases "reserve l u64_max Staging") auto
  have "e = CacheFull" using g [of 61 Blocking] ef(1) l by (simp add: u64_max_def)
  moreover have "f = InvalidArgument" using g [of u64_max Staging] ef(2) l by (simp add: u64_max_def)
  moreover have "is_ok (reserve l 60 Blocking)" using g [of 60 Blocking] l lim by (simp add: is_dirty_class_def)
  ultimately show ?thesis using l(1) ef by blast
qed

text \<open>The update safety reserve keeps its promise: while ordinary usage leaves the safety reserve
  free and no dirty bytes are held, every dirty-update reservation up to the dirty allowance is
  granted.\<close>

theorem update_reserve_available:
  assumes "ledger_inv (l, rs)" "dirty_held rs = 0" "0 < bytes" "bytes \<le> dirty_update_bytes (config l)"
    and "committed l + reserved l + update_safety_reserve (config l) \<le> hard_bytes (config l)"
    and "cls = DirtyUpdate \<or> cls = Staging"
  shows "is_ok (reserve l bytes cls)"
proof -
  have i: "config_ok (config l)" "committed l + reserved l \<le> hard_bytes (config l)"
    using assms(1) by (auto simp: ledger_inv_def)
  have "dirty_reserved l = 0" using assms(1,2) by (simp add: ledger_inv_def)
  then show ?thesis
    using config_okD [OF i(1)] assms(3-6) by (auto simp: reserve_exact [OF i] is_dirty_class_def)
qed

theorem update_reserve_available_witness:
  "\<exists>l. ledger_new example_budget 70 = Inr l \<and> is_ok (reserve l 20 Staging)"
proof -
  obtain l where l: "ledger_new example_budget 70 = Inr l" "config l = example_budget"
      "committed l = 70" "reserved l = 0"
    by (simp add: ledger_new_def budget_validate_def example_budget_def)
  have "ledger_inv (l, [])" using ledger_new_inv [OF l(1)] by (simp add: example_budget_def u64_max_def)
  from update_reserve_available [OF this, of 20 Staging] l show ?thesis by (simp add: example_budget_def)
qed

end
