(* ===== verification/Space_Lease.thy ===== *)
theory Space_Lease
  imports Prelude "HOL-Library.Product_Lexorder"
begin

text \<open>The space-lease planner of \<open>mirage-cache/src/space_lease.rs\<close>: a deterministic decision whether
  a promise of local bytes can be kept from free space plus verified clean reclaim, and which
  resident units to reclaim for it.  \<open>BTreeSet\<close> membership is a set, the sort key reverses the byte
  order by negation in \<open>int\<close>.\<close>

section \<open>State\<close>

record ReclaimCandidate =
  reclaim_id :: page_hash
  physical_bytes :: u64
  last_access_sequence :: u64
  remote_verified :: bool
  dirty :: bool
  cand_pinned :: bool
  active_read_leases :: u32
  mounted_reader_exclusion :: bool

record CapacitySnapshot =
  physical_free_bytes :: u64
  filesystem_reserve_bytes :: u64
  outstanding_space_lease_bytes :: u64
  candidates :: "ReclaimCandidate list"

record BlockedCapacity =
  unique_bytes :: u64
  unverified_bytes :: u64
  dirty_bytes :: u64
  pinned_bytes :: u64
  active_read_bytes :: u64
  mounted_reader_bytes :: u64

record SpaceLeasePlan =
  requested_bytes :: u64
  immediately_available_bytes :: u64
  reclaim_required_bytes :: u64
  total_reclaimable_bytes :: u64
  selected_reclaim_bytes :: u64
  available_after_selected_reclaim_bytes :: u64
  shortfall_bytes :: u64
  selected :: "ReclaimCandidate list"
  blocked :: BlockedCapacity

section \<open>Operations\<close>

definition reclaimable :: "ReclaimCandidate \<Rightarrow> bool" where
  "reclaimable c \<longleftrightarrow> physical_bytes c \<noteq> 0 \<and> remote_verified c \<and> \<not> dirty c \<and> \<not> cand_pinned c \<and>
     active_read_leases c = 0 \<and> \<not> mounted_reader_exclusion c"

definition grantable :: "SpaceLeasePlan \<Rightarrow> bool" where
  "grantable p \<longleftrightarrow> shortfall_bytes p = 0 \<and> available_after_selected_reclaim_bytes p \<ge> requested_bytes p"

definition checked_add :: "u64 \<Rightarrow> u64 \<Rightarrow> u64 result" where
  "checked_add a b = ok_or (checked_add64 a b) InvalidArgument"

definition blocked_default :: BlockedCapacity where
  "blocked_default = \<lparr>unique_bytes = 0, unverified_bytes = 0, dirty_bytes = 0, pinned_bytes = 0,
     active_read_bytes = 0, mounted_reader_bytes = 0\<rparr>"

definition add_if :: "bool \<Rightarrow> u64 \<Rightarrow> u64 \<Rightarrow> u64 result" where
  "add_if b acc n = (if b then checked_add acc n else Inr acc)"

definition block_candidate :: "BlockedCapacity \<Rightarrow> ReclaimCandidate \<Rightarrow> BlockedCapacity result" where
  "block_candidate b c =
     bind_result (checked_add (unique_bytes b) (physical_bytes c)) (\<lambda>u.
     bind_result (add_if (\<not> remote_verified c) (unverified_bytes b) (physical_bytes c)) (\<lambda>v.
     bind_result (add_if (dirty c) (dirty_bytes b) (physical_bytes c)) (\<lambda>d.
     bind_result (add_if (cand_pinned c) (pinned_bytes b) (physical_bytes c)) (\<lambda>p.
     bind_result (add_if (active_read_leases c \<noteq> 0) (active_read_bytes b) (physical_bytes c)) (\<lambda>a.
     bind_result (add_if (mounted_reader_exclusion c) (mounted_reader_bytes b) (physical_bytes c)) (\<lambda>m.
       Inr \<lparr>unique_bytes = u, unverified_bytes = v, dirty_bytes = d, pinned_bytes = p,
            active_read_bytes = a, mounted_reader_bytes = m\<rparr>))))))"

text \<open>The first loop: duplicates are refused, empty units skipped, the rest split.\<close>

fun classify ::
  "page_hash set \<Rightarrow> ReclaimCandidate list \<Rightarrow> BlockedCapacity \<Rightarrow> ReclaimCandidate list
     \<Rightarrow> (ReclaimCandidate list \<times> BlockedCapacity) result" where
  "classify seen acc b [] = Inr (acc, b)"
| "classify seen acc b (c # cs) =
     (if reclaim_id c \<in> seen then Inl InvalidArgument
      else
        let seen' = insert (reclaim_id c) seen in
        if physical_bytes c = 0 then classify seen' acc b cs
        else if reclaimable c then classify seen' (acc @ [c]) b cs
        else bind_result (block_candidate b c) (\<lambda>b'. classify seen' acc b' cs))"

definition reclaim_key :: "ReclaimCandidate \<Rightarrow> nat \<times> int \<times> page_hash" where
  "reclaim_key c = (last_access_sequence c, - int (physical_bytes c), reclaim_id c)"

fun sum_bytes :: "u64 \<Rightarrow> ReclaimCandidate list \<Rightarrow> u64 result" where
  "sum_bytes acc [] = Inr acc"
| "sum_bytes acc (c # cs) = bind_result (checked_add acc (physical_bytes c)) (\<lambda>s. sum_bytes s cs)"

text \<open>The selection loop: take candidates until the required bytes are covered.\<close>

fun select_loop :: "u64 \<Rightarrow> u64 \<Rightarrow> ReclaimCandidate list \<Rightarrow> (ReclaimCandidate list \<times> u64) result" where
  "select_loop need acc [] = Inr ([], acc)"
| "select_loop need acc (c # cs) =
     bind_result (checked_add acc (physical_bytes c)) (\<lambda>s.
       if s \<ge> need then Inr ([c], s)
       else bind_result (select_loop need s cs) (\<lambda>(sel, t). Inr (c # sel, t)))"

definition select_for :: "u64 \<Rightarrow> ReclaimCandidate list \<Rightarrow> (ReclaimCandidate list \<times> u64) result" where
  "select_for need rs = (if need \<noteq> 0 then select_loop need 0 rs else Inr ([], 0))"

definition plan_space_lease :: "CapacitySnapshot \<Rightarrow> u64 \<Rightarrow> SpaceLeasePlan result" where
  "plan_space_lease snap requested =
     (if requested = 0 then Inl InvalidArgument
      else
        let imm = saturating_sub64 (saturating_sub64 (physical_free_bytes snap) (filesystem_reserve_bytes snap))
                    (outstanding_space_lease_bytes snap);
            need = saturating_sub64 requested imm
        in bind_result (classify {} [] blocked_default (candidates snap)) (\<lambda>(rs, b).
             let rs = sort_key reclaim_key rs in
             bind_result (sum_bytes 0 rs) (\<lambda>sum_all.
             bind_result (checked_add imm sum_all) (\<lambda>maximum.
             bind_result (select_for need rs) (\<lambda>(sel, sel_bytes).
             bind_result (checked_add imm sel_bytes) (\<lambda>after.
               Inr \<lparr>requested_bytes = requested, immediately_available_bytes = imm,
                    reclaim_required_bytes = need, total_reclaimable_bytes = sum_all,
                    selected_reclaim_bytes = sel_bytes,
                    available_after_selected_reclaim_bytes = after,
                    shortfall_bytes = saturating_sub64 requested maximum,
                    selected = sel, blocked = b\<rparr>))))))"

section \<open>Correctness of the loops\<close>

definition bytes_of :: "ReclaimCandidate list \<Rightarrow> nat" where
  "bytes_of cs = sum_list (map physical_bytes cs)"

lemma bytes_of_simps [simp]:
  "bytes_of [] = 0" "bytes_of (c # cs) = physical_bytes c + bytes_of cs"
  "bytes_of (as @ bs) = bytes_of as + bytes_of bs"
  by (simp_all add: bytes_of_def)

lemma bytes_of_sort [simp]: "bytes_of (sort_key f cs) = bytes_of cs"
  unfolding bytes_of_def by (metis mset_map mset_sort sum_mset_sum_list)

lemma checked_add_eq [simp]:
  "checked_add a b = (if a + b \<le> u64_max then Inr (a + b) else Inl InvalidArgument)"
  by (simp add: checked_add_def checked_add64_def)

lemma sum_bytes_eq:
  "acc \<le> u64_max \<Longrightarrow> sum_bytes acc cs =
     (if acc + bytes_of cs \<le> u64_max then Inr (acc + bytes_of cs) else Inl InvalidArgument)"
  by (induction cs arbitrary: acc) (auto simp: add.assoc)

text \<open>Every diagnostic counter is bounded by the unique total, so only that one can overflow.\<close>

definition blocked_inv :: "BlockedCapacity \<Rightarrow> bool" where
  "blocked_inv b \<longleftrightarrow> unverified_bytes b \<le> unique_bytes b \<and> dirty_bytes b \<le> unique_bytes b \<and>
     pinned_bytes b \<le> unique_bytes b \<and> active_read_bytes b \<le> unique_bytes b \<and>
     mounted_reader_bytes b \<le> unique_bytes b"

lemma block_candidate_eq:
  assumes "blocked_inv b"
  shows "block_candidate b c =
    (if unique_bytes b + physical_bytes c \<le> u64_max then
       Inr \<lparr>unique_bytes = unique_bytes b + physical_bytes c,
            unverified_bytes = unverified_bytes b + (if remote_verified c then 0 else physical_bytes c),
            dirty_bytes = dirty_bytes b + (if dirty c then physical_bytes c else 0),
            pinned_bytes = pinned_bytes b + (if cand_pinned c then physical_bytes c else 0),
            active_read_bytes = active_read_bytes b + (if active_read_leases c \<noteq> 0 then physical_bytes c else 0),
            mounted_reader_bytes = mounted_reader_bytes b +
              (if mounted_reader_exclusion c then physical_bytes c else 0)\<rparr>
     else Inl InvalidArgument)"
  using assms by (auto simp: block_candidate_def add_if_def blocked_inv_def)

definition blocked_cands :: "ReclaimCandidate list \<Rightarrow> ReclaimCandidate list" where
  "blocked_cands cs = filter (\<lambda>c. physical_bytes c \<noteq> 0 \<and> \<not> reclaimable c) cs"

lemma classify_ok:
  assumes "blocked_inv b" "unique_bytes b + bytes_of (blocked_cands cs) \<le> u64_max"
    "distinct (map reclaim_id cs)" "seen \<inter> reclaim_id ` set cs = {}"
  shows "\<exists>b'. classify seen acc b cs = Inr (acc @ filter reclaimable cs, b') \<and>
    unique_bytes b' = unique_bytes b + bytes_of (blocked_cands cs)"
  using assms
proof (induction cs arbitrary: seen acc b)
  case Nil
  then show ?case by (simp add: blocked_cands_def)
next
  case (Cons c cs)
  have step: "reclaim_id c \<notin> seen" "insert (reclaim_id c) seen \<inter> reclaim_id ` set cs = {}"
    "distinct (map reclaim_id cs)" using Cons.prems by auto
  consider "physical_bytes c = 0" | "physical_bytes c \<noteq> 0" "reclaimable c"
    | "physical_bytes c \<noteq> 0" "\<not> reclaimable c" by blast
  then show ?case
  proof cases
    case 1
    then show ?thesis
      using Cons.IH [OF Cons.prems(1) _ step(3,2), of acc] Cons.prems step
      by (simp add: blocked_cands_def reclaimable_def)
  next
    case 2
    then show ?thesis
      using Cons.IH [OF Cons.prems(1) _ step(3,2), of "acc @ [c]"] Cons.prems step
      by (simp add: blocked_cands_def)
  next
    case 3
    then have room: "unique_bytes b + physical_bytes c + bytes_of (blocked_cands cs) \<le> u64_max"
      using Cons.prems(2) by (simp add: blocked_cands_def)
    then obtain b1 where b1: "block_candidate b c = Inr b1" "blocked_inv b1"
        "unique_bytes b1 = unique_bytes b + physical_bytes c"
      using block_candidate_eq [OF Cons.prems(1), of c] Cons.prems(1) by (auto simp: blocked_inv_def)
    show ?thesis
      using Cons.IH [OF b1(2) _ step(3,2), of acc] b1 room 3 step by (simp add: blocked_cands_def add.assoc)
  qed
qed

lemma classify_error: "classify seen acc b cs = Inl e \<Longrightarrow> e = InvalidArgument"
proof (induction cs arbitrary: seen acc b)
  case (Cons c cs)
  have "block_candidate b c = Inl e' \<Longrightarrow> e' = InvalidArgument" for e'
    by (auto simp: block_candidate_def add_if_def bind_result_eq_Inl split: if_splits)
  then show ?case using Cons by (auto simp: Let_def bind_result_eq_Inl split: if_splits)
qed simp

lemma classify_duplicate:
  "\<not> distinct (map reclaim_id cs) \<or> seen \<inter> reclaim_id ` set cs \<noteq> {} \<Longrightarrow>
   classify seen acc b cs = Inl InvalidArgument"
proof (induction cs arbitrary: seen acc b)
  case (Cons c cs)
  show ?case
  proof (cases "reclaim_id c \<in> seen")
    case False
    then have "\<not> distinct (map reclaim_id cs) \<or> insert (reclaim_id c) seen \<inter> reclaim_id ` set cs \<noteq> {}"
      using Cons.prems by auto
    from Cons.IH [OF this] show ?thesis
      using False classify_error [of "insert (reclaim_id c) seen"]
      by (cases "block_candidate b c")
        (auto simp: Let_def block_candidate_def add_if_def bind_result_eq_Inl split: if_splits)
  qed simp
qed simp

lemma classify_overflow:
  assumes "blocked_inv b" "u64_max < unique_bytes b + bytes_of (blocked_cands cs)" "unique_bytes b \<le> u64_max"
  shows "classify seen acc b cs = Inl InvalidArgument"
  using assms
proof (induction cs arbitrary: seen acc b)
  case (Cons c cs)
  consider "physical_bytes c = 0 \<or> reclaimable c" | "physical_bytes c \<noteq> 0" "\<not> reclaimable c" by blast
  then show ?case
  proof cases
    case 1
    then have "u64_max < unique_bytes b + bytes_of (blocked_cands cs)" using Cons.prems(2) by (auto simp: blocked_cands_def)
    then show ?thesis using Cons.IH [OF Cons.prems(1) _ Cons.prems(3)] 1 by (auto simp: Let_def)
  next
    case 2
    show ?thesis
    proof (cases "unique_bytes b + physical_bytes c \<le> u64_max")
      case True
      then obtain b1 where b1: "block_candidate b c = Inr b1" "blocked_inv b1" "unique_bytes b1 = unique_bytes b + physical_bytes c"
        using block_candidate_eq [OF Cons.prems(1), of c] Cons.prems(1) by (auto simp: blocked_inv_def)
      then show ?thesis using Cons.IH [OF b1(2)] Cons.prems(2) 2 True by (simp add: Let_def blocked_cands_def add.assoc)
    qed (use 2 in \<open>simp add: Let_def block_candidate_eq [OF Cons.prems(1)]\<close>)
  qed
qed (simp add: blocked_cands_def)

lemma select_loop_prefix:
  "acc + bytes_of cs \<le> u64_max \<Longrightarrow> acc < need \<Longrightarrow>
   \<exists>n\<le>length cs. select_loop need acc cs = Inr (take n cs, acc + bytes_of (take n cs)) \<and>
     (need \<le> acc + bytes_of (take n cs) \<or> n = length cs) \<and> (\<forall>k<n. acc + bytes_of (take k cs) < need)"
proof (induction cs arbitrary: acc)
  case (Cons c cs)
  show ?case
  proof (cases "need \<le> acc + physical_bytes c")
    case True
    then show ?thesis using Cons.prems by (intro exI [of _ 1]) auto
  next
    case False
    then obtain n where n: "n \<le> length cs"
      "select_loop need (acc + physical_bytes c) cs =
        Inr (take n cs, acc + physical_bytes c + bytes_of (take n cs))"
      "need \<le> acc + physical_bytes c + bytes_of (take n cs) \<or> n = length cs"
      "\<forall>k<n. acc + physical_bytes c + bytes_of (take k cs) < need"
      using Cons.IH [of "acc + physical_bytes c"] Cons.prems by auto
    have "acc + bytes_of (take k (c # cs)) < need" if "k < Suc n" for k
      using that n(4) Cons.prems(2) False by (cases k) (auto simp: add.assoc)
    then show ?thesis
      using n False Cons.prems by (intro exI [of _ "Suc n"]) (auto simp: add.assoc)
  qed
qed simp

section \<open>Properties\<close>

definition available_now :: "CapacitySnapshot \<Rightarrow> nat" where
  "available_now snap = physical_free_bytes snap - filesystem_reserve_bytes snap - outstanding_space_lease_bytes snap"

text \<open>What a plan must satisfy.\<close>

definition plan_ok :: "CapacitySnapshot \<Rightarrow> u64 \<Rightarrow> SpaceLeasePlan \<Rightarrow> bool" where
  "plan_ok snap requested p \<longleftrightarrow>
     (let rs = sort_key reclaim_key (filter reclaimable (candidates snap)); need = requested - available_now snap
      in requested_bytes p = requested \<and> immediately_available_bytes p = available_now snap \<and>
         reclaim_required_bytes p = need \<and> total_reclaimable_bytes p = bytes_of rs \<and>
         (\<exists>n. selected p = take n rs) \<and>
         selected_reclaim_bytes p = bytes_of (selected p) \<and>
         available_after_selected_reclaim_bytes p = available_now snap + bytes_of (selected p) \<and>
         shortfall_bytes p = requested - (available_now snap + bytes_of rs) \<and>
         unique_bytes (blocked p) = bytes_of (blocked_cands (candidates snap)) \<and>
         (grantable p \<longleftrightarrow> requested \<le> available_now snap + bytes_of rs) \<and>
         (\<forall>k<length (selected p). bytes_of (take k (selected p)) < need))"

lemma available_now_eq:
  "saturating_sub64 (saturating_sub64 (physical_free_bytes snap) (filesystem_reserve_bytes snap))
     (outstanding_space_lease_bytes snap) = available_now snap"
  by (simp add: saturating_sub64_def available_now_def)

lemma plan_correct:
  assumes "0 < requested" "distinct (map reclaim_id (candidates snap))"
    "bytes_of (blocked_cands (candidates snap)) \<le> u64_max"
    "available_now snap + bytes_of (filter reclaimable (candidates snap)) \<le> u64_max"
  shows "\<exists>p. plan_space_lease snap requested = Inr p \<and> plan_ok snap requested p"
proof -
  let ?cs = "candidates snap" and ?imm = "available_now snap" and ?need = "requested - available_now snap"
  let ?rs = "sort_key reclaim_key (filter reclaimable (candidates snap))"
  obtain b where b: "classify {} [] blocked_default ?cs = Inr (filter reclaimable ?cs, b)"
      "unique_bytes b = bytes_of (blocked_cands ?cs)"
    using classify_ok [of blocked_default ?cs "{}" "[]"] assms
    by (auto simp: blocked_default_def blocked_inv_def)
  have room: "?imm + bytes_of ?rs \<le> u64_max" using assms(4) by simp
  note imm = available_now_eq [of snap]
  obtain n where n: "n \<le> length ?rs"
    "select_for ?need ?rs = Inr (take n ?rs, bytes_of (take n ?rs))"
    "?need \<le> bytes_of (take n ?rs) \<or> n = length ?rs" "\<forall>k<n. bytes_of (take k ?rs) < ?need"
  proof (cases "?need = 0")
    case True
    then show ?thesis using that [of 0] by (simp add: select_for_def)
  next
    case False
    then show ?thesis using select_loop_prefix [of 0 ?rs ?need] room that by (auto simp: select_for_def)
  qed
  have le: "bytes_of (take n ?rs) \<le> bytes_of ?rs"
    using bytes_of_simps(3) [of "take n ?rs" "drop n ?rs"] by simp
  let ?p = "\<lparr>requested_bytes = requested, immediately_available_bytes = ?imm, reclaim_required_bytes = ?need,
    total_reclaimable_bytes = bytes_of ?rs, selected_reclaim_bytes = bytes_of (take n ?rs),
    available_after_selected_reclaim_bytes = ?imm + bytes_of (take n ?rs),
    shortfall_bytes = requested - (?imm + bytes_of ?rs), selected = take n ?rs, blocked = b\<rparr>"
  have "plan_space_lease snap requested = Inr ?p"
    using assms(1) room le n(2) b(1) sum_bytes_eq [of 0 ?rs]
    unfolding plan_space_lease_def imm Let_def by (simp add: saturating_sub64_def)
  moreover have "plan_ok snap requested ?p"
    using n le b(2) by (auto simp: plan_ok_def Let_def grantable_def)
  ultimately show ?thesis by blast
qed

lemma plan_overflow:
  assumes "u64_max < bytes_of (blocked_cands (candidates snap)) \<or>
    u64_max < available_now snap + bytes_of (filter reclaimable (candidates snap))"
  shows "plan_space_lease snap requested = Inl InvalidArgument"
proof (cases "classify {} [] blocked_default (candidates snap)")
  case (Inl e)
  then show ?thesis using classify_error by (auto simp: plan_space_lease_def Let_def)
next
  case (Inr x)
  let ?cs = "candidates snap"
  have b: "blocked_inv blocked_default" "unique_bytes blocked_default = 0" by (simp_all add: blocked_default_def blocked_inv_def)
  have fit: "bytes_of (blocked_cands ?cs) \<le> u64_max" using classify_overflow [OF b(1), of ?cs "{}" "[]"] Inr b(2) by force
  have "distinct (map reclaim_id ?cs)" using classify_duplicate [of ?cs "{}"] Inr by fastforce
  then have x: "fst x = filter reclaimable ?cs" using classify_ok [OF b(1), of ?cs "{}" "[]"] Inr b(2) fit by auto
  have "u64_max < available_now snap + bytes_of (sort_key reclaim_key (fst x))" using assms fit x by simp
  then show ?thesis using Inr sum_bytes_eq [of 0 "sort_key reclaim_key (fst x)"]
    unfolding plan_space_lease_def available_now_eq Let_def by (simp add: split_beta)
qed

text \<open>C34: the planner is exact.  It produces a plan exactly when the request is not empty, no unit appears
  twice, the blocked bytes fit in 64 bits, and so do the available bytes together with all reclaimable
  ones; otherwise it returns \<open>InvalidArgument\<close>.  In the plan the selection is a shortest sufficient prefix
  of the reclaimable units in recency order, only verified, clean, unpinned and unread units are in
  it, blocked bytes are counted once, and the plan is grantable exactly when free space beyond the
  reserves plus all reclaimable bytes covers the request.\<close>

theorem space_lease_plan_exact:
  "if 0 < requested \<and> distinct (map reclaim_id (candidates snap)) \<and> bytes_of (blocked_cands (candidates snap)) \<le> u64_max \<and>
      available_now snap + bytes_of (filter reclaimable (candidates snap)) \<le> u64_max
   then \<exists>p. plan_space_lease snap requested = Inr p \<and> plan_ok snap requested p \<and> list_all reclaimable (selected p)
   else plan_space_lease snap requested = Inl InvalidArgument"
proof (cases "0 < requested \<and> distinct (map reclaim_id (candidates snap)) \<and> bytes_of (blocked_cands (candidates snap)) \<le> u64_max \<and>
    available_now snap + bytes_of (filter reclaimable (candidates snap)) \<le> u64_max")
  case True
  then obtain p where p: "plan_space_lease snap requested = Inr p" "plan_ok snap requested p"
    using plan_correct by blast
  then obtain n where "selected p = take n (sort_key reclaim_key (filter reclaimable (candidates snap)))"
    by (auto simp: plan_ok_def Let_def)
  then have "list_all reclaimable (selected p)"
    by (auto simp: list_all_iff dest: in_set_takeD)
  then show ?thesis using p True by auto
next
  case False
  then have "plan_space_lease snap requested = Inl InvalidArgument"
    using classify_duplicate [of "candidates snap" "{}" "[]" blocked_default] plan_overflow [of snap requested]
    by (auto simp: plan_space_lease_def Let_def not_le)
  then show ?thesis using False by (simp only: if_False)
qed

definition example_unit :: "page_hash \<Rightarrow> u64 \<Rightarrow> u64 \<Rightarrow> bool \<Rightarrow> ReclaimCandidate" where
  "example_unit h n seq d = \<lparr>reclaim_id = h, physical_bytes = n, last_access_sequence = seq,
     remote_verified = True, dirty = d, cand_pinned = False, active_read_leases = 0,
     mounted_reader_exclusion = False\<rparr>"

definition example_snapshot :: CapacitySnapshot where
  "example_snapshot = \<lparr>physical_free_bytes = 10, filesystem_reserve_bytes = 4,
     outstanding_space_lease_bytes = 1,
     candidates = [example_unit 1 5 9 False, example_unit 2 7 3 False, example_unit 3 9 1 True]\<rparr>"

theorem space_lease_plan_exact_witness:
  "\<exists>p. plan_space_lease example_snapshot 12 = Inr p \<and> grantable p"
proof -
  have d: "distinct (map reclaim_id (candidates example_snapshot))" "bytes_of (blocked_cands (candidates example_snapshot)) \<le> u64_max"
    by (simp_all add: example_snapshot_def example_unit_def blocked_cands_def reclaimable_def u64_max_def)
  have r: "bytes_of (filter reclaimable (candidates example_snapshot)) = 12" "available_now example_snapshot = 5"
    by (simp_all add: example_snapshot_def example_unit_def reclaimable_def available_now_def)
  show ?thesis
    using space_lease_plan_exact [of 12 example_snapshot] d r
    by (auto simp: plan_ok_def Let_def u64_max_def)
qed

end
