(* ===== verification/Byte_Codec.thy ===== *)
theory Byte_Codec
  imports Prelude
begin

text \<open>Fixed-width records on byte buffers, shared by the format theories.  A \<open>[u8]\<close> is a list of
  \<open>8 word\<close>; \<open>to_le_bytes\<close>/\<open>from_le_bytes\<close> are \<open>le_bytes\<close>/\<open>le_value\<close>, a 32-byte hash and a 16-byte
  identifier are laid out most significant byte first (their Rust order is the numeric one).  The
  encoders of the source fill a zeroed buffer with \<open>copy_from_slice\<close>; \<open>copy_into\<close> is that write and
  \<open>slice\<close> a read, and the frame rules in \<open>slice_simps\<close> say that a read sees exactly the write it
  overlaps.\<close>

named_theorems slice_simps \<open>reads after writes on byte buffers\<close>

type_synonym byte = "8 word"
type_synonym bytes = "byte list"

section \<open>Little-endian integers\<close>

primrec le_bytes :: "nat \<Rightarrow> nat \<Rightarrow> bytes" where
  "le_bytes 0 v = []"
| "le_bytes (Suc k) v = word_of_nat v # le_bytes k (v div 256)"

primrec le_value :: "bytes \<Rightarrow> nat" where
  "le_value [] = 0"
| "le_value (b # bs) = unat b + 256 * le_value bs"

lemma length_le_bytes [simp]: "length (le_bytes k v) = k"
  by (induction k arbitrary: v) simp_all

lemma unat_byte_less: "unat (b :: byte) < 256"
  using unsigned_less [of b] by simp

lemma le_value_bound: "le_value bs < 256 ^ length bs"
proof (induction bs)
  case Nil
  then show ?case by simp
next
  case (Cons b bs)
  have "unat b + 256 * le_value bs < 256 * (le_value bs + 1)" using unat_byte_less [of b] by simp
  also have "\<dots> \<le> 256 * 256 ^ length bs" using Cons.IH by (intro mult_le_mono2) simp
  finally show ?case by simp
qed

lemma le_value_le_bytes: "v < 256 ^ k \<Longrightarrow> le_value (le_bytes k v) = v"
proof (induction k arbitrary: v)
  case 0
  then show ?case by simp
next
  case (Suc k)
  have "v div 256 < 256 ^ k" using Suc.prems by (simp add: less_mult_imp_div_less mult.commute)
  then show ?case using Suc.IH [of "v div 256"] by (simp add: unat_of_nat)
qed

lemma le_bytes_le_value: "le_bytes (length bs) (le_value bs) = bs"
proof (induction bs)
  case Nil
  then show ?case by simp
next
  case (Cons b bs)
  have "word_of_nat (unat b + 256 * le_value bs) = b"
    using unat_byte_less [of b] by (simp only: word_unat_eq_iff unat_of_nat) simp
  moreover have "(unat b + 256 * le_value bs) div 256 = le_value bs"
    using unat_byte_less [of b] by simp
  ultimately show ?case using Cons.IH by simp
qed

lemma le_bytes_inj: "v < 256 ^ k \<Longrightarrow> w < 256 ^ k \<Longrightarrow> le_bytes k v = le_bytes k w \<longleftrightarrow> v = w"
  using le_value_le_bytes by metis

lemma u_bounds: "256 ^ 4 = u32_max + 1" "256 ^ 8 = u64_max + 1"
  by (simp_all add: u32_max_def u64_max_def)

lemma one_le_u32_max [simp]: "Suc 0 \<le> u32_max"
  by (simp add: u32_max_def)

lemma le_value_u32 [simp]: "v \<le> u32_max \<Longrightarrow> le_value (le_bytes 4 v) = v"
  using le_value_le_bytes [of v 4] by (simp only: u_bounds)

lemma le_value_u64 [simp]: "v \<le> u64_max \<Longrightarrow> le_value (le_bytes 8 v) = v"
  using le_value_le_bytes [of v 8] by (simp only: u_bounds)

lemma le_value_u32_bound: "length bs = 4 \<Longrightarrow> le_value bs \<le> u32_max"
  using le_value_bound [of bs] by (simp only: u_bounds)

lemma le_value_u64_bound: "length bs = 8 \<Longrightarrow> le_value bs \<le> u64_max"
  using le_value_bound [of bs] by (simp only: u_bounds)

lemma le_bytes_of_value: "length bs = k \<Longrightarrow> le_bytes k (le_value bs) = bs"
  using le_bytes_le_value by auto

section \<open>Hashes and identifiers\<close>

definition hash_bytes :: "page_hash \<Rightarrow> bytes" where
  "hash_bytes h = rev (le_bytes 32 (unat h))"

definition hash_of_bytes :: "bytes \<Rightarrow> page_hash" where
  "hash_of_bytes bs = word_of_nat (le_value (rev bs))"

definition id_bytes :: "id16 \<Rightarrow> bytes" where
  "id_bytes i = rev (le_bytes 16 (unat i))"

definition id_of_bytes :: "bytes \<Rightarrow> id16" where
  "id_of_bytes bs = word_of_nat (le_value (rev bs))"

lemma hash_bytes_length [simp]: "length (hash_bytes h) = 32"
  by (simp add: hash_bytes_def)

lemma id_bytes_length [simp]: "length (id_bytes i) = 16"
  by (simp add: id_bytes_def)

lemma hash_of_hash_bytes [simp]: "hash_of_bytes (hash_bytes h) = h"
proof -
  have "unat h < 256 ^ 32" using unsigned_less [of h] by simp
  then have "le_value (le_bytes 32 (unat h)) = unat h" by (rule le_value_le_bytes)
  then show ?thesis by (simp add: hash_of_bytes_def hash_bytes_def)
qed

lemma id_of_id_bytes [simp]: "id_of_bytes (id_bytes i) = i"
proof -
  have "unat i < 256 ^ 16" using unsigned_less [of i] by simp
  then have "le_value (le_bytes 16 (unat i)) = unat i" by (rule le_value_le_bytes)
  then show ?thesis by (simp add: id_of_bytes_def id_bytes_def)
qed

lemma hash_bytes_of_hash: "length bs = 32 \<Longrightarrow> hash_bytes (hash_of_bytes bs) = bs"
proof -
  assume l: "length bs = 32"
  have "le_value (rev bs) < 2 ^ 256" using le_value_bound [of "rev bs"] l by simp
  then have "unat (hash_of_bytes bs) = le_value (rev bs)"
    by (simp add: hash_of_bytes_def unat_of_nat)
  then show ?thesis using le_bytes_of_value [of "rev bs" 32] l by (simp add: hash_bytes_def)
qed

lemma id_bytes_of_id: "length bs = 16 \<Longrightarrow> id_bytes (id_of_bytes bs) = bs"
proof -
  assume l: "length bs = 16"
  have "le_value (rev bs) < 2 ^ 128" using le_value_bound [of "rev bs"] l by simp
  then have "unat (id_of_bytes bs) = le_value (rev bs)"
    by (simp add: id_of_bytes_def unat_of_nat)
  then show ?thesis using le_bytes_of_value [of "rev bs" 16] l by (simp add: id_bytes_def)
qed

lemma hash_bytes_inj [simp]: "hash_bytes a = hash_bytes b \<longleftrightarrow> a = b"
  using hash_of_hash_bytes by metis

section \<open>Reads and writes\<close>

definition slice :: "nat \<Rightarrow> nat \<Rightarrow> 'a list \<Rightarrow> 'a list" where
  "slice a n bs = take n (drop a bs)"

definition copy_into :: "'a list \<Rightarrow> nat \<Rightarrow> 'a list \<Rightarrow> 'a list" where
  "copy_into buf a v = take a buf @ v @ drop (a + length v) buf"

lemma length_slice [simp]: "a + n \<le> length bs \<Longrightarrow> length (slice a n bs) = n"
  by (simp add: slice_def)

lemma length_copy_into [simp]: "a + length v \<le> length buf \<Longrightarrow> length (copy_into buf a v) = length buf"
  by (simp add: copy_into_def)

lemma slice_copy_same [slice_simps]:
  "a + length v \<le> length buf \<Longrightarrow> n = length v \<Longrightarrow> slice a n (copy_into buf a v) = v"
  by (simp add: slice_def copy_into_def)

lemma slice_copy_before [slice_simps]:
  "a + length v \<le> length buf \<Longrightarrow> b + n \<le> a \<Longrightarrow> slice b n (copy_into buf a v) = slice b n buf"
  by (rule nth_equalityI) (auto simp: slice_def copy_into_def nth_append)

lemma slice_copy_after [slice_simps]:
  "a + length v \<le> length buf \<Longrightarrow> a + length v \<le> b \<Longrightarrow> slice b n (copy_into buf a v) = slice b n buf"
  by (simp add: slice_def copy_into_def)

lemma slice_update [slice_simps]:
  "i < a \<or> a + n \<le> i \<Longrightarrow> slice a n (bs[i := x]) = slice a n bs"
  by (auto simp: slice_def drop_update_swap)

lemma nth_copy_outside [slice_simps]:
  "a + length v \<le> length buf \<Longrightarrow> i < a \<or> a + length v \<le> i \<Longrightarrow> copy_into buf a v ! i = buf ! i"
  by (auto simp: copy_into_def nth_append)

text \<open>\<open>[0_u8; n]\<close>.\<close>

definition zeros :: "nat \<Rightarrow> bytes" where
  "zeros n = replicate n 0"

lemma length_zeros [simp]: "length (zeros n) = n"
  by (simp add: zeros_def)

lemma slice_zeros [slice_simps]: "a + n \<le> k \<Longrightarrow> slice a n (zeros k) = zeros n"
  by (simp add: slice_def zeros_def)

lemma nth_zeros [slice_simps]: "i < k \<Longrightarrow> zeros k ! i = 0"
  by (simp add: zeros_def)

lemma drop_slice: "length bs = n \<Longrightarrow> drop a bs = slice a (n - a) bs"
  by (simp add: slice_def)

lemma slice_split: "slice a (m + n) bs = slice a m bs @ slice (a + m) n bs"
  by (simp add: slice_def take_add add.commute)

lemma slice_slice: "a + n \<le> m \<Longrightarrow> slice a n (slice b m xs) = slice (b + a) n xs"
  by (simp add: slice_def drop_take min_def add.commute)

lemma slice_whole: "length bs = n \<Longrightarrow> slice 0 n bs = bs"
  by (simp add: slice_def)

lemma slice_nth: "i < length bs \<Longrightarrow> slice i (Suc 0) bs = [bs ! i]"
  by (simp add: slice_def take_Suc_conv_app_nth Cons_nth_drop_Suc [symmetric])

text \<open>Two buffers that agree field by field are equal.\<close>

primrec fields :: "nat \<Rightarrow> nat list \<Rightarrow> 'a list \<Rightarrow> 'a list list" where
  "fields off [] bs = []"
| "fields off (w # ws) bs = slice off w bs # fields (off + w) ws bs"

lemma fields_eq: "fields off ws xs = fields off ws ys \<Longrightarrow> slice off (sum_list ws) xs = slice off (sum_list ws) ys"
  by (induction ws arbitrary: off) (simp_all add: slice_split, simp add: slice_def)

lemma prefix_by_fields: "fields 0 ws xs = fields 0 ws ys \<Longrightarrow> n = sum_list ws \<Longrightarrow> slice 0 n xs = slice 0 n ys"
  using fields_eq [of 0] by simp

lemma eq_by_fields:
  "fields 0 ws xs = fields 0 ws ys \<Longrightarrow> length xs = sum_list ws \<Longrightarrow> length ys = sum_list ws \<Longrightarrow> xs = ys"
  using fields_eq [of 0 ws xs ys] by (simp add: slice_def)

definition all_zero :: "bytes \<Rightarrow> bool" where
  "all_zero bs = list_all (\<lambda>b. b = 0) bs"

lemma all_zero_eq: "all_zero bs \<longleftrightarrow> bs = zeros (length bs)"
  by (induction bs) (auto simp: all_zero_def zeros_def)

lemma all_zero_zeros [simp]: "all_zero (zeros n)"
  by (simp add: all_zero_eq)

lemma all_zero_slice: "a + n \<le> length bs \<Longrightarrow> all_zero (slice a n bs) \<longleftrightarrow> slice a n bs = zeros n"
  by (simp add: all_zero_eq)

section \<open>Cutting a byte string into pages\<close>

function page_chunks :: "nat \<Rightarrow> 'a list \<Rightarrow> 'a list list" where
  "page_chunks n bs = (if n = 0 \<or> bs = [] then [] else take n bs # page_chunks n (drop n bs))"
  by pat_completeness auto
termination by (relation "measure (\<lambda>(n, bs). length bs)") auto

declare page_chunks.simps [simp del]

lemma page_chunks_concat: "0 < n \<Longrightarrow> concat (page_chunks n bs) = bs"
  by (induction n bs rule: page_chunks.induct) (subst page_chunks.simps, auto)

lemma page_chunks_bounds: "c \<in> set (page_chunks n bs) \<Longrightarrow> c \<noteq> [] \<and> length c \<le> n"
  by (induction n bs rule: page_chunks.induct) (subst (asm) (2) page_chunks.simps, auto split: if_splits)

lemma page_chunks_length: "0 < n \<Longrightarrow> length (page_chunks n bs) = (length bs + n - 1) div n"
proof (induction n bs rule: page_chunks.induct)
  case (1 n bs)
  show ?case
  proof (cases "bs = []")
    case False
    then have "length (page_chunks n bs) = Suc ((length (drop n bs) + n - 1) div n)"
      using 1 by (subst page_chunks.simps) simp
    also have "\<dots> = (length (drop n bs) + n - 1 + n) div n" using 1(2) by (metis Suc_eq_plus1 div_add_self2 not_gr0)
    also have "\<dots> = (length bs + n - 1) div n"
    proof (cases "n \<le> length bs")
      case False
      then have "0 < length bs" "length bs < n" using \<open>bs \<noteq> []\<close> by simp_all
      moreover from this have "(length bs + n - 1) div n = 1" by (intro div_nat_eqI; simp only: One_nat_def mult_Suc_right mult_0_right; linarith)
      moreover have "(0 + n - 1 + n) div n = 1" using 1(2) by (intro div_nat_eqI; simp only: One_nat_def mult_Suc_right mult_0_right; linarith)
      ultimately show ?thesis by simp
    next
      case True
      then have "length (drop n bs) + n - 1 + n = length bs + n - 1" using 1(2) by simp
      then show ?thesis by (simp only:)
    qed
    finally show ?thesis .
  qed (use 1(2) in \<open>simp add: page_chunks.simps\<close>)
qed

lemma page_chunks_nth: "i < length (page_chunks n bs) \<Longrightarrow> page_chunks n bs ! i = take n (drop (i * n) bs)"
proof (induction n bs arbitrary: i rule: page_chunks.induct)
  case (1 n bs)
  then have ne: "n \<noteq> 0" "bs \<noteq> []" by (auto simp: page_chunks.simps [of n bs] split: if_splits)
  show ?case
  proof (cases i)
    case 0
    then show ?thesis using ne by (simp add: page_chunks.simps [of n bs])
  next
    case (Suc j)
    then have "page_chunks n (drop n bs) ! j = take n (drop (j * n) (drop n bs))"
      using 1 ne by (auto simp: page_chunks.simps [of n bs])
    then show ?thesis using Suc ne by (simp add: page_chunks.simps [of n bs] add.commute)
  qed
qed

section \<open>Reads from untrusted input\<close>

text \<open>\<open>bytes.get(offset..offset + n)\<close> with its out-of-range error, and the integer reads over it.\<close>

definition take_bytes :: "nat \<Rightarrow> bytes \<Rightarrow> nat \<Rightarrow> bytes result" where
  "take_bytes n bs off =
     bind_result (ok_or (checked_add64 off n) ManifestInvalid) (\<lambda>e.
       if e \<le> length bs then Inr (slice off n bs) else Inl ManifestInvalid)"

definition read_u16 :: "bytes \<Rightarrow> nat \<Rightarrow> nat result" where
  "read_u16 bs off = bind_result (take_bytes 2 bs off) (\<lambda>v. Inr (le_value v))"

definition read_u32 :: "bytes \<Rightarrow> nat \<Rightarrow> u32 result" where
  "read_u32 bs off = bind_result (take_bytes 4 bs off) (\<lambda>v. Inr (le_value v))"

definition read_u64 :: "bytes \<Rightarrow> nat \<Rightarrow> u64 result" where
  "read_u64 bs off = bind_result (take_bytes 8 bs off) (\<lambda>v. Inr (le_value v))"

lemma take_bytes_in: "off + n \<le> length bs \<Longrightarrow> off + n \<le> u64_max \<Longrightarrow> take_bytes n bs off = Inr (slice off n bs)"
  by (simp add: take_bytes_def checked_add64_def)

lemma reads_in:
  "off + 2 \<le> length bs \<Longrightarrow> off + 2 \<le> u64_max \<Longrightarrow> read_u16 bs off = Inr (le_value (slice off 2 bs))"
  "off + 4 \<le> length bs \<Longrightarrow> off + 4 \<le> u64_max \<Longrightarrow> read_u32 bs off = Inr (le_value (slice off 4 bs))"
  "off + 8 \<le> length bs \<Longrightarrow> off + 8 \<le> u64_max \<Longrightarrow> read_u64 bs off = Inr (le_value (slice off 8 bs))"
  by (simp_all add: read_u16_def read_u32_def read_u64_def take_bytes_in)

section \<open>Powers of two\<close>

fun is_power_of_two :: "nat \<Rightarrow> bool" where
  "is_power_of_two n = (if 1 < n \<and> even n then is_power_of_two (n div 2) else n = 1)"

declare is_power_of_two.simps [simp del]

lemma is_power_of_two_iff: "is_power_of_two n \<longleftrightarrow> (\<exists>k. n = 2 ^ k)"
proof (induction n rule: is_power_of_two.induct)
  case (1 n)
  show ?case
  proof (cases "1 < n \<and> even n")
    case True
    have "(\<exists>k. n div 2 = 2 ^ k) \<longleftrightarrow> (\<exists>k. n = 2 ^ k)"
    proof
      assume "\<exists>k. n div 2 = 2 ^ k"
      then obtain k where "n div 2 = 2 ^ k" ..
      then have "n = 2 ^ Suc k" using True by (metis dvd_mult_div_cancel power_Suc)
      then show "\<exists>k. n = 2 ^ k" ..
    next
      assume "\<exists>k. n = 2 ^ k"
      then obtain k where k: "n = 2 ^ k" ..
      with True obtain j where "k = Suc j" by (cases k) auto
      with k have "n div 2 = 2 ^ j" by simp
      then show "\<exists>k. n div 2 = 2 ^ k" ..
    qed
    then show ?thesis using 1 True by (subst is_power_of_two.simps) auto
  next
    case False
    have "n = 1" if "n = 2 ^ k" for k using that False one_less_power [of "2 :: nat" k] by (cases "k = 0") auto
    then have "(\<exists>k. n = 2 ^ k) \<longleftrightarrow> n = 1" by (metis power_0)
    then show ?thesis using False by (subst is_power_of_two.simps) auto
  qed
qed

section \<open>Record codecs\<close>

text \<open>The contract every fixed-width record of the on-disk formats keeps: \<open>ok\<close> names the records a
  decoder can return, encoding is total and of one width, and decoding is the exact inverse.\<close>

locale record_codec =
  fixes encode :: "'a \<Rightarrow> bytes"
    and decode :: "bytes \<Rightarrow> 'a result"
    and ok :: "'a \<Rightarrow> bool"
    and width :: nat
  assumes encode_width: "length (encode x) = width"
    and decode_encode: "ok x \<Longrightarrow> decode (encode x) = Inr x"
    and encode_decode: "decode bs = Inr x \<Longrightarrow> ok x \<and> encode x = bs"
    and width_pos: "0 < width"
begin

lemma decode_iff: "decode bs = Inr x \<longleftrightarrow> ok x \<and> encode x = bs"
  using decode_encode encode_decode by blast

lemma decode_width: "decode bs = Inr x \<Longrightarrow> length bs = width"
  using encode_decode encode_width by blast

lemma encode_inj: "ok x \<Longrightarrow> ok y \<Longrightarrow> encode x = encode y \<longleftrightarrow> x = y"
  by (metis decode_encode sum.inject(2))

lemma decode_inj: "decode bs = Inr x \<Longrightarrow> decode cs = Inr x \<Longrightarrow> bs = cs"
  using encode_decode by blast

end

text \<open>\<open>chunks_exact(n)\<close> with one fallible step per chunk.\<close>

function decode_chunks :: "nat \<Rightarrow> (bytes \<Rightarrow> 'a result) \<Rightarrow> bytes \<Rightarrow> 'a list result" where
  "decode_chunks n f bs =
     (if n = 0 \<or> length bs < n then Inr []
      else bind_result (f (take n bs)) (\<lambda>x.
           bind_result (decode_chunks n f (drop n bs)) (\<lambda>xs. Inr (x # xs))))"
  by pat_completeness auto
termination by (relation "measure (\<lambda>(n, f, bs). length bs)") auto

declare decode_chunks.simps [simp del]

context record_codec
begin

lemma length_table: "length (concat (map encode xs)) = length xs * width"
  by (induction xs) (simp_all add: encode_width)

lemma table_decode_encode: "list_all ok xs \<Longrightarrow> decode_chunks width decode (concat (map encode xs)) = Inr xs"
proof (induction xs)
  case Nil
  then show ?case using width_pos by (simp add: decode_chunks.simps)
next
  case (Cons x xs)
  then show ?case using width_pos encode_width [of x]
    by (subst decode_chunks.simps) (simp add: decode_encode)
qed

lemma table_encode_decode:
  "decode_chunks width decode bs = Inr xs \<Longrightarrow> length bs = m * width \<Longrightarrow>
   list_all ok xs \<and> concat (map encode xs) = bs \<and> length xs = m"
proof (induction m arbitrary: bs xs)
  case 0
  then show ?case using width_pos by (simp add: decode_chunks.simps)
next
  case (Suc m)
  then have "\<not> length bs < width" by simp
  with Suc.prems(1) width_pos obtain y ys where y: "decode (take width bs) = Inr y"
    "decode_chunks width decode (drop width bs) = Inr ys" "xs = y # ys"
    by (subst (asm) decode_chunks.simps) (auto simp: bind_result_eq_Inr)
  moreover have "length (drop width bs) = m * width" using Suc.prems(2) by simp
  ultimately have "list_all ok ys \<and> concat (map encode ys) = drop width bs \<and> length ys = m"
    using Suc.IH by blast
  then show ?case using encode_decode [OF y(1)] y(3) by simp
qed

end

end
