(* ===== verification/Arena_Format.thy ===== *)
theory Arena_Format
  imports Byte_Codec
begin

text \<open>The cache arena on disk: \<open>mirage-cache/src/format.rs\<close>.  The layout arithmetic of a shard with its
  overflow checks, the 4096-byte arena header and the 64-byte slot metadata record.  The checksum is
  the parameter \<open>crc32\<close>, standing for the crate \<open>crc32fast\<close>; a 32-bit result is all the codecs need of
  it.\<close>

section \<open>Shard layout\<close>

definition ARENA_MAGIC :: bytes where
  "ARENA_MAGIC = [0x4D, 0x49, 0x52, 0x41, 0x52, 0x4E, 0x31, 0]"

definition ARENA_VERSION :: nat where
  "ARENA_VERSION = 1"

definition ARENA_HEADER_BYTES :: nat where
  "ARENA_HEADER_BYTES = 4096"

definition SLOT_METADATA_BYTES :: nat where
  "SLOT_METADATA_BYTES = 64"

record CacheLayout =
  page_size :: u64
  slot_count :: u32
  db_journal_allowance :: u64
  filesystem_reserve :: u64

definition logical_shard_bytes :: "CacheLayout \<Rightarrow> u64 result" where
  "logical_shard_bytes l =
     ok_or (Option.bind (checked_mul64 (slot_count l) (page_size l)) (\<lambda>b. checked_add64 b ARENA_HEADER_BYTES))
       InvalidArgument"

definition metadata_bytes :: "CacheLayout \<Rightarrow> u64 result" where
  "metadata_bytes l =
     ok_or (Option.bind (checked_mul64 (slot_count l) SLOT_METADATA_BYTES) (\<lambda>b. checked_add64 b ARENA_HEADER_BYTES))
       InvalidArgument"

definition declared_physical_budget :: "CacheLayout \<Rightarrow> u64 result" where
  "declared_physical_budget l =
     bind_result (logical_shard_bytes l) (\<lambda>shard.
     bind_result (metadata_bytes l) (\<lambda>meta.
       ok_or (Option.bind (checked_add64 shard meta) (\<lambda>b.
              Option.bind (checked_add64 b (db_journal_allowance l)) (\<lambda>b.
              checked_add64 b (filesystem_reserve l)))) InvalidArgument))"

definition layout_validate :: "CacheLayout \<Rightarrow> unit result" where
  "layout_validate l =
     (if \<not> (64 * 1024 \<le> page_size l \<and> page_size l \<le> 16 * 1024 * 1024) \<or>
         \<not> is_power_of_two (page_size l) \<or> slot_count l = 0 then Inl InvalidArgument
      else bind_result (logical_shard_bytes l) (\<lambda>_.
           bind_result (declared_physical_budget l) (\<lambda>_. Inr ())))"

definition slot_offset :: "CacheLayout \<Rightarrow> u32 \<Rightarrow> u64 result" where
  "slot_offset l slot =
     (if slot \<ge> slot_count l then Inl InvalidArgument
      else ok_or (Option.bind (checked_mul64 slot (page_size l)) (\<lambda>b. checked_add64 b ARENA_HEADER_BYTES))
             InvalidArgument)"

section \<open>Arena header\<close>

record ArenaHeader =
  arena_page_size :: u64
  arena_slot_count :: u32

definition header_layout :: "ArenaHeader \<Rightarrow> CacheLayout" where
  "header_layout h = \<lparr>page_size = arena_page_size h, slot_count = arena_slot_count h,
     db_journal_allowance = 0, filesystem_reserve = 0\<rparr>"

definition arena_encode :: "(bytes \<Rightarrow> 32 word) \<Rightarrow> ArenaHeader \<Rightarrow> bytes result" where
  "arena_encode crc32 h =
     bind_result (layout_validate (header_layout h)) (\<lambda>_.
       let b = zeros ARENA_HEADER_BYTES;
           b = copy_into b 0 ARENA_MAGIC;
           b = copy_into b 8 (le_bytes 4 ARENA_VERSION);
           b = copy_into b 12 (le_bytes 8 (arena_page_size h));
           b = copy_into b 20 (le_bytes 4 (arena_slot_count h));
           checksum = crc32 (slice 0 24 b)
       in Inr (copy_into b 24 (le_bytes 4 (unat checksum))))"

definition arena_decode :: "(bytes \<Rightarrow> 32 word) \<Rightarrow> bytes \<Rightarrow> ArenaHeader result" where
  "arena_decode crc32 input =
     (if length input \<noteq> ARENA_HEADER_BYTES \<or> slice 0 8 input \<noteq> ARENA_MAGIC \<or>
         le_value (slice 8 4 input) \<noteq> ARENA_VERSION \<or>
         unat (crc32 (slice 0 24 input)) \<noteq> le_value (slice 24 4 input) \<or>
         \<not> all_zero (drop 28 input)
      then Inl IntegrityMismatch
      else
        let h = \<lparr>arena_page_size = le_value (slice 12 8 input), arena_slot_count = le_value (slice 20 4 input)\<rparr>
        in bind_result (layout_validate (header_layout h)) (\<lambda>_. Inr h))"

section \<open>Slot metadata\<close>

datatype SlotState = Free | Reserved | Resident | Evicting | RetryDeallocate

fun slot_state_code :: "SlotState \<Rightarrow> byte" where
  "slot_state_code Free = 0"
| "slot_state_code Reserved = 1"
| "slot_state_code Resident = 2"
| "slot_state_code Evicting = 3"
| "slot_state_code RetryDeallocate = 4"

definition decode_slot_state :: "byte \<Rightarrow> SlotState result" where
  "decode_slot_state b =
     (if b = 0 then Inr Free else if b = 1 then Inr Reserved else if b = 2 then Inr Resident
      else if b = 3 then Inr Evicting else if b = 4 then Inr RetryDeallocate
      else Inl UnsupportedLayout)"

record SlotMetadata =
  generation :: u64
  slot_state :: SlotState
  meta_hash :: page_hash
  logical_length :: u32

definition slot_encode :: "(bytes \<Rightarrow> 32 word) \<Rightarrow> SlotMetadata \<Rightarrow> bytes" where
  "slot_encode crc32 m =
     (let b = zeros SLOT_METADATA_BYTES;
          b = copy_into b 0 (le_bytes 8 (generation m));
          b = b[8 := slot_state_code (slot_state m)];
          b = copy_into b 12 (hash_bytes (meta_hash m));
          b = copy_into b 44 (le_bytes 4 (logical_length m));
          checksum = crc32 (slice 0 48 b)
      in copy_into b 48 (le_bytes 4 (unat checksum)))"

definition slot_decode :: "(bytes \<Rightarrow> 32 word) \<Rightarrow> bytes \<Rightarrow> SlotMetadata result" where
  "slot_decode crc32 input =
     (if length input \<noteq> SLOT_METADATA_BYTES \<or> \<not> all_zero (slice 9 3 input) \<or> \<not> all_zero (drop 52 input) \<or>
         unat (crc32 (slice 0 48 input)) \<noteq> le_value (slice 48 4 input)
      then Inl IntegrityMismatch
      else bind_result (decode_slot_state (input ! 8)) (\<lambda>st.
        Inr \<lparr>generation = le_value (slice 0 8 input), slot_state = st,
             meta_hash = hash_of_bytes (slice 12 32 input), logical_length = le_value (slice 44 4 input)\<rparr>))"

section \<open>Layout bounds\<close>

lemma layout_sizes:
  "logical_shard_bytes l = (let n = slot_count l * page_size l + 4096 in if n \<le> u64_max then Inr n else Inl InvalidArgument)"
  "metadata_bytes l = (let n = slot_count l * 64 + 4096 in if n \<le> u64_max then Inr n else Inl InvalidArgument)"
  by (auto simp: logical_shard_bytes_def metadata_bytes_def checked_mul64_def checked_add64_def
      ARENA_HEADER_BYTES_def SLOT_METADATA_BYTES_def Let_def)

lemma budget_eq:
  "declared_physical_budget l =
     (let n = slot_count l * page_size l + slot_count l * 64 + 8192 + db_journal_allowance l + filesystem_reserve l
      in if n \<le> u64_max then Inr n else Inl InvalidArgument)"
proof (cases "slot_count l * page_size l + 4096 \<le> u64_max \<and> slot_count l * 64 + 4096 \<le> u64_max")
  case True
  then show ?thesis
    by (auto simp: declared_physical_budget_def layout_sizes Let_def checked_add64_def split: bind_splits)
next
  case False
  then have "\<not> slot_count l * page_size l + slot_count l * 64 + 8192 + db_journal_allowance l +
      filesystem_reserve l \<le> u64_max" by linarith
  with False show ?thesis
    unfolding declared_physical_budget_def layout_sizes Let_def by auto
qed

definition layout_ok :: "CacheLayout \<Rightarrow> bool" where
  "layout_ok l \<longleftrightarrow> 65536 \<le> page_size l \<and> page_size l \<le> 16777216 \<and> (\<exists>k. page_size l = 2 ^ k) \<and>
     0 < slot_count l \<and>
     slot_count l * page_size l + slot_count l * 64 + 8192 + db_journal_allowance l + filesystem_reserve l \<le> u64_max"

lemma layout_validate_eq: "layout_validate l = (if layout_ok l then Inr () else Inl InvalidArgument)"
  by (auto simp: layout_validate_def layout_ok_def is_power_of_two_iff layout_sizes budget_eq Let_def)

lemma slot_offset_in:
  assumes "layout_ok l" "slot < slot_count l"
  shows "slot_offset l slot = Inr (slot * page_size l + 4096)"
    "slot * page_size l + 4096 + page_size l \<le> slot_count l * page_size l + 4096"
proof -
  have "(slot + 1) * page_size l \<le> slot_count l * page_size l"
    using assms(2) by (intro mult_le_mono1) simp
  then show b: "slot * page_size l + 4096 + page_size l \<le> slot_count l * page_size l + 4096" by simp
  then show "slot_offset l slot = Inr (slot * page_size l + 4096)"
    using assms by (auto simp: slot_offset_def layout_ok_def checked_mul64_def checked_add64_def ARENA_HEADER_BYTES_def)
qed

text \<open>A layout that validates gives every slot a place in the shard: the offset is computed
  without overflow, lies behind the arena header, is page aligned relative to it, the page ends
  within the declared shard length and budget, and the pages of two slots never overlap; a slot
  number outside the shard is refused.\<close>

theorem slot_layout_bounds:
  assumes "layout_validate l = Inr ()" "logical_shard_bytes l = Inr shard" "declared_physical_budget l = Inr budget"
  shows "\<forall>s. (slot_offset l s = Inl InvalidArgument \<and> slot_count l \<le> s) \<or>
      (\<exists>a. slot_offset l s = Inr a \<and> s < slot_count l \<and> ARENA_HEADER_BYTES \<le> a \<and>
           page_size l dvd a - ARENA_HEADER_BYTES \<and> a + page_size l \<le> shard \<and> shard \<le> budget \<and> budget \<le> u64_max \<and>
           (\<forall>t b. slot_offset l t = Inr b \<and> t \<noteq> s \<longrightarrow> a + page_size l \<le> b \<or> b + page_size l \<le> a))"
proof
  fix s
  have ok: "layout_ok l" using assms(1) by (simp add: layout_validate_eq split: if_splits)
  have tot: "shard = slot_count l * page_size l + 4096" "shard \<le> budget" "budget \<le> u64_max"
    using assms(2,3) by (auto simp: layout_sizes budget_eq Let_def split: if_splits)
  show "(slot_offset l s = Inl InvalidArgument \<and> slot_count l \<le> s) \<or>
      (\<exists>a. slot_offset l s = Inr a \<and> s < slot_count l \<and> ARENA_HEADER_BYTES \<le> a \<and>
           page_size l dvd a - ARENA_HEADER_BYTES \<and> a + page_size l \<le> shard \<and> shard \<le> budget \<and> budget \<le> u64_max \<and>
           (\<forall>t b. slot_offset l t = Inr b \<and> t \<noteq> s \<longrightarrow> a + page_size l \<le> b \<or> b + page_size l \<le> a))"
  proof (cases "s < slot_count l")
    case True
    have apart: "s * page_size l + 4096 + page_size l \<le> b \<or> b + page_size l \<le> s * page_size l + 4096"
      if "slot_offset l t = Inr b" "t \<noteq> s" for t b
    proof -
      have t: "t < slot_count l" using that(1) by (auto simp: slot_offset_def split: if_splits)
      then have b: "b = t * page_size l + 4096" using slot_offset_in(1) [OF ok t] that(1) by simp
      consider "s + 1 \<le> t" | "t + 1 \<le> s" using \<open>t \<noteq> s\<close> by linarith
      then show ?thesis
      proof cases
        case 1
        then have "(s + 1) * page_size l \<le> t * page_size l" by (rule mult_le_mono1)
        then show ?thesis using b by simp
      next
        case 2
        then have "(t + 1) * page_size l \<le> s * page_size l" by (rule mult_le_mono1)
        then show ?thesis using b by simp
      qed
    qed
    show ?thesis using slot_offset_in [OF ok True] True tot apart
      by (simp add: ARENA_HEADER_BYTES_def) blast
  next
    case False
    then show ?thesis by (simp add: slot_offset_def)
  qed
qed

definition example_layout :: CacheLayout where
  "example_layout = \<lparr>page_size = 65536, slot_count = 3, db_journal_allowance = 10, filesystem_reserve = 20\<rparr>"

lemma example_layout_values:
  "layout_validate example_layout = Inr ()" "logical_shard_bytes example_layout = Inr 200704"
  "declared_physical_budget example_layout = Inr 205022"
proof -
  have "layout_ok example_layout"
    unfolding layout_ok_def by (auto simp: example_layout_def u64_max_def intro: exI [of _ 16])
  then show "layout_validate example_layout = Inr ()" by (simp add: layout_validate_eq)
  show "logical_shard_bytes example_layout = Inr 200704" "declared_physical_budget example_layout = Inr 205022"
    by (simp_all add: layout_sizes budget_eq example_layout_def u64_max_def)
qed

lemma example_slot: "slot_offset example_layout 2 = Inr 135168"
  by (simp add: slot_offset_def example_layout_def checked_mul64_def checked_add64_def u64_max_def
      ARENA_HEADER_BYTES_def)

theorem slot_layout_bounds_witness:
  "layout_validate example_layout = Inr () \<and> slot_offset example_layout 2 = Inr 135168 \<and>
   135168 + page_size example_layout \<le> 200704"
  using slot_layout_bounds [OF example_layout_values, THEN spec, of 2]
  by (simp add: example_layout_values(1) example_slot)

section \<open>Round trips\<close>

lemma arena_magic_length [simp]: "length ARENA_MAGIC = 8"
  by (simp add: ARENA_MAGIC_def)

lemma unat_crc_bound: "unat (c :: 32 word) \<le> u32_max"
  using unsigned_less [of c, where 'a = nat] by (simp add: u32_max_def)

lemma le_value_crc [simp]: "le_value (le_bytes 4 (unat (c :: 32 word))) = unat c"
  using unat_crc_bound by simp

lemmas codec_simps = slice_simps Let_def ARENA_HEADER_BYTES_def SLOT_METADATA_BYTES_def ARENA_VERSION_def

lemma arena_layout_range: "layout_ok (header_layout h) \<Longrightarrow> arena_page_size h \<le> u64_max"
  by (simp add: layout_ok_def header_layout_def u64_max_def)

lemma arena_header_eta [simp]: "\<lparr>arena_page_size = arena_page_size h, arena_slot_count = arena_slot_count h\<rparr> = h"
  by simp

lemma arena_encode_decode:
  assumes "arena_encode crc32 h = Inr bs" "arena_slot_count h \<le> u32_max"
  shows "arena_decode crc32 bs = Inr h"
proof -
  have ok: "layout_ok (header_layout h)" using assms(1)
    by (auto simp: arena_encode_def layout_validate_eq split: if_splits)
  have "length bs = 4096" using assms(1)
    by (auto simp: arena_encode_def layout_validate_eq ok codec_simps)
  then have d: "drop 28 bs = slice 28 4068 bs" by (simp add: drop_slice)
  show ?thesis unfolding arena_decode_def d using assms ok arena_layout_range [OF ok]
    by (auto simp: arena_encode_def layout_validate_eq codec_simps)
qed

lemma arena_decode_encode:
  assumes "arena_decode crc32 bs = Inr h"
  shows "arena_encode crc32 h = Inr bs \<and> arena_slot_count h \<le> u32_max"
proof -
  have len: "length bs = 4096" using assms
    by (simp add: arena_decode_def ARENA_HEADER_BYTES_def split: if_splits)
  then have d: "drop 28 bs = slice 28 4068 bs" by (simp add: drop_slice)
  have f: "slice 0 8 bs = ARENA_MAGIC" "le_value (slice 8 4 bs) = 1"
    "unat (crc32 (slice 0 24 bs)) = le_value (slice 24 4 bs)" "slice 28 4068 bs = zeros 4068"
    "layout_ok (header_layout h)"
    "h = \<lparr>arena_page_size = le_value (slice 12 8 bs), arena_slot_count = le_value (slice 20 4 bs)\<rparr>"
    using assms len unfolding arena_decode_def d
    by (auto simp: layout_validate_eq Let_def ARENA_VERSION_def all_zero_slice bind_result_eq_Inr split: if_splits)
  have w: "le_bytes 4 (Suc 0) = slice 8 4 bs" "le_bytes 4 (unat (crc32 (slice 0 24 bs))) = slice 24 4 bs"
    using f(2,3) len le_bytes_of_value [of "slice 8 4 bs" 4] le_bytes_of_value [of "slice 24 4 bs" 4] by simp_all
  let ?b = "copy_into (copy_into (copy_into (copy_into (zeros 4096) 0 ARENA_MAGIC) 8 (le_bytes 4 1)) 12
     (le_bytes 8 (arena_page_size h))) 20 (le_bytes 4 (arena_slot_count h))"
  have pre: "slice 0 24 ?b = slice 0 24 bs"
    by (rule prefix_by_fields [of "[8, 4, 8, 4]"]) (simp_all add: slice_simps f(1,6) w len le_bytes_of_value)
  have "copy_into ?b 24 (le_bytes 4 (unat (crc32 (slice 0 24 ?b)))) = bs"
    unfolding pre by (rule eq_by_fields [of "[24, 4, 4068]"]) (use pre w(2) f(4) len in \<open>simp_all add: slice_simps\<close>)
  then show ?thesis using f(5,6) len
    by (simp add: arena_encode_def layout_validate_eq codec_simps le_value_u32_bound)
qed

lemma decode_slot_state_code [simp]: "decode_slot_state (slot_state_code st) = Inr st"
  by (cases st) (simp_all add: decode_slot_state_def)

lemma slot_state_code_decode: "decode_slot_state b = Inr st \<Longrightarrow> slot_state_code st = b"
  by (auto simp: decode_slot_state_def split: if_splits)

definition slot_meta_ok :: "SlotMetadata \<Rightarrow> bool" where
  "slot_meta_ok m \<longleftrightarrow> generation m \<le> u64_max \<and> logical_length m \<le> u32_max"

lemma slot_encode_length: "length (slot_encode crc32 m) = 64"
  by (simp add: slot_encode_def codec_simps)

lemma slot_decode_encode:
  assumes "slot_meta_ok m"
  shows "slot_decode crc32 (slot_encode crc32 m) = Inr m"
proof -
  have d: "drop 52 (slot_encode crc32 m) = slice 52 12 (slot_encode crc32 m)"
    using slot_encode_length by (simp add: drop_slice)
  show ?thesis unfolding slot_decode_def d using assms
    by (simp add: slot_encode_def codec_simps slot_meta_ok_def)
qed

lemma slot_encode_decode:
  assumes "slot_decode crc32 bs = Inr m"
  shows "slot_meta_ok m \<and> slot_encode crc32 m = bs"
proof -
  have len: "length bs = 64" using assms
    by (simp add: slot_decode_def SLOT_METADATA_BYTES_def split: if_splits)
  then have d: "drop 52 bs = slice 52 12 bs" by (simp add: drop_slice)
  have f: "slice 9 3 bs = zeros 3" "slice 52 12 bs = zeros 12"
    "unat (crc32 (slice 0 48 bs)) = le_value (slice 48 4 bs)"
    "slot_state_code (slot_state m) = bs ! 8" "meta_hash m = hash_of_bytes (slice 12 32 bs)"
    "generation m = le_value (slice 0 8 bs)" "logical_length m = le_value (slice 44 4 bs)"
    using assms len unfolding slot_decode_def d
    by (auto simp: all_zero_slice bind_result_eq_Inr slot_state_code_decode split: if_splits)
  have w: "le_bytes 4 (unat (crc32 (slice 0 48 bs))) = slice 48 4 bs"
    using f(3) len le_bytes_of_value [of "slice 48 4 bs" 4] by simp
  let ?b = "copy_into (copy_into ((copy_into (zeros 64) 0 (le_bytes 8 (generation m)))[8 :=
     slot_state_code (slot_state m)]) 12 (hash_bytes (meta_hash m))) 44 (le_bytes 4 (logical_length m))"
  have pre: "slice 0 48 ?b = slice 0 48 bs"
    by (rule prefix_by_fields [of "[8, 1, 3, 32, 4]"])
      (simp_all add: slice_simps slice_nth f w len le_bytes_of_value hash_bytes_of_hash)
  have "copy_into ?b 48 (le_bytes 4 (unat (crc32 (slice 0 48 ?b)))) = bs"
    unfolding pre by (rule eq_by_fields [of "[48, 4, 12]"]) (use pre w f(2) len in \<open>simp_all add: slice_simps\<close>)
  then show ?thesis using f(6,7) len
    by (simp add: slot_encode_def codec_simps slot_meta_ok_def le_value_u32_bound le_value_u64_bound)
qed

interpretation slot_codec: record_codec "slot_encode crc32" "slot_decode crc32" slot_meta_ok 64
  for crc32
  by unfold_locales (auto simp: slot_encode_length slot_decode_encode dest: slot_encode_decode)

text \<open>C38: decoding is the exact inverse of encoding, for every checksum function: a buffer decodes to
  an arena header (or to a slot metadata record) exactly when that value, with fields in the range of
  their machine types, encodes to that buffer.  So no corrupt magic, version, checksum, padding, state
  byte or layout is ever accepted, and every value has one representation.\<close>

theorem arena_codecs_exact:
  "(arena_decode crc32 bs = Inr h \<longleftrightarrow> arena_encode crc32 h = Inr bs \<and> arena_slot_count h \<le> u32_max) \<and>
   (slot_decode crc32 bs = Inr m \<longleftrightarrow> slot_encode crc32 m = bs \<and> generation m \<le> u64_max \<and> logical_length m \<le> u32_max)"
  using arena_decode_encode arena_encode_decode slot_codec.decode_iff [of crc32 bs m]
  unfolding slot_meta_ok_def by blast

end
