(* ===== verification/Cache_Slots.thy ===== *)
theory Cache_Slots
  imports Prelude "HOL-Library.Product_Lexorder"
begin

text \<open>The durable slot table of the cache: \<open>mirage-db/src/cache.rs\<close>.  The SQLite tables are lists of rows
  in primary-key order; a \<open>SELECT\<close> is a search of the list, an \<open>UPDATE\<close> rewrites the matching rows and
  reports how many there were.  Every operation runs on the single writer thread inside one
  transaction, so an error leaves the tables as they were (\<open>atomic\<close>); \<open>reserve\<close> alone has an error
  after its commit.  Uniqueness constraints are enforced where the code relies on them (registering a
  shard); for the slot rows they are not, and the theorems show that no operation violates them.
  An \<open>UPDATE\<close> of one slot outside a transaction matches at most one row, by the primary key.
  Failures of the engine itself are not represented here.\<close>

section \<open>Tables\<close>

datatype CacheSlotState = Free | Reserved | Resident | Evicting | RetryDeallocate

record CacheShardSpec =
  spec_shard_id :: int
  relative_path :: string
  spec_page_size :: u64
  spec_slot_count :: u32

record CacheSlotRecord =
  shard_id :: int
  slot_index :: u32
  rec_generation :: u64
  rec_state :: CacheSlotState
  rec_hash :: "page_hash option"
  rec_length :: u32

datatype ReserveCacheSlotOutcome = ReserveReserved CacheSlotRecord | ReserveExisting CacheSlotRecord

datatype CommitCacheSlotOutcome = Committed CacheSlotRecord | CommitExisting CacheSlotRecord

record CacheDb =
  cache_shards :: "CacheShardSpec list"
  cache_slots :: "CacheSlotRecord list"

definition slot_key :: "CacheSlotRecord \<Rightarrow> int \<times> nat" where
  "slot_key r = (shard_id r, slot_index r)"

section \<open>Statements\<close>

definition sqlite_integer :: "u64 \<Rightarrow> int result" where
  "sqlite_integer v = (if int v \<le> i64_max then Inr (int v) else Inl InvalidArgument)"

text \<open>A transaction that is dropped without a commit rolls back.\<close>

definition atomic :: "'d \<Rightarrow> ('d \<times> 'a) result \<Rightarrow> 'd \<times> 'a result" where
  "atomic d r = (case r of Inl e \<Rightarrow> (d, Inl e) | Inr (d', x) \<Rightarrow> (d', Inr x))"

definition update_rows :: "('r \<Rightarrow> bool) \<Rightarrow> ('r \<Rightarrow> 'r) \<Rightarrow> 'r list \<Rightarrow> 'r list \<times> nat" where
  "update_rows P f rows = (map (\<lambda>r. if P r then f r else r) rows, length (filter P rows))"

definition query_hash :: "CacheDb \<Rightarrow> page_hash \<Rightarrow> CacheSlotState \<Rightarrow> CacheSlotRecord option" where
  "query_hash db h st = find (\<lambda>r. rec_hash r = Some h \<and> rec_state r = st) (cache_slots db)"

definition require :: "CacheSlotRecord \<Rightarrow> CacheSlotState \<Rightarrow> unit result" where
  "require r st =
     (if rec_state r \<noteq> st \<or> rec_hash r = None \<or> rec_length r = 0 then Inl InvalidArgument else Inr ())"

text \<open>One guarded \<open>UPDATE\<close> of the row of a record, which must change exactly one row.\<close>

definition update_one ::
  "CacheDb \<Rightarrow> CacheSlotRecord \<Rightarrow> (CacheSlotRecord \<Rightarrow> bool) \<Rightarrow> (CacheSlotRecord \<Rightarrow> CacheSlotRecord) \<Rightarrow> CacheDb result" where
  "update_one db rec P f =
     bind_result (sqlite_integer (rec_generation rec)) (\<lambda>g.
       let (rows, changed) = update_rows (\<lambda>r. slot_key r = slot_key rec \<and> int (rec_generation r) = g \<and> P r) f
                               (cache_slots db)
       in if changed \<noteq> 1 then Inl RepositoryConflict else Inr (db\<lparr>cache_slots := rows\<rparr>))"

definition set_state :: "CacheSlotState \<Rightarrow> CacheSlotRecord \<Rightarrow> CacheSlotRecord" where
  "set_state st r = r\<lparr>rec_state := st\<rparr>"

definition transition_to_evicting :: "CacheDb \<Rightarrow> CacheSlotRecord \<Rightarrow> CacheSlotState \<Rightarrow> CacheDb result" where
  "transition_to_evicting db rec st = update_one db rec (\<lambda>r. rec_state r = st) (set_state Evicting)"

definition publish_row :: "CacheDb \<Rightarrow> CacheSlotRecord \<Rightarrow> CacheDb result" where
  "publish_row db rec =
     update_one db rec (\<lambda>r. rec_state r = Reserved \<and> rec_hash r = rec_hash rec \<and> rec_length r = rec_length rec)
       (set_state Resident)"

section \<open>Operations\<close>

definition fresh_slots :: "CacheShardSpec \<Rightarrow> CacheSlotRecord list" where
  "fresh_slots v = map (\<lambda>i. \<lparr>shard_id = spec_shard_id v, slot_index = i, rec_generation = 0, rec_state = Free,
     rec_hash = None, rec_length = 0\<rparr>) [0..<spec_slot_count v]"

definition register_shard :: "CacheDb \<Rightarrow> CacheShardSpec \<Rightarrow> CacheDb \<times> unit result" where
  "register_shard db v = atomic db
     (if spec_shard_id v < 0 \<or> relative_path v = [] \<or> length (relative_path v) > 255 \<or>
         list_ex (\<lambda>c. c = CHR ''/'' \<or> c = CHR 0x5C) (relative_path v) \<or> spec_slot_count v = 0
      then Inl InvalidArgument
      else bind_result (sqlite_integer (spec_page_size v)) (\<lambda>_.
        if list_ex (\<lambda>s. spec_shard_id s = spec_shard_id v \<or> relative_path s = relative_path v) (cache_shards db) \<or>
           spec_page_size v = 0 \<or> list_ex (\<lambda>r. shard_id r = spec_shard_id v) (cache_slots db)
        then Inl Io
        else Inr (\<lparr>cache_shards = v # cache_shards db,
                   cache_slots = sort_key slot_key (cache_slots db @ fresh_slots v)\<rparr>, ())))"

text \<open>The claim of one free row: a new generation, the reserved state, the hash and the length.\<close>

definition claim :: "u64 \<Rightarrow> page_hash \<Rightarrow> u32 \<Rightarrow> CacheSlotRecord \<Rightarrow> CacheSlotRecord" where
  "claim g h len r = r\<lparr>rec_generation := g, rec_state := Reserved, rec_hash := Some h, rec_length := len\<rparr>"

definition next_generation :: "CacheSlotRecord \<Rightarrow> u64 result" where
  "next_generation r =
     bind_result (ok_or (checked_add64 (rec_generation r) 1) InternalInvariant) (\<lambda>g.
     bind_result (sqlite_integer g) (\<lambda>_. Inr g))"

definition claim_row :: "CacheDb \<Rightarrow> CacheSlotRecord \<Rightarrow> u64 \<Rightarrow> page_hash \<Rightarrow> u32 \<Rightarrow> CacheDb \<times> nat" where
  "claim_row db free g h len =
     (let (rows, changed) = update_rows (\<lambda>r. slot_key r = slot_key free \<and> rec_state r = Free) (claim g h len)
                              (cache_slots db)
      in (db\<lparr>cache_slots := rows\<rparr>, changed))"

definition reserve :: "CacheDb \<Rightarrow> page_hash \<Rightarrow> u32 \<Rightarrow> CacheDb \<times> ReserveCacheSlotOutcome result" where
  "reserve db h len =
     (if len = 0 then (db, Inl InvalidArgument)
      else case query_hash db h Resident of
        Some existing \<Rightarrow> (db, Inr (ReserveExisting existing))
      | None \<Rightarrow>
          (case find (\<lambda>r. rec_state r = Free) (cache_slots db) of
             None \<Rightarrow> (db, Inl CacheFull)
           | Some free \<Rightarrow>
               (case next_generation free of
                  Inl e \<Rightarrow> (db, Inl e)
                | Inr g \<Rightarrow>
                    (fst (claim_row db free g h len),
                     if slot_index free > u32_max then Inl IntegrityMismatch
                     else Inr (ReserveReserved (claim g h len free))))))"

text \<open>The batch: duplicates and empty pages are refused, residents and standing reservations reused,
  and the rest claims the first free rows, all or nothing.\<close>

fun check_requests :: "(page_hash \<rightharpoonup> u32) \<Rightarrow> (page_hash \<times> u32) list \<Rightarrow> unit result" where
  "check_requests seen [] = Inr ()"
| "check_requests seen ((h, len) # rs) =
     (case seen h of Some _ \<Rightarrow> Inl InvalidArgument | None \<Rightarrow> check_requests (seen(h \<mapsto> len)) rs)"

fun split_requests ::
  "CacheDb \<Rightarrow> (page_hash \<times> u32) list \<Rightarrow>
   ((page_hash \<times> ReserveCacheSlotOutcome) list \<times> (page_hash \<times> u32) list) result" where
  "split_requests db [] = Inr ([], [])"
| "split_requests db ((h, len) # rs) =
     (case query_hash db h Resident of
        Some e \<Rightarrow>
          if rec_length e \<noteq> len then Inl IntegrityMismatch
          else bind_result (split_requests db rs) (\<lambda>(os, ms). Inr ((h, ReserveExisting e) # os, ms))
      | None \<Rightarrow>
          (case query_hash db h Reserved of
             Some e \<Rightarrow>
               if rec_length e \<noteq> len then Inl IntegrityMismatch
               else bind_result (split_requests db rs) (\<lambda>(os, ms). Inr ((h, ReserveReserved e) # os, ms))
           | None \<Rightarrow> bind_result (split_requests db rs) (\<lambda>(os, ms). Inr (os, (h, len) # ms))))"

fun claim_all ::
  "CacheDb \<Rightarrow> ((page_hash \<times> u32) \<times> CacheSlotRecord) list \<Rightarrow>
   (CacheDb \<times> (page_hash \<times> ReserveCacheSlotOutcome) list) result" where
  "claim_all db [] = Inr (db, [])"
| "claim_all db (((h, len), free) # rest) =
     bind_result (next_generation free) (\<lambda>g.
       let (db', changed) = claim_row db free g h len
       in if changed \<noteq> 1 then Inl RepositoryConflict
          else if slot_index free > u32_max then Inl IntegrityMismatch
          else bind_result (claim_all db' rest) (\<lambda>(d, os). Inr (d, (h, ReserveReserved (claim g h len free)) # os)))"

definition reserve_batch ::
  "CacheDb \<Rightarrow> (page_hash \<times> u32) list \<Rightarrow> CacheDb \<times> ReserveCacheSlotOutcome list result" where
  "reserve_batch db requests = atomic db
     (if requests = [] then Inl InvalidArgument
      else bind_result (check_requests Map.empty requests) (\<lambda>_.
        if list_ex (\<lambda>r. snd r = 0) requests then Inl InvalidArgument
        else bind_result (split_requests db requests) (\<lambda>(outcomes, missing).
          let free = take (length missing) (filter (\<lambda>r. rec_state r = Free) (cache_slots db))
          in if length free \<noteq> length missing then Inl CacheFull
             else bind_result (claim_all db (zip missing free)) (\<lambda>(db', claimed).
               Inr (db', map snd (sort_key fst (outcomes @ claimed)))))))"

definition commit_slot :: "CacheDb \<Rightarrow> CacheSlotRecord \<Rightarrow> CacheDb \<times> CommitCacheSlotOutcome result" where
  "commit_slot db rec = atomic db
     (bind_result (require rec Reserved) (\<lambda>_.
        case query_hash db (the (rec_hash rec)) Resident of
          Some existing \<Rightarrow>
            bind_result (transition_to_evicting db rec Reserved) (\<lambda>db'. Inr (db', CommitExisting existing))
        | None \<Rightarrow>
            bind_result (publish_row db rec) (\<lambda>db'. Inr (db', Committed (set_state Resident rec)))))"

fun check_commit :: "(int \<times> nat) set \<Rightarrow> page_hash set \<Rightarrow> CacheSlotRecord list \<Rightarrow> unit result" where
  "check_commit slots hashes [] = Inr ()"
| "check_commit slots hashes (r # rs) =
     bind_result (require r Reserved) (\<lambda>_.
       if slot_key r \<in> slots \<or> the (rec_hash r) \<in> hashes then Inl InvalidArgument
       else check_commit (insert (slot_key r) slots) (insert (the (rec_hash r)) hashes) rs)"

fun publish_all :: "CacheDb \<Rightarrow> CacheSlotRecord list \<Rightarrow> (CacheDb \<times> CacheSlotRecord list) result" where
  "publish_all db [] = Inr (db, [])"
| "publish_all db (r # rs) =
     (case query_hash db (the (rec_hash r)) Resident of
        Some _ \<Rightarrow> Inl RepositoryConflict
      | None \<Rightarrow> bind_result (publish_row db r) (\<lambda>db'.
          bind_result (publish_all db' rs) (\<lambda>(d, out). Inr (d, set_state Resident r # out))))"

definition commit_batch :: "CacheDb \<Rightarrow> CacheSlotRecord list \<Rightarrow> CacheDb \<times> CacheSlotRecord list result" where
  "commit_batch db records = atomic db
     (if records = [] \<or> length records > 64 then Inl InvalidArgument
      else bind_result (check_commit {} {} records) (\<lambda>_. publish_all db records))"

definition release :: "CacheDb \<Rightarrow> CacheSlotRecord \<Rightarrow> CacheDb \<times> unit result" where
  "release db rec = atomic db
     (bind_result (require rec Reserved) (\<lambda>_.
      bind_result (transition_to_evicting db rec Reserved) (\<lambda>db'. Inr (db', ()))))"

definition begin_eviction :: "CacheDb \<Rightarrow> CacheSlotRecord \<Rightarrow> CacheDb \<times> CacheSlotRecord result" where
  "begin_eviction db rec = atomic db
     (bind_result (require rec Resident) (\<lambda>_.
      bind_result (update_one db rec (\<lambda>r. rec_state r = Resident \<and> rec_hash r = rec_hash rec) (set_state Evicting))
        (\<lambda>db'. Inr (db', set_state Evicting rec))))"

definition free_row :: "CacheSlotRecord \<Rightarrow> CacheSlotRecord" where
  "free_row r = r\<lparr>rec_state := Free, rec_hash := None, rec_length := 0\<rparr>"

definition finish_deallocation :: "CacheDb \<Rightarrow> CacheSlotRecord \<Rightarrow> CacheDb \<times> unit result" where
  "finish_deallocation db rec = atomic db
     (if rec_state rec \<noteq> Evicting \<and> rec_state rec \<noteq> RetryDeallocate then Inl InvalidArgument
      else bind_result (update_one db rec (\<lambda>r. rec_state r = Evicting \<or> rec_state r = RetryDeallocate) free_row)
             (\<lambda>db'. Inr (db', ())))"

definition mark_retry :: "CacheDb \<Rightarrow> CacheSlotRecord \<Rightarrow> CacheDb \<times> unit result" where
  "mark_retry db rec = atomic db
     (bind_result (update_one db rec (\<lambda>r. rec_state r = Evicting) (set_state RetryDeallocate))
        (\<lambda>db'. Inr (db', ())))"

definition load_residents :: "CacheDb \<Rightarrow> CacheSlotRecord list" where
  "load_residents db = filter (\<lambda>r. rec_state r = Resident) (cache_slots db)"

definition load_all :: "CacheDb \<Rightarrow> CacheSlotRecord list" where
  "load_all db = cache_slots db"

section \<open>The lifecycle of a row\<close>

text \<open>The edges a row may take.  Only a reservation changes the generation, by one.\<close>

inductive row_step :: "CacheSlotRecord \<Rightarrow> CacheSlotRecord \<Rightarrow> bool" where
  row_claim: "rec_state r = Free \<Longrightarrow> int (Suc (rec_generation r)) \<le> i64_max \<Longrightarrow> 0 < len \<Longrightarrow>
     row_step r (claim (Suc (rec_generation r)) h len r)"
| row_publish: "rec_state r = Reserved \<Longrightarrow> row_step r (set_state Resident r)"
| row_evict: "rec_state r = Reserved \<or> rec_state r = Resident \<Longrightarrow> row_step r (set_state Evicting r)"
| row_retry: "rec_state r = Evicting \<Longrightarrow> row_step r (set_state RetryDeallocate r)"
| row_free: "rec_state r = Evicting \<or> rec_state r = RetryDeallocate \<Longrightarrow> row_step r (free_row r)"

inductive_cases row_stepE: "row_step r r'"

text \<open>One statement of an operation: one row takes an edge; it may only become resident when no other
  resident row has its hash.\<close>

inductive db_step :: "CacheDb \<Rightarrow> CacheDb \<Rightarrow> bool" where
  db_step: "cache_slots db = as @ r # bs \<Longrightarrow> row_step r r' \<Longrightarrow>
     (rec_state r' = Resident \<Longrightarrow> \<forall>q\<in>set (as @ bs). rec_state q = Resident \<longrightarrow> rec_hash q \<noteq> rec_hash r') \<Longrightarrow>
     db_step db (db\<lparr>cache_slots := as @ r' # bs\<rparr>)"

definition row_ok :: "CacheSlotRecord \<Rightarrow> bool" where
  "row_ok r \<longleftrightarrow> int (rec_generation r) \<le> i64_max \<and>
     (if rec_state r = Free then rec_hash r = None \<and> rec_length r = 0 else rec_hash r \<noteq> None \<and> 0 < rec_length r)"

definition unique_residents :: "CacheSlotRecord list \<Rightarrow> bool" where
  "unique_residents rows \<longleftrightarrow> distinct (map rec_hash (filter (\<lambda>r. rec_state r = Resident) rows))"

definition slots_wf :: "CacheDb \<Rightarrow> bool" where
  "slots_wf db \<longleftrightarrow> sorted_wrt (<) (map slot_key (cache_slots db)) \<and> list_all row_ok (cache_slots db) \<and>
     unique_residents (cache_slots db)"

lemma row_step_simps:
  assumes "row_step r r'"
  shows "slot_key r' = slot_key r" "shard_id r' = shard_id r" "slot_index r' = slot_index r"
    "rec_generation r \<le> rec_generation r'" "row_ok r \<Longrightarrow> row_ok r'" "rec_state r' \<noteq> rec_state r"
    "rec_state r' = Resident \<Longrightarrow> rec_hash r' = rec_hash r"
  using assms by (auto elim!: row_stepE simp: claim_def set_state_def free_row_def slot_key_def row_ok_def split: if_splits)

lemma db_step_wf:
  assumes "db_step db db'" "slots_wf db"
  shows "slots_wf db'" "map slot_key (cache_slots db') = map slot_key (cache_slots db)"
    "cache_shards db' = cache_shards db"
proof -
  obtain as r bs r' where e: "cache_slots db = as @ r # bs" "row_step r r'"
    "rec_state r' = Resident \<Longrightarrow> \<forall>q\<in>set (as @ bs). rec_state q = Resident \<longrightarrow> rec_hash q \<noteq> rec_hash r'"
    "db' = db\<lparr>cache_slots := as @ r' # bs\<rparr>"
    using assms(1) by cases blast
  show k: "map slot_key (cache_slots db') = map slot_key (cache_slots db)"
    using e(1,2,4) by (simp add: row_step_simps)
  show "cache_shards db' = cache_shards db" using e(4) by simp
  have "unique_residents (as @ r' # bs)"
    using assms(2) e(1,3) by (auto simp: slots_wf_def unique_residents_def split: if_splits)
  moreover have "list_all row_ok (as @ r' # bs)"
    using assms(2) e(1,2) row_step_simps(5) by (auto simp: slots_wf_def)
  ultimately show "slots_wf db'" using assms(2) k e(4) unfolding slots_wf_def by simp
qed

lemma db_steps_wf:
  assumes "db_step\<^sup>*\<^sup>* db db'" "slots_wf db"
  shows "slots_wf db' \<and> map slot_key (cache_slots db') = map slot_key (cache_slots db) \<and>
    cache_shards db' = cache_shards db"
  using assms by (induction rule: rtranclp_induct) (simp, metis db_step_wf)

section \<open>Operations as steps\<close>

lemma update_rows_one:
  assumes "update_rows P f rows = (rows', 1)"
  obtains as r bs where "rows = as @ r # bs" "rows' = as @ f r # bs" "P r"
proof -
  have "length (filter P rows) = 1" "rows' = map (\<lambda>r. if P r then f r else r) rows"
    using assms by (auto simp: update_rows_def)
  then obtain r where "filter P rows = [r]" by (auto simp: length_Suc_conv)
  then obtain as bs where s: "rows = as @ r # bs" "\<forall>u\<in>set as. \<not> P u" "P r" "filter P bs = []"
    by (auto simp: filter_eq_Cons_iff)
  then have "map (\<lambda>r. if P r then f r else r) rows = as @ f r # bs"
    by (auto simp: filter_empty_conv intro!: map_idI)
  then show thesis using that s \<open>rows' = _\<close> by blast
qed

lemma update_one_Inr:
  assumes "update_one db rec P f = Inr db'"
  obtains as r bs where "cache_slots db = as @ r # bs" "slot_key r = slot_key rec"
    "rec_generation r = rec_generation rec" "P r" "db' = db\<lparr>cache_slots := as @ f r # bs\<rparr>"
proof -
  let ?Q = "\<lambda>r. slot_key r = slot_key rec \<and> int (rec_generation r) = int (rec_generation rec) \<and> P r"
  obtain rows n where n: "update_rows ?Q f (cache_slots db) = (rows, n)" by (metis surj_pair)
  have "int (rec_generation rec) \<le> i64_max"
    using assms by (auto simp: update_one_def sqlite_integer_def split: if_splits)
  then have "n = 1" "db' = db\<lparr>cache_slots := rows\<rparr>"
    using assms n unfolding update_one_def sqlite_integer_def by (simp_all split: if_splits)
  then have u: "update_rows ?Q f (cache_slots db) = (rows, 1)" "db' = db\<lparr>cache_slots := rows\<rparr>"
    using n by simp_all
  obtain as r bs where "cache_slots db = as @ r # bs" "rows = as @ f r # bs" "?Q r"
    by (rule update_rows_one [OF u(1)])
  then show thesis using that u(2) by simp
qed

lemma update_one_step:
  assumes "update_one db rec P f = Inr db'" "\<And>r. P r \<Longrightarrow> row_step r (f r)"
    "\<And>r. P r \<Longrightarrow> rec_state (f r) = Resident \<Longrightarrow> \<forall>q\<in>set (cache_slots db). rec_state q = Resident \<longrightarrow> rec_hash q \<noteq> rec_hash (f r)"
  shows "db_step db db'"
proof -
  obtain as r bs where "cache_slots db = as @ r # bs" "P r" "db' = db\<lparr>cache_slots := as @ f r # bs\<rparr>"
    using update_one_Inr [OF assms(1)] by metis
  then show ?thesis using assms(2,3) by (auto intro!: db_step.intros)
qed

lemma query_hash_None:
  "query_hash db h st = None \<longleftrightarrow> (\<forall>q\<in>set (cache_slots db). rec_state q = st \<longrightarrow> rec_hash q \<noteq> Some h)"
  by (auto simp: query_hash_def find_None_iff)

lemma query_hash_Some:
  "query_hash db h st = Some r \<Longrightarrow> r \<in> set (cache_slots db) \<and> rec_hash r = Some h \<and> rec_state r = st"
  by (auto simp: query_hash_def find_Some_iff)

lemma transition_step: "transition_to_evicting db rec st = Inr db' \<Longrightarrow> st = Reserved \<or> st = Resident \<Longrightarrow> db_step db db'"
  unfolding transition_to_evicting_def
  by (erule update_one_step) (auto simp: set_state_def intro: row_evict [unfolded set_state_def])

lemma publish_step:
  assumes "publish_row db rec = Inr db'" "query_hash db (the (rec_hash rec)) Resident = None" "rec_hash rec \<noteq> None"
  shows "db_step db db'"
  using assms(1) unfolding publish_row_def
  by (rule update_one_step) (use assms(2,3) in \<open>auto simp: set_state_def query_hash_None intro: row_publish [unfolded set_state_def]\<close>)

lemma next_generation_Inr: "next_generation r = Inr g \<Longrightarrow> g = Suc (rec_generation r) \<and> int g \<le> i64_max"
  by (auto simp: next_generation_def sqlite_integer_def bind_result_eq_Inr split: if_splits)


lemma claim_row_eq:
  assumes "sorted_wrt (<) (map slot_key (cache_slots db))" "free \<in> set (cache_slots db)" "rec_state free = Free"
  obtains as bs where "cache_slots db = as @ free # bs"
    "claim_row db free g h len = (db\<lparr>cache_slots := as @ claim g h len free # bs\<rparr>, 1)"
proof -
  let ?P = "\<lambda>r. slot_key r = slot_key free \<and> rec_state r = Free"
  obtain as bs where s: "cache_slots db = as @ free # bs" using assms(2) by (meson split_list)
  have "distinct (map slot_key (as @ free # bs))" using assms(1) s strict_sorted_iff by metis
  then have n: "\<forall>q\<in>set as \<union> set bs. slot_key q \<noteq> slot_key free" by (force simp: image_iff)
  then have "map (\<lambda>r. if ?P r then claim g h len r else r) as = as"
    "map (\<lambda>r. if ?P r then claim g h len r else r) bs = bs" "filter ?P as = []" "filter ?P bs = []"
    by (auto simp: filter_empty_conv intro!: map_idI)
  then have "claim_row db free g h len = (db\<lparr>cache_slots := as @ claim g h len free # bs\<rparr>, 1)"
    using s assms(3) by (simp add: claim_row_def update_rows_def)
  then show thesis using that s by blast
qed

lemma claim_row_step:
  assumes "slots_wf db" "free \<in> set (cache_slots db)" "rec_state free = Free" "0 < len" "next_generation free = Inr g"
  shows "db_step db (fst (claim_row db free g h len))"
proof -
  have g: "g = Suc (rec_generation free)" "int g \<le> i64_max" using next_generation_Inr assms(5) by blast+
  have "sorted_wrt (<) (map slot_key (cache_slots db))" using assms(1) by (simp add: slots_wf_def)
  then obtain as bs where s: "cache_slots db = as @ free # bs"
    "claim_row db free g h len = (db\<lparr>cache_slots := as @ claim g h len free # bs\<rparr>, 1)"
    using claim_row_eq [of db free] assms(2,3) by metis
  have r: "row_step free (claim g h len free)" unfolding g(1)
    using row_claim [of free len h] assms(3,4) g by simp
  have "db_step db (db\<lparr>cache_slots := as @ claim g h len free # bs\<rparr>)"
    using db_step.intros [OF s(1) r] by (simp add: claim_def)
  then show ?thesis using s(2) by simp
qed

lemma atomic_fst: "fst (atomic d r) = (case r of Inl e \<Rightarrow> d | Inr (d', x) \<Rightarrow> d')"
  by (cases r) (auto simp: atomic_def)

lemma atomic_eq_Inr: "atomic d r = (d', Inr x) \<longleftrightarrow> r = Inr (d', x)"
  by (cases r) (auto simp: atomic_def)

lemma atomic_steps:
  assumes "\<And>d' x. r = Inr (d', x) \<Longrightarrow> db_step\<^sup>*\<^sup>* d d'"
  shows "db_step\<^sup>*\<^sup>* d (fst (atomic d r))"
  using assms by (auto simp: atomic_def split: sum.splits)

lemma reserve_steps:
  assumes "slots_wf db"
  shows "db_step\<^sup>*\<^sup>* db (fst (reserve db h len))"
proof (cases "\<exists>free g. 0 < len \<and> query_hash db h Resident = None \<and>
    find (\<lambda>r. rec_state r = Free) (cache_slots db) = Some free \<and> next_generation free = Inr g")
  case True
  then obtain free g where f: "0 < len" "query_hash db h Resident = None"
    "find (\<lambda>r. rec_state r = Free) (cache_slots db) = Some free" "next_generation free = Inr g" by blast
  then have "free \<in> set (cache_slots db)" "rec_state free = Free" by (auto simp: find_Some_iff)
  then have "db_step db (fst (claim_row db free g h len))" using claim_row_step assms f(1,4) by blast
  then show ?thesis using f by (simp add: reserve_def)
next
  case False
  then show ?thesis by (auto simp: reserve_def split: option.splits sum.splits)
qed

lemma claim_all_steps:
  assumes "claim_all db ps = Inr (db', os)" "slots_wf db" "\<forall>p\<in>set ps. snd (fst p) \<noteq> 0"
    "\<forall>p\<in>set ps. snd p \<in> set (cache_slots db) \<and> rec_state (snd p) = Free" "distinct (map snd ps)"
  shows "db_step\<^sup>*\<^sup>* db db'"
  using assms
proof (induction ps arbitrary: db os)
  case Nil
  then show ?case by simp
next
  case (Cons p rest)
  obtain h len free where p: "p = ((h, len), free)" by (metis surj_pair)
  note prems = Cons.prems [unfolded p]
  obtain g where g: "next_generation free = Inr g" using prems(1) by (auto simp: bind_result_eq_Inr)
  let ?db = "fst (claim_row db free g h len)"
  have step: "db_step db ?db" using claim_row_step [OF prems(2) _ _ _ g] prems(3,4) by simp
  obtain os' where rest: "claim_all ?db rest = Inr (db', os')"
    using prems(1) g by (auto simp: Let_def bind_result_eq_Inr split: prod.splits if_splits)
  obtain as bs where s: "cache_slots db = as @ free # bs"
    "claim_row db free g h len = (db\<lparr>cache_slots := as @ claim g h len free # bs\<rparr>, 1)"
    using claim_row_eq [of db free] prems(2,4) by (metis slots_wf_def list.set_intros(1) snd_conv)
  have "\<forall>p\<in>set rest. snd p \<in> set (cache_slots ?db) \<and> rec_state (snd p) = Free"
    using prems(4,5) s by (auto simp: image_iff)
  moreover have "slots_wf ?db" using db_step_wf(1) [OF step prems(2)] .
  ultimately have "db_step\<^sup>*\<^sup>* ?db db'" using Cons.IH [OF rest] prems(3,5) by simp
  then show ?case using step by (rule converse_rtranclp_into_rtranclp [rotated])
qed

lemma split_requests_missing:
  "split_requests db rs = Inr (os, ms) \<Longrightarrow> set ms \<subseteq> set rs"
  by (induction db rs arbitrary: os ms rule: split_requests.induct)
    (auto simp: bind_result_eq_Inr split: option.splits if_splits)

lemma reserve_batch_steps:
  assumes wf: "slots_wf db"
  shows "db_step\<^sup>*\<^sup>* db (fst (reserve_batch db requests))"
  unfolding reserve_batch_def
proof (rule atomic_steps, goal_cases)
  case (1 d' x)
  let ?free = "\<lambda>ms. take (length ms) (filter (\<lambda>r. rec_state r = Free) (cache_slots db))"
  obtain os ms claimed where b: "split_requests db requests = Inr (os, ms)" "length (?free ms) = length ms"
    "claim_all db (zip ms (?free ms)) = Inr (d', claimed)" "list_all (\<lambda>r. snd r \<noteq> 0) requests"
    using 1 by (auto simp: bind_result_eq_Inr Let_def list_ex_iff list_all_iff split: if_splits)
  have len: "\<forall>p\<in>set (zip ms (?free ms)). snd (fst p) \<noteq> 0"
    using split_requests_missing [OF b(1)] b(4) by (fastforce simp: list_all_iff dest!: set_zip_leftD)
  have sub: "\<forall>p\<in>set (zip ms (?free ms)). snd p \<in> set (cache_slots db) \<and> rec_state (snd p) = Free"
    by (auto dest!: set_zip_rightD in_set_takeD)
  have "distinct (map slot_key (cache_slots db))"
    using wf unfolding slots_wf_def strict_sorted_iff by blast
  then have "distinct (cache_slots db)" using distinct_map by blast
  then have "distinct (map snd (zip ms (?free ms)))" using b(2) by simp
  then show ?case using claim_all_steps [OF b(3) wf len sub] by simp
qed

lemma commit_slot_steps: "db_step\<^sup>*\<^sup>* db (fst (commit_slot db rec))"
  unfolding commit_slot_def
proof (rule atomic_steps, goal_cases)
  case (1 d' x)
  then have "db_step db d'"
    by (auto simp: bind_result_eq_Inr require_def split: option.splits if_splits
        intro: transition_step publish_step)
  then show ?case by simp
qed

lemma publish_all_steps:
  "publish_all db rs = Inr (db', out) \<Longrightarrow> \<forall>r\<in>set rs. rec_hash r \<noteq> None \<Longrightarrow> db_step\<^sup>*\<^sup>* db db'"
proof (induction rs arbitrary: db out)
  case Nil
  then show ?case by simp
next
  case (Cons r rs)
  obtain d out' where d: "query_hash db (the (rec_hash r)) Resident = None" "publish_row db r = Inr d"
    "publish_all d rs = Inr (db', out')"
    using Cons.prems(1) by (auto simp: bind_result_eq_Inr split: option.splits)
  have "db_step db d" using publish_step [OF d(2,1)] Cons.prems(2) by simp
  moreover have "db_step\<^sup>*\<^sup>* d db'" using Cons.IH [OF d(3)] Cons.prems(2) by simp
  ultimately show ?case by (rule converse_rtranclp_into_rtranclp)
qed

lemma check_commit_hash: "check_commit ss hs rs = Inr () \<Longrightarrow> \<forall>r\<in>set rs. rec_hash r \<noteq> None"
  by (induction ss hs rs rule: check_commit.induct)
    (auto simp: bind_result_eq_Inr require_def split: if_splits)

lemma commit_batch_steps: "db_step\<^sup>*\<^sup>* db (fst (commit_batch db rs))"
  unfolding commit_batch_def
  by (rule atomic_steps)
    (auto simp: bind_result_eq_Inr split: if_splits dest!: check_commit_hash dest: publish_all_steps)

lemma single_steps:
  "db_step\<^sup>*\<^sup>* db (fst (release db rec))" "db_step\<^sup>*\<^sup>* db (fst (begin_eviction db rec))"
  "db_step\<^sup>*\<^sup>* db (fst (finish_deallocation db rec))" "db_step\<^sup>*\<^sup>* db (fst (mark_retry db rec))"
proof -
  have ev: "db_step db d" if "update_one db rec P (set_state Evicting) = Inr d"
    "\<And>r. P r \<Longrightarrow> rec_state r = Reserved \<or> rec_state r = Resident" for P d
    using that by (auto elim!: update_one_step intro: row_evict simp: set_state_def)
  show "db_step\<^sup>*\<^sup>* db (fst (release db rec))" unfolding release_def
    by (rule atomic_steps) (auto simp: bind_result_eq_Inr dest: transition_step)
  show "db_step\<^sup>*\<^sup>* db (fst (begin_eviction db rec))" unfolding begin_eviction_def
    by (rule atomic_steps) (auto simp: bind_result_eq_Inr dest: ev)
  show "db_step\<^sup>*\<^sup>* db (fst (finish_deallocation db rec))" unfolding finish_deallocation_def
    by (rule atomic_steps)
      (auto simp: bind_result_eq_Inr free_row_def split: if_splits
        intro!: r_into_rtranclp elim!: update_one_step intro: row_free [unfolded free_row_def])
  show "db_step\<^sup>*\<^sup>* db (fst (mark_retry db rec))" unfolding mark_retry_def
    by (rule atomic_steps)
      (auto simp: bind_result_eq_Inr set_state_def
        intro!: r_into_rtranclp elim!: update_one_step intro: row_retry [unfolded set_state_def])
qed

section \<open>The writer thread\<close>

datatype CacheOp =
    RegisterShard CacheShardSpec
  | ReserveSlot page_hash u32
  | ReserveBatch "(page_hash \<times> u32) list"
  | CommitSlot CacheSlotRecord
  | CommitBatch "CacheSlotRecord list"
  | ReleaseReservation CacheSlotRecord
  | BeginEviction CacheSlotRecord
  | FinishDeallocation CacheSlotRecord
  | MarkRetry CacheSlotRecord

fun run_op :: "CacheDb \<Rightarrow> CacheOp \<Rightarrow> CacheDb" where
  "run_op db (RegisterShard v) = fst (register_shard db v)"
| "run_op db (ReserveSlot h len) = fst (reserve db h len)"
| "run_op db (ReserveBatch rs) = fst (reserve_batch db rs)"
| "run_op db (CommitSlot r) = fst (commit_slot db r)"
| "run_op db (CommitBatch rs) = fst (commit_batch db rs)"
| "run_op db (ReleaseReservation r) = fst (release db r)"
| "run_op db (BeginEviction r) = fst (begin_eviction db r)"
| "run_op db (FinishDeallocation r) = fst (finish_deallocation db r)"
| "run_op db (MarkRetry r) = fst (mark_retry db r)"

lemma run_op_steps: "slots_wf db \<Longrightarrow> (\<And>v. op \<noteq> RegisterShard v) \<Longrightarrow> db_step\<^sup>*\<^sup>* db (run_op db op)"
  by (cases op) (blast | simp add: reserve_steps reserve_batch_steps commit_slot_steps commit_batch_steps single_steps)+

lemma fresh_slots_keys: "map slot_key (fresh_slots v) = map (\<lambda>i. (spec_shard_id v, i)) [0..<spec_slot_count v]"
  by (simp add: fresh_slots_def slot_key_def o_def)

definition slots_complete :: "CacheDb \<Rightarrow> bool" where
  "slots_complete db \<longleftrightarrow> set (map slot_key (cache_slots db)) =
     {(spec_shard_id v, i) | v i. v \<in> set (cache_shards db) \<and> i < spec_slot_count v}"

lemma sorted_strict_distinct: "sorted_wrt (<) xs \<longleftrightarrow> sorted xs \<and> distinct (xs :: 'a :: linorder list)"
  by (rule strict_sorted_iff)

lemma unique_residents_set:
  "distinct rows \<Longrightarrow> unique_residents rows \<longleftrightarrow>
     (\<forall>r\<in>set rows. \<forall>q\<in>set rows. rec_state r = Resident \<and> rec_state q = Resident \<and> rec_hash r = rec_hash q \<longrightarrow> r = q)"
  by (auto simp: unique_residents_def distinct_map inj_on_def)

lemma register_cases:
  assumes "register_shard db v = (db', r)"
  shows "(db' = db \<and> (\<exists>e. r = Inl e)) \<or>
    (r = Inr () \<and> db' = \<lparr>cache_shards = v # cache_shards db, cache_slots = sort_key slot_key (cache_slots db @ fresh_slots v)\<rparr> \<and>
     (\<forall>q\<in>set (cache_slots db). shard_id q \<noteq> spec_shard_id v))"
  using assms
  by (auto simp: register_shard_def atomic_def sqlite_integer_def list_ex_iff split: if_splits)

lemma register_wf:
  assumes wf: "slots_wf db" and c: "slots_complete db" and r: "register_shard db v = (db', r)"
  shows "slots_wf db' \<and> slots_complete db'"
proof (cases "db' = db")
  case True
  then show ?thesis using wf c by simp
next
  case False
  let ?new = "cache_slots db @ fresh_slots v"
  have d: "db' = \<lparr>cache_shards = v # cache_shards db, cache_slots = sort_key slot_key ?new\<rparr>"
    and fresh: "\<forall>q\<in>set (cache_slots db). shard_id q \<noteq> spec_shard_id v"
    using register_cases [OF r] False by blast+
  have k: "set (map slot_key (fresh_slots v)) = {(spec_shard_id v, i) | i. i < spec_slot_count v}"
    unfolding fresh_slots_keys by auto
  have dis: "distinct (map slot_key ?new)"
  proof -
    have "distinct (map slot_key (cache_slots db))" using wf by (simp add: slots_wf_def sorted_strict_distinct)
    moreover have "distinct (map slot_key (fresh_slots v))"
      unfolding fresh_slots_keys by (simp add: distinct_map inj_on_def)
    moreover have "set (map slot_key (cache_slots db)) \<inter> set (map slot_key (fresh_slots v)) = {}"
      unfolding k using fresh by (auto simp: slot_key_def)
    ultimately show ?thesis by simp
  qed
  then have ds: "distinct (map slot_key (sort_key slot_key ?new))"
    by (metis distinct_map distinct_sort set_sort)
  have "list_all row_ok ?new"
    using wf by (auto simp: slots_wf_def list_all_iff fresh_slots_def row_ok_def i64_max_def)
  then have ok: "list_all row_ok (sort_key slot_key ?new)" by (simp add: list_all_iff)
  have nr: "rec_state q \<noteq> Resident" if "q \<in> set (fresh_slots v)" for q
    using that by (auto simp: fresh_slots_def)
  have old: "distinct (cache_slots db)" using dis by (auto simp: distinct_map)
  have "distinct (sort_key slot_key ?new)" using ds by (auto simp: distinct_map)
  then have u: "unique_residents (sort_key slot_key ?new)"
    using wf old nr by (auto simp: slots_wf_def unique_residents_set)
  have "slots_wf db'" unfolding slots_wf_def d using ds ok u by (simp add: sorted_strict_distinct)
  moreover have "slots_complete db'"
    using c k unfolding slots_complete_def d by (auto simp: image_Un)
  ultimately show ?thesis by simp
qed

definition empty_db :: CacheDb where
  "empty_db = \<lparr>cache_shards = [], cache_slots = []\<rparr>"

lemma cache_slot_table_invariant_aux:
  "slots_wf (foldl run_op empty_db ops) \<and> slots_complete (foldl run_op empty_db ops)"
proof (induction ops rule: rev_induct)
  case Nil
  then show ?case by (simp add: empty_db_def slots_wf_def slots_complete_def unique_residents_def)
next
  case (snoc op ops)
  let ?db = "foldl run_op empty_db ops"
  show ?case
  proof (cases "\<exists>v. op = RegisterShard v")
    case True
    then obtain v where v: "op = RegisterShard v" ..
    obtain db' r where "register_shard ?db v = (db', r)" by (metis surj_pair)
    then show ?thesis using register_wf [of ?db v db' r] snoc v by simp
  next
    case False
    then have "db_step\<^sup>*\<^sup>* ?db (run_op ?db op)" using run_op_steps snoc by blast
    then show ?thesis using db_steps_wf [of ?db "run_op ?db op"] snoc by (simp add: slots_complete_def)
  qed
qed

text \<open>C13: whatever sequence of cache operations the writer thread runs, starting from empty tables and
  with arbitrary (also stale or forged) arguments, the slot table satisfies its schema without the
  engine having to refuse an update: one row per slot of each registered shard in key order, a hash
  and a nonzero length exactly in the occupied states, and no two resident rows with one hash.\<close>

theorem cache_slot_table_invariant:
  "slots_wf (foldl run_op empty_db ops) \<and> slots_complete (foldl run_op empty_db ops)"
  by (rule cache_slot_table_invariant_aux)

section \<open>Generations fence stale handles\<close>














end
