(* ===== verification/Arena_Shard.thy ===== *)
theory Arena_Shard
  imports Arena_Format Cache_Slots
begin

text \<open>The arena shard of \<open>mirage-cache/src/shard.rs\<close> together with the slot table, under faults.  The
  \<open>World\<close> holds the slot table, the two files of the shard (arena and metadata sidecar) and a script of
  faults: every primitive access to a file or to the database consumes one entry and may succeed,
  fail half-way with an I/O error, or be the point where the machine stops.  A write stays in
  \<open>data_dirty\<close> or \<open>meta_dirty\<close> until the file is synced; a crash replaces the bytes of every unsynced
  range by arbitrary ones.  A failed or interrupted database transaction took effect or did not.
  The portable (non-Windows) file primitives are modelled; the alignment of the caller's buffer is a
  parameter of the unbuffered read.\<close>

section \<open>Worlds and actions\<close>

datatype fault = Fine | Fail nat | Crash nat "nat \<Rightarrow> byte"

record Shard =
  shard_layout :: CacheLayout
  shard_data :: bytes
  shard_meta :: bytes
  data_dirty :: "(nat \<times> nat) list"
  meta_dirty :: "(nat \<times> nat) list"

record World =
  cache_db :: CacheDb
  arena :: Shard
  faults :: "fault list"

datatype 'a ending = Done 'a | Failed MirageErrorKind | Crashed

type_synonym 'a act = "World \<Rightarrow> World \<times> 'a ending"

definition act_bind :: "'a act \<Rightarrow> ('a \<Rightarrow> 'b act) \<Rightarrow> 'b act" where
  "act_bind m f w =
     (case m w of (w', Done x) \<Rightarrow> f x w' | (w', Failed e) \<Rightarrow> (w', Failed e) | (w', Crashed) \<Rightarrow> (w', Crashed))"

definition act_done :: "'a \<Rightarrow> 'a act" where
  "act_done x w = (w, Done x)"

definition act_fail :: "MirageErrorKind \<Rightarrow> 'a act" where
  "act_fail e w = (w, Failed e)"

definition act_lift :: "'a result \<Rightarrow> 'a act" where
  "act_lift r = (case r of Inl e \<Rightarrow> act_fail e | Inr x \<Rightarrow> act_done x)"

text \<open>\<open>is_ok()\<close>, \<open>let _ = ...\<close>: the error becomes a value, a crash does not.\<close>

definition act_try :: "'a act \<Rightarrow> 'a result act" where
  "act_try m w = (case m w of (w', Done x) \<Rightarrow> (w', Done (Inr x)) | (w', Failed e) \<Rightarrow> (w', Done (Inl e))
     | (w', Crashed) \<Rightarrow> (w', Crashed))"

text \<open>A destructor that runs when the body returns an error.\<close>

definition on_failure :: "unit act \<Rightarrow> 'a act \<Rightarrow> 'a act" where
  "on_failure cleanup m w =
     (case m w of (w', Failed e) \<Rightarrow> act_bind (act_try cleanup) (\<lambda>_. act_fail e) w' | r \<Rightarrow> r)"

definition act_get :: "(World \<Rightarrow> 'a) \<Rightarrow> 'a act" where
  "act_get f w = (w, Done (f w))"

section \<open>Primitive accesses\<close>

definition covered :: "(nat \<times> nat) list \<Rightarrow> nat \<Rightarrow> bool" where
  "covered ranges i = list_ex (\<lambda>(a, n). a \<le> i \<and> i < a + n) ranges"

definition scramble :: "(nat \<Rightarrow> byte) \<Rightarrow> (nat \<times> nat) list \<Rightarrow> bytes \<Rightarrow> bytes" where
  "scramble g ranges bs = map (\<lambda>i. if covered ranges i then g i else bs ! i) [0..<length bs]"

definition crash_shard :: "(nat \<Rightarrow> byte) \<Rightarrow> Shard \<Rightarrow> Shard" where
  "crash_shard g s = s\<lparr>shard_data := scramble g (data_dirty s) (shard_data s),
     shard_meta := scramble g (meta_dirty s) (shard_meta s), data_dirty := [], meta_dirty := []\<rparr>"

definition next_fault :: "World \<Rightarrow> fault \<times> World" where
  "next_fault w = (case faults w of [] \<Rightarrow> (Fine, w) | f # fs \<Rightarrow> (f, w\<lparr>faults := fs\<rparr>))"

text \<open>\<open>write_at\<close> on a file: bytes past the end extend it.\<close>

definition file_write :: "bytes \<Rightarrow> nat \<Rightarrow> bytes \<Rightarrow> bytes" where
  "file_write file off bs = copy_into (file @ zeros (off + length bs - length file)) off bs"

definition put_data :: "nat \<Rightarrow> nat \<Rightarrow> bytes \<Rightarrow> Shard \<Rightarrow> Shard" where
  "put_data off n bs s = s\<lparr>shard_data := file_write (shard_data s) off bs, data_dirty := (off, n) # data_dirty s\<rparr>"

definition put_meta :: "nat \<Rightarrow> nat \<Rightarrow> bytes \<Rightarrow> Shard \<Rightarrow> Shard" where
  "put_meta off n bs s = s\<lparr>shard_meta := file_write (shard_meta s) off bs, meta_dirty := (off, n) # meta_dirty s\<rparr>"

text \<open>An access to the shard: what it does when it succeeds, and what it has done after \<open>k\<close> units of
  work when it does not.\<close>

definition shard_call :: "(Shard \<Rightarrow> Shard) \<Rightarrow> (nat \<Rightarrow> Shard \<Rightarrow> Shard) \<Rightarrow> unit act" where
  "shard_call ok part w =
     (case next_fault w of
        (Fine, w') \<Rightarrow> (w'\<lparr>arena := ok (arena w')\<rparr>, Done ())
      | (Fail k, w') \<Rightarrow> (w'\<lparr>arena := part k (arena w')\<rparr>, Failed Io)
      | (Crash k g, w') \<Rightarrow> (w'\<lparr>arena := crash_shard g (part k (arena w'))\<rparr>, Crashed))"

text \<open>\<open>write_exact_at\<close>: on a failure some prefix has been written.\<close>

definition write_data :: "bytes \<Rightarrow> nat \<Rightarrow> unit act" where
  "write_data bs off = shard_call (put_data off (length bs) bs) (\<lambda>k. put_data off (length bs) (take k bs))"

definition write_meta :: "bytes \<Rightarrow> nat \<Rightarrow> unit act" where
  "write_meta bs off = shard_call (put_meta off (length bs) bs) (\<lambda>k. put_meta off (length bs) (take k bs))"

definition sync_data :: "unit act" where
  "sync_data = shard_call (data_dirty_update (\<lambda>_. [])) (\<lambda>_ s. s)"

definition sync_meta :: "unit act" where
  "sync_meta = shard_call (meta_dirty_update (\<lambda>_. [])) (\<lambda>_ s. s)"

text \<open>\<open>read_exact_at\<close>: the end of the file is an error.\<close>

definition read_file :: "(Shard \<Rightarrow> bytes) \<Rightarrow> nat \<Rightarrow> nat \<Rightarrow> bytes act" where
  "read_file f n off =
     act_bind (shard_call (\<lambda>s. s) (\<lambda>_ s. s)) (\<lambda>_.
     act_bind (act_get (\<lambda>w. f (arena w))) (\<lambda>file.
       if n = 0 \<or> off + n \<le> length file then act_done (slice off n file) else act_fail Io))"

text \<open>A request to the writer thread: a transaction that is interrupted or reports an engine failure
  has taken effect or has not.\<close>

definition db_call :: "(CacheDb \<Rightarrow> CacheDb \<times> 'a result) \<Rightarrow> 'a act" where
  "db_call f w =
     (case next_fault w of
        (Fine, w') \<Rightarrow>
          (w'\<lparr>cache_db := fst (f (cache_db w'))\<rparr>,
           case snd (f (cache_db w')) of Inl e \<Rightarrow> Failed e | Inr x \<Rightarrow> Done x)
      | (Fail k, w') \<Rightarrow> ((if k = 0 then w' else w'\<lparr>cache_db := fst (f (cache_db w'))\<rparr>), Failed Io)
      | (Crash k g, w') \<Rightarrow>
          ((if k = 0 then w' else w'\<lparr>cache_db := fst (f (cache_db w'))\<rparr>)\<lparr>arena := crash_shard g (arena w')\<rparr>, Crashed))"

section \<open>Shard operations\<close>

definition shard_slot_offset :: "u32 \<Rightarrow> u64 act" where
  "shard_slot_offset slot w = act_lift (slot_offset (shard_layout (arena w)) slot) w"

definition metadata_offset :: "u32 \<Rightarrow> u64 result" where
  "metadata_offset slot =
     ok_or (Option.bind (checked_mul64 slot SLOT_METADATA_BYTES) (\<lambda>v. checked_add64 v ARENA_HEADER_BYTES)) InvalidArgument"

definition metadata_length :: "CacheLayout \<Rightarrow> u64 result" where
  "metadata_length l =
     bind_result (metadata_bytes l) (\<lambda>b. ok_or (checked_add64 b ARENA_HEADER_BYTES) InvalidArgument)"

definition write_slot :: "u32 \<Rightarrow> bytes \<Rightarrow> unit act" where
  "write_slot slot bs =
     act_bind (act_get (\<lambda>w. page_size (shard_layout (arena w)))) (\<lambda>page.
       if bs = [] \<or> length bs > page then act_fail InvalidArgument
       else act_bind (shard_slot_offset slot) (write_data bs))"

definition write_slots_contiguous :: "u32 \<Rightarrow> u32 \<Rightarrow> bytes \<Rightarrow> unit act" where
  "write_slots_contiguous first n bs =
     act_bind (act_get (\<lambda>w. page_size (shard_layout (arena w)))) (\<lambda>page.
       if n = 0 \<or> bs = [] then act_fail InvalidArgument
       else if first + (n - 1) > u32_max then act_fail InvalidArgument
       else act_bind (shard_slot_offset (first + (n - 1))) (\<lambda>_.
         act_bind (act_lift (ok_or (checked_mul64 (n - 1) page) InvalidArgument)) (\<lambda>full_prefix.
           if length bs \<le> full_prefix \<or> length bs > wadd64 full_prefix page then act_fail InvalidArgument
           else act_bind (shard_slot_offset first) (write_data bs))))"

definition align_down :: "nat \<Rightarrow> nat \<Rightarrow> nat" where
  "align_down a v = v - v mod a"

text \<open>The unbuffered path rounds the window out to 4096 bytes within the slot window.\<close>

definition read_slot_unbuffered :: "bool \<Rightarrow> u32 \<Rightarrow> u64 \<Rightarrow> u32 \<Rightarrow> nat \<Rightarrow> bytes act" where
  "read_slot_unbuffered ptr_aligned slot window_bytes off n =
     act_bind (shard_slot_offset slot) (\<lambda>base.
       if n = 0 then act_done []
       else if off mod 4096 = 0 \<and> n mod 4096 = 0 \<and> ptr_aligned then read_file shard_data n (wadd64 base off)
       else
         let start = align_down 4096 off;
             want_end = wadd64 off n;
             e = min (align_down 4096 (wsub64 (wadd64 want_end 4096) 1)) window_bytes;
             window = wsub64 e start
         in act_bind (read_file shard_data window (wadd64 base start)) (\<lambda>scratch.
              act_done (slice (off - start) n scratch)))"

definition read_slot :: "bool \<Rightarrow> bool \<Rightarrow> u32 \<Rightarrow> u32 \<Rightarrow> u32 \<Rightarrow> nat \<Rightarrow> bytes act" where
  "read_slot unbuffered ptr_aligned slot logical off n =
     act_bind (act_get (\<lambda>w. page_size (shard_layout (arena w)))) (\<lambda>page.
       act_bind (act_lift (ok_or (checked_add64 off n) InvalidArgument)) (\<lambda>e.
         if e > logical \<or> logical > page then act_fail InvalidArgument
         else if unbuffered then read_slot_unbuffered ptr_aligned slot page off n
         else act_bind (shard_slot_offset slot) (\<lambda>base.
           act_bind (act_lift (ok_or (checked_add64 base off) InvalidArgument)) (\<lambda>at.
             read_file shard_data n at))))"

definition read_slots_contiguous :: "bool \<Rightarrow> bool \<Rightarrow> u32 \<Rightarrow> u32 \<Rightarrow> u32 \<Rightarrow> nat \<Rightarrow> bytes act" where
  "read_slots_contiguous unbuffered ptr_aligned first n off len =
     act_bind (act_get (\<lambda>w. page_size (shard_layout (arena w)))) (\<lambda>page.
       if n = 0 then act_fail InvalidArgument
       else if first + (n - 1) > u32_max then act_fail InvalidArgument
       else act_bind (shard_slot_offset (first + (n - 1))) (\<lambda>_.
         act_bind (act_lift (ok_or (checked_mul64 n page) InvalidArgument)) (\<lambda>window.
           act_bind (act_lift (ok_or (checked_add64 off len) InvalidArgument)) (\<lambda>e.
             if e > window then act_fail InvalidArgument
             else if unbuffered then read_slot_unbuffered ptr_aligned first window off len
             else act_bind (shard_slot_offset first) (\<lambda>base.
               act_bind (act_lift (ok_or (checked_add64 base off) InvalidArgument)) (\<lambda>at.
                 read_file shard_data len at))))))"

definition write_metadata :: "(bytes \<Rightarrow> 32 word) \<Rightarrow> u32 \<Rightarrow> SlotMetadata \<Rightarrow> unit act" where
  "write_metadata crc32 slot v =
     act_bind (shard_slot_offset slot) (\<lambda>_.
     act_bind (act_lift (metadata_offset slot)) (\<lambda>off. write_meta (slot_encode crc32 v) off))"

definition read_metadata :: "(bytes \<Rightarrow> 32 word) \<Rightarrow> u32 \<Rightarrow> SlotMetadata act" where
  "read_metadata crc32 slot =
     act_bind (shard_slot_offset slot) (\<lambda>_.
     act_bind (act_lift (metadata_offset slot)) (\<lambda>off.
     act_bind (read_file shard_meta SLOT_METADATA_BYTES off) (\<lambda>bs. act_lift (slot_decode crc32 bs))))"

definition ZERO_CHUNK :: nat where
  "ZERO_CHUNK = 64 * 1024"

function deallocate :: "nat \<Rightarrow> nat \<Rightarrow> unit act" where
  "deallocate cursor remaining =
     (if remaining = 0 then sync_data
      else act_bind (write_data (zeros (min remaining ZERO_CHUNK)) cursor) (\<lambda>_.
           deallocate (cursor + min remaining ZERO_CHUNK) (remaining - min remaining ZERO_CHUNK)))"
  by pat_completeness auto
termination by (relation "measure snd") (auto simp: ZERO_CHUNK_def)

declare deallocate.simps [simp del]

definition deallocate_slot :: "u32 \<Rightarrow> unit act" where
  "deallocate_slot slot =
     act_bind (shard_slot_offset slot) (\<lambda>off.
     act_bind (act_get (\<lambda>w. page_size (shard_layout (arena w)))) (\<lambda>page. deallocate off page))"

definition shard_flush :: "unit act" where
  "shard_flush = sync_data"

definition flush_metadata :: "unit act" where
  "flush_metadata = sync_meta"

section \<open>Creating and opening\<close>

definition free_metadata :: SlotMetadata where
  "free_metadata = \<lparr>generation = 0, slot_state = SlotState.Free, meta_hash = hash_of_bytes (zeros 32), logical_length = 0\<rparr>"

fun write_free_records :: "(bytes \<Rightarrow> 32 word) \<Rightarrow> nat list \<Rightarrow> bytes \<Rightarrow> bytes result" where
  "write_free_records crc32 [] meta = Inr meta"
| "write_free_records crc32 (slot # slots) meta =
     bind_result (metadata_offset slot) (\<lambda>off.
       write_free_records crc32 slots (file_write meta off (slot_encode crc32 free_metadata)))"

definition shard_create :: "(bytes \<Rightarrow> 32 word) \<Rightarrow> CacheLayout \<Rightarrow> Shard result" where
  "shard_create crc32 l =
     bind_result (layout_validate l) (\<lambda>_.
     bind_result (logical_shard_bytes l) (\<lambda>len.
     bind_result (arena_encode crc32 \<lparr>arena_page_size = page_size l, arena_slot_count = slot_count l\<rparr>) (\<lambda>header.
     bind_result (metadata_length l) (\<lambda>mlen.
     bind_result (write_free_records crc32 [0..<slot_count l] (file_write (zeros mlen) 0 header)) (\<lambda>meta.
       Inr \<lparr>shard_layout = l, shard_data = file_write (zeros len) 0 header, shard_meta = meta,
            data_dirty = [], meta_dirty = []\<rparr>)))))"

text \<open>Opening checks both headers and both lengths against the expected layout.\<close>

definition shard_open :: "(bytes \<Rightarrow> 32 word) \<Rightarrow> bytes \<Rightarrow> bytes \<Rightarrow> CacheLayout \<Rightarrow> bool \<Rightarrow> Shard result" where
  "shard_open crc32 file meta expected unbuffered =
     bind_result (layout_validate expected) (\<lambda>_.
     if unbuffered \<and> page_size expected mod 4096 \<noteq> 0 then Inl UnsupportedLayout
     else if length file < ARENA_HEADER_BYTES then Inl Io
     else bind_result (arena_decode crc32 (slice 0 ARENA_HEADER_BYTES file)) (\<lambda>header.
     if arena_page_size header \<noteq> page_size expected \<or> arena_slot_count header \<noteq> slot_count expected then Inl UnsupportedLayout
     else bind_result (logical_shard_bytes expected) (\<lambda>len.
     if length file \<noteq> len then Inl UnsupportedLayout
     else if length meta < ARENA_HEADER_BYTES then Inl Io
     else bind_result (arena_decode crc32 (slice 0 ARENA_HEADER_BYTES meta)) (\<lambda>mheader.
     if mheader \<noteq> header then Inl UnsupportedLayout
     else bind_result (metadata_length expected) (\<lambda>mlen.
     if length meta \<noteq> mlen then Inl UnsupportedLayout
     else Inr \<lparr>shard_layout = expected, shard_data = file, shard_meta = meta, data_dirty = [], meta_dirty = []\<rparr>)))))"

section \<open>Reasoning about actions\<close>

text \<open>\<open>hoare P m Q F C\<close>: from a table and a shard satisfying \<open>P\<close>, under every fault script, \<open>m\<close> ends
  with a value satisfying \<open>Q\<close>, or with an error in a state satisfying \<open>F\<close>, or in a crash with \<open>C\<close>.\<close>

type_synonym assn = "CacheDb \<Rightarrow> Shard \<Rightarrow> bool"

fun ended :: "('a \<Rightarrow> assn) \<Rightarrow> assn \<Rightarrow> assn \<Rightarrow> 'a ending \<Rightarrow> assn" where
  "ended Q F C (Done x) = Q x"
| "ended Q F C (Failed e) = F"
| "ended Q F C Crashed = C"

definition hoare :: "assn \<Rightarrow> 'a act \<Rightarrow> ('a \<Rightarrow> assn) \<Rightarrow> assn \<Rightarrow> assn \<Rightarrow> bool" where
  "hoare P m Q F C \<longleftrightarrow> (\<forall>w w' r. P (cache_db w) (arena w) \<longrightarrow> m w = (w', r) \<longrightarrow>
     ended Q F C r (cache_db w') (arena w'))"

lemma hoareD: "hoare P m Q F C \<Longrightarrow> P (cache_db w) (arena w) \<Longrightarrow> m w = (w', r) \<Longrightarrow> ended Q F C r (cache_db w') (arena w')"
  by (simp add: hoare_def)

lemma hoareI:
  "(\<And>w w' r. P (cache_db w) (arena w) \<Longrightarrow> m w = (w', r) \<Longrightarrow> ended Q F C r (cache_db w') (arena w')) \<Longrightarrow> hoare P m Q F C"
  by (simp add: hoare_def)

lemma h_conseq:
  assumes "hoare P m Q F C" "\<And>d s. P' d s \<Longrightarrow> P d s" "\<And>x d s. Q x d s \<Longrightarrow> Q' x d s"
    "\<And>d s. F d s \<Longrightarrow> F' d s" "\<And>d s. C d s \<Longrightarrow> C' d s"
  shows "hoare P' m Q' F' C'"
proof (rule hoareI)
  fix w w' r assume "P' (cache_db w) (arena w)" "m w = (w', r)"
  then have "ended Q F C r (cache_db w') (arena w')" using hoareD [OF assms(1) assms(2)] by blast
  then show "ended Q' F' C' r (cache_db w') (arena w')" using assms(3-5) by (cases r) auto
qed

lemma h_pre: "hoare P m Q F C \<Longrightarrow> (\<And>d s. P' d s \<Longrightarrow> P d s) \<Longrightarrow> hoare P' m Q F C"
  by (rule h_conseq)

lemma h_post: "hoare P m Q F C \<Longrightarrow> (\<And>x d s. Q x d s \<Longrightarrow> Q' x d s) \<Longrightarrow> hoare P m Q' F C"
  by (rule h_conseq)

lemma h_bind:
  assumes "hoare P m R F C" "\<And>x. hoare (R x) (f x) Q F C"
  shows "hoare P (act_bind m f) Q F C"
proof (rule hoareI)
  fix w w' r assume P: "P (cache_db w) (arena w)" and m: "act_bind m f w = (w', r)"
  obtain v q where v: "m w = (v, q)" by (metis surj_pair)
  note first = hoareD [OF assms(1) P v]
  show "ended Q F C r (cache_db w') (arena w')"
  proof (cases q)
    case (Done x)
    then have "R x (cache_db v) (arena v)" "f x v = (w', r)" using first m v by (simp_all add: act_bind_def)
    then show ?thesis by (rule hoareD [OF assms(2)])
  qed (use first m v in \<open>auto simp: act_bind_def\<close>)
qed

lemma h_false: "(\<And>d s. \<not> P d s) \<Longrightarrow> hoare P m Q F C"
  by (simp add: hoare_def)

lemma h_done: "(\<And>d s. P d s \<Longrightarrow> Q x d s) \<Longrightarrow> hoare P (act_done x) Q F C"
  by (auto simp: hoare_def act_done_def)

lemma h_fail: "(\<And>d s. P d s \<Longrightarrow> F d s) \<Longrightarrow> hoare P (act_fail e) Q F C"
  by (auto simp: hoare_def act_fail_def)

lemma h_lift: "(\<And>x d s. r = Inr x \<Longrightarrow> P d s \<Longrightarrow> Q x d s) \<Longrightarrow> (\<And>d s. P d s \<Longrightarrow> F d s) \<Longrightarrow> hoare P (act_lift r) Q F C"
  by (cases r) (simp_all add: act_lift_def h_done h_fail)

lemma h_get: "(\<And>w. P (cache_db w) (arena w) \<Longrightarrow> Q (f w) (cache_db w) (arena w)) \<Longrightarrow> hoare P (act_get f) Q F C"
  by (auto simp: hoare_def act_get_def)

lemma h_if: "(b \<Longrightarrow> hoare P m Q F C) \<Longrightarrow> (\<not> b \<Longrightarrow> hoare P n Q F C) \<Longrightarrow> hoare P (if b then m else n) Q F C"
  by simp

lemma h_try:
  assumes "hoare P m (\<lambda>x. Q (Inr x)) (\<lambda>d s. \<forall>e. Q (Inl e) d s) C"
  shows "hoare P (act_try m) Q F C"
proof (rule hoareI)
  fix w w' r assume P: "P (cache_db w) (arena w)" and m: "act_try m w = (w', r)"
  obtain v q where v: "m w = (v, q)" by (metis surj_pair)
  show "ended Q F C r (cache_db w') (arena w')"
    using hoareD [OF assms P v] m v by (cases q) (auto simp: act_try_def)
qed

lemma h_on_failure:
  assumes "hoare P m Q G C" "hoare G cleanup (\<lambda>_. F) F C"
  shows "hoare P (on_failure cleanup m) Q F C"
proof (rule hoareI)
  fix w w' r assume P: "P (cache_db w) (arena w)" and m: "on_failure cleanup m w = (w', r)"
  obtain v q where v: "m w = (v, q)" by (metis surj_pair)
  note first = hoareD [OF assms(1) P v]
  show "ended Q F C r (cache_db w') (arena w')"
  proof (cases q)
    case (Failed e)
    then have G: "G (cache_db v) (arena v)" using first by simp
    have "hoare G (act_try cleanup) (\<lambda>_. F) F C" by (rule h_try) (use assms(2) in \<open>auto elim: h_conseq\<close>)
    then have "hoare G (act_bind (act_try cleanup) (\<lambda>_. act_fail e)) Q F C" by (rule h_bind) (rule h_fail)
    moreover have "act_bind (act_try cleanup) (\<lambda>_. act_fail e) v = (w', r)"
      using m v Failed by (simp add: on_failure_def)
    ultimately show ?thesis using G hoareD by blast
  qed (use first m v in \<open>auto simp: on_failure_def\<close>)
qed

lemma next_fault_frame: "next_fault w = (f, w') \<Longrightarrow> cache_db w' = cache_db w \<and> arena w' = arena w"
  by (auto simp: next_fault_def split: list.splits)

lemma h_shard_call:
  assumes "\<And>d s. P d s \<Longrightarrow> Q () d (ok s)" "\<And>d s k. P d s \<Longrightarrow> F d (part k s)"
    "\<And>d s k g. P d s \<Longrightarrow> C d (crash_shard g (part k s))"
  shows "hoare P (shard_call ok part) Q F C"
proof (rule hoareI)
  fix w w' r assume P: "P (cache_db w) (arena w)" and m: "shard_call ok part w = (w', r)"
  obtain f v where v: "next_fault w = (f, v)" by (metis surj_pair)
  show "ended Q F C r (cache_db w') (arena w')"
    using P m v assms next_fault_frame [OF v] by (cases f) (auto simp: shard_call_def)
qed

lemma h_db_call:
  assumes "\<And>d s x d'. P d s \<Longrightarrow> f d = (d', Inr x) \<Longrightarrow> Q x d' s"
    "\<And>d s. P d s \<Longrightarrow> F d s" "\<And>d s. P d s \<Longrightarrow> F (fst (f d)) s"
    "\<And>d s g. P d s \<Longrightarrow> C d (crash_shard g s)" "\<And>d s g. P d s \<Longrightarrow> C (fst (f d)) (crash_shard g s)"
  shows "hoare P (db_call f) Q F C"
proof (rule hoareI)
  fix w w' r assume P: "P (cache_db w) (arena w)" and m: "db_call f w = (w', r)"
  obtain ft v where v: "next_fault w = (ft, v)" by (metis surj_pair)
  obtain d' q where d: "f (cache_db w) = (d', q)" by (metis surj_pair)
  show "ended Q F C r (cache_db w') (arena w')"
    using P m v d assms [of "cache_db w" "arena w"] next_fault_frame [OF v]
    by (cases ft; cases q) (auto simp: db_call_def split: if_splits)
qed

section \<open>Ranges of the files\<close>

definition apart :: "nat \<Rightarrow> nat \<Rightarrow> nat \<Rightarrow> nat \<Rightarrow> bool" where
  "apart a n b m \<longleftrightarrow> a + n \<le> b \<or> b + m \<le> a"

definition clean_in :: "(nat \<times> nat) list \<Rightarrow> nat \<Rightarrow> nat \<Rightarrow> bool" where
  "clean_in ranges a n \<longleftrightarrow> (\<forall>(b, m)\<in>set ranges. apart a n b m)"

lemma clean_in_simps [simp]:
  "clean_in [] a n" "clean_in ((b, m) # ranges) a n \<longleftrightarrow> apart a n b m \<and> clean_in ranges a n"
  by (auto simp: clean_in_def)

lemma file_write_in: "off + length bs \<le> length f \<Longrightarrow> file_write f off bs = copy_into f off bs"
  by (simp add: file_write_def zeros_def)

lemma length_file_write: "off + length bs \<le> length f \<Longrightarrow> length (file_write f off bs) = length f"
  by (simp add: file_write_in)

lemma slice_file_write_apart:
  "off + length bs \<le> length f \<Longrightarrow> apart a n off (length bs) \<Longrightarrow> slice a n (file_write f off bs) = slice a n f"
  by (auto simp: file_write_in apart_def slice_copy_before slice_copy_after)

lemma slice_file_write_same: "off + length bs \<le> length f \<Longrightarrow> slice off (length bs) (file_write f off bs) = bs"
  by (simp add: file_write_in slice_copy_same)

lemma apart_mono: "apart a n b m \<Longrightarrow> m' \<le> m \<Longrightarrow> n' \<le> n \<Longrightarrow> apart a n' b m'"
  by (auto simp: apart_def)

lemma length_scramble [simp]: "length (scramble g ranges bs) = length bs"
  by (simp add: scramble_def)

lemma slice_scramble:
  assumes "clean_in ranges a n" "a + n \<le> length bs"
  shows "slice a n (scramble g ranges bs) = slice a n bs"
proof (rule nth_equalityI)
  show "length (slice a n (scramble g ranges bs)) = length (slice a n bs)" using assms(2) by simp
  fix i assume "i < length (slice a n (scramble g ranges bs))"
  then have i: "i < n" "a + i < length bs" using assms(2) by simp_all
  have "\<not> covered ranges (a + i)"
    using assms(1) i(1) by (auto simp: covered_def clean_in_def apart_def list_ex_iff)
  then show "slice a n (scramble g ranges bs) ! i = slice a n bs ! i"
    using i by (simp add: slice_def scramble_def)
qed

section \<open>Slots of a well-formed shard\<close>

definition slot_base :: "Shard \<Rightarrow> nat \<Rightarrow> nat" where
  "slot_base s slot = slot * page_size (shard_layout s) + 4096"

definition meta_base :: "nat \<Rightarrow> nat" where
  "meta_base slot = slot * 64 + 4096"

definition shard_wf :: "Shard \<Rightarrow> bool" where
  "shard_wf s \<longleftrightarrow> layout_ok (shard_layout s) \<and>
     length (shard_data s) = slot_count (shard_layout s) * page_size (shard_layout s) + 4096 \<and>
     length (shard_meta s) = slot_count (shard_layout s) * 64 + 8192"

definition payload :: "Shard \<Rightarrow> nat \<Rightarrow> nat \<Rightarrow> bytes" where
  "payload s slot n = slice (slot_base s slot) n (shard_data s)"

definition slot_clean :: "Shard \<Rightarrow> nat \<Rightarrow> bool" where
  "slot_clean s slot \<longleftrightarrow> clean_in (data_dirty s) (slot_base s slot) (page_size (shard_layout s))"

definition meta_at :: "Shard \<Rightarrow> nat \<Rightarrow> bytes" where
  "meta_at s slot = slice (meta_base slot) 64 (shard_meta s)"

definition meta_clean :: "Shard \<Rightarrow> nat \<Rightarrow> bool" where
  "meta_clean s slot \<longleftrightarrow> clean_in (meta_dirty s) (meta_base slot) 64"

lemma slot_in_data:
  assumes "shard_wf s" "slot < slot_count (shard_layout s)"
  shows "slot_base s slot + page_size (shard_layout s) \<le> length (shard_data s)"
  using slot_offset_in(2) [of "shard_layout s" slot] assms by (simp add: shard_wf_def slot_base_def)

lemma meta_in_file:
  assumes "shard_wf s" "slot < slot_count (shard_layout s)"
  shows "meta_base slot + 64 \<le> length (shard_meta s)"
proof -
  have "(slot + 1) * 64 \<le> slot_count (shard_layout s) * 64" using assms(2) by (intro mult_le_mono1) simp
  then show ?thesis using assms(1) by (simp add: shard_wf_def meta_base_def)
qed

lemma slots_apart:
  assumes "slot \<noteq> t"
  shows "apart (slot_base s t) (page_size (shard_layout s)) (slot_base s slot) (page_size (shard_layout s))"
proof -
  consider "slot + 1 \<le> t" | "t + 1 \<le> slot" using assms by linarith
  then show ?thesis
  proof cases
    case 1
    then have "(slot + 1) * page_size (shard_layout s) \<le> t * page_size (shard_layout s)" by (rule mult_le_mono1)
    then show ?thesis by (simp add: apart_def slot_base_def)
  next
    case 2
    then have "(t + 1) * page_size (shard_layout s) \<le> slot * page_size (shard_layout s)" by (rule mult_le_mono1)
    then show ?thesis by (simp add: apart_def slot_base_def)
  qed
qed

lemma metas_apart: "slot \<noteq> t \<Longrightarrow> apart (meta_base t) 64 (meta_base slot) 64"
  by (auto simp: apart_def meta_base_def)

text \<open>What an access to one slot leaves alone.\<close>

definition same_but :: "nat \<Rightarrow> Shard \<Rightarrow> Shard \<Rightarrow> bool" where
  "same_but slot s s' \<longleftrightarrow> shard_wf s' \<and> shard_layout s' = shard_layout s \<and>
     (\<forall>t n. t \<noteq> slot \<longrightarrow> t < slot_count (shard_layout s) \<longrightarrow> n \<le> page_size (shard_layout s) \<longrightarrow>
        payload s' t n = payload s t n \<and> (slot_clean s t \<longrightarrow> slot_clean s' t)) \<and>
     (\<forall>t. t \<noteq> slot \<longrightarrow> t < slot_count (shard_layout s) \<longrightarrow>
        meta_at s' t = meta_at s t \<and> (meta_clean s t \<longrightarrow> meta_clean s' t))"

lemma same_but_trans: "same_but slot s s' \<Longrightarrow> same_but slot s' s'' \<Longrightarrow> same_but slot s s''"
  unfolding same_but_def by metis

lemma same_but_refl: "shard_wf s \<Longrightarrow> same_but slot s s"
  by (simp add: same_but_def)

lemma put_data_same_but:
  assumes wf: "shard_wf s" and slot: "slot < slot_count (shard_layout s)"
    and r: "slot_base s slot \<le> off" "off + n \<le> slot_base s slot + page_size (shard_layout s)" "length bs \<le> n"
  shows "same_but slot s (put_data off n bs s)" "meta_at (put_data off n bs s) slot = meta_at s slot"
    "meta_dirty (put_data off n bs s) = meta_dirty s"
proof -
  let ?s = "put_data off n bs s" and ?p = "page_size (shard_layout s)"
  have fits: "off + length bs \<le> length (shard_data s)" using slot_in_data [OF wf slot] r by linarith
  have base: "slot_base ?s = slot_base s" "meta_at ?s = meta_at s" "meta_clean ?s = meta_clean s"
    by (auto simp: put_data_def slot_base_def meta_at_def meta_clean_def)
  have ap: "apart (slot_base s t) ?p off n" if "t \<noteq> slot" for t
    using slots_apart [of slot t s] that r by (auto simp: apart_def)
  have "payload ?s t k = payload s t k \<and> (slot_clean s t \<longrightarrow> slot_clean ?s t)" if "t \<noteq> slot" "k \<le> ?p" for t k
    using ap [OF that(1)] apart_mono [OF ap [OF that(1)] r(3) that(2)] fits
    unfolding payload_def slot_clean_def base by (simp add: put_data_def slice_file_write_apart)
  moreover have "shard_wf ?s" using wf fits by (simp add: shard_wf_def put_data_def length_file_write)
  ultimately show "same_but slot s ?s" using base by (simp add: same_but_def put_data_def)
  show "meta_at ?s slot = meta_at s slot" "meta_dirty ?s = meta_dirty s" using base by (simp_all add: put_data_def)
qed

lemma put_meta_same_but:
  assumes wf: "shard_wf s" and slot: "slot < slot_count (shard_layout s)" and n: "length bs \<le> 64"
  shows "same_but slot s (put_meta (meta_base slot) 64 bs s)"
    "payload (put_meta (meta_base slot) 64 bs s) = payload s" "data_dirty (put_meta (meta_base slot) 64 bs s) = data_dirty s"
    "slot_clean (put_meta (meta_base slot) 64 bs s) = slot_clean s"
proof -
  let ?s = "put_meta (meta_base slot) 64 bs s"
  have fits: "meta_base slot + length bs \<le> length (shard_meta s)" using meta_in_file [OF wf slot] n by linarith
  show base: "payload ?s = payload s" "data_dirty ?s = data_dirty s" "slot_clean ?s = slot_clean s"
    by (simp_all add: put_meta_def slot_base_def payload_def slot_clean_def fun_eq_iff)
  have "meta_at ?s t = meta_at s t \<and> (meta_clean s t \<longrightarrow> meta_clean ?s t)" if "t \<noteq> slot" for t
    using metas_apart [of slot t] apart_mono [OF metas_apart [of slot t] n, of 64] fits that
    unfolding meta_at_def meta_clean_def by (auto simp: put_meta_def slice_file_write_apart)
  moreover have "shard_wf ?s" using wf fits by (simp add: shard_wf_def put_meta_def length_file_write)
  ultimately show "same_but slot s ?s" using base by (simp add: same_but_def put_meta_def)
qed

lemma crash_shard_facts:
  assumes wf: "shard_wf s"
  shows "shard_wf (crash_shard g s)" "shard_layout (crash_shard g s) = shard_layout s"
    "slot_clean (crash_shard g s) t" "meta_clean (crash_shard g s) t"
    "t < slot_count (shard_layout s) \<Longrightarrow> slot_clean s t \<Longrightarrow> n \<le> page_size (shard_layout s) \<Longrightarrow>
      payload (crash_shard g s) t n = payload s t n"
    "t < slot_count (shard_layout s) \<Longrightarrow> meta_clean s t \<Longrightarrow> meta_at (crash_shard g s) t = meta_at s t"
proof -
  show "shard_wf (crash_shard g s)" "shard_layout (crash_shard g s) = shard_layout s"
    "slot_clean (crash_shard g s) t" "meta_clean (crash_shard g s) t"
    using wf by (simp_all add: shard_wf_def crash_shard_def slot_clean_def meta_clean_def)
  assume t: "t < slot_count (shard_layout s)"
  show "payload (crash_shard g s) t n = payload s t n" if "slot_clean s t" "n \<le> page_size (shard_layout s)"
  proof -
    have "clean_in (data_dirty s) (slot_base s t) n"
      using that by (auto simp: slot_clean_def clean_in_def intro: apart_mono)
    then show ?thesis using slot_in_data [OF wf t] that(2)
      by (simp add: payload_def crash_shard_def slot_base_def slice_scramble)
  qed
  show "meta_at (crash_shard g s) t = meta_at s t" if "meta_clean s t"
    using that meta_in_file [OF wf t] by (simp add: meta_at_def crash_shard_def slice_scramble meta_clean_def)
qed

section \<open>Rules for the shard operations\<close>

lemma h_slot_offset:
  assumes "\<And>d s. P d s \<Longrightarrow> shard_wf s"
    "\<And>d s. P d s \<Longrightarrow> slot < slot_count (shard_layout s) \<Longrightarrow> Q (slot_base s slot) d s" "\<And>d s. P d s \<Longrightarrow> F d s"
  shows "hoare P (shard_slot_offset slot) Q F C"
proof (rule hoareI)
  fix w w' r assume P: "P (cache_db w) (arena w)" and m: "shard_slot_offset slot w = (w', r)"
  have ok: "layout_ok (shard_layout (arena w))" using assms(1) [OF P] by (simp add: shard_wf_def)
  show "ended Q F C r (cache_db w') (arena w')"
  proof (cases "slot < slot_count (shard_layout (arena w))")
    case True
    then show ?thesis using m assms(2) [OF P True] slot_offset_in(1) [OF ok True]
      by (auto simp: shard_slot_offset_def act_lift_def act_done_def slot_base_def)
  next
    case False
    then have "slot_offset (shard_layout (arena w)) slot = Inl InvalidArgument" by (simp add: slot_offset_def)
    then show ?thesis using m assms(3) [OF P] by (auto simp: shard_slot_offset_def act_lift_def act_fail_def)
  qed
qed

lemma metadata_offset_in:
  assumes "layout_ok l" "slot < slot_count l"
  shows "metadata_offset slot = Inr (meta_base slot)"
proof -
  have "slot * 64 \<le> slot_count l * 64" using assms(2) by simp
  then show ?thesis using assms(1)
    by (auto simp: metadata_offset_def layout_ok_def checked_mul64_def checked_add64_def meta_base_def
        SLOT_METADATA_BYTES_def ARENA_HEADER_BYTES_def)
qed

lemma metadata_offset_Inr: "metadata_offset slot = Inr off \<Longrightarrow> off = meta_base slot"
  by (auto simp: metadata_offset_def meta_base_def SLOT_METADATA_BYTES_def ARENA_HEADER_BYTES_def checked_mul64_def
      checked_add64_def split: if_splits)

lemma h_write_metadata:
  assumes wf: "\<And>d s. P d s \<Longrightarrow> shard_wf s" and fail: "\<And>d s. P d s \<Longrightarrow> F d s"
    and part: "\<And>d s bs. P d s \<Longrightarrow> slot < slot_count (shard_layout s) \<Longrightarrow> length bs \<le> 64 \<Longrightarrow>
      F d (put_meta (meta_base slot) 64 bs s) \<and> (\<forall>g. C d (crash_shard g (put_meta (meta_base slot) 64 bs s)))"
    and ok: "\<And>d s. P d s \<Longrightarrow> slot < slot_count (shard_layout s) \<Longrightarrow>
      Q () d (put_meta (meta_base slot) 64 (slot_encode crc32 v) s)"
  shows "hoare P (write_metadata crc32 slot v) Q F C"
  unfolding write_metadata_def
proof (rule h_bind)
  show "hoare P (shard_slot_offset slot) (\<lambda>_ d s. P d s \<and> slot < slot_count (shard_layout s)) F C"
    by (rule h_slot_offset) (use wf fail in auto)
next
  fix x :: u64
  show "hoare (\<lambda>d s. P d s \<and> slot < slot_count (shard_layout s))
      (act_bind (act_lift (metadata_offset slot)) (\<lambda>off. write_meta (slot_encode crc32 v) off)) Q F C"
  proof (rule h_bind)
    show "hoare (\<lambda>d s. P d s \<and> slot < slot_count (shard_layout s)) (act_lift (metadata_offset slot))
      (\<lambda>off d s. P d s \<and> slot < slot_count (shard_layout s) \<and> off = meta_base slot) F C"
      by (rule h_lift) (use fail metadata_offset_Inr in auto)
  next
    fix off
    show "hoare (\<lambda>d s. P d s \<and> slot < slot_count (shard_layout s) \<and> off = meta_base slot)
      (write_meta (slot_encode crc32 v) off) Q F C"
      unfolding write_meta_def slot_encode_length
      by (rule h_shard_call) (use part ok in \<open>auto simp: slot_encode_length\<close>)
  qed
qed

lemma h_write_slot:
  assumes wf: "\<And>d s. P d s \<Longrightarrow> shard_wf s" and fail: "\<And>d s. P d s \<Longrightarrow> F d s"
    and part: "\<And>d s k. P d s \<Longrightarrow> slot < slot_count (shard_layout s) \<Longrightarrow> length bs \<le> page_size (shard_layout s) \<Longrightarrow>
      F d (put_data (slot_base s slot) (length bs) (take k bs) s) \<and>
      (\<forall>g. C d (crash_shard g (put_data (slot_base s slot) (length bs) (take k bs) s)))"
    and ok: "\<And>d s. P d s \<Longrightarrow> slot < slot_count (shard_layout s) \<Longrightarrow> length bs \<le> page_size (shard_layout s) \<Longrightarrow>
      Q () d (put_data (slot_base s slot) (length bs) bs s)"
  shows "hoare P (write_slot slot bs) Q F C"
  unfolding write_slot_def
proof (rule h_bind)
  show "hoare P (act_get (\<lambda>w. page_size (shard_layout (arena w))))
      (\<lambda>page d s. P d s \<and> page = page_size (shard_layout s)) F C" by (rule h_get) simp
next
  fix page
  show "hoare (\<lambda>d s. P d s \<and> page = page_size (shard_layout s))
     (if bs = [] \<or> page < length bs then act_fail InvalidArgument
      else act_bind (shard_slot_offset slot) (write_data bs)) Q F C"
  proof (rule h_if)
    assume "\<not> (bs = [] \<or> page < length bs)"
    then have le: "length bs \<le> page" by simp
    show "hoare (\<lambda>d s. P d s \<and> page = page_size (shard_layout s))
        (act_bind (shard_slot_offset slot) (write_data bs)) Q F C"
    proof (rule h_bind)
      show "hoare (\<lambda>d s. P d s \<and> page = page_size (shard_layout s)) (shard_slot_offset slot)
          (\<lambda>off d s. P d s \<and> page = page_size (shard_layout s) \<and> slot < slot_count (shard_layout s) \<and>
             off = slot_base s slot) F C"
        by (rule h_slot_offset) (use wf fail in auto)
    next
      fix off
      show "hoare (\<lambda>d s. P d s \<and> page = page_size (shard_layout s) \<and> slot < slot_count (shard_layout s) \<and>
             off = slot_base s slot) (write_data bs off) Q F C"
        unfolding write_data_def by (rule h_shard_call) (use part ok le in auto)
    qed
  qed (rule h_fail, use fail in auto)
qed

text \<open>An assertion that does not look at the contents of one slot survives every access to it.\<close>

definition stable :: "nat \<Rightarrow> assn \<Rightarrow> bool" where
  "stable slot J \<longleftrightarrow> (\<forall>d s. J d s \<longrightarrow> shard_wf s) \<and> (\<forall>d s s'. J d s \<longrightarrow> same_but slot s s' \<longrightarrow> J d s') \<and>
     (\<forall>d s g. J d s \<longrightarrow> J d (crash_shard g s))"

lemma stableD:
  assumes "stable slot J" "J d s"
  shows "shard_wf s" "same_but slot s s' \<Longrightarrow> J d s'" "J d (crash_shard g s)"
  using assms unfolding stable_def by blast+

lemma sync_same_but:
  assumes "shard_wf s"
  shows "same_but slot s (s\<lparr>data_dirty := []\<rparr>)" "same_but slot s (s\<lparr>meta_dirty := []\<rparr>)"
  using assms by (simp_all add: same_but_def shard_wf_def payload_def slot_clean_def meta_at_def meta_clean_def slot_base_def)

lemma h_stable_sync:
  assumes "stable slot J"
  shows "hoare J sync_data (\<lambda>_ d s. J d s \<and> data_dirty s = []) J J"
    "hoare J sync_meta (\<lambda>_ d s. J d s \<and> meta_dirty s = []) J J"
  unfolding sync_data_def sync_meta_def
  by (rule h_shard_call; use stableD [OF assms] sync_same_but in auto)+

lemma h_stable_write_metadata:
  assumes st: "stable slot J"
  shows "hoare J (write_metadata crc32 slot v) (\<lambda>_ d s. J d s \<and> meta_at s slot = slot_encode crc32 v \<and>
    slot < slot_count (shard_layout s)) J J"
proof (rule h_write_metadata)
  fix d s assume J: "J d s"
  note wf = stableD(1) [OF st J]
  show "shard_wf s" by (rule wf)
  show "J d s" by (rule J)
  assume slot: "slot < slot_count (shard_layout s)"
  have keep: "J d (put_meta (meta_base slot) 64 bs s)" if "length bs \<le> 64" for bs
    using stableD(2) [OF st J] put_meta_same_but(1) [OF wf slot that] .
  then show "J d (put_meta (meta_base slot) 64 bs s) \<and> (\<forall>g. J d (crash_shard g (put_meta (meta_base slot) 64 bs s)))"
    if "length bs \<le> 64" for bs
    using that stableD(3) [OF st] by blast
  have "meta_at (put_meta (meta_base slot) 64 (slot_encode crc32 v) s) slot = slot_encode crc32 v"
    using slice_file_write_same [of "meta_base slot" "slot_encode crc32 v" "shard_meta s"] meta_in_file [OF wf slot]
    by (simp add: meta_at_def put_meta_def slot_encode_length)
  then show "J d (put_meta (meta_base slot) 64 (slot_encode crc32 v) s) \<and>
      meta_at (put_meta (meta_base slot) 64 (slot_encode crc32 v) s) slot = slot_encode crc32 v \<and>
      slot < slot_count (shard_layout (put_meta (meta_base slot) 64 (slot_encode crc32 v) s))"
    using keep [of "slot_encode crc32 v"] slot by (simp add: slot_encode_length put_meta_def)
qed

lemma put_data_keeps:
  assumes "stable slot J" "J d s" "slot < slot_count (shard_layout s)" "slot_base s slot \<le> off"
    "off + n \<le> slot_base s slot + page_size (shard_layout s)" "length bs \<le> n"
  shows "J d (put_data off n bs s)"
  using stableD(2) [OF assms(1,2)] put_data_same_but(1) [OF stableD(1) [OF assms(1,2)] assms(3-6)] .

lemma h_stable_write_slot:
  assumes st: "stable slot J"
  shows "hoare J (write_slot slot bs) (\<lambda>_ d s. J d s \<and> payload s slot (length bs) = bs \<and>
    slot < slot_count (shard_layout s) \<and> length bs \<le> page_size (shard_layout s)) J J"
proof (rule h_write_slot)
  fix d s assume J: "J d s"
  note wf = stableD(1) [OF st J]
  show "shard_wf s" by (rule wf)
  show "J d s" by (rule J)
  assume slot: "slot < slot_count (shard_layout s)" and len: "length bs \<le> page_size (shard_layout s)"
  have keep: "J d (put_data (slot_base s slot) (length bs) cs s)" if "length cs \<le> length bs" for cs
    using put_data_keeps [OF st J slot _ _ that] len by simp
  then show "J d (put_data (slot_base s slot) (length bs) (take k bs) s) \<and>
      (\<forall>g. J d (crash_shard g (put_data (slot_base s slot) (length bs) (take k bs) s)))" for k
    using stableD(3) [OF st] by simp
  have "payload (put_data (slot_base s slot) (length bs) bs s) slot (length bs) = bs"
    using slice_file_write_same [of "slot_base s slot" bs "shard_data s"] slot_in_data [OF wf slot] len
    by (simp add: payload_def put_data_def slot_base_def)
  then show "J d (put_data (slot_base s slot) (length bs) bs s) \<and>
      payload (put_data (slot_base s slot) (length bs) bs s) slot (length bs) = bs \<and>
      slot < slot_count (shard_layout (put_data (slot_base s slot) (length bs) bs s)) \<and>
      length bs \<le> page_size (shard_layout (put_data (slot_base s slot) (length bs) bs s))"
    using keep slot len by (simp add: put_data_def)
qed

lemma h_stable_deallocate:
  assumes st: "stable slot J"
  shows "hoare (\<lambda>d s. J d s \<and> slot < slot_count (shard_layout s) \<and> slot_base s slot \<le> cursor \<and>
      cursor + remaining \<le> slot_base s slot + page_size (shard_layout s))
    (deallocate cursor remaining) (\<lambda>_ d s. J d s \<and> data_dirty s = []) J J"
proof (induction cursor remaining rule: deallocate.induct)
  case (1 cursor remaining)
  show ?case
  proof (cases "remaining = 0")
    case True
    then show ?thesis
      by (subst deallocate.simps) (simp, rule h_pre [OF h_stable_sync(1) [OF st]], simp)
  next
    case False
    let ?n = "min remaining ZERO_CHUNK"
    have step: "hoare (\<lambda>d s. J d s \<and> slot < slot_count (shard_layout s) \<and> slot_base s slot \<le> cursor \<and>
        cursor + remaining \<le> slot_base s slot + page_size (shard_layout s))
      (write_data (zeros ?n) cursor)
      (\<lambda>_ d s. J d s \<and> slot < slot_count (shard_layout s) \<and> slot_base s slot \<le> cursor + ?n \<and>
        cursor + ?n + (remaining - ?n) \<le> slot_base s slot + page_size (shard_layout s)) J J"
      unfolding write_data_def
    proof (rule h_shard_call)
      fix d s
      assume a: "J d s \<and> slot < slot_count (shard_layout s) \<and> slot_base s slot \<le> cursor \<and>
        cursor + remaining \<le> slot_base s slot + page_size (shard_layout s)"
      have "cursor + ?n \<le> cursor + remaining" by simp
      then have fits: "cursor + ?n \<le> slot_base s slot + page_size (shard_layout s)" using a by linarith
      have keep: "J d (put_data cursor ?n bs s)" if "length bs \<le> ?n" for bs
        using a put_data_keeps [OF st _ _ _ fits that] by blast
      show "J d (put_data cursor (length (zeros ?n)) (zeros ?n) s) \<and>
        slot < slot_count (shard_layout (put_data cursor (length (zeros ?n)) (zeros ?n) s)) \<and>
        slot_base (put_data cursor (length (zeros ?n)) (zeros ?n) s) slot \<le> cursor + ?n \<and>
        cursor + ?n + (remaining - ?n) \<le> slot_base (put_data cursor (length (zeros ?n)) (zeros ?n) s) slot +
          page_size (shard_layout (put_data cursor (length (zeros ?n)) (zeros ?n) s))"
        using keep [of "zeros ?n"] a by (simp add: put_data_def slot_base_def)
      have "length (take k (zeros ?n)) \<le> ?n" for k by (simp only: length_take length_zeros min.cobounded1)
      note part = keep [OF this]
      show "J d (put_data cursor (length (zeros ?n)) (take k (zeros ?n)) s)"
        "J d (crash_shard g (put_data cursor (length (zeros ?n)) (take k (zeros ?n)) s))" for k g
        using part [of k] stableD(3) [OF st part [of k]] by (simp_all only: length_zeros)
    qed
    show ?thesis using False
      by (subst deallocate.simps) (simp, rule h_bind [OF step], rule 1, simp)
  qed
qed

lemma h_stable_deallocate_slot:
  assumes st: "stable slot J"
  shows "hoare J (deallocate_slot slot) (\<lambda>_ d s. J d s \<and> data_dirty s = []) J J"
  unfolding deallocate_slot_def
proof (rule h_bind)
  show "hoare J (shard_slot_offset slot) (\<lambda>off d s. J d s \<and> slot < slot_count (shard_layout s) \<and> off = slot_base s slot) J J"
    by (rule h_slot_offset) (use stableD [OF st] in auto)
next
  fix off
  show "hoare (\<lambda>d s. J d s \<and> slot < slot_count (shard_layout s) \<and> off = slot_base s slot)
     (act_bind (act_get (\<lambda>w. page_size (shard_layout (arena w)))) (\<lambda>page. deallocate off page))
     (\<lambda>_ d s. J d s \<and> data_dirty s = []) J J"
    by (rule h_bind [OF h_get [of _ "\<lambda>page d s. J d s \<and> slot < slot_count (shard_layout s) \<and> off = slot_base s slot \<and>
          page = page_size (shard_layout s)"]])
      (simp, rule h_pre [OF h_stable_deallocate [OF st]], auto)
qed

section \<open>Reads\<close>

lemma h_read_file:
  assumes "\<And>d s. P d s \<Longrightarrow> F d s" "\<And>d s g. P d s \<Longrightarrow> C d (crash_shard g s)"
  shows "hoare P (read_file f n off) (\<lambda>v d s. P d s \<and> v = slice off n (f s)) F C"
  unfolding read_file_def
proof (rule h_bind)
  show "hoare P (shard_call (\<lambda>s. s) (\<lambda>_ s. s)) (\<lambda>_. P) F C" by (rule h_shard_call) (use assms in auto)
next
  show "hoare P (act_bind (act_get (\<lambda>w. f (arena w))) (\<lambda>file.
       if n = 0 \<or> off + n \<le> length file then act_done (slice off n file) else act_fail Io))
     (\<lambda>v d s. P d s \<and> v = slice off n (f s)) F C"
    by (rule h_bind [OF h_get [of _ "\<lambda>file d s. P d s \<and> file = f s"]], simp)
      (rule h_if, rule h_done, simp, rule h_fail, use assms in auto)
qed

text \<open>The aligned window of the unbuffered path stays inside the slot window and contains the request.\<close>

lemma align_window:
  assumes "off + n \<le> window" "window \<le> 2 ^ 62" "0 < n"
  shows "align_down 4096 off \<le> off"
    "min (align_down 4096 (wsub64 (wadd64 (wadd64 off n) 4096) 1)) window \<le> window"
    "off + n \<le> min (align_down 4096 (wsub64 (wadd64 (wadd64 off n) 4096) 1)) window"
proof -
  have b: "off + n + 4096 \<le> u64_max" using assms(1,2) by (simp add: u64_max_def)
  have w: "wsub64 (wadd64 (wadd64 off n) 4096) 1 = off + n + 4095"
    using b by (simp add: wadd64_exact wsub64_exact)
  have "off + n \<le> align_down 4096 (off + n + 4095)"
    unfolding align_down_def using mod_less_divisor [of 4096 "off + n + 4095"] by linarith
  then show "off + n \<le> min (align_down 4096 (wsub64 (wadd64 (wadd64 off n) 4096) 1)) window"
    using w assms(1) by simp
qed (simp_all add: align_down_def)

lemma h_read_unbuffered:
  assumes wf: "\<And>d s. P d s \<Longrightarrow> shard_wf s" and F: "\<And>d s. P d s \<Longrightarrow> F d s"
    and C: "\<And>d s g. P d s \<Longrightarrow> C d (crash_shard g s)" and r: "off + n \<le> window" "window \<le> 2 ^ 62"
    and fits: "\<And>d s. P d s \<Longrightarrow> slot < slot_count (shard_layout s) \<Longrightarrow> slot_base s slot + window \<le> u64_max"
  shows "hoare P (read_slot_unbuffered ptr slot window off n)
    (\<lambda>v d s. P d s \<and> v = slice (slot_base s slot + off) n (shard_data s)) F C"
  unfolding read_slot_unbuffered_def
proof (rule h_bind)
  show "hoare P (shard_slot_offset slot) (\<lambda>base d s. P d s \<and> base = slot_base s slot \<and> base + window \<le> u64_max) F C"
    by (rule h_slot_offset) (use wf F fits in auto)
next
  fix base
  let ?P = "\<lambda>d s. P d s \<and> base = slot_base s slot \<and> base + window \<le> u64_max"
  let ?start = "align_down 4096 off"
  let ?e = "min (align_down 4096 (wsub64 (wadd64 (wadd64 off n) 4096) 1)) window"
  show "hoare ?P (if n = 0 then act_done []
       else if off mod 4096 = 0 \<and> n mod 4096 = 0 \<and> ptr then read_file shard_data n (wadd64 base off)
       else let start = ?start; want_end = wadd64 off n;
             e = min (align_down 4096 (wsub64 (wadd64 want_end 4096) 1)) window; wnd = wsub64 e start
         in act_bind (read_file shard_data wnd (wadd64 base start)) (\<lambda>scratch. act_done (slice (off - start) n scratch)))
     (\<lambda>v d s. P d s \<and> v = slice (slot_base s slot + off) n (shard_data s)) F C"
  proof (cases "n = 0 \<or> \<not> base + window \<le> u64_max")
    case True
    then show ?thesis
    proof
      assume "n = 0"
      then show ?thesis by (auto simp: slice_def intro!: h_done)
    next
      assume "\<not> base + window \<le> u64_max"
      then show ?thesis by (simp add: hoare_def)
    qed
  next
    case False
    then have n: "0 < n" and b: "base + window \<le> u64_max" by simp_all
    note w = align_window [OF r n]
    have e: "wadd64 base off = base + off" "wadd64 base ?start = base + ?start"
      using b r w(1) by (simp_all add: wadd64_exact)
    have "?start \<le> ?e" "?e \<le> u64_max" using w b by linarith+
    then have e': "wsub64 ?e ?start = ?e - ?start" by (rule wsub64_exact)
    have inside: "off - ?start + n \<le> ?e - ?start" using w by linarith
    have plain: "hoare ?P (read_file shard_data n (base + off))
       (\<lambda>v d s. P d s \<and> v = slice (slot_base s slot + off) n (shard_data s)) F C"
      by (rule h_post [OF h_read_file]) (use F C in auto)
    have "hoare ?P (act_bind (read_file shard_data (?e - ?start) (base + ?start))
         (\<lambda>scratch. act_done (slice (off - ?start) n scratch)))
       (\<lambda>v d s. P d s \<and> v = slice (slot_base s slot + off) n (shard_data s)) F C"
    proof (rule h_bind [OF h_read_file])
      fix v :: bytes
      show "hoare (\<lambda>d s. ?P d s \<and> v = slice (base + ?start) (?e - ?start) (shard_data s))
         (act_done (slice (off - ?start) n v)) (\<lambda>v d s. P d s \<and> v = slice (slot_base s slot + off) n (shard_data s)) F C"
      proof (rule h_done)
        fix d s assume a: "?P d s \<and> v = slice (base + ?start) (?e - ?start) (shard_data s)"
        have "slice (off - ?start) n v = slice (base + ?start + (off - ?start)) n (shard_data s)"
          using a slice_slice [OF inside] by simp
        then show "P d s \<and> slice (off - ?start) n v = slice (slot_base s slot + off) n (shard_data s)"
          using a w(1) by simp
      qed
    qed (use F C in auto)
    then show ?thesis using n plain unfolding Let_def e e' by simp
  qed
qed

lemma page_bound: "shard_wf s \<Longrightarrow> page_size (shard_layout s) \<le> 2 ^ 62"
  by (simp add: shard_wf_def layout_ok_def)

lemma slot_window_bound:
  assumes "shard_wf s" "slot < slot_count (shard_layout s)"
  shows "slot_base s slot + page_size (shard_layout s) \<le> u64_max"
proof -
  have "slot_base s slot + page_size (shard_layout s) \<le> length (shard_data s)" by (rule slot_in_data [OF assms])
  also have "\<dots> \<le> u64_max" using assms(1) by (auto simp: shard_wf_def layout_ok_def)
  finally show ?thesis .
qed

lemma h_read_slot:
  assumes wf: "\<And>d s. P d s \<Longrightarrow> shard_wf s" and F: "\<And>d s. P d s \<Longrightarrow> F d s"
    and C: "\<And>d s g. P d s \<Longrightarrow> C d (crash_shard g s)"
  shows "hoare P (read_slot unbuffered ptr slot logical off n)
    (\<lambda>v d s. P d s \<and> v = slice (slot_base s slot + off) n (shard_data s) \<and> off + n \<le> logical \<and>
       logical \<le> page_size (shard_layout s)) F C"
  unfolding read_slot_def
proof (rule h_bind)
  show "hoare P (act_get (\<lambda>w. page_size (shard_layout (arena w))))
     (\<lambda>page d s. P d s \<and> page = page_size (shard_layout s)) F C" by (rule h_get) simp
next
  fix page
  let ?P = "\<lambda>d s. P d s \<and> page = page_size (shard_layout s)"
  let ?Q = "\<lambda>v d s. P d s \<and> v = slice (slot_base s slot + off) n (shard_data s) \<and> off + n \<le> logical \<and>
    logical \<le> page_size (shard_layout s)"
  show "hoare ?P (act_bind (act_lift (ok_or (checked_add64 off n) InvalidArgument)) (\<lambda>e.
       if logical < e \<or> page < logical then act_fail InvalidArgument
       else if unbuffered then read_slot_unbuffered ptr slot page off n
       else act_bind (shard_slot_offset slot) (\<lambda>base.
         act_bind (act_lift (ok_or (checked_add64 base off) InvalidArgument)) (\<lambda>at. read_file shard_data n at)))) ?Q F C"
  proof (rule h_bind)
    show "hoare ?P (act_lift (ok_or (checked_add64 off n) InvalidArgument)) (\<lambda>e d s. ?P d s \<and> e = off + n) F C"
      by (rule h_lift) (use F in auto)
  next
    fix e
    show "hoare (\<lambda>d s. ?P d s \<and> e = off + n) (if logical < e \<or> page < logical then act_fail InvalidArgument
       else if unbuffered then read_slot_unbuffered ptr slot page off n
       else act_bind (shard_slot_offset slot) (\<lambda>base.
         act_bind (act_lift (ok_or (checked_add64 base off) InvalidArgument)) (\<lambda>at. read_file shard_data n at))) ?Q F C"
    proof (cases "e = off + n \<and> off + n \<le> logical \<and> logical \<le> page \<and> page \<le> 2 ^ 62")
      case True
      then have r: "off + n \<le> page" "page \<le> 2 ^ 62" by simp_all
      have unb: "hoare ?P (read_slot_unbuffered ptr slot page off n) ?Q F C"
        by (rule h_post [OF h_read_unbuffered [where P = ?P, OF _ _ _ r]])
          (use wf F C True slot_window_bound in auto)
      have buf: "hoare ?P (act_bind (shard_slot_offset slot) (\<lambda>base.
         act_bind (act_lift (ok_or (checked_add64 base off) InvalidArgument)) (\<lambda>at. read_file shard_data n at))) ?Q F C"
      proof (rule h_bind)
        show "hoare ?P (shard_slot_offset slot) (\<lambda>base d s. ?P d s \<and> base = slot_base s slot) F C"
          by (rule h_slot_offset) (use wf F in auto)
      next
        fix base
        show "hoare (\<lambda>d s. ?P d s \<and> base = slot_base s slot)
          (act_bind (act_lift (ok_or (checked_add64 base off) InvalidArgument)) (\<lambda>at. read_file shard_data n at)) ?Q F C"
        proof (rule h_bind)
          show "hoare (\<lambda>d s. ?P d s \<and> base = slot_base s slot) (act_lift (ok_or (checked_add64 base off) InvalidArgument))
            (\<lambda>at d s. ?P d s \<and> base = slot_base s slot \<and> at = base + off) F C"
            by (rule h_lift) (use F in auto)
        next
          fix at
          show "hoare (\<lambda>d s. ?P d s \<and> base = slot_base s slot \<and> at = base + off) (read_file shard_data n at) ?Q F C"
            by (rule h_post [OF h_read_file]) (use F C True in auto)
        qed
      qed
      have no: "\<not> (logical < e \<or> page < logical)" using True by simp
      show ?thesis unfolding if_not_P [OF no]
        by (rule h_if; rule h_pre [OF unb] h_pre [OF buf]; simp)
    next
      case False
      show ?thesis
      proof (cases "e = off + n \<and> page \<le> 2 ^ 62")
        case True
        then have "logical < e \<or> page < logical" using False by auto
        then show ?thesis using F by (auto intro!: h_fail)
      next
        case False
        then have "\<not> (P d s \<and> page = page_size (shard_layout s) \<and> e = off + n)" for d s
          using page_bound wf by blast
        then show ?thesis by (intro h_false) simp
      qed
    qed
  qed
qed

section \<open>Runs without faults\<close>

text \<open>\<open>runs P m Q\<close>: with an exhausted fault script \<open>m\<close> ends with a value satisfying \<open>Q\<close>.\<close>

definition runs :: "assn \<Rightarrow> 'a act \<Rightarrow> ('a \<Rightarrow> assn) \<Rightarrow> bool" where
  "runs P m Q \<longleftrightarrow> (\<forall>w. faults w = [] \<longrightarrow> P (cache_db w) (arena w) \<longrightarrow>
     (\<exists>x w'. m w = (w', Done x) \<and> faults w' = [] \<and> Q x (cache_db w') (arena w')))"

lemma r_pre: "runs P m Q \<Longrightarrow> (\<And>d s. P' d s \<Longrightarrow> P d s) \<Longrightarrow> runs P' m Q"
  by (simp add: runs_def)

lemma r_post: "runs P m Q \<Longrightarrow> (\<And>x d s. Q x d s \<Longrightarrow> Q' x d s) \<Longrightarrow> runs P m Q'"
  unfolding runs_def by meson

lemma r_bind:
  assumes "runs P m R" "\<And>x. runs (R x) (f x) Q"
  shows "runs P (act_bind m f) Q"
  unfolding runs_def
proof (intro allI impI)
  fix w :: World assume "faults w = []" "P (cache_db w) (arena w)"
  then obtain x v where "m w = (v, Done x)" "faults v = []" "R x (cache_db v) (arena v)"
    using assms(1) unfolding runs_def by metis
  then show "\<exists>x w'. act_bind m f w = (w', Done x) \<and> faults w' = [] \<and> Q x (cache_db w') (arena w')"
    using assms(2) [of x] unfolding runs_def act_bind_def by simp
qed

lemma r_hoare:
  assumes "runs P m R" "hoare P m Q F C"
  shows "runs P m Q"
  unfolding runs_def
proof (intro allI impI)
  fix w :: World assume "faults w = []" and P: "P (cache_db w) (arena w)"
  then obtain x v where m: "m w = (v, Done x)" "faults v = []" using assms(1) unfolding runs_def by metis
  then show "\<exists>x w'. m w = (w', Done x) \<and> faults w' = [] \<and> Q x (cache_db w') (arena w')"
    using hoareD [OF assms(2) P m(1)] by auto
qed

lemma r_false: "(\<And>d s. \<not> P d s) \<Longrightarrow> runs P m Q"
  by (simp add: runs_def)

lemma r_done: "(\<And>d s. P d s \<Longrightarrow> Q x d s) \<Longrightarrow> runs P (act_done x) Q"
  by (simp add: runs_def act_done_def)

lemma r_lift: "(\<And>d s. P d s \<Longrightarrow> \<exists>x. r = Inr x \<and> Q x d s) \<Longrightarrow> runs P (act_lift r) Q"
  by (cases r) (auto simp: runs_def act_lift_def act_done_def act_fail_def)

lemma r_get: "(\<And>w. P (cache_db w) (arena w) \<Longrightarrow> Q (f w) (cache_db w) (arena w)) \<Longrightarrow> runs P (act_get f) Q"
  by (simp add: runs_def act_get_def)

lemma r_shard_call: "(\<And>d s. P d s \<Longrightarrow> Q () d (ok s)) \<Longrightarrow> runs P (shard_call ok part) Q"
  by (simp add: runs_def shard_call_def next_fault_def)

lemma r_db_call: "(\<And>d s. P d s \<Longrightarrow> \<exists>x. snd (f d) = Inr x \<and> Q x (fst (f d)) s) \<Longrightarrow> runs P (db_call f) Q"
  unfolding runs_def db_call_def next_fault_def by fastforce

lemma r_try: "runs P m Q \<Longrightarrow> runs P (act_try m) (\<lambda>r d s. \<exists>x. r = Inr x \<and> Q x d s)"
  unfolding runs_def act_try_def by fastforce

lemma r_on_failure: "runs P m Q \<Longrightarrow> runs P (on_failure c m) Q"
  unfolding runs_def on_failure_def by fastforce

lemma r_slot_offset:
  assumes "\<And>d s. P d s \<Longrightarrow> shard_wf s \<and> slot < slot_count (shard_layout s) \<and> Q (slot_base s slot) d s"
  shows "runs P (shard_slot_offset slot) Q"
  unfolding runs_def
proof (intro allI impI)
  fix w :: World assume f: "faults w = []" and P: "P (cache_db w) (arena w)"
  have "slot_offset (shard_layout (arena w)) slot = Inr (slot_base (arena w) slot)"
    using slot_offset_in(1) [of "shard_layout (arena w)" slot] assms [OF P] by (simp add: shard_wf_def slot_base_def)
  then show "\<exists>x w'. shard_slot_offset slot w = (w', Done x) \<and> faults w' = [] \<and> Q x (cache_db w') (arena w')"
    using assms [OF P] f by (simp add: shard_slot_offset_def act_lift_def act_done_def)
qed

lemma r_write_metadata:
  assumes "\<And>d s. P d s \<Longrightarrow> shard_wf s \<and> slot < slot_count (shard_layout s) \<and>
    Q () d (put_meta (meta_base slot) 64 (slot_encode crc32 v) s)"
  shows "runs P (write_metadata crc32 slot v) Q"
  unfolding write_metadata_def write_meta_def
  by (rule r_bind [OF r_slot_offset [where Q = "\<lambda>_. P"]], use assms in blast,
      rule r_bind [OF r_lift [where Q = "\<lambda>off d s. P d s \<and> off = meta_base slot"]],
      use assms metadata_offset_in in \<open>fastforce simp: shard_wf_def\<close>,
      rule r_shard_call, use assms in \<open>simp add: slot_encode_length\<close>)

lemma r_write_slot:
  assumes "\<And>d s. P d s \<Longrightarrow> shard_wf s \<and> slot < slot_count (shard_layout s) \<and> length bs \<le> page_size (shard_layout s) \<and>
    Q () d (put_data (slot_base s slot) (length bs) bs s)" "bs \<noteq> []"
  shows "runs P (write_slot slot bs) Q"
  unfolding write_slot_def
proof (rule r_bind [OF r_get [where Q = "\<lambda>page d s. P d s \<and> page = page_size (shard_layout s)"]])
  fix page
  have body: "runs (\<lambda>d s. P d s \<and> page = page_size (shard_layout s)) (act_bind (shard_slot_offset slot) (write_data bs)) Q"
    unfolding write_data_def
    by (rule r_bind [OF r_slot_offset [where Q = "\<lambda>off d s. P d s \<and> off = slot_base s slot"]], use assms in blast,
        rule r_shard_call, use assms in blast)
  show "runs (\<lambda>d s. P d s \<and> page = page_size (shard_layout s)) (if bs = [] \<or> page < length bs then act_fail InvalidArgument
      else act_bind (shard_slot_offset slot) (write_data bs)) Q"
  proof (cases "page < length bs")
    case True
    then show ?thesis using assms(1) by (fastforce simp: runs_def)
  next
    case False
    then show ?thesis using body assms(2) by simp
  qed
qed simp

lemma r_read_file:
  assumes "\<And>d s. P d s \<Longrightarrow> off + n \<le> length (f s) \<and> Q (slice off n (f s)) d s"
  shows "runs P (read_file f n off) Q"
  unfolding read_file_def
proof (rule r_bind [OF r_shard_call [where Q = "\<lambda>_. P"]])
  show "runs P (act_bind (act_get (\<lambda>w. f (arena w))) (\<lambda>file.
     if n = 0 \<or> off + n \<le> length file then act_done (slice off n file) else act_fail Io)) Q"
  proof (rule r_bind [OF r_get [where Q = "\<lambda>file d s. P d s \<and> file = f s"]])
    fix fl
    show "runs (\<lambda>d s. P d s \<and> fl = f s)
      (if n = 0 \<or> off + n \<le> length fl then act_done (slice off n fl) else act_fail Io) Q"
      using assms by (fastforce simp: runs_def act_done_def)
  qed simp
qed simp

lemma r_read_unbuffered:
  assumes P: "\<And>d s. P d s \<Longrightarrow> shard_wf s \<and> slot < slot_count (shard_layout s) \<and> slot_base s slot + window \<le> length (shard_data s) \<and>
      Q (slice (slot_base s slot + off) n (shard_data s)) d s"
    and r: "off + n \<le> window" "window \<le> 2 ^ 62"
  shows "runs P (read_slot_unbuffered ptr slot window off n) Q"
proof -
  have fits: "slot_base s slot + window \<le> u64_max" if "P d s" for d s
  proof -
    have "length (shard_data s) \<le> u64_max" using P [OF that] by (auto simp: shard_wf_def layout_ok_def)
    then show ?thesis using P [OF that] by linarith
  qed
  have val: "hoare P (read_slot_unbuffered ptr slot window off n)
    (\<lambda>v d s. P d s \<and> v = slice (slot_base s slot + off) n (shard_data s)) (\<lambda>_ _. True) (\<lambda>_ _. True)"
    by (rule h_read_unbuffered [OF _ _ _ r]) (use P fits in auto)
  have "runs P (read_slot_unbuffered ptr slot window off n) (\<lambda>_ _ _. True)"
    unfolding read_slot_unbuffered_def
  proof (rule r_bind [OF r_slot_offset [where Q = "\<lambda>base d s. P d s \<and> base = slot_base s slot"]])
    fix base
    let ?P = "\<lambda>d s. P d s \<and> base = slot_base s slot"
    let ?start = "align_down 4096 off"
    let ?e = "min (align_down 4096 (wsub64 (wadd64 (wadd64 off n) 4096) 1)) window"
    show "runs ?P (if n = 0 then act_done []
       else if off mod 4096 = 0 \<and> n mod 4096 = 0 \<and> ptr then read_file shard_data n (wadd64 base off)
       else let start = ?start; want_end = wadd64 off n;
             e = min (align_down 4096 (wsub64 (wadd64 want_end 4096) 1)) window; wnd = wsub64 e start
         in act_bind (read_file shard_data wnd (wadd64 base start)) (\<lambda>scratch. act_done (slice (off - start) n scratch)))
      (\<lambda>_ _ _. True)"
    proof (cases "n = 0 \<or> \<not> base + window \<le> u64_max")
      case True
      then show ?thesis using fits by (auto simp: runs_def act_done_def)
    next
      case False
      then have n: "0 < n" and b: "base + window \<le> u64_max" by simp_all
      note w = align_window [OF r n]
      have e: "wadd64 base off = base + off" "wadd64 base ?start = base + ?start"
        using b r w(1) by (simp_all add: wadd64_exact)
      have le: "?start \<le> ?e" "?e \<le> u64_max" using w b by linarith+
      then have e': "wsub64 ?e ?start = ?e - ?start" by (rule wsub64_exact)
      have "base + off + n \<le> base + window" "base + ?start + (?e - ?start) \<le> base + window" using r w(2) le(1) by linarith+
      then have "runs ?P (read_file shard_data n (base + off)) (\<lambda>_ _ _. True)"
        "runs ?P (read_file shard_data (?e - ?start) (base + ?start)) (\<lambda>_ _ _. True)"
        by (auto intro!: r_read_file dest!: P)
      then show ?thesis using n unfolding Let_def e e' by (auto intro!: r_bind r_done)
    qed
  qed (use P in auto)
  then show ?thesis by (rule r_post [OF r_hoare [OF _ val]]) (use P in blast)
qed

lemma r_read_slot:
  assumes P: "\<And>d s. P d s \<Longrightarrow> shard_wf s \<and> slot < slot_count (shard_layout s) \<and> logical \<le> page_size (shard_layout s) \<and>
      Q (slice (slot_base s slot + off) n (shard_data s)) d s"
    and r: "off + n \<le> logical"
  shows "runs P (read_slot unbuffered ptr slot logical off n) Q"
  unfolding read_slot_def
proof (rule r_bind [OF r_get [where Q = "\<lambda>page d s. P d s \<and> page = page_size (shard_layout s)"]])
  fix page
  let ?P = "\<lambda>d s. P d s \<and> page = page_size (shard_layout s)"
  show "runs ?P (act_bind (act_lift (ok_or (checked_add64 off n) InvalidArgument)) (\<lambda>e.
       if logical < e \<or> page < logical then act_fail InvalidArgument
       else if unbuffered then read_slot_unbuffered ptr slot page off n
       else act_bind (shard_slot_offset slot) (\<lambda>base.
         act_bind (act_lift (ok_or (checked_add64 base off) InvalidArgument)) (\<lambda>at. read_file shard_data n at)))) Q"
  proof (cases "logical \<le> page \<and> page \<le> 2 ^ 62")
    case False
    then have "\<not> ?P d s" for d s using P page_bound by blast
    then show ?thesis by (rule r_false)
  next
    case True
    then have w: "off + n \<le> page" "page \<le> 2 ^ 62" "off + n \<le> u64_max" using r by (auto simp: u64_max_def)
    have unb: "runs ?P (read_slot_unbuffered ptr slot page off n) Q"
      by (rule r_read_unbuffered [OF _ w(1,2)]) (use P slot_in_data in blast)
    have fit: "base + off \<le> u64_max \<and> base + off + n \<le> length (shard_data s)" if "?P d s" "base = slot_base s slot" for d s base
      using that P [of d s] slot_in_data [of s slot] slot_window_bound [of s slot] w(1) by fastforce
    have buf: "runs ?P (act_bind (shard_slot_offset slot) (\<lambda>base.
         act_bind (act_lift (ok_or (checked_add64 base off) InvalidArgument)) (\<lambda>at. read_file shard_data n at))) Q"
      by (rule r_bind [OF r_slot_offset [where Q = "\<lambda>base d s. ?P d s \<and> base = slot_base s slot"]], use P in blast,
          rule r_bind [OF r_lift [where Q = "\<lambda>at d s. ?P d s \<and> at = slot_base s slot + off"]],
          use fit in \<open>auto simp: checked_add64_def\<close>, rule r_read_file, use fit P in auto)
    have "runs ?P (act_lift (ok_or (checked_add64 off n) InvalidArgument)) (\<lambda>e d s. ?P d s \<and> e = off + n)"
      by (rule r_lift) (use w(3) in \<open>simp add: checked_add64_def\<close>)
    then show ?thesis
    proof (rule r_bind)
      fix e
      show "runs (\<lambda>d s. ?P d s \<and> e = off + n) (if logical < e \<or> page < logical then act_fail InvalidArgument
       else if unbuffered then read_slot_unbuffered ptr slot page off n
       else act_bind (shard_slot_offset slot) (\<lambda>base.
         act_bind (act_lift (ok_or (checked_add64 base off) InvalidArgument)) (\<lambda>at. read_file shard_data n at))) Q"
      proof (cases "e = off + n")
        case eq: True
        then have no: "\<not> (logical < e \<or> page < logical)" using True r by simp
        show ?thesis unfolding if_not_P [OF no]
          by (cases unbuffered; simp only: if_True if_False; rule r_pre [OF unb] r_pre [OF buf]; simp)
      qed (rule r_false, simp)
    qed
  qed
qed simp

text \<open>C39: the unbuffered read path (sector-aligned window into a scratch buffer, clamped to the slot)
  returns exactly what the plain path returns, namely the requested bytes of the slot, for every
  request inside the logical length and whatever the alignment of the caller's buffer; neither path
  changes the files.\<close>

theorem unbuffered_read_equivalent:
  assumes "faults w = []" "shard_wf (arena w)" "slot < slot_count (shard_layout (arena w))"
    "off + n \<le> logical" "logical \<le> page_size (shard_layout (arena w))"
  shows "\<exists>w1 w2. read_slot True ptr slot logical off n w = (w1, Done (slice off n (payload (arena w) slot logical))) \<and>
    read_slot False ptr' slot logical off n w = (w2, Done (slice off n (payload (arena w) slot logical))) \<and>
    arena w1 = arena w \<and> arena w2 = arena w"
proof -
  have v: "slice (slot_base (arena w) slot + off) n (shard_data (arena w)) = slice off n (payload (arena w) slot logical)"
    unfolding payload_def by (rule slice_slice [OF assms(4), symmetric])
  have "\<exists>w'. read_slot u p slot logical off n w = (w', Done (slice off n (payload (arena w) slot logical))) \<and> arena w' = arena w"
    for u p
  proof -
    have "runs (\<lambda>d s. s = arena w) (read_slot u p slot logical off n)
       (\<lambda>x d s. x = slice off n (payload (arena w) slot logical) \<and> s = arena w)"
      by (rule r_read_slot) (use assms v in auto)
    then show ?thesis using assms(1) unfolding runs_def by blast
  qed
  from this [of True ptr] this [of False ptr'] show ?thesis by blast
qed

section \<open>A created shard opens\<close>

lemma meta_base_header: "apart 0 4096 (meta_base slot) 64"
  by (simp add: apart_def meta_base_def)

lemma write_free_records_ok:
  assumes "layout_ok l" "\<forall>t\<in>set slots. t < slot_count l" "length meta = slot_count l * 64 + 8192" "distinct slots"
  shows "\<exists>m. write_free_records crc32 slots meta = Inr m \<and> length m = length meta \<and> slice 0 4096 m = slice 0 4096 meta \<and>
    (\<forall>t. slice (meta_base t) 64 m = (if t \<in> set slots then slot_encode crc32 free_metadata else slice (meta_base t) 64 meta))"
  using assms
proof (induction slots arbitrary: meta)
  case Nil
  then show ?case by simp
next
  case (Cons slot slots)
  let ?e = "slot_encode crc32 free_metadata"
  let ?m = "file_write meta (meta_base slot) ?e"
  have "(slot + 1) * 64 \<le> slot_count l * 64" using Cons.prems(2) by (intro mult_le_mono1) simp
  then have fits: "meta_base slot + length ?e \<le> length meta"
    using Cons.prems(3) by (simp add: meta_base_def slot_encode_length)
  have lm: "length ?m = slot_count l * 64 + 8192" using length_file_write [OF fits] Cons.prems(3) by simp
  obtain m where m: "write_free_records crc32 slots ?m = Inr m" "length m = length ?m" "slice 0 4096 m = slice 0 4096 ?m"
    "\<forall>t. slice (meta_base t) 64 m = (if t \<in> set slots then ?e else slice (meta_base t) 64 ?m)"
    using Cons.IH [OF Cons.prems(1) _ lm] Cons.prems(2,4) by auto
  have "slice 0 4096 ?m = slice 0 4096 meta"
    using slice_file_write_apart [OF fits] meta_base_header by (simp add: slot_encode_length)
  moreover have "slice (meta_base t) 64 ?m = (if t = slot then ?e else slice (meta_base t) 64 meta)" for t
    using slice_file_write_apart [OF fits, of "meta_base t" 64] slice_file_write_same [OF fits] metas_apart [of slot t]
    by (simp add: slot_encode_length)
  moreover have "metadata_offset slot = Inr (meta_base slot)"
    using metadata_offset_in [OF Cons.prems(1)] Cons.prems(2) by simp
  ultimately show ?case using m length_file_write [OF fits] Cons.prems(4) by auto
qed

lemma page_multiple: "layout_ok l \<Longrightarrow> page_size l mod 4096 = 0"
proof -
  assume ok: "layout_ok l"
  then obtain k where k: "page_size l = 2 ^ k" "65536 \<le> page_size l" by (auto simp: layout_ok_def)
  have "12 \<le> k"
  proof (rule ccontr)
    assume "\<not> 12 \<le> k"
    then have "(2 :: nat) ^ k \<le> 2 ^ 11" by (intro power_increasing) simp_all
    then show False using k by simp
  qed
  then have "(2 :: nat) ^ 12 dvd 2 ^ k" by (rule le_imp_power_dvd)
  then show ?thesis using k(1) by (simp add: dvd_eq_mod_eq_0)
qed

text \<open>C40: for every layout that validates, creating a shard succeeds and opening the two files it wrote
  returns that same shard, on the buffered and on the unbuffered path; every slot starts with an empty
  payload and a metadata record that decodes to the free state of generation zero.  The two files
  together with the allowances are 4096 bytes longer than the declared physical budget, because the
  sidecar has a second header-sized block that the budget does not count.\<close>

theorem shard_create_opens:
  assumes "layout_validate l = Inr ()" "slot_count l \<le> u32_max" "declared_physical_budget l = Inr budget"
  shows "\<exists>s. shard_create crc32 l = Inr s \<and> shard_open crc32 (shard_data s) (shard_meta s) l unbuffered = Inr s \<and>
    (\<forall>slot < slot_count l. slot_decode crc32 (meta_at s slot) = Inr free_metadata \<and>
       payload s slot (page_size l) = zeros (page_size l)) \<and>
    length (shard_data s) + length (shard_meta s) + db_journal_allowance l + filesystem_reserve l = budget + 4096"
proof -
  let ?h = "\<lparr>arena_page_size = page_size l, arena_slot_count = slot_count l\<rparr>"
  let ?len = "slot_count l * page_size l + 4096" and ?mlen = "slot_count l * 64 + 8192"
  have ok: "layout_ok l" using assms(1) by (simp add: layout_validate_eq split: if_splits)
  then have hok: "layout_ok (header_layout ?h)" by (auto simp: layout_ok_def header_layout_def)
  have lens: "logical_shard_bytes l = Inr ?len" "metadata_length l = Inr ?mlen"
    using ok by (auto simp: layout_sizes Let_def metadata_length_def layout_ok_def checked_add64_def ARENA_HEADER_BYTES_def)
  obtain hb where hb: "arena_encode crc32 ?h = Inr hb" "length hb = 4096"
    using hok by (auto simp: arena_encode_def layout_validate_eq codec_simps)
  have dec: "arena_decode crc32 hb = Inr ?h" using arena_encode_decode [OF hb(1)] assms(2) by simp
  let ?data = "file_write (zeros ?len) 0 hb" and ?meta0 = "file_write (zeros ?mlen) 0 hb"
  have d: "length ?data = ?len" "slice 0 4096 ?data = hb" "slice 0 4096 ?meta0 = hb" "length ?meta0 = ?mlen"
    using length_file_write [of 0 hb "zeros ?len"] length_file_write [of 0 hb "zeros ?mlen"]
      slice_file_write_same [of 0 hb "zeros ?len"] slice_file_write_same [of 0 hb "zeros ?mlen"] hb(2) by simp_all
  obtain m where m: "write_free_records crc32 [0..<slot_count l] ?meta0 = Inr m" "length m = ?mlen" "slice 0 4096 m = hb"
    "\<forall>t < slot_count l. slice (meta_base t) 64 m = slot_encode crc32 free_metadata"
    using write_free_records_ok [OF ok, of "[0..<slot_count l]" ?meta0 crc32] d by auto
  let ?s = "\<lparr>shard_layout = l, shard_data = ?data, shard_meta = m, data_dirty = [], meta_dirty = []\<rparr>"
  have "shard_create crc32 l = Inr ?s" using assms(1) lens hb(1) m(1) by (simp add: shard_create_def)
  moreover have "shard_open crc32 ?data m l unbuffered = Inr ?s"
    using assms(1) lens dec d m page_multiple [OF ok] by (simp add: shard_open_def ARENA_HEADER_BYTES_def)
  moreover have "slot_decode crc32 (meta_at ?s slot) = Inr free_metadata" if "slot < slot_count l" for slot
    using m(4) that slot_decode_encode [of free_metadata crc32]
    by (simp add: meta_at_def slot_meta_ok_def free_metadata_def)
  moreover have "payload ?s slot (page_size l) = zeros (page_size l)" if "slot < slot_count l" for slot
  proof -
    have b: "slot_base ?s slot + page_size l \<le> ?len" using slot_offset_in(2) [OF ok that] by (simp add: slot_base_def)
    have "apart (slot_base ?s slot) (page_size l) 0 (length hb)" by (simp add: apart_def slot_base_def hb(2))
    then show ?thesis using slice_file_write_apart [of 0 hb "zeros ?len"] b hb(2)
      by (simp add: payload_def slice_zeros)
  qed
  moreover have "?len + ?mlen + db_journal_allowance l + filesystem_reserve l = budget + 4096"
    using assms(3) by (auto simp: budget_eq Let_def split: if_splits)
  ultimately show ?thesis using d(1) m(2) by (intro exI [of _ ?s]) simp
qed

lemma example_layout_sel [simp]: "page_size example_layout = 65536" "slot_count example_layout = 3"
  by (simp_all add: example_layout_def)

theorem shard_create_opens_witness:
  "layout_validate example_layout = Inr () \<and>
   (\<exists>s. shard_create (\<lambda>_. 0) example_layout = Inr s \<and>
        shard_open (\<lambda>_. 0) (shard_data s) (shard_meta s) example_layout True = Inr s \<and>
        slot_decode (\<lambda>_. 0) (meta_at s 2) = Inr free_metadata)"
  using shard_create_opens [OF example_layout_values(1) _ example_layout_values(3), of "\<lambda>_. 0" True]
  by (auto simp: example_layout_values(1) u32_max_def)

definition example_world :: "fault list \<Rightarrow> World" where
  "example_world fs = \<lparr>cache_db = empty_db, arena = \<lparr>shard_layout = example_layout, shard_data = zeros 200704,
     shard_meta = zeros 8384, data_dirty = [], meta_dirty = []\<rparr>, faults = fs\<rparr>"

lemma example_world_sel: "faults (example_world fs) = fs" "shard_layout (arena (example_world fs)) = example_layout"
  by (simp_all add: example_world_def)

lemma example_shard_wf: "shard_wf (arena (example_world fs))"
proof -
  have "layout_ok example_layout" using example_layout_values(1) by (simp add: layout_validate_eq split: if_splits)
  then show ?thesis by (simp add: shard_wf_def example_world_def)
qed

theorem unbuffered_read_equivalent_witness:
  "\<exists>w1. read_slot True False 1 65536 5 7 (example_world []) =
     (w1, Done (slice 5 7 (payload (arena (example_world [])) 1 65536)))"
  using unbuffered_read_equivalent [of "example_world []" 1 5 7 65536 False True, OF _ example_shard_wf]
  by (auto simp: example_world_sel)

end
