(* ===== verification/Cache_Insert.thy ===== *)
theory Cache_Insert
  imports Arena_Shard
begin

text \<open>Publishing a page in the cache: \<open>mirage-cache/src/insert.rs\<close>, \<open>reserve.rs\<close> and \<open>slot.rs\<close>.  The
  insertion reserves a row, writes and syncs the payload, reads it back and hashes it, and only then
  commits the row; a reservation that is dropped without a commit quarantines its slot.  The hash
  \<open>blake3\<close> and the checksum \<open>crc32\<close> stand for the crates of those names, the test hook of the source is
  a function that may fail at each step, and \<open>unbuffered\<close>, \<open>ptr\<close> select the read path.\<close>

section \<open>Operations\<close>

datatype InsertStep = StepReserved | StepWritten | StepFlushed | StepRehashed | StepMetadataCommitted

datatype InsertOutcome = Inserted CacheSlotRecord | InsertExisting CacheSlotRecord

definition metadata_for :: "CacheSlotRecord \<Rightarrow> SlotState \<Rightarrow> SlotMetadata" where
  "metadata_for r st = \<lparr>generation = rec_generation r, slot_state = st,
     meta_hash = (case rec_hash r of Some h \<Rightarrow> h | None \<Rightarrow> hash_of_bytes (zeros 32)), logical_length = rec_length r\<rparr>"

definition quarantine_and_deallocate :: "(bytes \<Rightarrow> 32 word) \<Rightarrow> CacheSlotRecord \<Rightarrow> unit act" where
  "quarantine_and_deallocate crc32 rec =
     act_bind (act_try (db_call (\<lambda>d. release d rec))) (\<lambda>r. case r of Inl _ \<Rightarrow> act_done () | Inr _ \<Rightarrow>
       let evicting = set_state Evicting rec in
       act_bind (act_try (write_metadata crc32 (slot_index rec) (metadata_for evicting SlotState.Evicting))) (\<lambda>_.
       act_bind (act_try flush_metadata) (\<lambda>_.
       act_bind (act_try (deallocate_slot (slot_index rec))) (\<lambda>r. case r of
           Inr _ \<Rightarrow>
             act_bind (act_try (write_metadata crc32 (slot_index rec) (metadata_for (free_row rec) SlotState.Free))) (\<lambda>_.
             act_bind (act_try flush_metadata) (\<lambda>_.
             act_bind (act_try (db_call (\<lambda>d. finish_deallocation d evicting))) (\<lambda>_. act_done ())))
         | Inl _ \<Rightarrow> act_bind (act_try (db_call (\<lambda>d. mark_retry d evicting))) (\<lambda>_. act_done ())))))"

text \<open>From the reserved row to the commit: the common part of the insertions of one page.\<close>

definition write_and_commit ::
  "(bytes \<Rightarrow> 32 word) \<Rightarrow> (bytes \<Rightarrow> page_hash) \<Rightarrow> (InsertStep \<Rightarrow> unit result) \<Rightarrow> bool \<Rightarrow> bool \<Rightarrow> CacheSlotRecord \<Rightarrow>
   page_hash \<Rightarrow> bytes \<Rightarrow> CommitCacheSlotOutcome act" where
  "write_and_commit crc32 blake3 hook unbuffered ptr rec expected bs =
     act_bind (write_metadata crc32 (slot_index rec) (metadata_for rec SlotState.Reserved)) (\<lambda>_.
     act_bind flush_metadata (\<lambda>_.
     act_bind (act_lift (hook StepReserved)) (\<lambda>_.
     act_bind (write_slot (slot_index rec) bs) (\<lambda>_.
     act_bind (act_lift (hook StepWritten)) (\<lambda>_.
     act_bind shard_flush (\<lambda>_.
     act_bind (act_lift (hook StepFlushed)) (\<lambda>_.
     act_bind (read_slot unbuffered ptr (slot_index rec) (rec_length rec) 0 (length bs)) (\<lambda>verified.
     if blake3 verified \<noteq> expected then act_fail IntegrityMismatch
     else act_bind (act_lift (hook StepRehashed)) (\<lambda>_.
     act_bind (write_metadata crc32 (slot_index rec)
                (metadata_for (set_state CacheSlotState.Resident rec) SlotState.Resident)) (\<lambda>_.
     act_bind flush_metadata (\<lambda>_.
     db_call (\<lambda>d. commit_slot d rec))))))))))))"

text \<open>Another writer committed the page first: the slot of this one is freed.\<close>

definition discard_duplicate :: "(bytes \<Rightarrow> 32 word) \<Rightarrow> bool \<Rightarrow> CacheSlotRecord \<Rightarrow> unit act" where
  "discard_duplicate crc32 retry_is_error rec =
     (let evicting = set_state Evicting rec in
      act_bind (write_metadata crc32 (slot_index rec) (metadata_for evicting SlotState.Evicting)) (\<lambda>_.
      act_bind flush_metadata (\<lambda>_.
      act_bind (act_try (deallocate_slot (slot_index rec))) (\<lambda>r. case r of
          Inr _ \<Rightarrow>
            act_bind (write_metadata crc32 (slot_index rec) (metadata_for (free_row rec) SlotState.Free)) (\<lambda>_.
            act_bind flush_metadata (\<lambda>_. db_call (\<lambda>d. finish_deallocation d evicting)))
        | Inl _ \<Rightarrow>
            act_bind (db_call (\<lambda>d. mark_retry d evicting)) (\<lambda>_.
            if retry_is_error then act_fail CacheFull else act_done ())))))"

text \<open>The reservation guards the body: its destructor runs on every error before the commit.\<close>

definition insert_reserved ::
  "(bytes \<Rightarrow> 32 word) \<Rightarrow> (bytes \<Rightarrow> page_hash) \<Rightarrow> (InsertStep \<Rightarrow> unit result) \<Rightarrow> bool \<Rightarrow> bool \<Rightarrow> bool \<Rightarrow> CacheSlotRecord \<Rightarrow>
   page_hash \<Rightarrow> bytes \<Rightarrow> InsertOutcome act" where
  "insert_reserved crc32 blake3 hook unbuffered ptr retry_is_error rec expected bs =
     act_bind (on_failure (quarantine_and_deallocate crc32 rec)
                (write_and_commit crc32 blake3 hook unbuffered ptr rec expected bs)) (\<lambda>outcome.
       case outcome of
         Committed resident \<Rightarrow>
           act_bind (act_lift (hook StepMetadataCommitted)) (\<lambda>_. act_done (Inserted resident))
       | CommitExisting existing \<Rightarrow>
           act_bind (on_failure (quarantine_and_deallocate crc32 rec) (discard_duplicate crc32 retry_is_error rec))
             (\<lambda>_. act_done (InsertExisting existing)))"

definition insert_page ::
  "(bytes \<Rightarrow> 32 word) \<Rightarrow> (bytes \<Rightarrow> page_hash) \<Rightarrow> (InsertStep \<Rightarrow> unit result) \<Rightarrow> bool \<Rightarrow> bool \<Rightarrow> page_hash \<Rightarrow> bytes \<Rightarrow>
   InsertOutcome act" where
  "insert_page crc32 blake3 hook unbuffered ptr expected bs =
     (if length bs > u32_max then act_fail InvalidArgument
      else act_bind (act_get (\<lambda>w. page_size (shard_layout (arena w)))) (\<lambda>page.
        if length bs = 0 \<or> length bs > page then act_fail InvalidArgument
        else act_bind (db_call (\<lambda>d. reserve d expected (length bs))) (\<lambda>outcome.
          case outcome of
            ReserveExisting existing \<Rightarrow> act_done (InsertExisting existing)
          | ReserveReserved rec \<Rightarrow>
              if shard_id rec \<noteq> 0 then act_fail UnsupportedLayout
              else insert_reserved crc32 blake3 hook unbuffered ptr True rec expected bs)))"

definition insert_reserved_page ::
  "(bytes \<Rightarrow> 32 word) \<Rightarrow> (bytes \<Rightarrow> page_hash) \<Rightarrow> (InsertStep \<Rightarrow> unit result) \<Rightarrow> bool \<Rightarrow> bool \<Rightarrow> CacheSlotRecord \<Rightarrow>
   page_hash \<Rightarrow> bytes \<Rightarrow> InsertOutcome act" where
  "insert_reserved_page crc32 blake3 hook unbuffered ptr rec expected bs =
     act_bind (act_get (\<lambda>w. page_size (shard_layout (arena w)))) (\<lambda>page.
       if rec_state rec \<noteq> CacheSlotState.Reserved \<or> rec_hash rec \<noteq> Some expected \<or> rec_length rec \<noteq> length bs \<or>
          shard_id rec \<noteq> 0 \<or> bs = [] \<or> length bs > page then act_fail InvalidArgument
       else insert_reserved crc32 blake3 hook unbuffered ptr False rec expected bs)"

section \<open>The invariant\<close>

text \<open>A resident row of the table vouches for its payload: the bytes are on stable storage and hash to
  the hash of the row.\<close>

definition payload_ok :: "(bytes \<Rightarrow> page_hash) \<Rightarrow> Shard \<Rightarrow> CacheSlotRecord \<Rightarrow> bool" where
  "payload_ok blake3 s r \<longleftrightarrow> slot_index r < slot_count (shard_layout s) \<and> rec_length r \<le> page_size (shard_layout s) \<and>
     slot_clean s (slot_index r) \<and> rec_hash r = Some (blake3 (payload s (slot_index r) (rec_length r)))"

definition residents :: "CacheDb \<Rightarrow> CacheSlotRecord set" where
  "residents d = set (load_residents d)"

definition cache_inv :: "(bytes \<Rightarrow> page_hash) \<Rightarrow> CacheDb \<Rightarrow> Shard \<Rightarrow> bool" where
  "cache_inv blake3 d s \<longleftrightarrow> slots_wf d \<and> shard_wf s \<and>
     (\<forall>r\<in>residents d. shard_id r = 0 \<longrightarrow> payload_ok blake3 s r)"

definition not_resident :: "CacheDb \<Rightarrow> CacheSlotRecord \<Rightarrow> bool" where
  "not_resident d rec \<longleftrightarrow> (\<forall>r\<in>residents d. slot_key r \<noteq> slot_key rec)"

lemma in_residents: "r \<in> residents d \<longleftrightarrow> r \<in> set (cache_slots d) \<and> rec_state r = CacheSlotState.Resident"
  by (auto simp: residents_def load_residents_def)

lemma cache_inv_crash: "cache_inv blake3 d s \<Longrightarrow> cache_inv blake3 d (crash_shard g s)"
proof -
  assume inv: "cache_inv blake3 d s"
  then have wf: "shard_wf s" by (simp add: cache_inv_def)
  note f = crash_shard_facts [OF wf, where g = g]
  have "payload_ok blake3 (crash_shard g s) r" if "r \<in> residents d" "shard_id r = 0" for r
    using inv that f(2,3) f(5) [of "slot_index r" "rec_length r"] by (auto simp: cache_inv_def payload_ok_def)
  then show ?thesis using inv f(1) by (simp add: cache_inv_def)
qed

lemma cache_inv_shrink: "cache_inv blake3 d s \<Longrightarrow> slots_wf d' \<Longrightarrow> residents d' \<subseteq> residents d \<Longrightarrow> cache_inv blake3 d' s"
  by (auto simp: cache_inv_def)

lemma cache_inv_same_but:
  assumes "cache_inv blake3 d s" "same_but (slot_index rec) s s'" "not_resident d rec" "shard_id rec = 0"
  shows "cache_inv blake3 d s'"
proof -
  have "payload_ok blake3 s' r" if "r \<in> residents d" "shard_id r = 0" for r
  proof -
    have "slot_index r \<noteq> slot_index rec" using that assms(3,4) by (auto simp: not_resident_def slot_key_def)
    then show ?thesis using assms(1,2) that by (auto simp: cache_inv_def payload_ok_def same_but_def)
  qed
  then show ?thesis using assms(1,2) by (auto simp: cache_inv_def same_but_def)
qed

lemma stable_inv:
  assumes "shard_id rec = 0"
  shows "stable (slot_index rec) (\<lambda>d s. cache_inv blake3 d s \<and> not_resident d rec)"
  unfolding stable_def
proof (intro conjI allI impI)
  fix d s assume a: "cache_inv blake3 d s \<and> not_resident d rec"
  show "shard_wf s" using a by (simp add: cache_inv_def)
  show "cache_inv blake3 d s'" if "same_but (slot_index rec) s s'" for s'
    using cache_inv_same_but a that assms by blast
  show "not_resident d rec" using a ..
  show "cache_inv blake3 d (crash_shard g s)" for g using cache_inv_crash a by blast
qed simp_all

section \<open>What the table operations do to the resident rows\<close>

lemma update_one_quiet:
  assumes "update_one d rec P f = Inr d'" "\<And>r. P r \<Longrightarrow> rec_state (f r) \<noteq> CacheSlotState.Resident"
  shows "residents d' \<subseteq> residents d"
proof -
  obtain as r bs where "cache_slots d = as @ r # bs" "P r" "d' = d\<lparr>cache_slots := as @ f r # bs\<rparr>"
    using update_one_Inr [OF assms(1)] by metis
  then show ?thesis using assms(2) [of r] by (auto simp: in_residents)
qed

lemma update_one_key:
  assumes "update_one d rec P f = Inr d'" "slots_wf d" "\<And>r. slot_key (f r) = slot_key r"
    "\<And>r. P r \<Longrightarrow> rec_state (f r) \<noteq> CacheSlotState.Resident"
  shows "not_resident d' rec"
proof -
  obtain as r bs where s: "cache_slots d = as @ r # bs" "slot_key r = slot_key rec" "P r"
    "d' = d\<lparr>cache_slots := as @ f r # bs\<rparr>" using update_one_Inr [OF assms(1)] by metis
  have "distinct (map slot_key (as @ r # bs))"
    using assms(2) s(1) unfolding slots_wf_def sorted_strict_distinct by metis
  then have "\<forall>q\<in>set as \<union> set bs. slot_key q \<noteq> slot_key r" by (force simp: image_iff)
  then show ?thesis using s assms(4) by (auto simp: not_resident_def in_residents)
qed

lemma steps_slots_wf: "db_step\<^sup>*\<^sup>* d d' \<Longrightarrow> slots_wf d \<Longrightarrow> slots_wf d'"
  using db_steps_wf by blast

lemma atomic_update_quiet:
  assumes "\<And>d' x. q = Inr (d', x) \<Longrightarrow> update_one d rec P f = Inr d'"
    "\<And>r. P r \<Longrightarrow> rec_state (f r) \<noteq> CacheSlotState.Resident"
  shows "residents (fst (atomic d q)) \<subseteq> residents d"
proof (cases q)
  case (Inr p)
  obtain d' x where "p = (d', x)" by (metis surj_pair)
  then show ?thesis using Inr assms(1) update_one_quiet [OF _ assms(2)] by (simp add: atomic_def)
qed (simp add: atomic_def)

lemma quiet_ops:
  "residents (fst (release d rec)) \<subseteq> residents d" "residents (fst (begin_eviction d rec)) \<subseteq> residents d"
  "residents (fst (finish_deallocation d rec)) \<subseteq> residents d" "residents (fst (mark_retry d rec)) \<subseteq> residents d"
proof -
  show "residents (fst (release d rec)) \<subseteq> residents d" unfolding release_def transition_to_evicting_def
    by (rule atomic_update_quiet [of _ d rec "\<lambda>r. rec_state r = CacheSlotState.Reserved" "set_state Evicting"]) (auto simp: bind_result_eq_Inr set_state_def)
  show "residents (fst (begin_eviction d rec)) \<subseteq> residents d" unfolding begin_eviction_def
    by (rule atomic_update_quiet [of _ d rec "\<lambda>r. rec_state r = Resident \<and> rec_hash r = rec_hash rec" "set_state Evicting"]) (auto simp: bind_result_eq_Inr set_state_def)
  show "residents (fst (finish_deallocation d rec)) \<subseteq> residents d" unfolding finish_deallocation_def
    by (rule atomic_update_quiet [of _ d rec "\<lambda>r. rec_state r = Evicting \<or> rec_state r = RetryDeallocate" free_row]) (auto simp: bind_result_eq_Inr free_row_def split: if_splits)
  show "residents (fst (mark_retry d rec)) \<subseteq> residents d" unfolding mark_retry_def
    by (rule atomic_update_quiet [of _ d rec "\<lambda>r. rec_state r = Evicting" "set_state RetryDeallocate"]) (auto simp: bind_result_eq_Inr set_state_def)
qed

lemma quiet_ops_inv:
  assumes "cache_inv blake3 d s"
  shows "cache_inv blake3 (fst (release d rec)) s" "cache_inv blake3 (fst (begin_eviction d rec)) s"
    "cache_inv blake3 (fst (finish_deallocation d rec)) s" "cache_inv blake3 (fst (mark_retry d rec)) s"
proof -
  have wf: "slots_wf d" using assms by (simp add: cache_inv_def)
  note steps = single_steps [of d rec, THEN steps_slots_wf, OF wf]
  show "cache_inv blake3 (fst (release d rec)) s" using cache_inv_shrink [OF assms steps(1) quiet_ops(1)] .
  show "cache_inv blake3 (fst (begin_eviction d rec)) s" using cache_inv_shrink [OF assms steps(2) quiet_ops(2)] .
  show "cache_inv blake3 (fst (finish_deallocation d rec)) s" using cache_inv_shrink [OF assms steps(3) quiet_ops(3)] .
  show "cache_inv blake3 (fst (mark_retry d rec)) s" using cache_inv_shrink [OF assms steps(4) quiet_ops(4)] .
qed

section \<open>The insertion keeps the invariant under every fault\<close>

lemma h_try_keep:
  assumes "hoare J m Q J J" "\<And>x d s. Q x d s \<Longrightarrow> J d s"
  shows "hoare J (act_try m) (\<lambda>_. J) F J"
  by (rule h_try) (rule h_conseq [OF assms(1)], use assms(2) in auto)

lemma not_resident_mono: "not_resident d rec \<Longrightarrow> residents d' \<subseteq> residents d \<Longrightarrow> not_resident d' rec"
  by (auto simp: not_resident_def)

definition owned :: "(bytes \<Rightarrow> page_hash) \<Rightarrow> CacheSlotRecord \<Rightarrow> assn" where
  "owned blake3 rec d s \<longleftrightarrow> cache_inv blake3 d s \<and> not_resident d rec"

lemma stable_owned: "shard_id rec = 0 \<Longrightarrow> stable (slot_index rec) (owned blake3 rec)"
  unfolding owned_def [abs_def] by (rule stable_inv)

lemma h_quiet_owned:
  assumes "\<And>d s. cache_inv blake3 d s \<Longrightarrow> cache_inv blake3 (fst (f d)) s" "\<And>d. residents (fst (f d)) \<subseteq> residents d"
  shows "hoare (owned blake3 rec) (db_call f) (\<lambda>_. owned blake3 rec) (owned blake3 rec) (owned blake3 rec)"
proof (rule h_db_call)
  fix d s assume o: "owned blake3 rec d s"
  have n: "owned blake3 rec (fst (f d)) s" using o assms not_resident_mono by (auto simp: owned_def)
  show "owned blake3 rec d s" by (rule o)
  show "owned blake3 rec (fst (f d)) s" by (rule n)
  show "owned blake3 rec d (crash_shard g s)" "owned blake3 rec (fst (f d)) (crash_shard g s)" for g
    using o n cache_inv_crash by (auto simp: owned_def)
  show "owned blake3 rec d' s" if "f d = (d', Inr x)" for d' x using n that by simp
qed

lemmas h_finish_owned = h_quiet_owned [OF quiet_ops_inv(3) quiet_ops(3)]
lemmas h_retry_owned = h_quiet_owned [OF quiet_ops_inv(4) quiet_ops(4)]

lemma h_case_result:
  "(\<And>e. r = Inl e \<Longrightarrow> hoare P (f e) Q F C) \<Longrightarrow> (\<And>x. r = Inr x \<Longrightarrow> hoare P (g x) Q F C) \<Longrightarrow>
   hoare P (case r of Inl e \<Rightarrow> f e | Inr x \<Rightarrow> g x) Q F C"
  by (cases r) simp_all

lemma release_owned: "slots_wf d \<Longrightarrow> release d rec = (d', Inr x) \<Longrightarrow> not_resident d' rec"
  by (auto simp: release_def atomic_def transition_to_evicting_def bind_result_eq_Inr split: sum.splits
      elim!: update_one_key simp: set_state_def slot_key_def)

lemma h_release_try:
  "hoare (cache_inv blake3) (act_try (db_call (\<lambda>d. release d rec)))
     (\<lambda>r d s. cache_inv blake3 d s \<and> ((\<exists>x. r = Inr x) \<longrightarrow> not_resident d rec)) F (cache_inv blake3)"
proof (rule h_try, rule h_db_call)
  fix d s assume i: "cache_inv blake3 d s"
  note q = quiet_ops_inv(1) [OF i, of rec]
  show "\<forall>e. cache_inv blake3 d s \<and> ((\<exists>x. (Inl e :: unit result) = Inr x) \<longrightarrow> not_resident d rec)" using i by simp
  show "\<forall>e. cache_inv blake3 (fst (release d rec)) s \<and>
      ((\<exists>x. (Inl e :: unit result) = Inr x) \<longrightarrow> not_resident (fst (release d rec)) rec)" using q by simp
  show "cache_inv blake3 d (crash_shard g s)" "cache_inv blake3 (fst (release d rec)) (crash_shard g s)" for g
    using i q cache_inv_crash by blast+
  show "cache_inv blake3 d' s \<and> ((\<exists>y. (Inr x :: unit result) = Inr y) \<longrightarrow> not_resident d' rec)"
    if "release d rec = (d', Inr x)" for d' x
    using that q i release_owned [of d rec d' x] by (simp add: cache_inv_def)
qed

lemma h_free_slot:
  assumes z: "shard_id rec = 0"
  shows "hoare (owned blake3 rec)
    (act_bind (act_try (deallocate_slot (slot_index rec))) (\<lambda>r. case r of
        Inr _ \<Rightarrow> act_bind (act_try (write_metadata crc32 (slot_index rec) m1)) (\<lambda>_.
                   act_bind (act_try flush_metadata) (\<lambda>_.
                   act_bind (act_try (db_call (\<lambda>d. finish_deallocation d rec'))) (\<lambda>_. act_done ())))
      | Inl _ \<Rightarrow> act_bind (act_try (db_call (\<lambda>d. mark_retry d rec'))) (\<lambda>_. act_done ())))
    (\<lambda>_. owned blake3 rec) F (owned blake3 rec)"
proof -
  note st = stable_owned [OF z, of blake3]
  note keep = h_try_keep [where J = "owned blake3 rec" and F = F]
  have retry: "hoare (owned blake3 rec) (act_bind (act_try (db_call (\<lambda>d. mark_retry d rec'))) (\<lambda>_. act_done ()))
      (\<lambda>_. owned blake3 rec) F (owned blake3 rec)"
    by (rule h_bind [OF keep [OF h_retry_owned]]) (simp_all add: h_done)
  have "hoare (owned blake3 rec) (act_bind (act_try (db_call (\<lambda>d. finish_deallocation d rec'))) (\<lambda>_. act_done ()))
      (\<lambda>_. owned blake3 rec) F (owned blake3 rec)"
    by (rule h_bind [OF keep [OF h_finish_owned]]) (simp_all add: h_done)
  then have "hoare (owned blake3 rec) (act_bind (act_try flush_metadata) (\<lambda>_.
      act_bind (act_try (db_call (\<lambda>d. finish_deallocation d rec'))) (\<lambda>_. act_done ())))
      (\<lambda>_. owned blake3 rec) F (owned blake3 rec)"
    by (rule h_bind [OF keep [OF h_stable_sync(2) [OF st, folded flush_metadata_def]], rotated]) simp
  then have "hoare (owned blake3 rec) (act_bind (act_try (write_metadata crc32 (slot_index rec) m1)) (\<lambda>_.
      act_bind (act_try flush_metadata) (\<lambda>_.
      act_bind (act_try (db_call (\<lambda>d. finish_deallocation d rec'))) (\<lambda>_. act_done ()))))
      (\<lambda>_. owned blake3 rec) F (owned blake3 rec)"
    by (rule h_bind [OF keep [OF h_stable_write_metadata [OF st]], rotated]) simp
  with retry show ?thesis
    by (intro h_bind [OF keep [OF h_stable_deallocate_slot [OF st]]] h_case_result) simp_all
qed

lemma h_quarantine:
  assumes z: "shard_id rec = 0"
  shows "hoare (cache_inv blake3) (quarantine_and_deallocate crc32 rec) (\<lambda>_. cache_inv blake3) F (cache_inv blake3)"
proof -
  note st = stable_owned [OF z, of blake3]
  note keep = h_try_keep [where J = "owned blake3 rec" and F = F]
  have body: "hoare (owned blake3 rec)
      (act_bind (act_try (write_metadata crc32 (slot_index rec) m0)) (\<lambda>_.
       act_bind (act_try flush_metadata) (\<lambda>_.
       act_bind (act_try (deallocate_slot (slot_index rec))) (\<lambda>r. case r of
           Inr _ \<Rightarrow> act_bind (act_try (write_metadata crc32 (slot_index rec) m1)) (\<lambda>_.
                      act_bind (act_try flush_metadata) (\<lambda>_.
                      act_bind (act_try (db_call (\<lambda>d. finish_deallocation d rec'))) (\<lambda>_. act_done ())))
         | Inl _ \<Rightarrow> act_bind (act_try (db_call (\<lambda>d. mark_retry d rec'))) (\<lambda>_. act_done ())))))
      (\<lambda>_. owned blake3 rec) F (owned blake3 rec)" for m0 m1 rec'
    by (rule h_bind [OF keep [OF h_stable_write_metadata [OF st]]], simp)
      (rule h_bind [OF keep [OF h_stable_sync(2) [OF st], folded flush_metadata_def]], simp, rule h_free_slot [OF z])
  show ?thesis
    unfolding quarantine_and_deallocate_def Let_def
  proof (rule h_bind [OF h_release_try])
    fix r :: "unit result"
    show "hoare (\<lambda>d s. cache_inv blake3 d s \<and> ((\<exists>x. r = Inr x) \<longrightarrow> not_resident d rec))
      (case r of Inl _ \<Rightarrow> act_done () | Inr _ \<Rightarrow>
         act_bind (act_try (write_metadata crc32 (slot_index rec) (metadata_for (set_state Evicting rec) SlotState.Evicting))) (\<lambda>_.
         act_bind (act_try flush_metadata) (\<lambda>_.
         act_bind (act_try (deallocate_slot (slot_index rec))) (\<lambda>r. case r of
             Inl _ \<Rightarrow> act_bind (act_try (db_call (\<lambda>d. mark_retry d (set_state Evicting rec)))) (\<lambda>_. act_done ())
           | Inr _ \<Rightarrow> act_bind (act_try (write_metadata crc32 (slot_index rec) (metadata_for (free_row rec) SlotState.Free))) (\<lambda>_.
                        act_bind (act_try flush_metadata) (\<lambda>_.
                        act_bind (act_try (db_call (\<lambda>d. finish_deallocation d (set_state Evicting rec)))) (\<lambda>_. act_done ())))))))
      (\<lambda>_. cache_inv blake3) F (cache_inv blake3)"
      by (rule h_case_result, rule h_done, simp)
        (rule h_conseq [OF body], auto simp: owned_def)
  qed
qed

lemma slot_key_parts: "slot_key r = slot_key q \<longleftrightarrow> shard_id r = shard_id q \<and> slot_index r = slot_index q"
  by (simp add: slot_key_def)

lemma payload_ok_cong:
  "slot_index r = slot_index q \<Longrightarrow> rec_length r = rec_length q \<Longrightarrow> rec_hash r = rec_hash q \<Longrightarrow>
   payload_ok blake3 s r \<longleftrightarrow> payload_ok blake3 s q"
  by (simp add: payload_ok_def)

lemma publish_row_Inr:
  assumes "publish_row d rec = Inr d'"
  shows "residents d' \<subseteq> insert (set_state Resident rec) (residents d)" "set_state Resident rec \<in> residents d'"
proof -
  obtain as r bs where s: "cache_slots d = as @ r # bs" "slot_key r = slot_key rec" "rec_generation r = rec_generation rec"
    "rec_hash r = rec_hash rec" "rec_length r = rec_length rec" "d' = d\<lparr>cache_slots := as @ set_state Resident r # bs\<rparr>"
    using update_one_Inr [OF assms [unfolded publish_row_def]] by metis
  then have "set_state Resident r = set_state Resident rec" by (simp add: set_state_def slot_key_parts)
  then show "residents d' \<subseteq> insert (set_state Resident rec) (residents d)" "set_state Resident rec \<in> residents d'"
    using s(1,6) by (auto simp: in_residents set_state_def)
qed

text \<open>The state right before the commit: this writer owns the row and its payload is verified.\<close>

definition verified :: "(bytes \<Rightarrow> page_hash) \<Rightarrow> CacheSlotRecord \<Rightarrow> bytes \<Rightarrow> assn" where
  "verified blake3 rec bs d s \<longleftrightarrow> owned blake3 rec d s \<and> payload_ok blake3 s rec \<and>
     payload s (slot_index rec) (length bs) = bs"

lemma commit_slot_cases:
  assumes "slots_wf d" "commit_slot d rec = (d', q)"
  obtains (refused) e where "q = Inl e" "d' = d"
  | (existing) e where "q = Inr (CommitExisting e)" "residents d' \<subseteq> residents d" "not_resident d' rec"
  | (committed) "q = Inr (Committed (set_state Resident rec))" "residents d' \<subseteq> insert (set_state Resident rec) (residents d)"
      "set_state Resident rec \<in> residents d'"
proof -
  have ev: "residents x \<subseteq> residents d \<and> not_resident x rec" if "transition_to_evicting d rec Reserved = Inr x" for x
    using update_one_quiet [OF that [unfolded transition_to_evicting_def]]
      update_one_key [OF that [unfolded transition_to_evicting_def] assms(1)]
    by (auto simp: set_state_def slot_key_def)
  show thesis using assms(2) that ev publish_row_Inr
    unfolding commit_slot_def atomic_def bind_result_def
    by (auto split: sum.splits option.splits)
qed

lemma commit_slot_inv:
  assumes v: "verified blake3 rec bs d s"
  shows "cache_inv blake3 (fst (commit_slot d rec)) s"
    "commit_slot d rec = (d', Inr (CommitExisting e)) \<Longrightarrow> owned blake3 rec d' s"
    "commit_slot d rec = (d', Inr (Committed r)) \<Longrightarrow> r = set_state Resident rec \<and> r \<in> residents d'"
proof -
  have inv: "cache_inv blake3 d s" "not_resident d rec" and wf: "slots_wf d" and ok: "payload_ok blake3 s rec"
    using v by (auto simp: verified_def owned_def cache_inv_def)
  obtain x q where c: "commit_slot d rec = (x, q)" by (metis surj_pair)
  have wf': "slots_wf x" using steps_slots_wf [OF commit_slot_steps wf] c by (metis fst_conv)
  have "cache_inv blake3 x s"
    using wf c
  proof (cases rule: commit_slot_cases)
    case committed
    have "payload_ok blake3 s (set_state Resident rec)" using ok by (simp add: payload_ok_def set_state_def)
    then show ?thesis using inv(1) wf' committed(2) by (auto simp: cache_inv_def)
  qed (use inv(1) wf' in \<open>auto intro: cache_inv_shrink\<close>)
  then show "cache_inv blake3 (fst (commit_slot d rec)) s" using c by simp
  show "owned blake3 rec d' s" if "commit_slot d rec = (d', Inr (CommitExisting e))"
    using wf that
  proof (cases rule: commit_slot_cases)
    case (existing e')
    then show ?thesis using \<open>cache_inv blake3 x s\<close> c that by (simp add: owned_def)
  qed simp_all
  show "r = set_state Resident rec \<and> r \<in> residents d'" if "commit_slot d rec = (d', Inr (Committed r))"
    using wf that by (cases rule: commit_slot_cases) auto
qed

lemma reserve_facts:
  assumes wf: "slots_wf d"
  shows "residents (fst (reserve d h len)) \<subseteq> residents d"
    "reserve d h len = (d', Inr (ReserveReserved rec)) \<Longrightarrow>
       not_resident d' rec \<and> rec_hash rec = Some h \<and> rec_length rec = len \<and> rec_state rec = Reserved"
proof -
  have sorted: "sorted_wrt (<) (map slot_key (cache_slots d))" using wf by (simp add: slots_wf_def)
  have c: "residents (fst (claim_row d free g h len)) \<subseteq> residents d \<and>
      not_resident (fst (claim_row d free g h len)) (claim g h len free)"
    if f: "find (\<lambda>r. rec_state r = Free) (cache_slots d) = Some free" for free g
  proof -
    have free: "free \<in> set (cache_slots d)" "rec_state free = Free" using f by (auto simp: find_Some_iff)
    obtain as bs where s: "cache_slots d = as @ free # bs"
      "claim_row d free g h len = (d\<lparr>cache_slots := as @ claim g h len free # bs\<rparr>, 1)"
      using claim_row_eq [OF sorted free] by metis
    have "distinct (map slot_key (as @ free # bs))" using sorted s(1) unfolding sorted_strict_distinct by metis
    then have "\<forall>q\<in>set as \<union> set bs. slot_key q \<noteq> slot_key free" by (force simp: image_iff)
    then show ?thesis using s by (auto simp: in_residents not_resident_def claim_def slot_key_def)
  qed
  show "residents (fst (reserve d h len)) \<subseteq> residents d"
    using c by (auto simp: reserve_def split: option.splits sum.splits)
  show "not_resident d' rec \<and> rec_hash rec = Some h \<and> rec_length rec = len \<and> rec_state rec = Reserved"
    if "reserve d h len = (d', Inr (ReserveReserved rec))"
    using that c by (auto simp: reserve_def claim_def split: option.splits sum.splits if_splits)
qed

lemma stable_weaken:
  assumes "stable slot J" "hoare J m Q J J" "\<And>d s. J d s \<Longrightarrow> F d s"
  shows "hoare J m Q F F"
  by (rule h_conseq [OF assms(2)]) (use assms(3) in auto)

text \<open>Writing, syncing and reading back establishes \<open>verified\<close>.\<close>

definition written :: "(bytes \<Rightarrow> page_hash) \<Rightarrow> CacheSlotRecord \<Rightarrow> bytes \<Rightarrow> assn" where
  "written blake3 rec bs d s \<longleftrightarrow> owned blake3 rec d s \<and> payload s (slot_index rec) (length bs) = bs \<and>
     slot_index rec < slot_count (shard_layout s) \<and> length bs \<le> page_size (shard_layout s)"

lemma owned_inv: "owned blake3 rec d s \<Longrightarrow> cache_inv blake3 d s"
  by (simp add: owned_def)

lemma owned_wf: "owned blake3 rec d s \<Longrightarrow> shard_wf s"
  by (simp add: owned_def cache_inv_def)

lemma owned_crash: "owned blake3 rec d s \<Longrightarrow> owned blake3 rec d (crash_shard g s)"
  by (simp add: owned_def cache_inv_crash)

lemma h_sync_written:
  assumes z: "shard_id rec = 0"
  shows "hoare (written blake3 rec bs) shard_flush
    (\<lambda>_ d s. written blake3 rec bs d s \<and> slot_clean s (slot_index rec)) (cache_inv blake3) (cache_inv blake3)"
  unfolding shard_flush_def sync_data_def
proof (rule h_shard_call)
  fix d s assume w: "written blake3 rec bs d s"
  then have o: "owned blake3 rec d s" by (simp add: written_def)
  have "owned blake3 rec d (s\<lparr>data_dirty := []\<rparr>)"
    using stableD(2) [OF stable_owned [OF z] o] sync_same_but(1) [OF owned_wf [OF o]] by blast
  then show "written blake3 rec bs d (s\<lparr>data_dirty := []\<rparr>) \<and> slot_clean (s\<lparr>data_dirty := []\<rparr>) (slot_index rec)"
    using w by (simp add: written_def payload_def slot_base_def slot_clean_def)
  show "cache_inv blake3 d s" "cache_inv blake3 d (crash_shard g s)" for g
    using o owned_inv cache_inv_crash by blast+
qed

lemma verified_put_meta:
  assumes z: "shard_id rec = 0" and v: "verified blake3 rec bs d s"
    and m: "slot_index rec < slot_count (shard_layout s)" "length cs \<le> 64"
  shows "verified blake3 rec bs d (put_meta (meta_base (slot_index rec)) 64 cs s)"
proof -
  have o: "owned blake3 rec d s" using v by (simp add: verified_def)
  note p = put_meta_same_but [OF owned_wf [OF o] m]
  have "owned blake3 rec d (put_meta (meta_base (slot_index rec)) 64 cs s)"
    using stableD(2) [OF stable_owned [OF z] o p(1)] .
  moreover have "shard_layout (put_meta (meta_base (slot_index rec)) 64 cs s) = shard_layout s"
    by (simp add: put_meta_def)
  ultimately show ?thesis using v p(2,4) by (simp add: verified_def payload_ok_def)
qed

lemma verified_inv: "verified blake3 rec bs d s \<Longrightarrow> cache_inv blake3 d s"
  by (simp add: verified_def owned_def)

lemma h_meta_verified:
  assumes z: "shard_id rec = 0"
  shows "hoare (verified blake3 rec bs) (write_metadata crc32 (slot_index rec) m) (\<lambda>_. verified blake3 rec bs)
      (cache_inv blake3) (cache_inv blake3)"
    "hoare (verified blake3 rec bs) flush_metadata (\<lambda>_. verified blake3 rec bs) (cache_inv blake3) (cache_inv blake3)"
proof -
  show "hoare (verified blake3 rec bs) (write_metadata crc32 (slot_index rec) m) (\<lambda>_. verified blake3 rec bs)
      (cache_inv blake3) (cache_inv blake3)"
  proof (rule h_write_metadata)
    fix d s assume v: "verified blake3 rec bs d s"
    show "shard_wf s" "cache_inv blake3 d s" using v owned_wf verified_inv by (auto simp: verified_def)
    assume slot: "slot_index rec < slot_count (shard_layout s)"
    show "cache_inv blake3 d (put_meta (meta_base (slot_index rec)) 64 cs s) \<and>
        (\<forall>g. cache_inv blake3 d (crash_shard g (put_meta (meta_base (slot_index rec)) 64 cs s)))"
      if "length cs \<le> 64" for cs
      using verified_inv [OF verified_put_meta [OF z v slot that]] cache_inv_crash by blast
    show "verified blake3 rec bs d (put_meta (meta_base (slot_index rec)) 64 (slot_encode crc32 m) s)"
      using verified_put_meta [OF z v slot] by (simp add: slot_encode_length)
  qed
  show "hoare (verified blake3 rec bs) flush_metadata (\<lambda>_. verified blake3 rec bs) (cache_inv blake3) (cache_inv blake3)"
    unfolding flush_metadata_def sync_meta_def
  proof (rule h_shard_call)
    fix d s assume v: "verified blake3 rec bs d s"
    then have o: "owned blake3 rec d s" by (simp add: verified_def)
    have "owned blake3 rec d (s\<lparr>meta_dirty := []\<rparr>)"
      using stableD(2) [OF stable_owned [OF z] o] sync_same_but(2) [OF owned_wf [OF o]] by blast
    then show "verified blake3 rec bs d (s\<lparr>meta_dirty := []\<rparr>)"
      using v by (simp add: verified_def payload_ok_def payload_def slot_base_def slot_clean_def)
    show "cache_inv blake3 d s" "cache_inv blake3 d (crash_shard g s)" for g
      using v verified_inv cache_inv_crash by blast+
  qed
qed

definition commit_post :: "(bytes \<Rightarrow> page_hash) \<Rightarrow> CacheSlotRecord \<Rightarrow> bytes \<Rightarrow> CommitCacheSlotOutcome \<Rightarrow> assn" where
  "commit_post blake3 rec bs out d s \<longleftrightarrow> (case out of
     Committed r \<Rightarrow> cache_inv blake3 d s \<and> r = set_state Resident rec \<and> r \<in> residents d \<and>
       payload s (slot_index rec) (length bs) = bs
   | CommitExisting _ \<Rightarrow> owned blake3 rec d s)"

lemma h_commit:
  "hoare (verified blake3 rec bs) (db_call (\<lambda>d. commit_slot d rec)) (commit_post blake3 rec bs)
     (cache_inv blake3) (cache_inv blake3)"
proof (rule h_db_call)
  fix d s assume v: "verified blake3 rec bs d s"
  note c = commit_slot_inv [OF v]
  show "cache_inv blake3 d s" "cache_inv blake3 (fst (commit_slot d rec)) s" using verified_inv [OF v] c(1) by blast+
  then show "cache_inv blake3 d (crash_shard g s)" "cache_inv blake3 (fst (commit_slot d rec)) (crash_shard g s)" for g
    using cache_inv_crash by blast+
  show "commit_post blake3 rec bs x d' s" if "commit_slot d rec = (d', Inr x)" for x d'
    using that c(1) c(2) [of d'] c(3) [of d'] v by (cases x) (auto simp: commit_post_def verified_def)
qed

lemma h_hook: "(\<And>d s. P d s \<Longrightarrow> F d s) \<Longrightarrow> hoare P (act_lift r) (\<lambda>_. P) F C"
  by (rule h_lift)

lemma h_write_and_commit:
  assumes z: "shard_id rec = 0" and h: "rec_hash rec = Some expected" and len: "rec_length rec = length bs"
  shows "hoare (owned blake3 rec) (write_and_commit crc32 blake3 hook unbuffered ptr rec expected bs)
    (commit_post blake3 rec bs) (cache_inv blake3) (cache_inv blake3)"
proof -
  note st = stable_owned [OF z, of blake3]
  note keep = stable_weaken [OF st _ owned_inv]
  let ?I = "cache_inv blake3" and ?slot = "slot_index rec"
  have meta: "hoare (owned blake3 rec) (write_metadata crc32 ?slot m) (\<lambda>_. owned blake3 rec) ?I ?I" for m
    by (rule h_post [OF keep [OF h_stable_write_metadata [OF st]]]) (simp_all add: owned_inv)
  have flush: "hoare (owned blake3 rec) flush_metadata (\<lambda>_. owned blake3 rec) ?I ?I"
    unfolding flush_metadata_def by (rule h_post [OF keep [OF h_stable_sync(2) [OF st]]]) (simp_all add: owned_inv)
  have payload: "hoare (owned blake3 rec) (write_slot ?slot bs) (\<lambda>_. written blake3 rec bs) ?I ?I"
    by (rule h_post [OF keep [OF h_stable_write_slot [OF st]]]) (simp_all add: written_def owned_inv)
  have w_inv: "written blake3 rec bs d s \<Longrightarrow> cache_inv blake3 d s" for d s by (simp add: written_def owned_def)
  let ?W = "\<lambda>d s. written blake3 rec bs d s \<and> slot_clean s ?slot"
  have read: "hoare ?W (read_slot unbuffered ptr ?slot (rec_length rec) 0 (length bs))
      (\<lambda>v d s. ?W d s \<and> v = payload s ?slot (length bs)) ?I ?I"
    by (rule h_post [OF h_read_slot])
      (use w_inv cache_inv_crash in \<open>auto simp: written_def owned_def cache_inv_def payload_def\<close>)
  have ver: "verified blake3 rec bs d s" if "?W d s" "blake3 (payload s ?slot (length bs)) = expected" for d s
    using that h len by (auto simp: verified_def written_def payload_ok_def)
  have tail: "hoare (\<lambda>d s. ?W d s \<and> v = payload s ?slot (length bs))
     (if blake3 v \<noteq> expected then act_fail IntegrityMismatch
      else act_bind (act_lift (hook StepRehashed)) (\<lambda>_.
        act_bind (write_metadata crc32 ?slot (metadata_for (set_state Resident rec) SlotState.Resident)) (\<lambda>_.
        act_bind flush_metadata (\<lambda>_. db_call (\<lambda>d. commit_slot d rec)))))
     (commit_post blake3 rec bs) ?I ?I" for v
  proof (rule h_if)
    assume "blake3 v \<noteq> expected"
    show "hoare (\<lambda>d s. ?W d s \<and> v = payload s ?slot (length bs)) (act_fail IntegrityMismatch)
        (commit_post blake3 rec bs) ?I ?I" by (rule h_fail) (use w_inv in blast)
  next
    assume "\<not> blake3 v \<noteq> expected"
    then show "hoare (\<lambda>d s. ?W d s \<and> v = payload s ?slot (length bs))
      (act_bind (act_lift (hook StepRehashed)) (\<lambda>_.
        act_bind (write_metadata crc32 ?slot (metadata_for (set_state Resident rec) SlotState.Resident)) (\<lambda>_.
        act_bind flush_metadata (\<lambda>_. db_call (\<lambda>d. commit_slot d rec)))))
      (commit_post blake3 rec bs) ?I ?I"
      by (intro h_pre [OF h_bind [OF h_hook h_bind [OF h_meta_verified(1) [OF z] h_bind [OF h_meta_verified(2) [OF z] h_commit]]]])
        (use ver verified_inv in blast)+
  qed
  show ?thesis unfolding write_and_commit_def
    by (rule h_bind [OF meta], rule h_bind [OF flush], rule h_bind [OF h_hook], erule owned_inv,
        rule h_bind [OF payload], rule h_bind [OF h_hook], erule w_inv, rule h_bind [OF h_sync_written [OF z]],
        rule h_bind [OF h_hook], use w_inv in blast, rule h_bind [OF read], rule tail)
qed

lemma h_discard_duplicate:
  assumes z: "shard_id rec = 0"
  shows "hoare (owned blake3 rec) (discard_duplicate crc32 err rec) (\<lambda>_. cache_inv blake3) (cache_inv blake3) (cache_inv blake3)"
proof -
  note st = stable_owned [OF z, of blake3]
  note keep = stable_weaken [OF st _ owned_inv]
  let ?I = "cache_inv blake3" and ?slot = "slot_index rec"
  have meta: "hoare (owned blake3 rec) (write_metadata crc32 ?slot m) (\<lambda>_. owned blake3 rec) ?I ?I" for m
    by (rule h_post [OF keep [OF h_stable_write_metadata [OF st]]]) (simp_all add: owned_inv)
  have flush: "hoare (owned blake3 rec) flush_metadata (\<lambda>_. owned blake3 rec) ?I ?I"
    unfolding flush_metadata_def by (rule h_post [OF keep [OF h_stable_sync(2) [OF st]]]) (simp_all add: owned_inv)
  have dealloc: "hoare (owned blake3 rec) (act_try (deallocate_slot ?slot)) (\<lambda>_. owned blake3 rec) ?I ?I"
    by (rule h_conseq [OF h_try_keep [OF h_stable_deallocate_slot [OF st]]]) (auto intro: owned_inv)
  have fin: "hoare (owned blake3 rec) (db_call (\<lambda>d. finish_deallocation d r)) (\<lambda>_. ?I) ?I ?I" for r
    by (rule h_conseq [OF h_finish_owned]) (auto intro: owned_inv)
  have retry: "hoare (owned blake3 rec) (db_call (\<lambda>d. mark_retry d r)) (\<lambda>_. ?I) ?I ?I" for r
    by (rule h_conseq [OF h_retry_owned]) (auto intro: owned_inv)
  show ?thesis unfolding discard_duplicate_def Let_def
    by (intro h_bind [OF meta] h_bind [OF flush] h_bind [OF dealloc] h_case_result h_bind [OF retry] fin h_if)
      (auto intro: h_fail h_done)
qed

definition insert_post :: "(bytes \<Rightarrow> page_hash) \<Rightarrow> page_hash \<Rightarrow> bytes \<Rightarrow> InsertOutcome \<Rightarrow> assn" where
  "insert_post blake3 expected bs out d s \<longleftrightarrow> cache_inv blake3 d s \<and> (case out of
     Inserted r \<Rightarrow> r \<in> residents d \<and> rec_hash r = Some expected \<and> rec_length r = length bs \<and> shard_id r = 0 \<and>
       payload s (slot_index r) (length bs) = bs
   | InsertExisting _ \<Rightarrow> True)"

lemma h_insert_reserved:
  assumes z: "shard_id rec = 0" and h: "rec_hash rec = Some expected" and len: "rec_length rec = length bs"
  shows "hoare (owned blake3 rec) (insert_reserved crc32 blake3 hook unbuffered ptr err rec expected bs)
    (insert_post blake3 expected bs) (cache_inv blake3) (cache_inv blake3)"
  unfolding insert_reserved_def
proof (rule h_bind)
  let ?I = "cache_inv blake3"
  show "hoare (owned blake3 rec) (on_failure (quarantine_and_deallocate crc32 rec)
      (write_and_commit crc32 blake3 hook unbuffered ptr rec expected bs)) (commit_post blake3 rec bs) ?I ?I"
    by (rule h_on_failure [OF h_write_and_commit [OF assms] h_quarantine [OF z]])
  fix out
  show "hoare (commit_post blake3 rec bs out) (case out of
         Committed resident \<Rightarrow> act_bind (act_lift (hook StepMetadataCommitted)) (\<lambda>_. act_done (Inserted resident))
       | CommitExisting existing \<Rightarrow>
           act_bind (on_failure (quarantine_and_deallocate crc32 rec) (discard_duplicate crc32 err rec))
             (\<lambda>_. act_done (InsertExisting existing))) (insert_post blake3 expected bs) ?I ?I"
  proof (cases out)
    case (Committed r)
    then show ?thesis using assms
      by (auto simp: commit_post_def insert_post_def set_state_def intro!: h_bind [OF h_hook] h_done)
  next
    case (CommitExisting e)
    have "hoare (owned blake3 rec) (on_failure (quarantine_and_deallocate crc32 rec) (discard_duplicate crc32 err rec))
        (\<lambda>_. ?I) ?I ?I"
      by (rule h_on_failure [OF h_discard_duplicate [OF z] h_quarantine [OF z]])
    then show ?thesis using CommitExisting
      by (auto simp: commit_post_def [abs_def] insert_post_def intro!: h_bind h_done)
  qed
qed

lemma reserve_owned:
  assumes "cache_inv blake3 d s"
  shows "cache_inv blake3 (fst (reserve d h len)) s"
    "reserve d h len = (d', Inr (ReserveReserved rec)) \<Longrightarrow> owned blake3 rec d' s \<and> rec_hash rec = Some h \<and> rec_length rec = len"
proof -
  have wf: "slots_wf d" using assms by (simp add: cache_inv_def)
  show i: "cache_inv blake3 (fst (reserve d h len)) s"
    using cache_inv_shrink [OF assms steps_slots_wf [OF reserve_steps [OF wf] wf] reserve_facts(1) [OF wf]] .
  show "owned blake3 rec d' s \<and> rec_hash rec = Some h \<and> rec_length rec = len"
    if "reserve d h len = (d', Inr (ReserveReserved rec))"
    using that i reserve_facts(2) [OF wf that] by (simp add: owned_def)
qed

lemma h_insert_page:
  "hoare (cache_inv blake3) (insert_page crc32 blake3 hook unbuffered ptr expected bs)
     (insert_post blake3 expected bs) (cache_inv blake3) (cache_inv blake3)"
proof -
  let ?I = "cache_inv blake3"
  let ?R = "\<lambda>out d s. ?I d s \<and> (\<forall>rec. out = ReserveReserved rec \<longrightarrow>
      owned blake3 rec d s \<and> rec_hash rec = Some expected \<and> rec_length rec = length bs)"
  have res: "hoare ?I (db_call (\<lambda>d. reserve d expected (length bs))) ?R ?I ?I"
  proof (rule h_db_call)
    fix d s assume i: "?I d s"
    note r = reserve_owned [OF i]
    show "?I d s" "?I (fst (reserve d expected (length bs))) s" using i r(1) by blast+
    then show "?I d (crash_shard g s)" "?I (fst (reserve d expected (length bs))) (crash_shard g s)" for g
      using cache_inv_crash by blast+
    show "?R x d' s" if "reserve d expected (length bs) = (d', Inr x)" for x d'
      using that r(1) [of expected "length bs"] r(2) [of expected "length bs" d'] by auto
  qed
  have cont: "hoare (?R out) (case out of
            ReserveExisting existing \<Rightarrow> act_done (InsertExisting existing)
          | ReserveReserved rec \<Rightarrow>
              if shard_id rec \<noteq> 0 then act_fail UnsupportedLayout
              else insert_reserved crc32 blake3 hook unbuffered ptr True rec expected bs)
      (insert_post blake3 expected bs) ?I ?I" for out
  proof (cases out)
    case (ReserveReserved rec)
    show ?thesis
    proof (cases "shard_id rec = 0 \<and> rec_hash rec = Some expected \<and> rec_length rec = length bs")
      case True
      then have "hoare (owned blake3 rec) (insert_reserved crc32 blake3 hook unbuffered ptr True rec expected bs)
          (insert_post blake3 expected bs) ?I ?I" using h_insert_reserved by blast
      then show ?thesis using True ReserveReserved by (auto elim!: h_pre)
    next
      case False
      then show ?thesis using ReserveReserved by (auto intro!: h_fail intro: h_false)
    qed
  qed (auto simp: insert_post_def intro!: h_done)
  show ?thesis unfolding insert_page_def
    by (intro h_if h_fail h_bind [OF h_get [of _ "\<lambda>_. ?I"]] h_bind [OF res cont]) simp_all
qed

text \<open>C1: publishing a page is crash safe.  From a consistent cache, under every script of I/O errors,
  torn writes, ambiguous transactions, failing hooks and a crash at any access, \<open>insert_page\<close> leaves a
  consistent cache: every resident row still has its payload on stable storage with the right hash
  (so no row is ever published before its bytes are durable and verified, and no other page is
  disturbed).  When it reports an insertion, the row is resident, the slot holds exactly the given
  bytes, and they hash to the expected hash.\<close>

theorem insert_page_crash_safe:
  assumes "cache_inv blake3 (cache_db w) (arena w)"
  shows "case insert_page crc32 blake3 hook unbuffered ptr expected bs w of (w', r) \<Rightarrow>
    cache_inv blake3 (cache_db w') (arena w') \<and>
    (case r of Done (Inserted row) \<Rightarrow> row \<in> residents (cache_db w') \<and> rec_hash row = Some expected \<and>
        payload (arena w') (slot_index row) (rec_length row) = bs \<and> blake3 bs = expected
     | _ \<Rightarrow> True)"
proof -
  obtain w' r where m: "insert_page crc32 blake3 hook unbuffered ptr expected bs w = (w', r)" by (metis surj_pair)
  note e = hoareD [OF h_insert_page assms m]
  have inv: "cache_inv blake3 (cache_db w') (arena w')" using e by (cases r) (auto simp: insert_post_def)
  have "row \<in> residents (cache_db w') \<and> rec_hash row = Some expected \<and>
      payload (arena w') (slot_index row) (rec_length row) = bs \<and> blake3 bs = expected"
    if "r = Done (Inserted row)" for row
  proof -
    have p: "row \<in> residents (cache_db w')" "rec_hash row = Some expected" "rec_length row = length bs"
      "shard_id row = 0" "payload (arena w') (slot_index row) (length bs) = bs"
      using e that by (simp_all add: insert_post_def)
    then have "payload_ok blake3 (arena w') row" using inv by (simp add: cache_inv_def)
    then show ?thesis using p by (simp add: payload_ok_def)
  qed
  then show ?thesis using m inv by (auto split: ending.splits InsertOutcome.splits)
qed

section \<open>The insertion succeeds\<close>

lemma update_one_ok:
  assumes "slots_wf d" "r \<in> set (cache_slots d)" "slot_key r = slot_key rec" "rec_generation r = rec_generation rec" "P r"
  shows "\<exists>d'. update_one d rec P f = Inr d'"
proof -
  let ?Q = "\<lambda>q. slot_key q = slot_key rec \<and> int (rec_generation q) = int (rec_generation rec) \<and> P q"
  obtain as bs where s: "cache_slots d = as @ r # bs" using assms(2) by (meson split_list)
  have "distinct (map slot_key (as @ r # bs))"
    using assms(1) s unfolding slots_wf_def sorted_strict_distinct by metis
  then have "filter ?Q as = []" "filter ?Q bs = []" using assms(3) by (force simp: filter_empty_conv image_iff)+
  then have "length (filter ?Q (cache_slots d)) = 1" using s assms(3-5) by simp
  moreover have "int (rec_generation rec) \<le> i64_max"
    using assms(1,2,4) by (auto simp: slots_wf_def list_all_iff row_ok_def)
  ultimately show ?thesis by (simp add: update_one_def sqlite_integer_def update_rows_def Let_def)
qed

definition reserved_row :: "CacheSlotRecord \<Rightarrow> CacheDb \<Rightarrow> bool" where
  "reserved_row rec d \<longleftrightarrow> slots_wf d \<and> rec \<in> set (cache_slots d) \<and> rec_state rec = Reserved \<and>
     query_hash d (the (rec_hash rec)) Resident = None"

lemma commit_reserved: "reserved_row rec d \<Longrightarrow> \<exists>d'. commit_slot d rec = (d', Inr (Committed (set_state Resident rec)))"
proof -
  assume r: "reserved_row rec d"
  then have ok: "row_ok rec" by (auto simp: reserved_row_def slots_wf_def list_all_iff)
  have "\<exists>d'. publish_row d rec = Inr d'" unfolding publish_row_def
    by (rule update_one_ok [of d rec rec]) (use r in \<open>auto simp: reserved_row_def\<close>)
  then obtain d' where "publish_row d rec = Inr d'" ..
  then show ?thesis using r ok by (auto simp: commit_slot_def atomic_def require_def reserved_row_def row_ok_def)
qed

lemma reserve_free:
  assumes wf: "slots_wf d" and q: "query_hash d h Resident = None" and len: "0 < len"
    and f: "find (\<lambda>r. rec_state r = Free) (cache_slots d) = Some free" "int (Suc (rec_generation free)) \<le> i64_max"
      "slot_index free \<le> u32_max"
  shows "\<exists>rec. snd (reserve d h len) = Inr (ReserveReserved rec) \<and> reserved_row rec (fst (reserve d h len)) \<and>
    rec_hash rec = Some h \<and> rec_length rec = len \<and> shard_id rec = shard_id free \<and> slot_index rec = slot_index free"
proof -
  have free: "free \<in> set (cache_slots d)" "rec_state free = Free" using f(1) by (auto simp: find_Some_iff)
  let ?g = "Suc (rec_generation free)" and ?rec = "claim (Suc (rec_generation free)) h len free"
  have "?g \<le> u64_max" using f(2) by (simp add: i64_max_def u64_max_def)
  then have g: "next_generation free = Inr ?g"
    using f(2) by (simp add: next_generation_def checked_add64_def sqlite_integer_def)
  have "sorted_wrt (<) (map slot_key (cache_slots d))" using wf by (simp add: slots_wf_def)
  then obtain as bs where s: "cache_slots d = as @ free # bs"
    "claim_row d free ?g h len = (d\<lparr>cache_slots := as @ ?rec # bs\<rparr>, 1)" using claim_row_eq [of d free] free by metis
  have r: "reserve d h len = (d\<lparr>cache_slots := as @ ?rec # bs\<rparr>, Inr (ReserveReserved ?rec))"
    using len q f g s(2) by (simp add: reserve_def)
  have "query_hash (d\<lparr>cache_slots := as @ ?rec # bs\<rparr>) h Resident = None"
    using q s(1) by (auto simp: query_hash_None claim_def)
  moreover have "slots_wf (d\<lparr>cache_slots := as @ ?rec # bs\<rparr>)"
    using steps_slots_wf [OF reserve_steps [OF wf, of h len] wf] r by simp
  ultimately show ?thesis using r by (auto simp: reserved_row_def claim_def)
qed

definition in_shard :: "CacheSlotRecord \<Rightarrow> bytes \<Rightarrow> Shard \<Rightarrow> bool" where
  "in_shard rec bs s \<longleftrightarrow> shard_wf s \<and> slot_index rec < slot_count (shard_layout s) \<and> length bs \<le> page_size (shard_layout s)"

lemma in_shard_same_but: "in_shard rec bs s \<Longrightarrow> same_but slot s s' \<Longrightarrow> in_shard rec bs s'"
  by (simp add: in_shard_def same_but_def)

lemma in_shard_puts:
  assumes "in_shard rec bs s"
  shows "length cs \<le> 64 \<Longrightarrow> in_shard rec bs (put_meta (meta_base (slot_index rec)) 64 cs s)"
    "in_shard rec bs (put_data (slot_base s (slot_index rec)) (length bs) bs s)"
    "in_shard rec bs (s\<lparr>data_dirty := []\<rparr>)" "in_shard rec bs (s\<lparr>meta_dirty := []\<rparr>)"
proof -
  have wf: "shard_wf s" "slot_index rec < slot_count (shard_layout s)" using assms by (simp_all add: in_shard_def)
  show "in_shard rec bs (put_meta (meta_base (slot_index rec)) 64 cs s)" if "length cs \<le> 64"
    using in_shard_same_but [OF assms put_meta_same_but(1) [OF wf that]] .
  show "in_shard rec bs (put_data (slot_base s (slot_index rec)) (length bs) bs s)"
    using in_shard_same_but [OF assms put_data_same_but(1) [OF wf]] assms by (simp add: in_shard_def)
  show "in_shard rec bs (s\<lparr>data_dirty := []\<rparr>)" "in_shard rec bs (s\<lparr>meta_dirty := []\<rparr>)"
    using assms by (simp_all add: in_shard_def shard_wf_def)
qed

lemma put_data_payload:
  assumes "in_shard rec bs s"
  shows "slice (slot_base s (slot_index rec)) (length bs)
    (shard_data (put_data (slot_base s (slot_index rec)) (length bs) bs s)) = bs"
  using assms slot_in_data [of s "slot_index rec"] slice_file_write_same [of "slot_base s (slot_index rec)" bs "shard_data s"]
  by (simp add: in_shard_def put_data_def)

lemma r_write_and_commit:
  assumes len: "rec_length rec = length bs" "bs \<noteq> []" and h: "blake3 bs = expected"
    and hook: "\<And>step. hook step = Inr ()"
  shows "runs (\<lambda>d s. reserved_row rec d \<and> in_shard rec bs s)
    (write_and_commit crc32 blake3 hook unbuffered ptr rec expected bs) (\<lambda>out d s. out = Committed (set_state Resident rec))"
proof -
  let ?slot = "slot_index rec"
  let ?G = "\<lambda>d s. reserved_row rec d \<and> in_shard rec bs s"
  let ?W = "\<lambda>d s. ?G d s \<and> slice (slot_base s ?slot) (length bs) (shard_data s) = bs"
  have meta: "runs ?G (write_metadata crc32 ?slot m) (\<lambda>_. ?G)" for m
    by (rule r_write_metadata) (use in_shard_puts(1) in \<open>auto simp: in_shard_def slot_encode_length\<close>)
  have flush: "runs ?G flush_metadata (\<lambda>_. ?G)"
    unfolding flush_metadata_def sync_meta_def by (rule r_shard_call) (use in_shard_puts(4) in auto)
  have hk: "runs P (act_lift (hook step)) (\<lambda>_. P)" for P step by (rule r_lift) (simp add: hook)
  have wr: "runs ?G (write_slot ?slot bs) (\<lambda>_. ?W)"
  proof (rule r_write_slot)
    fix d s assume g: "?G d s"
    have "slot_base (put_data (slot_base s ?slot) (length bs) bs s) ?slot = slot_base s ?slot"
      by (simp add: put_data_def slot_base_def)
    then show "shard_wf s \<and> ?slot < slot_count (shard_layout s) \<and> length bs \<le> page_size (shard_layout s) \<and>
        ?W d (put_data (slot_base s ?slot) (length bs) bs s)"
      using g in_shard_puts(2) put_data_payload by (auto simp: in_shard_def)
  qed (rule len)
  have fl: "runs ?W shard_flush (\<lambda>_. ?W)"
    unfolding shard_flush_def sync_data_def
    by (rule r_shard_call) (use in_shard_puts(3) in \<open>auto simp: slot_base_def\<close>)
  have rd: "runs ?W (read_slot unbuffered ptr ?slot (rec_length rec) 0 (length bs)) (\<lambda>v d s. ?G d s \<and> v = bs)"
    by (rule r_read_slot) (auto simp: in_shard_def len)
  have com: "runs ?G (db_call (\<lambda>d. commit_slot d rec)) (\<lambda>out d s. out = Committed (set_state Resident rec))"
    by (rule r_db_call) (use commit_reserved in force)
  have tail: "runs (\<lambda>d s. ?G d s \<and> v = bs) (if blake3 v \<noteq> expected then act_fail IntegrityMismatch
      else act_bind (act_lift (hook StepRehashed)) (\<lambda>_.
        act_bind (write_metadata crc32 ?slot (metadata_for (set_state Resident rec) SlotState.Resident)) (\<lambda>_.
        act_bind flush_metadata (\<lambda>_. db_call (\<lambda>d. commit_slot d rec)))))
      (\<lambda>out d s. out = Committed (set_state Resident rec))" for v
  proof (cases "v = bs")
    case True
    have "runs ?G (act_bind (act_lift (hook StepRehashed)) (\<lambda>_.
        act_bind (write_metadata crc32 ?slot (metadata_for (set_state Resident rec) SlotState.Resident)) (\<lambda>_.
        act_bind flush_metadata (\<lambda>_. db_call (\<lambda>d. commit_slot d rec)))))
      (\<lambda>out d s. out = Committed (set_state Resident rec))"
      by (rule r_bind [OF hk], rule r_bind [OF meta], rule r_bind [OF flush], rule com)
    then show ?thesis using True h by simp
  qed (rule r_false, simp)
  show ?thesis unfolding write_and_commit_def
    by (rule r_bind [OF meta], rule r_bind [OF flush], rule r_bind [OF hk], rule r_bind [OF wr], rule r_bind [OF hk],
        rule r_bind [OF fl], rule r_bind [OF hk], rule r_bind [OF rd], rule tail)
qed

text \<open>C15: without faults the insertion of a new page succeeds whenever there is room: if the first free
  row of the table is a slot of this shard with a generation left, the page is nonempty, fits the
  page size and has the expected hash, and it is not resident yet, then \<open>insert_page\<close> publishes it in
  that slot.\<close>

theorem insert_page_succeeds:
  assumes inv: "cache_inv blake3 (cache_db w) (arena w)" and faults: "faults w = []"
    and hook: "\<And>step. hook step = Inr ()" and bs: "bs \<noteq> []" "length bs \<le> page_size (shard_layout (arena w))"
    "length bs \<le> u32_max" "blake3 bs = expected"
    and new: "query_hash (cache_db w) expected Resident = None"
    and free: "find (\<lambda>r. rec_state r = Free) (cache_slots (cache_db w)) = Some free" "shard_id free = 0"
    "int (Suc (rec_generation free)) \<le> i64_max" "slot_index free < slot_count (shard_layout (arena w))"
    "slot_index free \<le> u32_max"
  shows "\<exists>w' row. insert_page crc32 blake3 hook unbuffered ptr expected bs w = (w', Done (Inserted row)) \<and>
    slot_index row = slot_index free \<and> rec_hash row = Some expected"
proof -
  let ?P = "\<lambda>d s. d = cache_db w \<and> s = arena w"
  let ?Q = "\<lambda>out d s. \<exists>row. out = Inserted row \<and> slot_index row = slot_index free \<and> rec_hash row = Some expected"
  let ?R = "\<lambda>out d s. \<exists>rec. out = ReserveReserved rec \<and> reserved_row rec d \<and> in_shard rec bs s \<and> shard_id rec = 0 \<and>
    rec_hash rec = Some expected \<and> rec_length rec = length bs \<and> slot_index rec = slot_index free"
  have wf: "slots_wf (cache_db w)" "shard_wf (arena w)" using inv by (simp_all add: cache_inv_def)
  have res: "runs ?P (db_call (\<lambda>d. reserve d expected (length bs))) ?R"
    by (rule r_db_call)
      (use reserve_free [OF wf(1) new _ free(1,3,5), of "length bs"] bs free wf(2) in \<open>auto simp: in_shard_def\<close>)
  have cont: "runs (?R out) (case out of
            ReserveExisting existing \<Rightarrow> act_done (InsertExisting existing)
          | ReserveReserved rec \<Rightarrow>
              if shard_id rec \<noteq> 0 then act_fail UnsupportedLayout
              else insert_reserved crc32 blake3 hook unbuffered ptr True rec expected bs) ?Q" for out
  proof (cases "\<exists>rec. out = ReserveReserved rec \<and> shard_id rec = 0 \<and> rec_hash rec = Some expected \<and>
      rec_length rec = length bs \<and> slot_index rec = slot_index free")
    case True
    then obtain rec where r: "out = ReserveReserved rec" "shard_id rec = 0" "rec_hash rec = Some expected"
      "rec_length rec = length bs" "slot_index rec = slot_index free" by blast
    have wc: "runs (\<lambda>d s. reserved_row rec d \<and> in_shard rec bs s)
        (write_and_commit crc32 blake3 hook unbuffered ptr rec expected bs) (\<lambda>out d s. out = Committed (set_state Resident rec))"
      by (rule r_write_and_commit) (use r bs hook in auto)
    have "runs (\<lambda>d s. reserved_row rec d \<and> in_shard rec bs s)
        (insert_reserved crc32 blake3 hook unbuffered ptr True rec expected bs) ?Q"
      unfolding insert_reserved_def
      by (rule r_bind [OF r_on_failure [OF wc]])
        (use r hook in \<open>auto simp: runs_def act_bind_def act_lift_def act_done_def set_state_def\<close>)
    then show ?thesis using r by (auto elim!: r_pre)
  qed (rule r_false, blast)
  have "runs ?P (insert_page crc32 blake3 hook unbuffered ptr expected bs) ?Q"
    unfolding insert_page_def
  proof (simp only: if_not_P linorder_not_less bs(3), rule r_bind [OF r_get [where Q = "\<lambda>page d s. ?P d s \<and> page = page_size (shard_layout s)"]])
    fix page
    show "runs (\<lambda>d s. ?P d s \<and> page = page_size (shard_layout s))
      (if length bs = 0 \<or> page < length bs then act_fail InvalidArgument
        else act_bind (db_call (\<lambda>d. reserve d expected (length bs))) (\<lambda>outcome. case outcome of
            ReserveReserved rec \<Rightarrow> if shard_id rec \<noteq> 0 then act_fail UnsupportedLayout
              else insert_reserved crc32 blake3 hook unbuffered ptr True rec expected bs
          | ReserveExisting existing \<Rightarrow> act_done (InsertExisting existing))) ?Q"
    proof (cases "page = page_size (shard_layout (arena w))")
      case True
      then have no: "\<not> (length bs = 0 \<or> page < length bs)" using bs by simp
      show ?thesis unfolding if_not_P [OF no] by (rule r_pre [OF r_bind [OF res cont]]) simp
    qed (rule r_false, simp)
  qed simp
  then show ?thesis using faults unfolding runs_def by blast
qed

text \<open>Both theorems apply to an empty shard whose first slot is free.\<close>

definition example_free :: CacheSlotRecord where
  "example_free = \<lparr>shard_id = 0, slot_index = 1, rec_generation = 4, rec_state = Free, rec_hash = None, rec_length = 0\<rparr>"

definition example_cache :: "fault list \<Rightarrow> World" where
  "example_cache fs = (example_world fs)\<lparr>cache_db := \<lparr>cache_shards = [], cache_slots = [example_free]\<rparr>\<rparr>"

lemma example_cache_inv: "cache_inv blake3 (cache_db (example_cache fs)) (arena (example_cache fs))"
  using example_shard_wf [of fs]
  by (auto simp: cache_inv_def example_cache_def in_residents slots_wf_def unique_residents_def row_ok_def example_free_def i64_max_def)

definition example_hash :: "bytes \<Rightarrow> page_hash" where
  "example_hash bs = of_nat (length bs)"

definition example_script :: "fault list" where
  "example_script = [Fine, Fail 3, Crash 1 (\<lambda>_. 255)]"

theorem insert_page_crash_safe_witness:
  "cache_inv example_hash (cache_db (example_cache example_script)) (arena (example_cache example_script)) \<and>
   (case insert_page (\<lambda>_. 0) example_hash (\<lambda>_. Inr ()) False False 2 [10, 20] (example_cache example_script) of
      (w', r) \<Rightarrow> cache_inv example_hash (cache_db w') (arena w'))"
proof -
  have "case insert_page (\<lambda>_. 0) example_hash (\<lambda>_. Inr ()) False False 2 [10, 20] (example_cache example_script) of (w', r) \<Rightarrow>
    cache_inv example_hash (cache_db w') (arena w') \<and>
    (case r of Done (Inserted row) \<Rightarrow> row \<in> residents (cache_db w') \<and> rec_hash row = Some 2 \<and>
        payload (arena w') (slot_index row) (rec_length row) = [10, 20] \<and> example_hash [10, 20] = 2
     | _ \<Rightarrow> True)"
    by (rule insert_page_crash_safe [OF example_cache_inv])
  then show ?thesis using example_cache_inv by (auto split: prod.splits)
qed

theorem insert_page_succeeds_witness:
  "\<exists>w' row. insert_page (\<lambda>_. 0) example_hash (\<lambda>_. Inr ()) False False 2 [10, 20] (example_cache []) =
     (w', Done (Inserted row)) \<and> slot_index row = slot_index example_free \<and> rec_hash row = Some 2"
  by (rule insert_page_succeeds [OF example_cache_inv])
    (simp_all add: example_cache_def example_world_sel query_hash_def example_free_def u32_max_def i64_max_def example_hash_def)

end
