(* ===== verification/Cache_Reconcile.thy ===== *)
theory Cache_Reconcile
  imports Cache_Insert
begin

text \<open>Startup reconciliation of the slot table with the arena: \<open>mirage-cache/src/reconcile.rs\<close> and
  \<open>recover.rs\<close>.  The loop inspects every row of the table once, reads its metadata record and repairs the
  slot: an interrupted reservation or eviction is finished, a free slot gets a free record, a resident
  row whose record disagrees is evicted.  The counters of the report are bounded by the number of rows
  and are natural numbers.\<close>

section \<open>Operations\<close>

datatype ReconcileAction = ReclaimReserved | FinishEviction | RewriteFreeMetadata | QuarantineResident

record ReconcileReport =
  inspected :: nat
  healthy_residents :: nat
  actions :: "(u32 \<times> ReconcileAction) list"
  repaired :: nat
  blocked :: "string list"

fun states_match :: "CacheSlotState \<Rightarrow> SlotState \<Rightarrow> bool" where
  "states_match CacheSlotState.Free SlotState.Free = True"
| "states_match CacheSlotState.Reserved SlotState.Reserved = True"
| "states_match CacheSlotState.Resident SlotState.Resident = True"
| "states_match CacheSlotState.Evicting SlotState.Evicting = True"
| "states_match CacheSlotState.RetryDeallocate SlotState.RetryDeallocate = True"
| "states_match _ _ = False"

definition metadata_matches :: "CacheSlotRecord \<Rightarrow> SlotMetadata \<Rightarrow> bool" where
  "metadata_matches rec m \<longleftrightarrow> rec_generation rec = generation m \<and> rec_length rec = logical_length m \<and>
     (case rec_hash rec of Some h \<Rightarrow> h | None \<Rightarrow> hash_of_bytes (zeros 32)) = meta_hash m \<and>
     states_match (rec_state rec) (slot_state m)"

definition write_free :: "(bytes \<Rightarrow> 32 word) \<Rightarrow> CacheSlotRecord \<Rightarrow> unit act" where
  "write_free crc32 rec =
     act_bind (write_metadata crc32 (slot_index rec) (metadata_for (free_row rec) SlotState.Free)) (\<lambda>_. flush_metadata)"

text \<open>The four repairs.\<close>

definition rewrite_free :: "(bytes \<Rightarrow> 32 word) \<Rightarrow> CacheSlotRecord \<Rightarrow> unit act" where
  "rewrite_free crc32 rec = act_bind (deallocate_slot (slot_index rec)) (\<lambda>_. write_free crc32 rec)"

definition retire :: "(bytes \<Rightarrow> 32 word) \<Rightarrow> CacheSlotRecord \<Rightarrow> CacheSlotRecord \<Rightarrow> unit act" where
  "retire crc32 rec evicting =
     act_bind (write_metadata crc32 (slot_index rec) (metadata_for evicting SlotState.Evicting)) (\<lambda>_.
     act_bind flush_metadata (\<lambda>_.
     act_bind (deallocate_slot (slot_index rec)) (\<lambda>_.
     act_bind (write_free crc32 rec) (\<lambda>_. db_call (\<lambda>d. finish_deallocation d evicting)))))"

definition reclaim_reserved :: "(bytes \<Rightarrow> 32 word) \<Rightarrow> CacheSlotRecord \<Rightarrow> unit act" where
  "reclaim_reserved crc32 rec =
     act_bind (db_call (\<lambda>d. release d rec)) (\<lambda>_. retire crc32 rec (set_state CacheSlotState.Evicting rec))"

definition finish_eviction :: "(bytes \<Rightarrow> 32 word) \<Rightarrow> CacheSlotRecord \<Rightarrow> unit act" where
  "finish_eviction crc32 rec =
     act_bind (deallocate_slot (slot_index rec)) (\<lambda>_.
     act_bind (write_free crc32 rec) (\<lambda>_. db_call (\<lambda>d. finish_deallocation d rec)))"

definition quarantine_resident :: "(bytes \<Rightarrow> 32 word) \<Rightarrow> CacheSlotRecord \<Rightarrow> unit act" where
  "quarantine_resident crc32 rec =
     act_bind (db_call (\<lambda>d. begin_eviction d rec)) (\<lambda>evicting. retire crc32 rec evicting)"

fun repair :: "(bytes \<Rightarrow> 32 word) \<Rightarrow> CacheSlotRecord \<Rightarrow> ReconcileAction \<Rightarrow> unit act" where
  "repair crc32 rec RewriteFreeMetadata = rewrite_free crc32 rec"
| "repair crc32 rec ReclaimReserved = reclaim_reserved crc32 rec"
| "repair crc32 rec FinishEviction = finish_eviction crc32 rec"
| "repair crc32 rec QuarantineResident = quarantine_resident crc32 rec"

text \<open>What one row calls for, given what reading its record returned.\<close>

definition required_action :: "CacheSlotRecord \<Rightarrow> SlotMetadata result \<Rightarrow> ReconcileAction option" where
  "required_action rec metadata =
     (let matches = (case metadata of Inr m \<Rightarrow> metadata_matches rec m | Inl _ \<Rightarrow> False) in
      case rec_state rec of
        CacheSlotState.Free \<Rightarrow> if matches then None else Some RewriteFreeMetadata
      | CacheSlotState.Reserved \<Rightarrow> Some ReclaimReserved
      | CacheSlotState.Evicting \<Rightarrow> Some FinishEviction
      | CacheSlotState.RetryDeallocate \<Rightarrow> Some FinishEviction
      | CacheSlotState.Resident \<Rightarrow> if matches then None else Some QuarantineResident)"

definition unavailable_slot :: string where
  "unavailable_slot = ''cache DB references an unavailable shard or slot''"

definition reconcile_slot ::
  "(bytes \<Rightarrow> 32 word) \<Rightarrow> bool \<Rightarrow> CacheSlotRecord \<Rightarrow> ReconcileReport \<Rightarrow> ReconcileReport act" where
  "reconcile_slot crc32 dry_run rec rep0 =
     act_bind (act_get (\<lambda>w. slot_count (shard_layout (arena w)))) (\<lambda>slots.
     let rep = rep0\<lparr>inspected := Suc (inspected rep0)\<rparr> in
     if shard_id rec \<noteq> 0 \<or> slot_index rec \<ge> slots then act_done (rep\<lparr>blocked := blocked rep @ [unavailable_slot]\<rparr>)
     else act_bind (act_try (read_metadata crc32 (slot_index rec))) (\<lambda>metadata.
       case required_action rec metadata of
         None \<Rightarrow>
           act_done (if rec_state rec = CacheSlotState.Resident
                     then rep\<lparr>healthy_residents := Suc (healthy_residents rep)\<rparr> else rep)
       | Some a \<Rightarrow>
           let rep' = rep\<lparr>actions := actions rep @ [(slot_index rec, a)]\<rparr> in
           if dry_run then act_done rep'
           else act_bind (repair crc32 rec a) (\<lambda>_. act_done (rep'\<lparr>repaired := Suc (repaired rep')\<rparr>))))"

fun reconcile_loop ::
  "(bytes \<Rightarrow> 32 word) \<Rightarrow> bool \<Rightarrow> CacheSlotRecord list \<Rightarrow> ReconcileReport \<Rightarrow> ReconcileReport act" where
  "reconcile_loop crc32 dry_run [] rep = act_done rep"
| "reconcile_loop crc32 dry_run (rec # recs) rep =
     act_bind (reconcile_slot crc32 dry_run rec rep) (reconcile_loop crc32 dry_run recs)"

definition empty_report :: ReconcileReport where
  "empty_report = \<lparr>inspected = 0, healthy_residents = 0, actions = [], repaired = 0, blocked = []\<rparr>"

definition reconcile :: "(bytes \<Rightarrow> 32 word) \<Rightarrow> bool \<Rightarrow> ReconcileReport act" where
  "reconcile crc32 dry_run =
     act_bind (db_call (\<lambda>d. (d, Inr (load_all d)))) (\<lambda>recs.
     act_bind (reconcile_loop crc32 dry_run recs empty_report) (\<lambda>rep.
     if dry_run then act_done rep else act_bind flush_metadata (\<lambda>_. act_done rep)))"

section \<open>Rows of the table\<close>

definition replace_row :: "CacheDb \<Rightarrow> int \<times> nat \<Rightarrow> (CacheSlotRecord \<Rightarrow> CacheSlotRecord) \<Rightarrow> CacheDb" where
  "replace_row d k f = d\<lparr>cache_slots := map (\<lambda>r. if slot_key r = k then f r else r) (cache_slots d)\<rparr>"

lemma slots_key_unique:
  assumes "slots_wf d" "r \<in> set (cache_slots d)" "q \<in> set (cache_slots d)" "slot_key r = slot_key q"
  shows "r = q"
proof -
  have "distinct (map slot_key (cache_slots d))" using assms(1) unfolding slots_wf_def sorted_strict_distinct by metis
  then show ?thesis using assms(2-4) by (auto simp: distinct_map dest: inj_onD)
qed

lemma update_one_replace:
  assumes "slots_wf d" "r \<in> set (cache_slots d)" "slot_key r = slot_key rec" "rec_generation r = rec_generation rec" "P r"
  shows "update_one d rec P f = Inr (replace_row d (slot_key rec) f)"
proof -
  obtain d' where d: "update_one d rec P f = Inr d'" using update_one_ok [of d r rec P f] assms by blast
  have key: "slot_key q = slot_key rec \<and> int (rec_generation q) = int (rec_generation rec) \<and> P q \<longleftrightarrow> slot_key q = slot_key rec"
    if "q \<in> set (cache_slots d)" for q
    using slots_key_unique [OF assms(1,2) that] assms(3-5) by auto
  have e: "map (\<lambda>q. if slot_key q = slot_key rec \<and> int (rec_generation q) = int (rec_generation rec) \<and> P q then f q else q)
        (cache_slots d) = map (\<lambda>q. if slot_key q = slot_key rec then f q else q) (cache_slots d)"
    by (rule map_cong) (use key in auto)
  have "d' = d\<lparr>cache_slots := map (\<lambda>q. if slot_key q = slot_key rec \<and> int (rec_generation q) = int (rec_generation rec) \<and> P q
      then f q else q) (cache_slots d)\<rparr>"
    using d by (auto simp: update_one_def sqlite_integer_def update_rows_def Let_def split: if_splits)
  then show ?thesis unfolding e using d by (simp only: replace_row_def)
qed

lemma replace_row_mem:
  assumes "slots_wf d" "r \<in> set (cache_slots d)"
  shows "f r \<in> set (cache_slots (replace_row d (slot_key r) f))"
    "q \<in> set (cache_slots d) \<Longrightarrow> slot_key q \<noteq> slot_key r \<Longrightarrow> q \<in> set (cache_slots (replace_row d (slot_key r) f))"
  using assms by (force simp: replace_row_def)+

lemma replace_row_twice:
  assumes "\<And>r. slot_key (f r) = slot_key r"
  shows "replace_row (replace_row d k f) k g = replace_row d k (\<lambda>r. g (f r))"
  using assms by (simp add: replace_row_def comp_def cong: if_cong)

lemma row_op_exact:
  assumes wf: "slots_wf d" and r: "rec \<in> set (cache_slots d)"
  shows "rec_state rec = CacheSlotState.Reserved \<Longrightarrow>
      release d rec = (replace_row d (slot_key rec) (set_state CacheSlotState.Evicting), Inr ())"
    "rec_state rec = CacheSlotState.Resident \<Longrightarrow>
      begin_eviction d rec = (replace_row d (slot_key rec) (set_state CacheSlotState.Evicting), Inr (set_state CacheSlotState.Evicting rec))"
    "rec_state rec = CacheSlotState.Evicting \<or> rec_state rec = CacheSlotState.RetryDeallocate \<Longrightarrow>
      finish_deallocation d rec = (replace_row d (slot_key rec) free_row, Inr ())"
proof -
  have ok: "row_ok rec" using wf r by (auto simp: slots_wf_def list_all_iff)
  note u = update_one_replace [OF wf r refl refl]
  show "rec_state rec = CacheSlotState.Reserved \<Longrightarrow>
      release d rec = (replace_row d (slot_key rec) (set_state CacheSlotState.Evicting), Inr ())"
    using ok by (auto simp: release_def transition_to_evicting_def require_def row_ok_def u atomic_def)
  show "rec_state rec = CacheSlotState.Resident \<Longrightarrow>
      begin_eviction d rec = (replace_row d (slot_key rec) (set_state CacheSlotState.Evicting), Inr (set_state CacheSlotState.Evicting rec))"
    using ok by (auto simp: begin_eviction_def require_def row_ok_def u atomic_def)
  show "rec_state rec = CacheSlotState.Evicting \<or> rec_state rec = CacheSlotState.RetryDeallocate \<Longrightarrow>
      finish_deallocation d rec = (replace_row d (slot_key rec) free_row, Inr ())"
    using u by (auto simp: finish_deallocation_def atomic_def)
qed

section \<open>Reconciliation keeps the cache consistent under every fault\<close>

lemma update_one_other:
  assumes "update_one d rec P f = Inr d'" "q \<in> set (cache_slots d)" "slot_key q \<noteq> slot_key rec"
  shows "q \<in> set (cache_slots d')"
proof -
  obtain as r bs where "cache_slots d = as @ r # bs" "slot_key r = slot_key rec" "d' = d\<lparr>cache_slots := as @ f r # bs\<rparr>"
    using update_one_Inr [OF assms(1)] by metis
  then show ?thesis using assms(2,3) by auto
qed

lemma row_op_other:
  assumes "q \<in> set (cache_slots d)" "slot_key q \<noteq> slot_key rec"
  shows "q \<in> set (cache_slots (fst (release d rec)))" "q \<in> set (cache_slots (fst (begin_eviction d rec)))"
    "q \<in> set (cache_slots (fst (finish_deallocation d rec)))"
  using assms
  by (auto simp: release_def begin_eviction_def finish_deallocation_def transition_to_evicting_def atomic_def bind_result_def
      intro: update_one_other split: sum.splits if_splits)

text \<open>The rows still to be inspected are as they were loaded; the current row is out of circulation.\<close>

definition loaded :: "(bytes \<Rightarrow> page_hash) \<Rightarrow> CacheSlotRecord list \<Rightarrow> assn" where
  "loaded blake3 recs d s \<longleftrightarrow> cache_inv blake3 d s \<and> set recs \<subseteq> set (cache_slots d)"

definition held :: "(bytes \<Rightarrow> page_hash) \<Rightarrow> CacheSlotRecord list \<Rightarrow> CacheSlotRecord \<Rightarrow> assn" where
  "held blake3 rest rec d s \<longleftrightarrow> owned blake3 rec d s \<and> set rest \<subseteq> set (cache_slots d)"

lemma held_inv: "held blake3 rest rec d s \<Longrightarrow> cache_inv blake3 d s"
  by (simp add: held_def owned_def)

lemma stable_held: "shard_id rec = 0 \<Longrightarrow> stable (slot_index rec) (held blake3 rest rec)"
  using stable_owned [of rec blake3] unfolding stable_def held_def by blast

lemma h_held_call:
  assumes "\<And>d s. cache_inv blake3 d s \<Longrightarrow> cache_inv blake3 (fst (f d)) s" "\<And>d. residents (fst (f d)) \<subseteq> residents d"
    "\<And>d q. q \<in> set (cache_slots d) \<Longrightarrow> slot_key q \<noteq> slot_key rec \<Longrightarrow> q \<in> set (cache_slots (fst (f d)))"
    "\<forall>q\<in>set rest. slot_key q \<noteq> slot_key rec"
  shows "hoare (held blake3 rest rec) (db_call f) (\<lambda>_. held blake3 rest rec) (held blake3 rest rec) (held blake3 rest rec)"
proof (rule h_db_call)
  fix d s assume h: "held blake3 rest rec d s"
  have n: "held blake3 rest rec (fst (f d)) s"
    using h assms not_resident_mono by (auto simp: held_def owned_def subset_iff)
  show "held blake3 rest rec d s" by (rule h)
  show "held blake3 rest rec (fst (f d)) s" by (rule n)
  show "held blake3 rest rec d (crash_shard g s)" "held blake3 rest rec (fst (f d)) (crash_shard g s)" for g
    using h n cache_inv_crash by (auto simp: held_def owned_def)
  show "held blake3 rest rec d' s" if "f d = (d', Inr x)" for d' x using n that by simp
qed

lemma h_held_finish:
  assumes "slot_key ev = slot_key rec" "\<forall>q\<in>set rest. slot_key q \<noteq> slot_key rec"
  shows "hoare (held blake3 rest rec) (db_call (\<lambda>d. finish_deallocation d ev))
    (\<lambda>_. held blake3 rest rec) (held blake3 rest rec) (held blake3 rest rec)"
  by (rule h_held_call [OF quiet_ops_inv(3) quiet_ops(3)]) (use row_op_other(3) assms in auto)

lemma h_held_shard:
  assumes z: "shard_id rec = 0"
  shows "hoare (held blake3 rest rec) (write_metadata crc32 (slot_index rec) m) (\<lambda>_. held blake3 rest rec) (held blake3 rest rec) (held blake3 rest rec)"
    "hoare (held blake3 rest rec) flush_metadata (\<lambda>_. held blake3 rest rec) (held blake3 rest rec) (held blake3 rest rec)"
    "hoare (held blake3 rest rec) (deallocate_slot (slot_index rec)) (\<lambda>_. held blake3 rest rec) (held blake3 rest rec) (held blake3 rest rec)"
    "hoare (held blake3 rest rec) (write_free crc32 rec) (\<lambda>_. held blake3 rest rec) (held blake3 rest rec) (held blake3 rest rec)"
proof -
  note st = stable_held [OF z, of blake3 rest]
  show m: "hoare (held blake3 rest rec) (write_metadata crc32 (slot_index rec) m) (\<lambda>_. held blake3 rest rec)
      (held blake3 rest rec) (held blake3 rest rec)" for m
    by (rule h_post [OF h_stable_write_metadata [OF st]]) simp
  show f: "hoare (held blake3 rest rec) flush_metadata (\<lambda>_. held blake3 rest rec) (held blake3 rest rec) (held blake3 rest rec)"
    unfolding flush_metadata_def by (rule h_post [OF h_stable_sync(2) [OF st]]) simp
  show "hoare (held blake3 rest rec) (deallocate_slot (slot_index rec)) (\<lambda>_. held blake3 rest rec)
      (held blake3 rest rec) (held blake3 rest rec)"
    by (rule h_post [OF h_stable_deallocate_slot [OF st]]) simp
  show "hoare (held blake3 rest rec) (write_free crc32 rec) (\<lambda>_. held blake3 rest rec) (held blake3 rest rec) (held blake3 rest rec)"
    unfolding write_free_def by (rule h_bind [OF m f])
qed

lemma h_retire:
  assumes "shard_id rec = 0" "slot_key ev = slot_key rec" "\<forall>q\<in>set rest. slot_key q \<noteq> slot_key rec"
  shows "hoare (held blake3 rest rec) (retire crc32 rec ev) (\<lambda>_. held blake3 rest rec) (held blake3 rest rec) (held blake3 rest rec)"
  unfolding retire_def
  by (intro h_bind [OF h_held_shard(1)] h_bind [OF h_held_shard(2)] h_bind [OF h_held_shard(3)] h_bind [OF h_held_shard(4)]
      h_held_finish assms)

lemma not_resident_row:
  assumes "slots_wf d" "rec \<in> set (cache_slots d)" "rec_state rec \<noteq> CacheSlotState.Resident"
  shows "not_resident d rec"
  using slots_key_unique [OF assms(1,2)] assms(3) by (force simp: not_resident_def in_residents)

lemma begin_eviction_held:
  assumes "loaded blake3 (rec # rest) d s" "begin_eviction d rec = (d', Inr ev)" "\<forall>q\<in>set rest. slot_key q \<noteq> slot_key rec"
  shows "held blake3 rest rec d' s \<and> ev = set_state CacheSlotState.Evicting rec"
proof -
  have wf: "slots_wf d" and inv: "cache_inv blake3 d s" using assms(1) by (simp_all add: loaded_def cache_inv_def)
  obtain u where u: "update_one d rec (\<lambda>r. rec_state r = CacheSlotState.Resident \<and> rec_hash r = rec_hash rec)
      (set_state CacheSlotState.Evicting) = Inr u" "d' = u" "ev = set_state CacheSlotState.Evicting rec"
    using assms(2) by (auto simp: begin_eviction_def atomic_def bind_result_def split: sum.splits)
  have "not_resident d' rec"
    using update_one_key [OF u(1) wf] u(2) by (simp add: set_state_def slot_key_def)
  moreover have "cache_inv blake3 d' s" using quiet_ops_inv(2) [OF inv, of rec] assms(2) by simp
  moreover have "set rest \<subseteq> set (cache_slots d')"
    using row_op_other(2) [of _ d rec] assms by (auto simp: loaded_def)
  ultimately show ?thesis using u(3) by (simp add: held_def owned_def)
qed

lemma h_quarantine_resident:
  assumes z: "shard_id rec = 0" and rest: "\<forall>q\<in>set rest. slot_key q \<noteq> slot_key rec"
  shows "hoare (loaded blake3 (rec # rest)) (quarantine_resident crc32 rec) (\<lambda>_. held blake3 rest rec)
    (cache_inv blake3) (cache_inv blake3)"
  unfolding quarantine_resident_def
proof (rule h_bind)
  show "hoare (loaded blake3 (rec # rest)) (db_call (\<lambda>d. begin_eviction d rec))
      (\<lambda>ev d s. held blake3 rest rec d s \<and> ev = set_state CacheSlotState.Evicting rec) (cache_inv blake3) (cache_inv blake3)"
  proof (rule h_db_call)
    fix d s assume l: "loaded blake3 (rec # rest) d s"
    then have i: "cache_inv blake3 d s" by (simp add: loaded_def)
    note q = quiet_ops_inv(2) [OF i, of rec]
    show "cache_inv blake3 d s" "cache_inv blake3 (fst (begin_eviction d rec)) s" by (rule i, rule q)
    show "cache_inv blake3 d (crash_shard g s)" "cache_inv blake3 (fst (begin_eviction d rec)) (crash_shard g s)" for g
      using i q cache_inv_crash by blast+
    show "held blake3 rest rec d' s \<and> x = set_state CacheSlotState.Evicting rec" if "begin_eviction d rec = (d', Inr x)" for x d'
      by (rule begin_eviction_held [OF l that rest])
  qed
  fix ev
  show "hoare (\<lambda>d s. held blake3 rest rec d s \<and> ev = set_state CacheSlotState.Evicting rec) (retire crc32 rec ev)
    (\<lambda>_. held blake3 rest rec) (cache_inv blake3) (cache_inv blake3)"
  proof (cases "slot_key ev = slot_key rec")
    case True
    show ?thesis by (rule h_conseq [OF h_retire [OF z True rest]]) (auto intro: held_inv)
  qed (rule h_false, auto simp: set_state_def slot_key_def)
qed

lemma h_repair:
  assumes z: "shard_id rec = 0" and rest: "\<forall>q\<in>set rest. slot_key q \<noteq> slot_key rec" and a: "required_action rec md = Some a"
  shows "hoare (loaded blake3 (rec # rest)) (repair crc32 rec a) (\<lambda>_. loaded blake3 rest) (cache_inv blake3) (cache_inv blake3)"
proof -
  have out: "held blake3 rest rec d s" if "loaded blake3 (rec # rest) d s" "rec_state rec \<noteq> CacheSlotState.Resident" for d s
    using that not_resident_row by (auto simp: held_def owned_def loaded_def cache_inv_def)
  have keep: "hoare (held blake3 rest rec) m (\<lambda>_. held blake3 rest rec) (held blake3 rest rec) (held blake3 rest rec) \<Longrightarrow>
      rec_state rec \<noteq> CacheSlotState.Resident \<Longrightarrow>
      hoare (loaded blake3 (rec # rest)) m (\<lambda>_. loaded blake3 rest) (cache_inv blake3) (cache_inv blake3)" for m :: "unit act"
    by (erule h_conseq) (blast intro: out, auto simp: held_def loaded_def owned_def)
  have ev: "slot_key (set_state CacheSlotState.Evicting rec) = slot_key rec" by (simp add: set_state_def slot_key_def)
  have rel: "hoare (held blake3 rest rec) (db_call (\<lambda>d. release d rec)) (\<lambda>_. held blake3 rest rec) (held blake3 rest rec) (held blake3 rest rec)"
    by (rule h_held_call [OF quiet_ops_inv(1) quiet_ops(1) row_op_other(1) rest])
  show ?thesis
  proof (cases a)
    case ReclaimReserved
    then have st: "rec_state rec \<noteq> CacheSlotState.Resident"
      using a by (auto simp: required_action_def Let_def split: CacheSlotState.splits if_splits)
    show ?thesis unfolding ReclaimReserved repair.simps reclaim_reserved_def
      by (rule keep [OF h_bind [OF rel h_retire [OF z ev rest]] st])
  next
    case FinishEviction
    then have st: "rec_state rec \<noteq> CacheSlotState.Resident"
      using a by (auto simp: required_action_def Let_def split: CacheSlotState.splits if_splits)
    show ?thesis unfolding FinishEviction repair.simps finish_eviction_def
      by (rule keep [OF h_bind [OF h_held_shard(3) [OF z] h_bind [OF h_held_shard(4) [OF z] h_held_finish [OF refl rest]]] st])
  next
    case RewriteFreeMetadata
    then have st: "rec_state rec \<noteq> CacheSlotState.Resident"
      using a by (auto simp: required_action_def Let_def split: CacheSlotState.splits if_splits)
    show ?thesis unfolding RewriteFreeMetadata repair.simps rewrite_free_def
      by (rule keep [OF h_bind [OF h_held_shard(3) [OF z] h_held_shard(4) [OF z]] st])
  next
    case QuarantineResident
    show ?thesis unfolding QuarantineResident repair.simps
      by (rule h_post [OF h_quarantine_resident [OF z rest]]) (simp add: held_def loaded_def owned_def)
  qed
qed

lemma h_read_metadata:
  assumes "\<And>d s. P d s \<Longrightarrow> shard_wf s" "\<And>d s. P d s \<Longrightarrow> F d s" "\<And>d s g. P d s \<Longrightarrow> C d (crash_shard g s)"
  shows "hoare P (read_metadata crc32 slot) (\<lambda>_. P) F C"
proof -
  have read: "hoare P (read_file shard_meta n off) (\<lambda>_. P) F C" for n off
    by (rule h_post [OF h_read_file [where P = P]]) (use assms in auto)
  show ?thesis unfolding read_metadata_def
    by (rule h_bind [OF h_slot_offset [where Q = "\<lambda>_. P"]], use assms in auto,
        rule h_bind [OF h_lift [where Q = "\<lambda>_. P"]], use assms in auto, rule h_bind [OF read], rule h_lift, use assms in auto)
qed

lemma h_reconcile_slot:
  assumes rest: "\<forall>q\<in>set rest. slot_key q \<noteq> slot_key rec"
  shows "hoare (loaded blake3 (rec # rest)) (reconcile_slot crc32 dry rec rep) (\<lambda>_. loaded blake3 rest) (cache_inv blake3) (cache_inv blake3)"
proof -
  let ?L = "loaded blake3 (rec # rest)" and ?I = "cache_inv blake3"
  have l: "?L d s \<Longrightarrow> loaded blake3 rest d s" "?L d s \<Longrightarrow> ?I d s" "?L d s \<Longrightarrow> shard_wf s" for d s
    by (simp_all add: loaded_def cache_inv_def)
  have read: "hoare ?L (act_try (read_metadata crc32 (slot_index rec))) (\<lambda>_. ?L) ?I ?I"
    by (rule h_try, rule h_conseq [OF h_read_metadata [where P = ?L and F = ?L and C = ?I]])
      (use l cache_inv_crash in blast)+
  have "hoare ?L (case required_action rec md of
         None \<Rightarrow> act_done r1
       | Some a \<Rightarrow> if dry then act_done (r2 a) else act_bind (repair crc32 rec a) (\<lambda>_. act_done (r3 a)))
      (\<lambda>_. loaded blake3 rest) ?I ?I" if "shard_id rec = 0" for md r1 r2 r3
    by (cases "required_action rec md") (auto intro!: h_done h_bind [OF h_repair [OF that rest]] intro: l)
  then show ?thesis unfolding reconcile_slot_def Let_def
    by (intro h_bind [OF h_get [of _ "\<lambda>_. ?L"]] h_if h_bind [OF read] h_done) (use l in auto)
qed

lemma h_reconcile_loop:
  assumes "distinct (map slot_key recs)"
  shows "hoare (loaded blake3 recs) (reconcile_loop crc32 dry recs rep) (\<lambda>_. cache_inv blake3) (cache_inv blake3) (cache_inv blake3)"
  using assms
proof (induction recs arbitrary: rep)
  case Nil
  show ?case by (simp add: h_done loaded_def)
next
  case (Cons rec rest)
  have "\<forall>q\<in>set rest. slot_key q \<noteq> slot_key rec" using Cons.prems by (auto simp: image_iff)
  note step = h_reconcile_slot [OF this]
  show ?case unfolding reconcile_loop.simps by (rule h_bind [OF step Cons.IH]) (use Cons.prems in simp)
qed

lemma h_reconcile:
  "hoare (cache_inv blake3) (reconcile crc32 dry) (\<lambda>_. cache_inv blake3) (cache_inv blake3) (cache_inv blake3)"
proof -
  let ?I = "cache_inv blake3"
  have load: "hoare ?I (db_call (\<lambda>d. (d, Inr (load_all d)))) (\<lambda>recs d s. loaded blake3 recs d s \<and> distinct (map slot_key recs)) ?I ?I"
    by (rule h_db_call)
      (use cache_inv_crash in \<open>auto simp: loaded_def load_all_def cache_inv_def slots_wf_def sorted_strict_distinct\<close>)
  have loop: "hoare (\<lambda>d s. loaded blake3 recs d s \<and> distinct (map slot_key recs)) (reconcile_loop crc32 dry recs rep) (\<lambda>_. ?I) ?I ?I"
    for recs rep
    by (cases "distinct (map slot_key recs)") (auto intro: h_pre [OF h_reconcile_loop] h_false)
  have flush: "hoare ?I flush_metadata (\<lambda>_. ?I) ?I ?I"
    unfolding flush_metadata_def sync_meta_def
  proof (rule h_shard_call)
    fix d s assume i: "?I d s"
    then show "?I d (s\<lparr>meta_dirty := []\<rparr>)"
      by (simp add: cache_inv_def payload_ok_def shard_wf_def slot_clean_def payload_def slot_base_def)
    show "?I d s" "?I d (crash_shard g s)" for g using i cache_inv_crash by blast+
  qed
  show ?thesis unfolding reconcile_def
    by (rule h_bind [OF load], rule h_bind [OF loop], rule h_if, rule h_done, assumption, rule h_bind [OF flush], rule h_done)
qed

section \<open>What reconciliation does without faults\<close>

text \<open>The repair of one row, as a function of the row and its record on disk.\<close>

definition available :: "Shard \<Rightarrow> CacheSlotRecord \<Rightarrow> bool" where
  "available s rec \<longleftrightarrow> shard_id rec = 0 \<and> slot_index rec < slot_count (shard_layout s)"

definition slot_action :: "(bytes \<Rightarrow> 32 word) \<Rightarrow> Shard \<Rightarrow> CacheSlotRecord \<Rightarrow> ReconcileAction option" where
  "slot_action crc32 s rec =
     (if available s rec then required_action rec (slot_decode crc32 (meta_at s (slot_index rec))) else None)"

definition settled_row :: "(bytes \<Rightarrow> 32 word) \<Rightarrow> Shard \<Rightarrow> CacheSlotRecord \<Rightarrow> CacheSlotRecord" where
  "settled_row crc32 s rec = (if slot_action crc32 s rec = None then rec else free_row rec)"

definition slot_report :: "(bytes \<Rightarrow> 32 word) \<Rightarrow> bool \<Rightarrow> Shard \<Rightarrow> CacheSlotRecord \<Rightarrow> ReconcileReport \<Rightarrow> ReconcileReport" where
  "slot_report crc32 dry s rec rep = \<lparr>inspected = Suc (inspected rep),
     healthy_residents = healthy_residents rep +
       (if available s rec \<and> slot_action crc32 s rec = None \<and> rec_state rec = CacheSlotState.Resident then 1 else 0),
     actions = actions rep @ (case slot_action crc32 s rec of None \<Rightarrow> [] | Some a \<Rightarrow> [(slot_index rec, a)]),
     repaired = repaired rep + (if dry \<or> slot_action crc32 s rec = None then 0 else 1),
     blocked = blocked rep @ (if available s rec then [] else [unavailable_slot])\<rparr>"

text \<open>Assertions that survive every change of one slot.\<close>

definition keeps :: "nat \<Rightarrow> assn \<Rightarrow> bool" where
  "keeps slot J \<longleftrightarrow> (\<forall>d s. J d s \<longrightarrow> shard_wf s \<and> slot < slot_count (shard_layout s)) \<and>
     (\<forall>d s s'. J d s \<longrightarrow> same_but slot s s' \<longrightarrow> J d s')"

lemma keepsD:
  assumes "keeps slot J" "J d s"
  shows "shard_wf s" "slot < slot_count (shard_layout s)" "same_but slot s s' \<Longrightarrow> J d s'"
  using assms unfolding keeps_def by blast+

lemma r_keeps_write_metadata:
  assumes k: "keeps slot J"
  shows "runs J (write_metadata crc32 slot v) (\<lambda>_ d s. J d s \<and> meta_at s slot = slot_encode crc32 v)"
proof (rule r_write_metadata)
  fix d s assume J: "J d s"
  note wf = keepsD(1,2) [OF k J]
  have "J d (put_meta (meta_base slot) 64 (slot_encode crc32 v) s)"
    using keepsD(3) [OF k J] put_meta_same_but(1) [OF wf] by (simp add: slot_encode_length)
  moreover have "meta_at (put_meta (meta_base slot) 64 (slot_encode crc32 v) s) slot = slot_encode crc32 v"
    using slice_file_write_same [of "meta_base slot" "slot_encode crc32 v" "shard_meta s"] meta_in_file [OF wf]
    by (simp add: meta_at_def put_meta_def slot_encode_length)
  ultimately show "shard_wf s \<and> slot < slot_count (shard_layout s) \<and> J d (put_meta (meta_base slot) 64 (slot_encode crc32 v) s) \<and>
      meta_at (put_meta (meta_base slot) 64 (slot_encode crc32 v) s) slot = slot_encode crc32 v"
    using wf by blast
qed

lemma r_keeps_flush:
  assumes k: "keeps slot J"
  shows "runs (\<lambda>d s. J d s \<and> meta_at s slot = m) flush_metadata (\<lambda>_ d s. J d s \<and> meta_at s slot = m)"
  unfolding flush_metadata_def sync_meta_def
proof (rule r_shard_call)
  fix d s assume a: "J d s \<and> meta_at s slot = m"
  then show "J d (s\<lparr>meta_dirty := []\<rparr>) \<and> meta_at (s\<lparr>meta_dirty := []\<rparr>) slot = m"
    using keepsD(3) [OF k _ sync_same_but(2)] keepsD(1) [OF k] by (simp add: meta_at_def)
qed

lemma r_keeps_deallocate:
  assumes k: "keeps slot J"
  shows "runs (\<lambda>d s. J d s \<and> slot_base s slot \<le> cursor \<and> cursor + remaining \<le> slot_base s slot + page_size (shard_layout s))
    (deallocate cursor remaining) (\<lambda>_. J)"
proof (induction cursor remaining rule: deallocate.induct)
  case (1 cursor remaining)
  show ?case
  proof (cases "remaining = 0")
    case True
    then show ?thesis unfolding deallocate.simps [of cursor remaining] sync_data_def
      by (simp, intro r_shard_call) (use keepsD(1,3) [OF k] sync_same_but(1) in auto)
  next
    case False
    let ?n = "min remaining ZERO_CHUNK"
    have step: "runs (\<lambda>d s. J d s \<and> slot_base s slot \<le> cursor \<and> cursor + remaining \<le> slot_base s slot + page_size (shard_layout s))
      (write_data (zeros ?n) cursor)
      (\<lambda>_ d s. J d s \<and> slot_base s slot \<le> cursor + ?n \<and> cursor + ?n + (remaining - ?n) \<le> slot_base s slot + page_size (shard_layout s))"
      unfolding write_data_def
    proof (rule r_shard_call)
      fix d s
      assume a: "J d s \<and> slot_base s slot \<le> cursor \<and> cursor + remaining \<le> slot_base s slot + page_size (shard_layout s)"
      have "J d (put_data cursor ?n (zeros ?n) s)"
        by (rule keepsD(3) [OF k], use a in blast, rule put_data_same_but(1)) (use a keepsD(1,2) [OF k, of d s] in auto)
      then show "J d (put_data cursor (length (zeros ?n)) (zeros ?n) s) \<and>
        slot_base (put_data cursor (length (zeros ?n)) (zeros ?n) s) slot \<le> cursor + ?n \<and>
        cursor + ?n + (remaining - ?n) \<le> slot_base (put_data cursor (length (zeros ?n)) (zeros ?n) s) slot +
          page_size (shard_layout (put_data cursor (length (zeros ?n)) (zeros ?n) s))"
        using a by (simp add: put_data_def slot_base_def)
    qed
    show ?thesis using False
      by (subst deallocate.simps) (simp, rule r_bind [OF step], rule 1, simp)
  qed
qed

lemma r_keeps_deallocate_slot:
  assumes k: "keeps slot J"
  shows "runs J (deallocate_slot slot) (\<lambda>_. J)"
  unfolding deallocate_slot_def
proof (rule r_bind)
  show "runs J (shard_slot_offset slot) (\<lambda>off d s. J d s \<and> off = slot_base s slot)"
    by (rule r_slot_offset) (use keepsD [OF k] in auto)
  fix off
  show "runs (\<lambda>d s. J d s \<and> off = slot_base s slot)
     (act_bind (act_get (\<lambda>w. page_size (shard_layout (arena w)))) (\<lambda>page. deallocate off page)) (\<lambda>_. J)"
    by (rule r_bind [OF r_get [of _ "\<lambda>page d s. J d s \<and> off = slot_base s slot \<and> page = page_size (shard_layout s)"]])
      (simp, rule r_pre [OF r_keeps_deallocate [OF k]], auto)
qed

definition at_slot :: "CacheDb \<Rightarrow> Shard \<Rightarrow> nat \<Rightarrow> assn" where
  "at_slot d0 s0 slot d s \<longleftrightarrow> d = d0 \<and> same_but slot s0 s"

lemma keeps_at_slot: "slot < slot_count (shard_layout s0) \<Longrightarrow> keeps slot (at_slot d0 s0 slot)"
proof -
  assume slot: "slot < slot_count (shard_layout s0)"
  have "shard_wf s \<and> shard_layout s = shard_layout s0" if "same_but slot s0 s" for s using that by (simp add: same_but_def)
  then show ?thesis using slot same_but_trans unfolding keeps_def at_slot_def by (metis (no_types))
qed

definition freed :: "(bytes \<Rightarrow> 32 word) \<Rightarrow> CacheDb \<Rightarrow> Shard \<Rightarrow> CacheSlotRecord \<Rightarrow> assn" where
  "freed crc32 d0 s0 rec d s \<longleftrightarrow> at_slot d0 s0 (slot_index rec) d s \<and>
     meta_at s (slot_index rec) = slot_encode crc32 (metadata_for (free_row rec) SlotState.Free)"

lemma r_write_free:
  assumes "slot_index rec < slot_count (shard_layout s0)"
  shows "runs (at_slot d0 s0 (slot_index rec)) (write_free crc32 rec) (\<lambda>_. freed crc32 d0 s0 rec)"
  unfolding write_free_def freed_def
  by (rule r_bind [OF r_keeps_write_metadata [OF keeps_at_slot [OF assms]] r_keeps_flush [OF keeps_at_slot [OF assms]]])

lemma r_finish:
  assumes "finish_deallocation d0 ev = (d1, Inr ())"
  shows "runs (freed crc32 d0 s0 rec) (db_call (\<lambda>d. finish_deallocation d ev)) (\<lambda>_. freed crc32 d1 s0 rec)"
  by (rule r_db_call) (use assms in \<open>auto simp: freed_def at_slot_def\<close>)

lemma r_free_and_finish:
  assumes "slot_index rec < slot_count (shard_layout s0)" "finish_deallocation d0 ev = (d1, Inr ())"
  shows "runs (at_slot d0 s0 (slot_index rec))
    (act_bind (deallocate_slot (slot_index rec)) (\<lambda>_. act_bind (write_free crc32 rec) (\<lambda>_. db_call (\<lambda>d. finish_deallocation d ev))))
    (\<lambda>_. freed crc32 d1 s0 rec)"
  by (intro r_bind [OF r_keeps_deallocate_slot [OF keeps_at_slot]] r_bind [OF r_write_free] r_finish assms)

lemma r_retire:
  assumes slot: "slot_index rec < slot_count (shard_layout s0)" and f: "finish_deallocation d0 ev = (d1, Inr ())"
  shows "runs (at_slot d0 s0 (slot_index rec)) (retire crc32 rec ev) (\<lambda>_. freed crc32 d1 s0 rec)"
proof -
  have k: "keeps (slot_index rec) (at_slot d0 s0 (slot_index rec))" by (rule keeps_at_slot [OF slot])
  show ?thesis unfolding retire_def
    by (rule r_bind [OF r_keeps_write_metadata [OF k]], rule r_bind [OF r_keeps_flush [OF k]],
        rule r_pre [OF r_free_and_finish [OF assms]], blast)
qed

lemma evict_and_finish:
  assumes "slots_wf d0" "rec \<in> set (cache_slots d0)" "rec_state rec = CacheSlotState.Reserved \<or> rec_state rec = CacheSlotState.Resident"
  shows "finish_deallocation (replace_row d0 (slot_key rec) (set_state CacheSlotState.Evicting)) (set_state CacheSlotState.Evicting rec) =
    (replace_row d0 (slot_key rec) free_row, Inr ())"
proof -
  let ?ev = "set_state CacheSlotState.Evicting"
  have k: "slot_key (?ev r) = slot_key r" for r by (simp add: set_state_def slot_key_def)
  have "slots_wf (replace_row d0 (slot_key rec) ?ev)"
    using assms(3) steps_slots_wf [OF single_steps(1) assms(1), of rec] steps_slots_wf [OF single_steps(2) assms(1), of rec]
      row_op_exact(1,2) [OF assms(1,2)] by auto
  note fin = row_op_exact(3) [OF this replace_row_mem(1) [OF assms(1,2)]]
  have "finish_deallocation (replace_row d0 (slot_key rec) ?ev) (?ev rec) =
      (replace_row (replace_row d0 (slot_key rec) ?ev) (slot_key rec) free_row, Inr ())"
    using fin by (simp add: k) (simp add: set_state_def)
  also have "replace_row (replace_row d0 (slot_key rec) ?ev) (slot_key rec) free_row = replace_row d0 (slot_key rec) free_row"
    unfolding replace_row_twice [of ?ev, OF k] by (rule arg_cong [where f = "replace_row d0 (slot_key rec)"])
      (simp add: fun_eq_iff free_row_def set_state_def)
  finally show ?thesis .
qed

lemma r_repair:
  assumes wf: "slots_wf d0" and rec: "rec \<in> set (cache_slots d0)" and slot: "slot_index rec < slot_count (shard_layout s0)"
    and a: "required_action rec md = Some a"
  shows "runs (at_slot d0 s0 (slot_index rec)) (repair crc32 rec a) (\<lambda>_. freed crc32 (replace_row d0 (slot_key rec) free_row) s0 rec)"
proof -
  let ?d = "replace_row d0 (slot_key rec) (set_state CacheSlotState.Evicting)"
  note ra = a [unfolded required_action_def Let_def]
  show ?thesis
  proof (cases a)
    case ReclaimReserved
    then have st: "rec_state rec = CacheSlotState.Reserved" using ra by (auto split: CacheSlotState.splits if_splits)
    have "runs (at_slot d0 s0 (slot_index rec)) (db_call (\<lambda>d. release d rec)) (\<lambda>_. at_slot ?d s0 (slot_index rec))"
      by (rule r_db_call) (use row_op_exact(1) [OF wf rec st] in \<open>auto simp: at_slot_def\<close>)
    then show ?thesis unfolding ReclaimReserved repair.simps reclaim_reserved_def
      by (rule r_bind) (rule r_retire [OF slot evict_and_finish [OF wf rec]], use st in simp)
  next
    case FinishEviction
    then have st: "rec_state rec = CacheSlotState.Evicting \<or> rec_state rec = CacheSlotState.RetryDeallocate"
      using ra by (auto split: CacheSlotState.splits if_splits)
    show ?thesis unfolding FinishEviction repair.simps finish_eviction_def
      by (rule r_free_and_finish [OF slot row_op_exact(3) [OF wf rec st]])
  next
    case RewriteFreeMetadata
    then have "rec_state rec = CacheSlotState.Free" using ra by (auto split: CacheSlotState.splits if_splits)
    then have "free_row rec = rec" using wf rec by (auto simp: slots_wf_def list_all_iff row_ok_def free_row_def)
    then have "map (\<lambda>r. if slot_key r = slot_key rec then free_row r else r) (cache_slots d0) = cache_slots d0"
      by (intro map_idI) (use slots_key_unique [OF wf _ rec] in auto)
    then have same: "replace_row d0 (slot_key rec) free_row = d0" by (simp add: replace_row_def)
    show ?thesis unfolding RewriteFreeMetadata repair.simps rewrite_free_def same
      by (rule r_bind [OF r_keeps_deallocate_slot [OF keeps_at_slot [OF slot]] r_write_free [OF slot]])
  next
    case QuarantineResident
    then have st: "rec_state rec = CacheSlotState.Resident" using ra by (auto split: CacheSlotState.splits if_splits)
    let ?Q = "\<lambda>ev d s. at_slot ?d s0 (slot_index rec) d s \<and> ev = set_state CacheSlotState.Evicting rec"
    have "runs (at_slot d0 s0 (slot_index rec)) (db_call (\<lambda>d. begin_eviction d rec)) ?Q"
      by (rule r_db_call) (use row_op_exact(2) [OF wf rec st] in \<open>auto simp: at_slot_def\<close>)
    moreover have "runs (?Q ev) (retire crc32 rec ev) (\<lambda>_. freed crc32 (replace_row d0 (slot_key rec) free_row) s0 rec)" for ev
    proof (cases "ev = set_state CacheSlotState.Evicting rec")
      case True
      show ?thesis unfolding True
        by (rule r_pre [OF r_retire [OF slot evict_and_finish [OF wf rec]]]) (use st in auto)
    qed (rule r_false, simp)
    ultimately show ?thesis unfolding QuarantineResident repair.simps quarantine_resident_def by (rule r_bind)
  qed
qed

lemma read_metadata_exact:
  assumes "faults w = []" "shard_wf (arena w)" "slot < slot_count (shard_layout (arena w))"
  shows "act_try (read_metadata crc32 slot) w = (w, Done (slot_decode crc32 (meta_at (arena w) slot)))"
proof -
  have off: "slot_offset (shard_layout (arena w)) slot = Inr (slot_base (arena w) slot)" "metadata_offset slot = Inr (meta_base slot)"
    using slot_offset_in(1) [of "shard_layout (arena w)" slot] metadata_offset_in [of "shard_layout (arena w)" slot] assms
    by (simp_all add: shard_wf_def slot_base_def)
  show ?thesis using off assms meta_in_file [OF assms(2,3)]
    by (cases "slot_decode crc32 (meta_at (arena w) slot)")
      (simp_all add: act_try_def read_metadata_def shard_slot_offset_def act_bind_def act_lift_def act_done_def act_fail_def read_file_def
        shard_call_def next_fault_def act_get_def SLOT_METADATA_BYTES_def meta_at_def)
qed

lemma r_exact: "(\<And>d0 s0. P d0 s0 \<Longrightarrow> runs (\<lambda>d s. d = d0 \<and> s = s0) m Q) \<Longrightarrow> runs P m Q"
  unfolding runs_def by blast

definition settled :: "(bytes \<Rightarrow> 32 word) \<Rightarrow> bool \<Rightarrow> CacheDb \<Rightarrow> Shard \<Rightarrow> CacheSlotRecord \<Rightarrow> assn" where
  "settled crc32 dry d0 s0 rec d s \<longleftrightarrow>
     (if dry \<or> slot_action crc32 s0 rec = None then d = d0 \<and> s = s0
      else freed crc32 (replace_row d0 (slot_key rec) free_row) s0 rec d s)"

lemma r_read_metadata:
  assumes "shard_wf s0" "slot < slot_count (shard_layout s0)"
  shows "runs (\<lambda>d s. d = d0 \<and> s = s0) (act_try (read_metadata crc32 slot))
    (\<lambda>md d s. (d = d0 \<and> s = s0) \<and> md = slot_decode crc32 (meta_at s0 slot))"
  unfolding runs_def using read_metadata_exact assms by blast

lemma r_reconcile_slot:
  assumes wf: "slots_wf d0" "shard_wf s0" and rec: "rec \<in> set (cache_slots d0)"
  shows "runs (\<lambda>d s. d = d0 \<and> s = s0) (reconcile_slot crc32 dry rec rep)
    (\<lambda>rep' d s. rep' = slot_report crc32 dry s0 rec rep \<and> settled crc32 dry d0 s0 rec d s)"
proof -
  let ?P = "\<lambda>d s. d = d0 \<and> s = s0" and ?md = "slot_decode crc32 (meta_at s0 (slot_index rec))"
  let ?Q = "\<lambda>rep' d s. rep' = slot_report crc32 dry s0 rec rep \<and> settled crc32 dry d0 s0 rec d s"
  let ?rep = "rep\<lparr>inspected := Suc (inspected rep)\<rparr>"
  let ?act = "\<lambda>a. ?rep\<lparr>actions := actions ?rep @ [(slot_index rec, a)]\<rparr>"
  have body: "runs ?P (case required_action rec ?md of
         None \<Rightarrow> act_done (if rec_state rec = CacheSlotState.Resident
                     then ?rep\<lparr>healthy_residents := Suc (healthy_residents ?rep)\<rparr> else ?rep)
       | Some a \<Rightarrow> if dry then act_done (?act a)
           else act_bind (repair crc32 rec a) (\<lambda>_. act_done ((?act a)\<lparr>repaired := Suc (repaired (?act a))\<rparr>))) ?Q"
    if av: "available s0 rec"
  proof (cases "required_action rec ?md")
    case None
    then show ?thesis using av by (auto intro!: r_done simp: slot_report_def settled_def slot_action_def)
  next
    case (Some a)
    have "same_but (slot_index rec) s0 s0" using wf(2) by (rule same_but_refl)
    then have rp: "runs ?P (repair crc32 rec a) (\<lambda>_. freed crc32 (replace_row d0 (slot_key rec) free_row) s0 rec)"
      by (intro r_pre [OF r_repair [OF wf(1) rec _ Some]]) (use av in \<open>auto simp: available_def at_slot_def\<close>)
    show ?thesis using av Some
      by (auto intro!: r_done r_bind [OF rp] simp: slot_report_def settled_def slot_action_def)
  qed
  show ?thesis
  proof (cases "available s0 rec")
    case True
    have cont: "runs (\<lambda>d s. ?P d s \<and> md = ?md) (case required_action rec md of
         None \<Rightarrow> act_done (if rec_state rec = CacheSlotState.Resident
                     then ?rep\<lparr>healthy_residents := Suc (healthy_residents ?rep)\<rparr> else ?rep)
       | Some a \<Rightarrow> if dry then act_done (?act a)
           else act_bind (repair crc32 rec a) (\<lambda>_. act_done ((?act a)\<lparr>repaired := Suc (repaired (?act a))\<rparr>))) ?Q" for md
      by (cases "md = ?md") (use body [OF True] in \<open>auto intro: r_false elim: r_pre\<close>)
    have "runs (\<lambda>d s. ?P d s \<and> slots = slot_count (shard_layout s0))
       (if shard_id rec \<noteq> 0 \<or> slot_index rec \<ge> slots then act_done (?rep\<lparr>blocked := blocked ?rep @ [unavailable_slot]\<rparr>)
        else act_bind (act_try (read_metadata crc32 (slot_index rec))) (\<lambda>md. case required_action rec md of
         None \<Rightarrow> act_done (if rec_state rec = CacheSlotState.Resident
                     then ?rep\<lparr>healthy_residents := Suc (healthy_residents ?rep)\<rparr> else ?rep)
       | Some a \<Rightarrow> if dry then act_done (?act a)
           else act_bind (repair crc32 rec a) (\<lambda>_. act_done ((?act a)\<lparr>repaired := Suc (repaired (?act a))\<rparr>)))) ?Q" for slots
    proof (cases "slots = slot_count (shard_layout s0)")
      case eq: True
      then have no: "\<not> (shard_id rec \<noteq> 0 \<or> slot_index rec \<ge> slots)" using True by (simp add: available_def)
      show ?thesis unfolding if_not_P [OF no]
        by (rule r_pre [OF r_bind [OF r_read_metadata [OF wf(2)] cont]]) (use True in \<open>auto simp: available_def\<close>)
    qed (rule r_false, simp)
    then show ?thesis unfolding reconcile_slot_def Let_def
      by (intro r_bind [OF r_get [of _ "\<lambda>slots d s. ?P d s \<and> slots = slot_count (shard_layout s0)"]]) simp_all
  next
    case False
    show ?thesis unfolding reconcile_slot_def Let_def runs_def act_bind_def act_get_def act_done_def
      using False by (auto simp: slot_report_def settled_def slot_action_def available_def)
  qed
qed

text \<open>The loop: the inspected rows are settled, the others are as they were.\<close>

definition settled_meta :: "(bytes \<Rightarrow> 32 word) \<Rightarrow> Shard \<Rightarrow> CacheSlotRecord \<Rightarrow> bytes" where
  "settled_meta crc32 s rec =
     (if slot_action crc32 s rec = None then meta_at s (slot_index rec)
      else slot_encode crc32 (metadata_for (free_row rec) SlotState.Free))"

definition progress :: "(bytes \<Rightarrow> 32 word) \<Rightarrow> CacheDb \<Rightarrow> Shard \<Rightarrow> CacheSlotRecord list \<Rightarrow> CacheSlotRecord list \<Rightarrow> assn" where
  "progress crc32 d0 s0 finished todo d s \<longleftrightarrow> slots_wf d \<and> shard_wf s \<and> shard_layout s = shard_layout s0 \<and>
     cache_slots d = map (settled_row crc32 s0) finished @ todo \<and> cache_shards d = cache_shards d0 \<and>
     (\<forall>r\<in>set todo. available s0 r \<longrightarrow> meta_at s (slot_index r) = meta_at s0 (slot_index r)) \<and>
     (\<forall>r\<in>set finished. available s0 r \<longrightarrow> meta_at s (slot_index r) = settled_meta crc32 s0 r)"

lemma settled_row_key: "slot_key (settled_row crc32 s r) = slot_key r"
  by (simp add: settled_row_def free_row_def slot_key_def)

lemma slots_wf_distinct: "slots_wf d \<Longrightarrow> distinct (map slot_key (cache_slots d))"
  unfolding slots_wf_def sorted_strict_distinct by metis

lemma freed_wf:
  assumes wf: "slots_wf d" and rec: "rec \<in> set (cache_slots d)" and a: "slot_action crc32 s rec = Some a"
  shows "slots_wf (replace_row d (slot_key rec) free_row)"
proof (cases "rec_state rec")
  case Free
  then have "free_row rec = rec" using wf rec by (auto simp: slots_wf_def list_all_iff row_ok_def free_row_def)
  then have "map (\<lambda>r. if slot_key r = slot_key rec then free_row r else r) (cache_slots d) = cache_slots d"
    by (intro map_idI) (use slots_key_unique [OF wf _ rec] in auto)
  then show ?thesis using wf by (simp add: replace_row_def)
next
  case Reserved
  have "slots_wf (replace_row d (slot_key rec) (set_state CacheSlotState.Evicting))"
    using steps_slots_wf [OF single_steps(1) wf, of rec] row_op_exact(1) [OF wf rec Reserved] by simp
  then show ?thesis
    using steps_slots_wf [OF single_steps(3), of _ "set_state CacheSlotState.Evicting rec"] evict_and_finish [OF wf rec] Reserved
    by (metis fst_conv)
next
  case Resident
  have "slots_wf (replace_row d (slot_key rec) (set_state CacheSlotState.Evicting))"
    using steps_slots_wf [OF single_steps(2) wf, of rec] row_op_exact(2) [OF wf rec Resident] by simp
  then show ?thesis
    using steps_slots_wf [OF single_steps(3), of _ "set_state CacheSlotState.Evicting rec"] evict_and_finish [OF wf rec] Resident
    by (metis fst_conv)
qed (use steps_slots_wf [OF single_steps(3) wf, of rec] row_op_exact(3) [OF wf rec] in auto)

lemma slot_action_cong:
  "shard_layout s = shard_layout s0 \<Longrightarrow> (available s0 rec \<Longrightarrow> meta_at s (slot_index rec) = meta_at s0 (slot_index rec)) \<Longrightarrow>
   slot_action crc32 s rec = slot_action crc32 s0 rec \<and> slot_report crc32 dry s rec rep = slot_report crc32 dry s0 rec rep"
  by (auto simp: slot_action_def available_def slot_report_def)

lemma replace_row_here:
  assumes "distinct (map slot_key (xs @ rec # ys))"
  shows "map (\<lambda>r. if slot_key r = slot_key rec then f r else r) (xs @ rec # ys) = xs @ f rec # ys"
proof -
  have "\<forall>r\<in>set xs \<union> set ys. slot_key r \<noteq> slot_key rec" using assms by (force simp: image_iff)
  then have "map (\<lambda>r. if slot_key r = slot_key rec then f r else r) xs = xs"
    "map (\<lambda>r. if slot_key r = slot_key rec then f r else r) ys = ys" by (auto intro: map_idI)
  then show ?thesis by simp
qed

lemma progress_step:
  assumes p: "progress crc32 d0 s0 finished (rec # todo) d s" and st: "settled crc32 False d s rec d' s'"
  shows "progress crc32 d0 s0 (finished @ [rec]) todo d' s'"
proof -
  have wf: "slots_wf d" "shard_wf s" and lay: "shard_layout s = shard_layout s0"
    and rows: "cache_slots d = map (settled_row crc32 s0) finished @ rec # todo"
    and mt: "\<And>r. r \<in> set (rec # todo) \<Longrightarrow> available s0 r \<Longrightarrow> meta_at s (slot_index r) = meta_at s0 (slot_index r)"
    and mf: "\<And>r. r \<in> set finished \<Longrightarrow> available s0 r \<Longrightarrow> meta_at s (slot_index r) = settled_meta crc32 s0 r"
    and sh: "cache_shards d = cache_shards d0"
    using p by (auto simp: progress_def)
  have act: "slot_action crc32 s rec = slot_action crc32 s0 rec" using slot_action_cong [OF lay mt] by simp
  show ?thesis
  proof (cases "slot_action crc32 s0 rec")
    case None
    then have "d' = d" "s' = s" using st act by (simp_all add: settled_def)
    then show ?thesis using wf lay rows mt mf sh None by (auto simp: progress_def settled_row_def settled_meta_def)
  next
    case (Some a)
    then have av: "available s0 rec" by (auto simp: slot_action_def split: if_splits)
    have d': "d' = replace_row d (slot_key rec) free_row" and sb: "same_but (slot_index rec) s s'"
      and m: "meta_at s' (slot_index rec) = slot_encode crc32 (metadata_for (free_row rec) SlotState.Free)"
      using st act Some by (simp_all add: settled_def freed_def at_slot_def)
    have dist: "distinct (map slot_key (map (settled_row crc32 s0) finished @ rec # todo))"
      using slots_wf_distinct [OF wf(1)] unfolding rows .
    have other: "meta_at s' (slot_index r) = meta_at s (slot_index r)" if "r \<in> set finished \<union> set todo" "available s0 r" for r
    proof -
      have "slot_key r \<noteq> slot_key rec" using dist that(1) by (force simp: settled_row_key image_iff comp_def)
      then have "slot_index r \<noteq> slot_index rec" using that(2) av by (auto simp: slot_key_def available_def)
      then show ?thesis using sb that(2) lay by (simp add: same_but_def available_def)
    qed
    have "cache_slots d' = map (settled_row crc32 s0) (finished @ [rec]) @ todo"
      unfolding d' replace_row_def using replace_row_here [OF dist, of free_row] rows Some by (simp add: settled_row_def)
    moreover have "slots_wf d'" unfolding d' by (rule freed_wf [OF wf(1) _ Some]) (simp add: rows)
    moreover have "shard_wf s'" "shard_layout s' = shard_layout s0" using sb lay by (simp_all add: same_but_def)
    ultimately show ?thesis using m other mt mf sh Some d'
      by (auto simp: progress_def settled_meta_def replace_row_def)
  qed
qed

lemma r_reconcile_loop:
  "runs (progress crc32 d0 s0 finished todo) (reconcile_loop crc32 False todo rep)
     (\<lambda>rep' d s. rep' = fold (slot_report crc32 False s0) todo rep \<and> progress crc32 d0 s0 (finished @ todo) [] d s)"
proof (induction todo arbitrary: finished rep)
  case Nil
  show ?case by (simp add: r_done)
next
  case (Cons rec todo)
  let ?R = "\<lambda>rep' d s. rep' = slot_report crc32 False s0 rec rep \<and> progress crc32 d0 s0 (finished @ [rec]) todo d s"
  have step: "runs (progress crc32 d0 s0 finished (rec # todo)) (reconcile_slot crc32 False rec rep) ?R"
  proof (rule r_exact)
    fix d1 s1 assume p: "progress crc32 d0 s0 finished (rec # todo) d1 s1"
    then have "slots_wf d1" "shard_wf s1" "rec \<in> set (cache_slots d1)" by (auto simp: progress_def)
    note r = r_reconcile_slot [OF this]
    have "slot_report crc32 False s1 rec rep = slot_report crc32 False s0 rec rep"
      by (rule conjunct2 [OF slot_action_cong]) (use p in \<open>auto simp: progress_def\<close>)
    then show "runs (\<lambda>d s. d = d1 \<and> s = s1) (reconcile_slot crc32 False rec rep) ?R"
      by (intro r_post [OF r]) (use progress_step [OF p] in auto)
  qed
  have rest: "runs (?R rep1) (reconcile_loop crc32 False todo rep1)
      (\<lambda>rep' d s. rep' = fold (slot_report crc32 False s0) (rec # todo) rep \<and> progress crc32 d0 s0 (finished @ rec # todo) [] d s)" for rep1
    by (cases "rep1 = slot_report crc32 False s0 rec rep")
      (use Cons.IH [of "finished @ [rec]" rep1] in \<open>auto intro: r_false elim: r_pre\<close>)
  show ?case unfolding reconcile_loop.simps by (rule r_bind [OF step rest])
qed

lemma r_quiet_loop:
  assumes "slots_wf d0" "shard_wf s0" "set todo \<subseteq> set (cache_slots d0)" "\<forall>r\<in>set todo. dry \<or> slot_action crc32 s0 r = None"
  shows "runs (\<lambda>d s. d = d0 \<and> s = s0) (reconcile_loop crc32 dry todo rep)
    (\<lambda>rep' d s. rep' = fold (slot_report crc32 dry s0) todo rep \<and> d = d0 \<and> s = s0)"
  using assms(3,4)
proof (induction todo arbitrary: rep)
  case Nil
  show ?case by (simp add: r_done)
next
  case (Cons rec todo)
  let ?R = "\<lambda>rep' d s. rep' = slot_report crc32 dry s0 rec rep \<and> d = d0 \<and> s = s0"
  have rec: "rec \<in> set (cache_slots d0)" using Cons.prems by simp
  have step: "runs (\<lambda>d s. d = d0 \<and> s = s0) (reconcile_slot crc32 dry rec rep) ?R"
    by (rule r_post [OF r_reconcile_slot [OF assms(1,2) rec]]) (use Cons.prems in \<open>auto simp: settled_def\<close>)
  have rest: "runs (?R rep1) (reconcile_loop crc32 dry todo rep1)
      (\<lambda>rep' d s. rep' = fold (slot_report crc32 dry s0) (rec # todo) rep \<and> d = d0 \<and> s = s0)" for rep1
    by (cases "rep1 = slot_report crc32 dry s0 rec rep")
      (use Cons.IH [of rep1] Cons.prems in \<open>auto intro: r_false elim: r_pre\<close>)
  show ?case unfolding reconcile_loop.simps by (rule r_bind [OF step rest])
qed

lemma r_load: "runs (\<lambda>d s. d = d0 \<and> s = s0) (db_call (\<lambda>d. (d, Inr (load_all d)))) (\<lambda>recs d s. recs = cache_slots d0 \<and> d = d0 \<and> s = s0)"
  by (rule r_db_call) (simp add: load_all_def)

lemma reconcile_quiet:
  assumes "slots_wf (cache_db w)" "shard_wf (arena w)" "faults w = []"
    "dry \<or> (\<forall>r\<in>set (cache_slots (cache_db w)). slot_action crc32 (arena w) r = None) \<and> meta_dirty (arena w) = []"
  shows "reconcile crc32 dry w = (w, Done (fold (slot_report crc32 dry (arena w)) (cache_slots (cache_db w)) empty_report))"
proof -
  let ?d = "cache_db w" and ?s = "arena w"
  let ?rep = "fold (slot_report crc32 dry ?s) (cache_slots ?d) empty_report"
  let ?Q = "\<lambda>rep d s. rep = ?rep \<and> d = ?d \<and> s = ?s"
  have loop: "runs (\<lambda>d s. recs = cache_slots ?d \<and> d = ?d \<and> s = ?s) (reconcile_loop crc32 dry recs empty_report) ?Q" for recs
    by (cases "recs = cache_slots ?d")
      (use r_quiet_loop [OF assms(1,2), of "cache_slots ?d" dry crc32 empty_report] assms(4) in \<open>auto intro: r_false\<close>)
  have fl: "runs (?Q rep) (if dry then act_done rep else act_bind flush_metadata (\<lambda>_. act_done rep)) ?Q" for rep
  proof (cases dry)
    case False
    then have "runs (?Q rep) flush_metadata (\<lambda>_. ?Q rep)"
      unfolding flush_metadata_def sync_meta_def using assms(4) by (intro r_shard_call) auto
    then show ?thesis using False by (auto intro: r_bind r_done)
  qed (simp add: r_done)
  have "runs (\<lambda>d s. d = ?d \<and> s = ?s) (reconcile crc32 dry) ?Q"
    unfolding reconcile_def by (rule r_bind [OF r_load], rule r_bind [OF loop], rule fl)
  then obtain w' where "reconcile crc32 dry w = (w', Done ?rep)" "faults w' = []" "cache_db w' = ?d" "arena w' = ?s"
    using assms(3) unfolding runs_def by blast
  then show ?thesis using assms(3) by simp
qed

lemma reconcile_runs:
  assumes wf: "slots_wf (cache_db w)" "shard_wf (arena w)" and fs: "faults w = []"
  shows "\<exists>w'. reconcile crc32 False w =
      (w', Done (fold (slot_report crc32 False (arena w)) (cache_slots (cache_db w)) empty_report)) \<and> faults w' = [] \<and>
    progress crc32 (cache_db w) (arena w) (cache_slots (cache_db w)) [] (cache_db w') (arena w') \<and> meta_dirty (arena w') = []"
proof -
  let ?d = "cache_db w" and ?s = "arena w"
  let ?rep = "fold (slot_report crc32 False ?s) (cache_slots ?d) empty_report"
  let ?Q = "\<lambda>rep d s. rep = ?rep \<and> progress crc32 ?d ?s (cache_slots ?d) [] d s"
  have loop: "runs (\<lambda>d s. recs = cache_slots ?d \<and> d = ?d \<and> s = ?s) (reconcile_loop crc32 False recs empty_report) ?Q" for recs
  proof (cases "recs = cache_slots ?d")
    case True
    show ?thesis unfolding True using wf
      by (intro r_pre [OF r_reconcile_loop [of crc32 ?d ?s "[]" "cache_slots ?d" empty_report, simplified]])
        (auto simp: progress_def)
  qed (rule r_false, simp)
  have fl: "runs (?Q rep) (act_bind flush_metadata (\<lambda>_. act_done rep)) (\<lambda>rep d s. ?Q rep d s \<and> meta_dirty s = [])" for rep
    unfolding flush_metadata_def sync_meta_def
    by (rule r_bind [OF r_shard_call [where Q = "\<lambda>_ d s. ?Q rep d s \<and> meta_dirty s = []"] r_done])
      (auto simp: progress_def shard_wf_def meta_at_def)
  have "runs (\<lambda>d s. d = ?d \<and> s = ?s) (reconcile crc32 False) (\<lambda>rep d s. ?Q rep d s \<and> meta_dirty s = [])"
    unfolding reconcile_def by (rule r_bind [OF r_load], rule r_bind [OF loop], simp only: if_False, rule fl)
  then show ?thesis using fs unfolding runs_def by blast
qed

definition needed_actions :: "(bytes \<Rightarrow> 32 word) \<Rightarrow> Shard \<Rightarrow> CacheSlotRecord list \<Rightarrow> (u32 \<times> ReconcileAction) list" where
  "needed_actions crc32 s rows =
     concat (map (\<lambda>r. case slot_action crc32 s r of None \<Rightarrow> [] | Some a \<Rightarrow> [(slot_index r, a)]) rows)"

lemma fold_report:
  "actions (fold (slot_report crc32 dry s) rows rep) = actions rep @ needed_actions crc32 s rows"
  "repaired (fold (slot_report crc32 dry s) rows rep) = repaired rep + (if dry then 0 else length (needed_actions crc32 s rows))"
  "inspected (fold (slot_report crc32 dry s) rows rep) = inspected rep + length rows"
  by (induction rows arbitrary: rep) (auto simp: slot_report_def needed_actions_def split: option.splits)

lemma needed_none: "(\<forall>r\<in>set rows. slot_action crc32 s r = None) \<Longrightarrow> needed_actions crc32 s rows = []"
  by (simp add: needed_actions_def)

text \<open>A settled row agrees with its record.\<close>

lemma settled_action:
  assumes ok: "row_ok r" and m: "available s0 r \<Longrightarrow> meta_at s (slot_index r) = settled_meta crc32 s0 r"
    and lay: "shard_layout s = shard_layout s0"
  shows "slot_action crc32 s (settled_row crc32 s0 r) = None"
    "available s0 r \<Longrightarrow> rec_state (settled_row crc32 s0 r) = CacheSlotState.Free \<or> rec_state (settled_row crc32 s0 r) = CacheSlotState.Resident"
proof -
  show "slot_action crc32 s (settled_row crc32 s0 r) = None"
  proof (cases "slot_action crc32 s0 r")
    case None
    then show ?thesis using m lay
      by (auto simp: settled_row_def settled_meta_def slot_action_def available_def)
  next
    case (Some a)
    let ?m = "metadata_for (free_row r) SlotState.Free"
    have av: "available s0 r" using Some by (auto simp: slot_action_def split: if_splits)
    have "slot_meta_ok ?m" using ok
      by (auto simp: slot_meta_ok_def metadata_for_def free_row_def row_ok_def i64_max_def u64_max_def u32_max_def)
    then have "slot_decode crc32 (meta_at s (slot_index r)) = Inr ?m"
      using m [OF av] Some by (simp add: settled_meta_def slot_decode_encode)
    then show ?thesis using Some
      by (simp add: settled_row_def slot_action_def required_action_def metadata_matches_def metadata_for_def free_row_def)
  qed
  show "rec_state (settled_row crc32 s0 r) = CacheSlotState.Free \<or> rec_state (settled_row crc32 s0 r) = CacheSlotState.Resident"
    if "available s0 r"
    using that by (auto simp: settled_row_def slot_action_def required_action_def free_row_def Let_def split: CacheSlotState.splits if_splits)
qed

text \<open>C2: reconciliation without faults completes from every consistent cache, whatever the records on
  disk say.  It performs exactly the needed repairs and reports them: a row that needs one becomes
  free, every other row is untouched, and the dry run reports the same actions and changes nothing.
  Afterwards every row of the shard is free or resident and agrees with its record on disk, the
  records are on stable storage, resident pages are intact, and a second run finds nothing to do and
  changes nothing.\<close>

theorem reconcile_settles:
  assumes inv: "cache_inv blake3 (cache_db w) (arena w)" and fs: "faults w = []"
  shows "\<exists>w' rep rep0 rep1. reconcile crc32 False w = (w', Done rep) \<and> cache_inv blake3 (cache_db w') (arena w') \<and>
    cache_slots (cache_db w') =
      map (\<lambda>r. if slot_action crc32 (arena w) r = None then r else free_row r) (cache_slots (cache_db w)) \<and>
    actions rep = needed_actions crc32 (arena w) (cache_slots (cache_db w)) \<and> repaired rep = length (actions rep) \<and>
    reconcile crc32 True w = (w, Done rep0) \<and> actions rep0 = actions rep \<and>
    (\<forall>r\<in>set (cache_slots (cache_db w')). available (arena w') r \<longrightarrow>
       (rec_state r = CacheSlotState.Free \<or> rec_state r = CacheSlotState.Resident) \<and> meta_clean (arena w') (slot_index r) \<and>
       (\<exists>m. slot_decode crc32 (meta_at (arena w') (slot_index r)) = Inr m \<and> metadata_matches r m)) \<and>
    reconcile crc32 False w' = (w', Done rep1) \<and> actions rep1 = []"
proof -
  have wf: "slots_wf (cache_db w)" "shard_wf (arena w)" using inv by (simp_all add: cache_inv_def)
  let ?rows = "cache_slots (cache_db w)" and ?s = "arena w"
  obtain w' where w': "reconcile crc32 False w = (w', Done (fold (slot_report crc32 False ?s) ?rows empty_report))"
    "faults w' = []" "progress crc32 (cache_db w) ?s ?rows [] (cache_db w') (arena w')" "meta_dirty (arena w') = []"
    using reconcile_runs [OF wf fs] by blast
  have inv': "cache_inv blake3 (cache_db w') (arena w')" using hoareD [OF h_reconcile inv w'(1)] by simp
  have rows: "cache_slots (cache_db w') = map (settled_row crc32 ?s) ?rows" and lay: "shard_layout (arena w') = shard_layout ?s"
    and wf': "slots_wf (cache_db w')" "shard_wf (arena w')"
    using w'(3) by (simp_all add: progress_def)
  have none: "slot_action crc32 (arena w') q = None" if "q \<in> set (cache_slots (cache_db w'))" for q
    using that w'(3) wf(1) settled_action(1) [OF _ _ lay] unfolding rows by (auto simp: progress_def slots_wf_def list_all_iff)
  have fin: "rec_state q = CacheSlotState.Free \<or> rec_state q = CacheSlotState.Resident"
    if "q \<in> set (cache_slots (cache_db w'))" "available (arena w') q" for q
  proof -
    obtain r where r: "r \<in> set ?rows" "q = settled_row crc32 ?s r" using \<open>q \<in> _\<close> unfolding rows by auto
    have "available ?s r" using that(2) r(2) lay by (simp add: available_def settled_row_def free_row_def split: if_splits)
    then show ?thesis using settled_action(2) [of r ?s "arena w'" crc32] r w'(3) wf(1) lay
      by (auto simp: progress_def slots_wf_def list_all_iff)
  qed
  have match: "\<exists>m. slot_decode crc32 (meta_at (arena w') (slot_index q)) = Inr m \<and> metadata_matches q m"
    if "q \<in> set (cache_slots (cache_db w'))" "available (arena w') q" for q
    using none [OF that(1)] fin [OF that] that(2)
    by (auto simp: slot_action_def required_action_def split: if_splits sum.splits)
  have rep1: "reconcile crc32 False w' = (w', Done (fold (slot_report crc32 False (arena w')) (cache_slots (cache_db w')) empty_report))"
    by (rule reconcile_quiet) (use wf' w' none in auto)
  have rep0: "reconcile crc32 True w = (w, Done (fold (slot_report crc32 True ?s) ?rows empty_report))"
    by (rule reconcile_quiet) (use wf fs in auto)
  have clean: "meta_clean (arena w') q" for q using w'(4) by (simp add: meta_clean_def)
  have "map (settled_row crc32 ?s) ?rows = map (\<lambda>r. if slot_action crc32 ?s r = None then r else free_row r) ?rows"
    by (simp add: settled_row_def [abs_def])
  then show ?thesis using w'(1) inv' rows fin match rep0 rep1 clean needed_none [of "cache_slots (cache_db w')"] none
    by (simp add: fold_report empty_report_def)
qed

text \<open>The theorem applies to the empty shard of the insertion examples, whose records were never written.\<close>

theorem reconcile_settles_witness:
  "\<exists>w' rep. reconcile (\<lambda>_. 0) False (example_cache []) = (w', Done rep) \<and> repaired rep = length (actions rep) \<and>
     actions rep = needed_actions (\<lambda>_. 0) (arena (example_cache [])) [example_free]"
proof -
  have "faults (example_cache []) = []" "cache_slots (cache_db (example_cache [])) = [example_free]"
    by (simp_all add: example_cache_def example_world_sel)
  then show ?thesis
    using reconcile_settles [of example_hash "example_cache []" "\<lambda>_. 0", OF example_cache_inv] by auto
qed

end
