(* ===== verification/Resident_Gate.thy ===== *)
theory Resident_Gate
  imports Prelude
begin

unbundle bit_operations_syntax

text \<open>The gate of a resident page: \<open>mirage-cache/src/resident.rs\<close>.  One atomic 64-bit word holds the state
  in its upper half and the number of read leases in its lower half; readers and evictors only use
  single loads, compare-and-swap and fetch-sub on it.  The operations are functions on the word.
  \<open>gate_step\<close> interleaves any number of threads at the granularity of these atomic accesses, including
  the spurious failures of the weak compare-and-swap.\<close>

section \<open>Operations\<close>

definition RESIDENT :: "64 word" where
  "RESIDENT = push_bit 32 2"

definition EVICTING :: "64 word" where
  "EVICTING = push_bit 32 3"

definition LEASE_MASK :: "64 word" where
  "LEASE_MASK = 0xFFFFFFFF"

text \<open>The checks of \<open>acquire\<close> after its load: no lease, an error, or the word to swap in.\<close>

definition acquire_check :: "64 word \<Rightarrow> 64 word option result" where
  "acquire_check current =
     (if drop_bit 32 current \<noteq> 2 then Inr None
      else if current AND LEASE_MASK = LEASE_MASK then Inl CacheFull
      else Inr (Some (current + 1)))"

definition compare_exchange :: "64 word \<Rightarrow> 64 word \<Rightarrow> 64 word \<Rightarrow> 64 word \<times> bool" where
  "compare_exchange expected new current = (if current = expected then (new, True) else (current, False))"

text \<open>\<open>acquire\<close> when no other thread intervenes.\<close>

definition gate_acquire :: "64 word \<Rightarrow> 64 word \<times> bool result" where
  "gate_acquire current =
     (case acquire_check current of
        Inl e \<Rightarrow> (current, Inl e)
      | Inr None \<Rightarrow> (current, Inr False)
      | Inr (Some new) \<Rightarrow> (fst (compare_exchange current new current), Inr True))"

definition gate_release :: "64 word \<Rightarrow> 64 word" where
  "gate_release current = current - 1"

text \<open>The debug assertions of \<open>release\<close>.\<close>

definition release_asserts :: "64 word \<Rightarrow> bool" where
  "release_asserts previous \<longleftrightarrow> drop_bit 32 previous = 2 \<and> previous AND LEASE_MASK > 0"

definition active_read_leases :: "64 word \<Rightarrow> nat" where
  "active_read_leases current = (if drop_bit 32 current = 2 then unat (current AND LEASE_MASK) else 0)"

definition gate_begin_eviction :: "64 word \<Rightarrow> 64 word \<times> unit result" where
  "gate_begin_eviction current =
     (case compare_exchange RESIDENT EVICTING current of (g, True) \<Rightarrow> (g, Inr ()) | (g, False) \<Rightarrow> (g, Inl CacheFull))"

definition gate_cancel_eviction :: "64 word \<Rightarrow> 64 word" where
  "gate_cancel_eviction current = fst (compare_exchange EVICTING RESIDENT current)"

section \<open>Words of the gate\<close>

lemma lease_mask_mask: "LEASE_MASK = mask 32"
  by (simp add: LEASE_MASK_def mask_eq_exp_minus_1)

lemma resident_word:
  assumes "n < 2 ^ 32"
  shows "drop_bit 32 (RESIDENT + of_nat n) = (2 :: 64 word)" "unat ((RESIDENT + of_nat n) AND LEASE_MASK) = n"
proof -
  have v: "unat (RESIDENT + of_nat n) = 2 ^ 33 + n"
    using assms by (simp add: RESIDENT_def unat_word_ariths unat_of_nat push_bit_eq_mult)
  have "unat (drop_bit 32 (RESIDENT + of_nat n)) = (2 ^ 33 + n) div 2 ^ 32"
    unfolding unat_drop_bit_eq v by (simp add: drop_bit_eq_div)
  also have "\<dots> = 2" using assms by simp
  finally show "drop_bit 32 (RESIDENT + of_nat n) = (2 :: 64 word)" by (simp add: word_unat_eq_iff)
  have "unat ((RESIDENT + of_nat n) AND LEASE_MASK) = unat (take_bit 32 (RESIDENT + of_nat n))"
    by (simp add: lease_mask_mask take_bit_eq_mask)
  also have "\<dots> = take_bit 32 (2 ^ 33 + n)" using v by (simp add: unsigned_take_bit_eq)
  also have "\<dots> = (2 ^ 33 mod 2 ^ 32 + n) mod 2 ^ 32" unfolding take_bit_eq_mod by (rule mod_add_left_eq [symmetric])
  also have "\<dots> = n" using assms by simp
  finally show "unat ((RESIDENT + of_nat n) AND LEASE_MASK) = n" .
qed

lemma evicting_word: "drop_bit 32 EVICTING = 3" "EVICTING \<noteq> RESIDENT"
  by (simp_all add: EVICTING_def RESIDENT_def)

lemma resident_word_inj:
  assumes "m < 2 ^ 32" "n < 2 ^ 32"
  shows "RESIDENT + of_nat m = RESIDENT + of_nat n \<longleftrightarrow> m = n" "RESIDENT + of_nat n \<noteq> EVICTING"
proof -
  show "RESIDENT + of_nat m = RESIDENT + of_nat n \<longleftrightarrow> m = n" using resident_word(2) assms by metis
  show "RESIDENT + of_nat n \<noteq> EVICTING" using resident_word(1) [OF assms(2)] evicting_word(1) by auto
qed

lemma resident_word_mask:
  assumes "n < 2 ^ 32"
  shows "(RESIDENT + of_nat n) AND LEASE_MASK = LEASE_MASK \<longleftrightarrow> n = 2 ^ 32 - 1"
proof -
  have "unat LEASE_MASK = 2 ^ 32 - 1" by (simp add: LEASE_MASK_def)
  then show ?thesis using resident_word(2) [OF assms] by (auto simp: word_unat_eq_iff)
qed

lemma acquire_check_resident:
  "n < 2 ^ 32 \<Longrightarrow> acquire_check (RESIDENT + of_nat n) =
    (if n = 2 ^ 32 - 1 then Inl CacheFull else Inr (Some (RESIDENT + of_nat (Suc n))))"
  by (auto simp: acquire_check_def resident_word resident_word_mask add.assoc add.commute)

lemma acquire_check_evicting: "acquire_check EVICTING = Inr None"
  by (simp add: acquire_check_def evicting_word)

section \<open>Interleaved threads\<close>

datatype gate_thread = Idle | Loaded "64 word" | Guard | Evictor | Evicted

record GateSystem =
  gate :: "64 word"
  threads :: "gate_thread list"

inductive gate_step :: "GateSystem \<Rightarrow> GateSystem \<Rightarrow> bool" where
  gate_load: "threads c = as @ Idle # bs \<Longrightarrow> acquire_check (gate c) = Inr (Some new) \<Longrightarrow>
     gate_step c (c\<lparr>threads := as @ Loaded (gate c) # bs\<rparr>)"
| gate_swap: "threads c = as @ Loaded current # bs \<Longrightarrow> acquire_check current = Inr (Some new) \<Longrightarrow>
     compare_exchange current new (gate c) = (g, True) \<Longrightarrow> gate_step c \<lparr>gate = g, threads = as @ Guard # bs\<rparr>"
| gate_retry: "threads c = as @ Loaded current # bs \<Longrightarrow> gate_step c (c\<lparr>threads := as @ Idle # bs\<rparr>)"
| gate_drop: "threads c = as @ Guard # bs \<Longrightarrow>
     gate_step c \<lparr>gate = gate_release (gate c), threads = as @ Idle # bs\<rparr>"
| gate_evict: "threads c = as @ Idle # bs \<Longrightarrow> gate_begin_eviction (gate c) = (g, Inr ()) \<Longrightarrow>
     gate_step c \<lparr>gate = g, threads = as @ Evictor # bs\<rparr>"
| gate_cancel: "threads c = as @ Evictor # bs \<Longrightarrow>
     gate_step c \<lparr>gate = gate_cancel_eviction (gate c), threads = as @ Idle # bs\<rparr>"
| gate_evicted: "threads c = as @ Evictor # bs \<Longrightarrow> gate_step c (c\<lparr>threads := as @ Evicted # bs\<rparr>)"
| gate_new_thread: "gate_step c (c\<lparr>threads := Idle # threads c\<rparr>)"

definition initial_gate :: GateSystem where
  "initial_gate = \<lparr>gate = RESIDENT, threads = []\<rparr>"

definition guards :: "GateSystem \<Rightarrow> nat" where
  "guards c = length (filter (\<lambda>t. t = Guard) (threads c))"

definition evictors :: "GateSystem \<Rightarrow> nat" where
  "evictors c = length (filter (\<lambda>t. t = Evictor \<or> t = Evicted) (threads c))"

definition gate_inv :: "GateSystem \<Rightarrow> bool" where
  "gate_inv c \<longleftrightarrow> guards c < 2 ^ 32 \<and>
     (if evictors c = 0 then gate c = RESIDENT + of_nat (guards c)
      else evictors c = 1 \<and> guards c = 0 \<and> gate c = EVICTING)"

lemma begin_eviction_Inr: "gate_begin_eviction g = (g', Inr ()) \<longleftrightarrow> g = RESIDENT \<and> g' = EVICTING"
  by (auto simp: gate_begin_eviction_def compare_exchange_def)

lemma gate_inv_swap:
  assumes "gate_inv c" "threads c = as @ Loaded current # bs" "acquire_check current = Inr (Some new)" "gate c = current"
  shows "gate_inv \<lparr>gate = new, threads = as @ Guard # bs\<rparr>"
proof -
  have no: "evictors c = 0" using assms(1,3,4) acquire_check_evicting by (auto simp: gate_inv_def split: if_splits)
  then have g: "current = RESIDENT + of_nat (guards c)" "guards c < 2 ^ 32" using assms(1,4) by (simp_all add: gate_inv_def)
  then have n: "guards c \<noteq> 2 ^ 32 - 1" "new = RESIDENT + of_nat (Suc (guards c))"
    using assms(3) acquire_check_resident [OF g(2)] by (auto split: if_splits)
  have "guards \<lparr>gate = new, threads = as @ Guard # bs\<rparr> = Suc (guards c)" "evictors \<lparr>gate = new, threads = as @ Guard # bs\<rparr> = 0"
    using assms(2) no by (simp_all add: guards_def evictors_def)
  then show ?thesis using n g(2) by (simp add: gate_inv_def)
qed

lemma gate_inv_cong:
  "gate_inv c \<Longrightarrow> guards c' = guards c \<Longrightarrow> evictors c' = evictors c \<Longrightarrow> gate c' = gate c \<Longrightarrow> gate_inv c'"
  unfolding gate_inv_def by metis

lemma gate_inv_step:
  assumes "gate_step c c'" "gate_inv c"
  shows "gate_inv c'"
  using assms
proof (induction rule: gate_step.induct)
  case (gate_swap c as current bs new g)
  then have "gate c = current" "g = new" by (auto simp: compare_exchange_def split: if_splits)
  then show ?case using gate_inv_swap gate_swap by blast
next
  case (gate_drop c as bs)
  define k where "k = length (filter (\<lambda>t. t = Guard) (as @ bs))"
  have n: "guards c = Suc k" "guards (GateSystem.make g (as @ Idle # bs)) = k"
    "evictors c = evictors (GateSystem.make g (as @ Idle # bs))" for g
    using gate_drop(1) by (simp_all add: guards_def evictors_def k_def GateSystem.defs)
  then have "evictors c = 0" "gate c = RESIDENT + of_nat (Suc k)" using gate_drop(2) by (auto simp: gate_inv_def split: if_splits)
  then have "gate_inv (GateSystem.make (gate_release (gate c)) (as @ Idle # bs))"
    using n gate_drop(2) by (simp add: gate_inv_def gate_release_def GateSystem.defs)
  then show ?case by (simp add: GateSystem.defs)
next
  case (gate_evict c as bs g)
  then have g: "gate c = RESIDENT + of_nat 0" "g = EVICTING" by (simp_all add: begin_eviction_Inr)
  have "evictors c = 0" using gate_evict(3) g(1) evicting_word(2) by (auto simp: gate_inv_def split: if_splits)
  moreover from this have "guards c = 0"
    using gate_evict(3) g(1) resident_word_inj(1) [of "guards c" 0] by (simp add: gate_inv_def)
  ultimately show ?case using gate_evict(1) g(2) by (simp add: gate_inv_def guards_def evictors_def)
next
  case (gate_cancel c as bs)
  let ?c = "\<lparr>gate = gate_cancel_eviction (gate c), threads = as @ Idle # bs\<rparr>"
  have n: "evictors c = Suc (evictors ?c)" "guards ?c = guards c" using gate_cancel(1) by (simp_all add: guards_def evictors_def)
  have "evictors c = 1" "guards c = 0" "gate c = EVICTING" using gate_cancel(2) n(1) by (auto simp: gate_inv_def split: if_splits)
  then have "evictors ?c = 0" "guards ?c = 0" "gate c = EVICTING" using n by simp_all
  then show ?case by (simp add: gate_inv_def gate_cancel_eviction_def compare_exchange_def)
next
  case (gate_evicted c as bs)
  show ?case by (rule gate_inv_cong [OF gate_evicted(2)]) (simp_all add: guards_def evictors_def gate_evicted(1))
next
  case (gate_load c as bs new)
  show ?case by (rule gate_inv_cong [OF gate_load(3)]) (simp_all add: guards_def evictors_def gate_load(1))
next
  case (gate_retry c as current bs)
  show ?case by (rule gate_inv_cong [OF gate_retry(2)]) (simp_all add: guards_def evictors_def gate_retry(1))
next
  case (gate_new_thread c)
  show ?case by (rule gate_inv_cong [OF gate_new_thread]) (simp_all add: guards_def evictors_def)
qed

lemma gate_inv_initial: "gate_inv initial_gate"
  by (simp add: initial_gate_def gate_inv_def guards_def evictors_def)

lemma gate_inv_reachable: "gate_step\<^sup>*\<^sup>* initial_gate c \<Longrightarrow> gate_inv c"
  by (induction rule: rtranclp_induct) (use gate_inv_initial gate_inv_step in auto)

text \<open>C14: leases and eviction exclude each other in every interleaving of any number of readers and
  evictors.  The lease count of the word is exactly the number of live guards and never carries into
  the state bits; a guard exists only while the page is resident and no evictor has passed the gate;
  at most one evictor passes; an eviction can begin exactly when there is no guard and no evictor;
  the assertions of \<open>release\<close> hold whenever a guard is dropped; and while nobody evicts a reader is
  refused only when the count is saturated.\<close>

theorem gate_exclusion:
  assumes "gate_step\<^sup>*\<^sup>* initial_gate c"
  shows "active_read_leases (gate c) = guards c \<and> guards c < 2 ^ 32 \<and> evictors c \<le> 1 \<and> (guards c = 0 \<or> evictors c = 0) \<and>
    (snd (gate_begin_eviction (gate c)) = Inr () \<longleftrightarrow> guards c = 0 \<and> evictors c = 0) \<and>
    (Guard \<in> set (threads c) \<longrightarrow> release_asserts (gate c)) \<and>
    acquire_check (gate c) = (if evictors c \<noteq> 0 then Inr None else if guards c = 2 ^ 32 - 1 then Inl CacheFull
       else Inr (Some (gate c + 1)))"
proof -
  have inv: "gate_inv c" by (rule gate_inv_reachable [OF assms])
  show ?thesis
  proof (cases "evictors c = 0")
    case True
    then have g: "guards c < 2 ^ 32" "gate c = RESIDENT + of_nat (guards c)" using inv by (simp_all add: gate_inv_def)
    have "gate c = RESIDENT \<longleftrightarrow> guards c = 0" using resident_word_inj(1) [OF g(1), of 0] g(2) by simp
    then have "snd (gate_begin_eviction (gate c)) = Inr () \<longleftrightarrow> guards c = 0"
      by (auto simp: gate_begin_eviction_def compare_exchange_def)
    moreover have "release_asserts (gate c)" if "Guard \<in> set (threads c)"
    proof -
      have "0 < guards c" using that by (auto simp: guards_def filter_empty_conv)
      then show ?thesis using resident_word [OF g(1)] g(2) by (simp add: release_asserts_def word_less_nat_alt)
    qed
    moreover have "active_read_leases (gate c) = guards c" using resident_word [OF g(1)] g(2) by (simp add: active_read_leases_def)
    ultimately show ?thesis using True g acquire_check_resident [OF g(1)] by (simp add: ac_simps)
  next
    case False
    then have "evictors c = 1" "guards c = 0" "gate c = EVICTING" using inv by (simp_all add: gate_inv_def)
    moreover from this have "Guard \<notin> set (threads c)" by (auto simp: guards_def filter_empty_conv)
    ultimately show ?thesis using evicting_word
      by (simp add: active_read_leases_def gate_begin_eviction_def compare_exchange_def acquire_check_evicting)
  qed
qed

text \<open>A reader that loaded the word before an eviction fails its swap: two threads, one of which holds a
  stale load.\<close>

definition example_gate :: GateSystem where
  "example_gate = \<lparr>gate = EVICTING, threads = [Evictor, Loaded RESIDENT]\<rparr>"

lemma example_gate_reached: "gate_step\<^sup>*\<^sup>* initial_gate example_gate"
proof -
  let ?c1 = "\<lparr>gate = RESIDENT, threads = [Idle]\<rparr>" and ?c2 = "\<lparr>gate = RESIDENT, threads = [Idle, Idle]\<rparr>"
  let ?c3 = "\<lparr>gate = RESIDENT, threads = [Idle, Loaded RESIDENT]\<rparr>"
  have 1: "gate_step initial_gate ?c1" using gate_new_thread [of initial_gate] by (simp add: initial_gate_def)
  have 2: "gate_step ?c1 ?c2" using gate_new_thread [of ?c1] by simp
  have 3: "gate_step ?c2 ?c3"
    using gate_load [of ?c2 "[Idle]" "[]"] acquire_check_resident [of 0] by simp
  have 4: "gate_step ?c3 example_gate"
    using gate_evict [of ?c3 "[]" "[Loaded RESIDENT]" EVICTING] by (simp add: begin_eviction_Inr example_gate_def)
  have "gate_step\<^sup>*\<^sup>* initial_gate ?c2" using 1 2 by (meson r_into_rtranclp rtranclp.rtrancl_into_rtrancl)
  then have "gate_step\<^sup>*\<^sup>* initial_gate ?c3" using 3 by (rule rtranclp.rtrancl_into_rtrancl)
  then show ?thesis using 4 by (rule rtranclp.rtrancl_into_rtrancl)
qed

theorem gate_exclusion_witness:
  "active_read_leases (gate example_gate) = guards example_gate \<and> evictors example_gate = 1 \<and>
   acquire_check (gate example_gate) = Inr None"
proof -
  have "evictors example_gate = 1" by (simp add: example_gate_def evictors_def)
  then show ?thesis using gate_exclusion [OF example_gate_reached] by simp
qed

end
