(* ===== verification/Pin_Registry.thy ===== *)
theory Pin_Registry
  imports Byte_Codec Cache_Slots Ordered_Map
begin

text \<open>Cache pins: the durable table of \<open>mirage-db/src/pin.rs\<close> and the in-memory registry of
  \<open>mirage-cache/src/pin.rs\<close> and \<open>session_pin.rs\<close> that guards evictions.  The table is a list of distinct
  rows; the order in which it is loaded is not observable in the registry.  Whether a session or an
  update journal exists is asked of other tables and is the parameter \<open>owner_exists\<close>; a request that
  fails in the engine rolls back.  Lock poisoning and a reply that is lost after its transaction has
  committed are left out.\<close>

section \<open>The durable table\<close>

datatype PersistentPinReason = PersistentMandatory | PersistentSession id16 | PersistentDirty id16 | PersistentRecovery

type_synonym pin_row = "page_hash \<times> string \<times> bytes"

record PinDb =
  pin_slots :: CacheDb
  cache_pins :: "pin_row list"

fun encode_reason :: "PersistentPinReason \<Rightarrow> string \<times> bytes" where
  "encode_reason PersistentMandatory = (''mandatory'', [])"
| "encode_reason (PersistentSession i) = (''session'', id_bytes i)"
| "encode_reason (PersistentDirty i) = (''dirty'', id_bytes i)"
| "encode_reason PersistentRecovery = (''recovery'', [])"

definition fixed_id :: "bytes \<Rightarrow> id16 result" where
  "fixed_id bs = (if length bs = 16 then Inr (id_of_bytes bs) else Inl IntegrityMismatch)"

definition decode_reason :: "string \<Rightarrow> bytes \<Rightarrow> PersistentPinReason result" where
  "decode_reason kind owner =
     (if kind = ''mandatory'' \<and> owner = [] then Inr PersistentMandatory
      else if kind = ''recovery'' \<and> owner = [] then Inr PersistentRecovery
      else if kind = ''session'' then bind_result (fixed_id owner) (\<lambda>i. Inr (PersistentSession i))
      else if kind = ''dirty'' then bind_result (fixed_id owner) (\<lambda>i. Inr (PersistentDirty i))
      else Inl IntegrityMismatch)"

fun validate_owner :: "(PersistentPinReason \<Rightarrow> bool) \<Rightarrow> PersistentPinReason \<Rightarrow> unit result" where
  "validate_owner owner_exists (PersistentSession i) =
     (if owner_exists (PersistentSession i) then Inr () else Inl InvalidArgument)"
| "validate_owner owner_exists (PersistentDirty i) =
     (if owner_exists (PersistentDirty i) then Inr () else Inl InvalidArgument)"
| "validate_owner owner_exists _ = Inr ()"

definition insert_or_ignore :: "pin_row \<Rightarrow> pin_row list \<Rightarrow> pin_row list" where
  "insert_or_ignore row rows = (if row \<in> set rows then rows else rows @ [row])"

definition pin_table :: "(PersistentPinReason \<Rightarrow> bool) \<Rightarrow> PinDb \<Rightarrow> PersistentPinReason \<Rightarrow> page_hash list \<Rightarrow> PinDb \<times> unit result" where
  "pin_table owner_exists db reason pages0 = atomic db
     (let pages = remdups (sort pages0) in
      if pages = [] then Inl InvalidArgument
      else bind_result (validate_owner owner_exists reason) (\<lambda>_.
        if list_ex (\<lambda>p. query_hash (pin_slots db) p CacheSlotState.Resident = None) pages then Inl CacheFull
        else let (kind, owner) = encode_reason reason in
          Inr (db\<lparr>cache_pins := fold (\<lambda>p. insert_or_ignore (p, kind, owner)) pages (cache_pins db)\<rparr>, ())))"

definition release_table :: "PinDb \<Rightarrow> PersistentPinReason \<Rightarrow> PinDb \<times> unit result" where
  "release_table db reason =
     (let (kind, owner) = encode_reason reason in
      (db\<lparr>cache_pins := filter (\<lambda>(_, k, i). \<not> (k = kind \<and> i = owner)) (cache_pins db)\<rparr>, Inr ()))"

fun load_rows :: "pin_row list \<Rightarrow> (page_hash \<times> PersistentPinReason) list result" where
  "load_rows [] = Inr []"
| "load_rows ((h, kind, owner) # rows) =
     (case decode_reason kind owner of
        Inl _ \<Rightarrow> Inl Io
      | Inr r \<Rightarrow> bind_result (load_rows rows) (\<lambda>rs. Inr ((h, r) # rs)))"

section \<open>The registry\<close>

datatype PinReason = Mandatory | Session id16 | Dirty id16 | Recovery | ReadLease

type_synonym PinRegistry = "(page_hash \<times> PinReason set) list"

fun to_persistent :: "PinReason \<Rightarrow> PersistentPinReason result" where
  "to_persistent Mandatory = Inr PersistentMandatory"
| "to_persistent (Session i) = Inr (PersistentSession i)"
| "to_persistent (Dirty i) = Inr (PersistentDirty i)"
| "to_persistent Recovery = Inr PersistentRecovery"
| "to_persistent ReadLease = Inl InvalidArgument"

fun from_persistent :: "PersistentPinReason \<Rightarrow> PinReason" where
  "from_persistent PersistentMandatory = Mandatory"
| "from_persistent (PersistentSession i) = Session i"
| "from_persistent (PersistentDirty i) = Dirty i"
| "from_persistent PersistentRecovery = Recovery"

definition reasons :: "PinRegistry \<Rightarrow> page_hash \<Rightarrow> PinReason set" where
  "reasons reg h = (case map_of reg h of None \<Rightarrow> {} | Some rs \<Rightarrow> rs)"

definition is_pinned_page :: "PinRegistry \<Rightarrow> page_hash \<Rightarrow> bool" where
  "is_pinned_page reg h = (case map_of reg h of None \<Rightarrow> False | Some rs \<Rightarrow> rs \<noteq> {})"

definition add_pin :: "PinReason \<Rightarrow> page_hash \<Rightarrow> PinRegistry \<Rightarrow> PinRegistry" where
  "add_pin reason h reg = bt_insert h (insert reason (reasons reg h)) reg"

definition retain_without :: "PinReason \<Rightarrow> PinRegistry \<Rightarrow> PinRegistry" where
  "retain_without reason reg = filter (\<lambda>e. snd e \<noteq> {}) (map (\<lambda>(h, rs). (h, rs - {reason})) reg)"

definition rebuild_pins :: "PinDb \<Rightarrow> PinRegistry result" where
  "rebuild_pins db =
     bind_result (load_rows (cache_pins db)) (\<lambda>rows. Inr (fold (\<lambda>(h, r). add_pin (from_persistent r) h) rows []))"

text \<open>A request to the writer; \<open>engine\<close> is false when the engine reports a failure, and the
  transaction has then been rolled back.\<close>

definition pin_request :: "bool \<Rightarrow> PinDb \<Rightarrow> PinDb \<times> unit result \<Rightarrow> PinDb \<times> unit result" where
  "pin_request engine db r = (if engine then r else (db, Inl Io))"

definition pin_batch ::
  "(PersistentPinReason \<Rightarrow> bool) \<Rightarrow> bool \<Rightarrow> PinReason \<Rightarrow> page_hash list \<Rightarrow> PinDb \<times> PinRegistry \<Rightarrow>
   (PinDb \<times> PinRegistry) \<times> unit result" where
  "pin_batch owner_exists engine reason pages st =
     (case to_persistent reason of
        Inl e \<Rightarrow> (st, Inl e)
      | Inr p \<Rightarrow>
          let unique = remdups (sort pages) in
          (case pin_request engine (fst st) (pin_table owner_exists (fst st) p unique) of
             (db, Inl e) \<Rightarrow> ((db, snd st), Inl e)
           | (db, Inr _) \<Rightarrow> ((db, fold (add_pin reason) unique (snd st)), Inr ())))"

definition release_pins :: "bool \<Rightarrow> PinReason \<Rightarrow> PinDb \<times> PinRegistry \<Rightarrow> (PinDb \<times> PinRegistry) \<times> unit result" where
  "release_pins engine reason st =
     (case to_persistent reason of
        Inl e \<Rightarrow> (st, Inl e)
      | Inr p \<Rightarrow>
          (case pin_request engine (fst st) (release_table (fst st) p) of
             (db, Inl e) \<Rightarrow> ((db, snd st), Inl e)
           | (db, Inr _) \<Rightarrow> ((db, retain_without reason (snd st)), Inr ())))"

definition pin_session where
  "pin_session owner_exists engine session pages = pin_batch owner_exists engine (Session session) pages"

definition release_session where
  "release_session engine session = release_pins engine (Session session)"

section \<open>The registry mirrors the table\<close>

lemma decode_encode_reason: "decode_reason (fst (encode_reason r)) (snd (encode_reason r)) = Inr r"
  by (cases r) (simp_all add: decode_reason_def fixed_id_def)

lemma encode_reason_inj: "encode_reason r = encode_reason q \<longleftrightarrow> r = q"
  using decode_encode_reason by (metis Inr_inject)

lemma from_to_persistent: "to_persistent r = Inr p \<longleftrightarrow> r = from_persistent p"
  by (cases r; cases p) auto

lemma from_persistent_inj: "from_persistent p = from_persistent q \<longleftrightarrow> p = q"
  using from_to_persistent by (metis Inr_inject)

text \<open>The rows of the table as pins.\<close>

definition pin_set :: "PinDb \<Rightarrow> (page_hash \<times> PinReason) set" where
  "pin_set db = {(h, from_persistent p) |h p. (h, encode_reason p) \<in> set (cache_pins db)}"

definition pins_wf :: "PinDb \<Rightarrow> bool" where
  "pins_wf db \<longleftrightarrow> (\<forall>(h, e)\<in>set (cache_pins db). \<exists>p. e = encode_reason p)"

definition registry_wf :: "PinRegistry \<Rightarrow> bool" where
  "registry_wf reg \<longleftrightarrow> bt_wf reg \<and> (\<forall>e\<in>set reg. snd e \<noteq> {})"

lemma registry_eq:
  assumes "registry_wf reg" "registry_wf reg'" "reasons reg = reasons reg'"
  shows "reg = reg'"
proof (rule bt_ext)
  show "bt_wf reg" "bt_wf reg'" using assms(1,2) by (simp_all add: registry_wf_def)
  have some: "map_of r h = (if reasons r h = {} then None else Some (reasons r h))" if "registry_wf r" for r h
    using that map_of_SomeD [of r h] by (force simp: registry_wf_def reasons_def split: option.splits)
  show "map_of reg = map_of reg'" using some [OF assms(1)] some [OF assms(2)] assms(3) by (simp add: fun_eq_iff)
qed

lemma add_pin_reasons: "reasons (add_pin r h reg) = (\<lambda>x. if x = h then insert r (reasons reg x) else reasons reg x)"
  by (auto simp: reasons_def add_pin_def fun_eq_iff)

lemma bt_insert_set: "set (bt_insert k v m) \<subseteq> insert (k, v) (set m)"
  by (induction m) (auto split: if_splits)

lemma add_pin_wf: "registry_wf reg \<Longrightarrow> registry_wf (add_pin r h reg)"
  using bt_insert_set [of h "insert r (reasons reg h)" reg] by (force simp: registry_wf_def add_pin_def)

lemma fold_add_pin:
  "registry_wf reg \<Longrightarrow> registry_wf (fold (\<lambda>(h, r). add_pin (f r) h) rows reg) \<and>
   reasons (fold (\<lambda>(h, r). add_pin (f r) h) rows reg) = (\<lambda>x. reasons reg x \<union> {f r |r. (x, r) \<in> set rows})"
proof (induction rows arbitrary: reg)
  case (Cons e rows)
  obtain h r where e: "e = (h, r)" by (cases e)
  show ?case using Cons.IH [OF add_pin_wf [OF Cons.prems, of "f r" h]]
    by (auto simp: e add_pin_reasons fun_eq_iff)
qed simp

lemma map_of_map_diff: "map_of (map (\<lambda>(h, rs). (h, rs - {r})) reg) x = map_option (\<lambda>rs. rs - {r}) (map_of reg x)"
  by (induction reg) auto

lemma retain_reasons:
  assumes "registry_wf reg"
  shows "registry_wf (retain_without r reg)" "reasons (retain_without r reg) = (\<lambda>x. reasons reg x - {r})"
proof -
  let ?m = "map (\<lambda>(h, rs). (h, rs - {r})) reg"
  have "map fst ?m = map fst reg" by (auto simp: comp_def split_beta)
  then have wf: "bt_wf ?m" using assms unfolding registry_wf_def bt_wf_def by metis
  then have wf': "bt_wf (retain_without r reg)"
    by (simp add: bt_wf_def retain_without_def sorted_wrt_map sorted_wrt_filter)
  then show "registry_wf (retain_without r reg)" by (simp add: registry_wf_def retain_without_def)
  have "reasons (retain_without r reg) x = reasons reg x - {r}" for x
  proof (cases "map_of reg x")
    case None
    then have "map_of (retain_without r reg) x = None"
      by (force simp: map_of_eq_None_iff retain_without_def)
    then show ?thesis using None by (simp add: reasons_def)
  next
    case (Some rs)
    have "(x, rs - {r}) \<in> set ?m" using map_of_SomeD [OF Some] by force
    then have "rs - {r} \<noteq> {} \<Longrightarrow> map_of (retain_without r reg) x = Some (rs - {r})"
      using bt_wf_entry [OF wf', of x "rs - {r}"] by (simp add: retain_without_def)
    moreover have "rs - {r} = {} \<Longrightarrow> map_of (retain_without r reg) x = None"
    proof (rule ccontr)
      assume e: "rs - {r} = {}" and "map_of (retain_without r reg) x \<noteq> None"
      then obtain v where v: "(x, v) \<in> set (retain_without r reg)" using map_of_SomeD by force
      then have "(x, v) \<in> set ?m" "v \<noteq> {}" by (simp_all add: retain_without_def)
      then show False using bt_wf_entry [OF wf, of x v] bt_wf_entry [OF wf, of x "rs - {r}"] \<open>(x, rs - {r}) \<in> set ?m\<close> e by simp
    qed
    ultimately show ?thesis using Some by (cases "rs - {r} = {}") (simp_all add: reasons_def)
  qed
  then show "reasons (retain_without r reg) = (\<lambda>x. reasons reg x - {r})" by blast
qed

text \<open>The relation between the two copies of the pins.\<close>

definition mirrors :: "PinDb \<times> PinRegistry \<Rightarrow> bool" where
  "mirrors st \<longleftrightarrow> pins_wf (fst st) \<and> registry_wf (snd st) \<and> reasons (snd st) = (\<lambda>h. {r. (h, r) \<in> pin_set (fst st)})"

lemma insert_or_ignore_set: "set (fold (\<lambda>p. insert_or_ignore (p, e)) pages rows) = set rows \<union> (\<lambda>p. (p, e)) ` set pages"
proof (induction pages arbitrary: rows)
  case (Cons p pages)
  show ?case using Cons.IH [of "insert_or_ignore (p, e) rows"] by (auto simp: insert_or_ignore_def)
qed simp

lemma pin_table_Inr:
  assumes "pin_table owner_exists db p pages = (db', Inr u)"
  shows "set (cache_pins db') = set (cache_pins db) \<union> (\<lambda>h. (h, encode_reason p)) ` set pages"
proof -
  obtain k i where e: "encode_reason p = (k, i)" by (metis surj_pair)
  have "db' = db\<lparr>cache_pins := fold (\<lambda>q. insert_or_ignore (q, k, i)) (remdups (sort pages)) (cache_pins db)\<rparr>"
    using assms e by (auto simp: pin_table_def atomic_def bind_result_def Let_def split: sum.splits if_splits)
  then show ?thesis using insert_or_ignore_set [of "(k, i)"] e by simp
qed

lemma pin_table_Inl: "pin_table owner_exists db p pages = (db', Inl e) \<Longrightarrow> db' = db"
  by (simp add: pin_table_def atomic_def split: sum.splits prod.splits)

lemma pin_batch_mirrors:
  assumes m: "mirrors st"
  shows "mirrors (fst (pin_batch owner_exists engine reason pages st))"
proof (cases "to_persistent reason")
  case (Inr p)
  let ?u = "remdups (sort pages)"
  obtain db q where r: "pin_request engine (fst st) (pin_table owner_exists (fst st) p ?u) = (db, q)" by (metis surj_pair)
  show ?thesis
  proof (cases q)
    case (Inl e)
    then have "db = fst st" using r pin_table_Inl by (auto simp: pin_request_def split: if_splits)
    then show ?thesis using m Inr r Inl by (simp add: pin_batch_def)
  next
    case (Inr v)
    then have rows: "set (cache_pins db) = set (cache_pins (fst st)) \<union> (\<lambda>h. (h, encode_reason p)) ` set pages"
      using r pin_table_Inr by (fastforce simp: pin_request_def split: if_splits)
    have reason: "reason = from_persistent p" using \<open>to_persistent reason = Inr p\<close> by (simp add: from_to_persistent)
    have f: "fold (add_pin reason) ?u (snd st) = fold (\<lambda>(h, r). add_pin (id r) h) (map (\<lambda>h. (h, reason)) ?u) (snd st)"
      by (simp add: fold_map comp_def)
    have wf: "registry_wf (snd st)" and eq: "reasons (snd st) = (\<lambda>h. {r. (h, r) \<in> pin_set (fst st)})" and pw: "pins_wf (fst st)"
      using m by (simp_all add: mirrors_def)
    have "pins_wf db" using pw rows by (auto simp: pins_wf_def)
    moreover have "(h, r) \<in> pin_set db \<longleftrightarrow> (h, r) \<in> pin_set (fst st) \<or> h \<in> set pages \<and> r = reason" for h r
      using rows by (auto simp: pin_set_def reason encode_reason_inj)
    ultimately have "mirrors (db, fold (add_pin reason) ?u (snd st))"
      using fold_add_pin [OF wf, of id "map (\<lambda>h. (h, reason)) ?u"] eq unfolding mirrors_def f
      by (auto simp: fun_eq_iff)
    then show ?thesis using \<open>to_persistent reason = Inr p\<close> r Inr by (simp add: pin_batch_def)
  qed
qed (use m in \<open>simp add: pin_batch_def\<close>)

lemma release_pins_mirrors:
  assumes m: "mirrors st"
  shows "mirrors (fst (release_pins engine reason st))"
proof (cases "engine \<and> is_ok (to_persistent reason)")
  case True
  then obtain p where p: "to_persistent reason = Inr p" by (auto simp: is_ok_def split: sum.splits)
  then have reason: "reason = from_persistent p" by (simp add: from_to_persistent)
  let ?db = "fst (release_table (fst st) p)"
  have rows: "(h, e) \<in> set (cache_pins ?db) \<longleftrightarrow> (h, e) \<in> set (cache_pins (fst st)) \<and> e \<noteq> encode_reason p" for h e
    by (cases e; cases "encode_reason p") (auto simp: release_table_def)
  have wf: "registry_wf (snd st)" and eq: "reasons (snd st) = (\<lambda>h. {r. (h, r) \<in> pin_set (fst st)})" and pw: "pins_wf (fst st)"
    using m by (simp_all add: mirrors_def)
  have "pins_wf ?db" using pw rows by (auto simp: pins_wf_def)
  moreover have "(h, r) \<in> pin_set ?db \<longleftrightarrow> (h, r) \<in> pin_set (fst st) \<and> r \<noteq> reason" for h r
    using rows by (auto simp: pin_set_def reason encode_reason_inj from_persistent_inj)
  ultimately have "mirrors (?db, retain_without reason (snd st))"
    using retain_reasons [OF wf, of reason] eq by (auto simp: mirrors_def fun_eq_iff)
  moreover have "snd (release_table (fst st) p) = Inr ()" by (simp add: release_table_def split_beta)
  ultimately show ?thesis using True p
    by (cases "release_table (fst st) p") (simp add: release_pins_def pin_request_def)
next
  case False
  then show ?thesis using m by (auto simp: release_pins_def pin_request_def is_ok_def split: sum.splits)
qed

lemma load_rows_wf:
  assumes "\<forall>(h, e)\<in>set rows. \<exists>p. e = encode_reason p"
  shows "\<exists>rs. load_rows rows = Inr rs \<and> (\<forall>h p. (h, p) \<in> set rs \<longleftrightarrow> (h, encode_reason p) \<in> set rows)"
  using assms
proof (induction rows)
  case (Cons row rows)
  obtain h k i where row: "row = (h, k, i)" by (metis surj_pair)
  obtain p where p: "(k, i) = encode_reason p" using Cons.prems row by auto
  obtain rs where rs: "load_rows rows = Inr rs" "\<forall>h p. (h, p) \<in> set rs \<longleftrightarrow> (h, encode_reason p) \<in> set rows"
    using Cons by auto
  have "decode_reason k i = Inr p" using decode_encode_reason [of p] by (simp add: p [symmetric])
  then have "load_rows (row # rows) = Inr ((h, p) # rs)" using rs(1) row by simp
  moreover have "(x, q) \<in> set ((h, p) # rs) \<longleftrightarrow> (x, encode_reason q) \<in> set (row # rows)" for x q
    using rs(2) row p encode_reason_inj by auto
  ultimately show ?case by blast
qed simp

lemma rebuild_mirrors:
  assumes "mirrors (db, reg)"
  shows "rebuild_pins db = Inr reg"
proof -
  have m: "pins_wf db" "registry_wf reg" "reasons reg = (\<lambda>h. {r. (h, r) \<in> pin_set db})" using assms by (simp_all add: mirrors_def)
  obtain rs where rs: "load_rows (cache_pins db) = Inr rs"
    "\<forall>h p. (h, p) \<in> set rs \<longleftrightarrow> (h, encode_reason p) \<in> set (cache_pins db)"
    using load_rows_wf [of "cache_pins db"] m(1) by (auto simp: pins_wf_def)
  have e: "registry_wf []" "reasons [] = (\<lambda>_. {})" by (simp_all add: registry_wf_def reasons_def fun_eq_iff)
  note f = fold_add_pin [OF e(1), of from_persistent rs]
  have "fold (\<lambda>(h, r). add_pin (from_persistent r) h) rs [] = reg"
    by (rule registry_eq) (use f m rs(2) e(2) in \<open>auto simp: pin_set_def fun_eq_iff\<close>)
  then show ?thesis using rs(1) by (simp add: rebuild_pins_def)
qed

datatype PinOp = OpPin bool PinReason "page_hash list" | OpReleasePins bool PinReason | OpSlots CacheDb

fun run_pin_op :: "(PersistentPinReason \<Rightarrow> bool) \<Rightarrow> PinOp \<Rightarrow> PinDb \<times> PinRegistry \<Rightarrow> PinDb \<times> PinRegistry" where
  "run_pin_op owner_exists (OpPin engine reason pages) st = fst (pin_batch owner_exists engine reason pages st)"
| "run_pin_op owner_exists (OpReleasePins engine reason) st = fst (release_pins engine reason st)"
| "run_pin_op owner_exists (OpSlots slots) st = ((fst st)\<lparr>pin_slots := slots\<rparr>, snd st)"

lemma run_pin_op_mirrors:
  assumes "mirrors st"
  shows "mirrors (run_pin_op owner_exists op st)"
proof (cases op)
  case (OpSlots slots)
  then show ?thesis using assms by (simp add: mirrors_def pins_wf_def pin_set_def)
qed (use assms in \<open>simp_all add: pin_batch_mirrors release_pins_mirrors\<close>)

lemma run_pin_ops_mirrors: "mirrors st \<Longrightarrow> mirrors (fold (run_pin_op owner_exists) ops st)"
proof (induction ops arbitrary: st)
  case (Cons op ops)
  show ?case using Cons.IH [OF run_pin_op_mirrors [OF Cons.prems]] by simp
qed simp

text \<open>C18: the registry that guards evictions is exactly what a restart would rebuild from the table.
  After every sequence of pin batches and releases, successful, refused or rolled back, with any changes of the
  slot table in between, rebuilding from the durable rows succeeds and gives the registry in memory,
  and a page is pinned in memory exactly when it has a durable row.\<close>

theorem pins_mirror_table:
  "case fold (run_pin_op owner_exists) ops (\<lparr>pin_slots = slots, cache_pins = []\<rparr>, []) of (db, reg) \<Rightarrow>
     rebuild_pins db = Inr reg \<and> (\<forall>h. is_pinned_page reg h \<longleftrightarrow> (\<exists>e. (h, e) \<in> set (cache_pins db)))"
proof -
  obtain db reg where f: "fold (run_pin_op owner_exists) ops (\<lparr>pin_slots = slots, cache_pins = []\<rparr>, []) = (db, reg)"
    by (metis surj_pair)
  have "mirrors (\<lparr>pin_slots = slots, cache_pins = []\<rparr>, [])"
    by (simp add: mirrors_def pins_wf_def registry_wf_def reasons_def pin_set_def fun_eq_iff)
  then have m: "mirrors (db, reg)" using run_pin_ops_mirrors [of _ owner_exists ops] f by metis
  have "is_pinned_page reg h \<longleftrightarrow> (\<exists>e. (h, e) \<in> set (cache_pins db))" for h
  proof -
    have "is_pinned_page reg h \<longleftrightarrow> reasons reg h \<noteq> {}" by (simp add: is_pinned_page_def reasons_def split: option.splits)
    also have "\<dots> \<longleftrightarrow> (\<exists>p. (h, encode_reason p) \<in> set (cache_pins db))" using m by (simp add: mirrors_def pin_set_def)
    also have "\<dots> \<longleftrightarrow> (\<exists>e. (h, e) \<in> set (cache_pins db))"
    proof
      assume "\<exists>e. (h, e) \<in> set (cache_pins db)"
      then obtain e where e: "(h, e) \<in> set (cache_pins db)" ..
      have "\<forall>(h, e)\<in>set (cache_pins db). \<exists>p. e = encode_reason p" using m by (simp add: mirrors_def pins_wf_def)
      then show "\<exists>p. (h, encode_reason p) \<in> set (cache_pins db)" using e by auto
    qed blast
    finally show ?thesis .
  qed
  then show ?thesis using rebuild_mirrors [OF m] f by simp
qed

end
