(* ===== verification/Pack_Format.thy ===== *)
theory Pack_Format
  imports Byte_Codec "HOL-Library.Product_Lexorder"
begin

text \<open>The fixed structures of an immutable pack: \<open>mirage-pack/src/format.rs\<close> (header), \<open>footer.rs\<close>,
  \<open>index.rs\<close> (entries and index), \<open>frame.rs\<close> (plain frames), \<open>encrypted_frame.rs\<close> and the sealing of
  \<open>mirage-crypto/src/aead.rs\<close>.  The checksum \<open>crc32\<close> (crate crc32fast), the hash \<open>blake3\<close> and the cipher
  \<open>encrypt\<close>/\<open>decrypt\<close> (crate chacha20poly1305, one key) are parameters.  What the pack code relies on of the
  cipher is \<open>aead_ok\<close>: decryption inverts encryption and a ciphertext is 16 bytes longer.\<close>

section \<open>Header\<close>

definition PACK_VERSION :: nat where
  "PACK_VERSION = 1"

definition PACK_HEADER_LEN :: nat where
  "PACK_HEADER_LEN = 64"

definition FRAME_HEADER_LEN :: nat where
  "FRAME_HEADER_LEN = 64"

definition INDEX_ENTRY_LEN :: nat where
  "INDEX_ENTRY_LEN = 64"

definition FOOTER_LEN :: nat where
  "FOOTER_LEN = 128"

definition MAX_ENCODED_FRAME_LEN :: nat where
  "MAX_ENCODED_FRAME_LEN = 16 * 1024 * 1024"

definition PACK_MAGIC :: bytes where
  "PACK_MAGIC = [0x4D, 0x52, 0x47, 0x50, 0x41, 0x43, 0x4B, 0x31]"

record PackHeader =
  pack_page_size :: u32
  index_offset :: u64
  index_length :: u64
  entry_count :: u64
  pack_encrypted :: bool
  header_pack_id :: bytes

definition header_encode :: "(bytes \<Rightarrow> 32 word) \<Rightarrow> PackHeader \<Rightarrow> bytes" where
  "header_encode crc32 h =
     (let b = zeros PACK_HEADER_LEN;
          b = copy_into b 0 PACK_MAGIC;
          b = copy_into b 8 (le_bytes 4 PACK_VERSION);
          b = copy_into b 12 (le_bytes 4 (of_bool (pack_encrypted h)));
          b = copy_into b 16 (le_bytes 4 (pack_page_size h));
          b = copy_into b 20 (slice 0 4 (header_pack_id h));
          b = copy_into b 24 (le_bytes 8 (index_offset h));
          b = copy_into b 32 (le_bytes 8 (index_length h));
          b = copy_into b 40 (le_bytes 8 (entry_count h));
          checksum = crc32 (slice 0 48 b);
          b = copy_into b 48 (le_bytes 4 (unat checksum))
      in copy_into b 52 (slice 4 12 (header_pack_id h)))"

definition pack_page_size_ok :: "nat \<Rightarrow> bool" where
  "pack_page_size_ok n \<longleftrightarrow> 64 * 1024 \<le> n \<and> n \<le> 16 * 1024 * 1024 \<and> is_power_of_two n"

definition header_decode :: "(bytes \<Rightarrow> 32 word) \<Rightarrow> bytes \<Rightarrow> PackHeader result" where
  "header_decode crc32 bs =
     (if length bs \<noteq> PACK_HEADER_LEN \<or> slice 0 8 bs \<noteq> PACK_MAGIC then Inl ManifestInvalid
      else bind_result (read_u32 bs 8) (\<lambda>version.
      if version \<noteq> PACK_VERSION then Inl UnsupportedLayout
      else bind_result (read_u32 bs 48) (\<lambda>checksum.
      if checksum \<noteq> unat (crc32 (slice 0 48 bs)) then Inl IntegrityMismatch
      else bind_result (read_u32 bs 16) (\<lambda>page.
      bind_result (read_u32 bs 12) (\<lambda>flags.
      if flags div 2 \<noteq> 0 then Inl UnsupportedLayout
      else
        let pack_id = slice 20 4 bs @ slice 52 12 bs in
        if (odd flags \<and> pack_id = zeros 16) \<or> (even flags \<and> pack_id \<noteq> zeros 16) then Inl IntegrityMismatch
        else if \<not> pack_page_size_ok page then Inl ManifestInvalid
        else bind_result (read_u64 bs 24) (\<lambda>off.
             bind_result (read_u64 bs 32) (\<lambda>len.
             bind_result (read_u64 bs 40) (\<lambda>n.
               Inr \<lparr>pack_page_size = page, index_offset = off, index_length = len, entry_count = n,
                    pack_encrypted = odd flags, header_pack_id = pack_id\<rparr>))))))))"

section \<open>Footer\<close>

definition FOOTER_MAGIC :: bytes where
  "FOOTER_MAGIC = [0x4D, 0x52, 0x47, 0x50, 0x46, 0x54, 0x52, 0x31]"

record PackFooter =
  index_hash :: page_hash
  footer_content_hash :: page_hash
  pack_length :: u64

definition footer_encode :: "(bytes \<Rightarrow> 32 word) \<Rightarrow> PackFooter \<Rightarrow> bytes" where
  "footer_encode crc32 f =
     (let b = zeros FOOTER_LEN;
          b = copy_into b 0 FOOTER_MAGIC;
          b = copy_into b 8 (le_bytes 4 PACK_VERSION);
          b = copy_into b 16 (hash_bytes (index_hash f));
          b = copy_into b 48 (hash_bytes (footer_content_hash f));
          b = copy_into b 80 (le_bytes 8 (pack_length f));
          checksum = crc32 (slice 0 88 b)
      in copy_into b 88 (le_bytes 4 (unat checksum)))"

definition footer_decode :: "(bytes \<Rightarrow> 32 word) \<Rightarrow> bytes \<Rightarrow> PackFooter result" where
  "footer_decode crc32 bs =
     (if length bs \<noteq> FOOTER_LEN \<or> slice 0 8 bs \<noteq> FOOTER_MAGIC then Inl ManifestInvalid
      else bind_result (read_u32 bs 8) (\<lambda>version.
      if version \<noteq> PACK_VERSION then Inl UnsupportedLayout
      else bind_result (take_bytes 4 bs 12) (\<lambda>gap.
      bind_result (take_bytes 36 bs 92) (\<lambda>tail.
      bind_result (read_u32 bs 88) (\<lambda>checksum.
      if gap \<noteq> zeros 4 \<or> tail \<noteq> zeros 36 \<or> checksum \<noteq> unat (crc32 (slice 0 88 bs)) then Inl IntegrityMismatch
      else bind_result (take_bytes 32 bs 16) (\<lambda>ih.
           bind_result (take_bytes 32 bs 48) (\<lambda>ch.
           bind_result (read_u64 bs 80) (\<lambda>len.
             Inr \<lparr>index_hash = hash_of_bytes ih, footer_content_hash = hash_of_bytes ch, pack_length = len\<rparr>))))))))"

section \<open>Index\<close>

datatype Codec = CodecNone | CodecZstd | CodecLz4

fun codec_code :: "Codec \<Rightarrow> byte" where
  "codec_code CodecNone = 0"
| "codec_code CodecZstd = 1"
| "codec_code CodecLz4 = 2"

record PackEntry =
  entry_hash :: page_hash
  frame_offset :: u64
  frame_length :: u64
  entry_logical :: u32
  entry_encoded :: u32
  entry_codec :: Codec
  entry_encrypted :: bool

definition entry_encode :: "PackEntry \<Rightarrow> bytes" where
  "entry_encode e =
     (let b = zeros INDEX_ENTRY_LEN;
          b = copy_into b 0 (hash_bytes (entry_hash e));
          b = copy_into b 32 (le_bytes 8 (frame_offset e));
          b = copy_into b 40 (le_bytes 8 (frame_length e));
          b = copy_into b 48 (le_bytes 4 (entry_logical e));
          b = copy_into b 52 (le_bytes 4 (entry_encoded e));
          b = b[56 := codec_code (entry_codec e)]
      in b[57 := of_bool (entry_encrypted e)])"

definition frame_overhead :: "bool \<Rightarrow> nat" where
  "frame_overhead encrypted = (if encrypted then 68 else 64)"

definition entry_decode :: "bytes \<Rightarrow> PackEntry result" where
  "entry_decode bs =
     (if length bs \<noteq> INDEX_ENTRY_LEN \<or> unat (bs ! 57) > 1 then Inl ManifestInvalid
      else bind_result (take_bytes 6 bs 58) (\<lambda>reserved.
      if reserved \<noteq> zeros 6 then Inl ManifestInvalid
      else if bs ! 56 \<noteq> 0 then Inl UnsupportedLayout
      else bind_result (take_bytes 32 bs 0) (\<lambda>h.
      bind_result (read_u64 bs 32) (\<lambda>off.
      bind_result (read_u64 bs 40) (\<lambda>flen.
      bind_result (read_u32 bs 48) (\<lambda>logical.
      bind_result (read_u32 bs 52) (\<lambda>encoded.
        let entry = \<lparr>entry_hash = hash_of_bytes h, frame_offset = off, frame_length = flen, entry_logical = logical,
              entry_encoded = encoded, entry_codec = CodecNone, entry_encrypted = (bs ! 57 \<noteq> 0)\<rparr>
        in if frame_length entry \<noteq> saturating_add64 (frame_overhead (entry_encrypted entry)) (entry_encoded entry) \<or>
              entry_logical entry = 0 \<or> entry_encoded entry = 0
           then Inl ManifestInvalid
           else Inr entry)))))))"

definition encode_index :: "PackEntry list \<Rightarrow> bytes" where
  "encode_index entries = concat (map entry_encode entries)"

text \<open>\<open>windows(2)\<close>: every adjacent pair.\<close>

fun adjacent :: "('a \<Rightarrow> 'a \<Rightarrow> bool) \<Rightarrow> 'a list \<Rightarrow> bool" where
  "adjacent P (x # y # xs) \<longleftrightarrow> P x y \<and> adjacent P (y # xs)"
| "adjacent P _ \<longleftrightarrow> True"

definition decode_index :: "bytes \<Rightarrow> u64 \<Rightarrow> PackEntry list result" where
  "decode_index bs n =
     bind_result (ok_or (checked_mul64 n INDEX_ENTRY_LEN) ManifestInvalid) (\<lambda>expected.
     if length bs \<noteq> expected then Inl ManifestInvalid
     else bind_result (decode_chunks INDEX_ENTRY_LEN entry_decode bs) (\<lambda>entries.
       if \<not> adjacent (\<lambda>a b. entry_hash a < entry_hash b) entries then Inl ManifestInvalid
       else Inr entries))"

section \<open>Plain frames\<close>

definition FRAME_MAGIC :: bytes where
  "FRAME_MAGIC = [0x4D, 0x50, 0x46, 0x31]"

definition FRAME_VERSION :: nat where
  "FRAME_VERSION = 1"

record PlainPage =
  plain_hash :: page_hash
  plain_len :: u32
  plain_bytes :: bytes

definition plain_page_from_bytes :: "(bytes \<Rightarrow> page_hash) \<Rightarrow> bytes \<Rightarrow> PlainPage" where
  "plain_page_from_bytes blake3 bs = \<lparr>plain_hash = blake3 bs, plain_len = min (length bs) u32_max, plain_bytes = bs\<rparr>"

record DecodedFrame =
  frame_page :: PlainPage
  frame_codec :: Codec

definition encode_plain_frame :: "(bytes \<Rightarrow> 32 word) \<Rightarrow> (bytes \<Rightarrow> page_hash) \<Rightarrow> PlainPage \<Rightarrow> bytes result" where
  "encode_plain_frame crc32 blake3 p =
     (if length (plain_bytes p) \<noteq> plain_len p \<or> plain_len p = 0 then Inl InvalidArgument
      else if plain_len p > MAX_ENCODED_FRAME_LEN then Inl InvalidArgument
      else if blake3 (plain_bytes p) \<noteq> plain_hash p then Inl IntegrityMismatch
      else
        let b = zeros (FRAME_HEADER_LEN + length (plain_bytes p));
            b = copy_into b 0 FRAME_MAGIC;
            b = copy_into b 4 (le_bytes 2 FRAME_VERSION);
            b = copy_into b 8 (hash_bytes (plain_hash p));
            b = copy_into b 40 (le_bytes 4 (plain_len p));
            b = copy_into b 44 (le_bytes 4 (plain_len p));
            b = b[48 := codec_code CodecNone];
            checksum = crc32 (slice 0 52 b);
            b = copy_into b 52 (le_bytes 4 (unat checksum))
        in Inr (copy_into b FRAME_HEADER_LEN (plain_bytes p)))"

definition decode_plain_frame :: "(bytes \<Rightarrow> 32 word) \<Rightarrow> (bytes \<Rightarrow> page_hash) \<Rightarrow> bytes \<Rightarrow> DecodedFrame result" where
  "decode_plain_frame crc32 blake3 bs =
     (if length bs < FRAME_HEADER_LEN \<or> slice 0 4 bs \<noteq> FRAME_MAGIC then Inl ManifestInvalid
      else bind_result (read_u16 bs 4) (\<lambda>version.
      if version \<noteq> FRAME_VERSION then Inl UnsupportedLayout
      else bind_result (read_u16 bs 6) (\<lambda>flags.
      bind_result (read_u16 bs 50) (\<lambda>meta.
      bind_result (take_bytes 12 bs 52) (\<lambda>tail.
      if flags \<noteq> 0 \<or> bs ! 49 \<noteq> 0 \<or> meta \<noteq> 0 \<or> slice 4 8 tail \<noteq> zeros 8 then Inl UnsupportedLayout
      else bind_result (read_u32 bs 52) (\<lambda>checksum.
      if checksum \<noteq> unat (crc32 (slice 0 52 bs)) then Inl IntegrityMismatch
      else bind_result (read_u32 bs 40) (\<lambda>logical.
      bind_result (read_u32 bs 44) (\<lambda>encoded.
      if logical = 0 \<or> encoded = 0 \<or> encoded > MAX_ENCODED_FRAME_LEN \<or> encoded \<noteq> logical then Inl ManifestInvalid
      else if bs ! 48 \<noteq> codec_code CodecNone then Inl UnsupportedLayout
      else bind_result (ok_or (checked_add64 FRAME_HEADER_LEN encoded) ManifestInvalid) (\<lambda>payload_end.
      if payload_end \<noteq> length bs then Inl ManifestInvalid
      else bind_result (take_bytes 32 bs 8) (\<lambda>h.
        let payload = slice FRAME_HEADER_LEN encoded bs in
        if hash_bytes (blake3 payload) \<noteq> h then Inl IntegrityMismatch
        else Inr \<lparr>frame_page = \<lparr>plain_hash = hash_of_bytes h, plain_len = logical, plain_bytes = payload\<rparr>,
                  frame_codec = CodecNone\<rparr>))))))))))"

section \<open>Encrypted frames\<close>

type_synonym cipher = "bytes \<Rightarrow> bytes \<Rightarrow> bytes \<Rightarrow> bytes option"

definition NONCE_LENGTH :: nat where
  "NONCE_LENGTH = 24"

text \<open>\<open>RepositoryKey::seal\<close> and \<open>open\<close>; the nonce is what the operating system's generator returned.\<close>

definition key_seal :: "cipher \<Rightarrow> bytes option \<Rightarrow> bytes \<Rightarrow> bytes \<Rightarrow> (bytes \<times> bytes) result" where
  "key_seal encrypt random plaintext aad =
     bind_result (ok_or random InternalInvariant) (\<lambda>nonce.
     bind_result (ok_or (encrypt nonce aad plaintext) InternalInvariant) (\<lambda>ciphertext. Inr (nonce, ciphertext)))"

definition key_open :: "cipher \<Rightarrow> bytes \<Rightarrow> bytes \<Rightarrow> bytes \<Rightarrow> bytes result" where
  "key_open decrypt nonce ciphertext aad = ok_or (decrypt nonce aad ciphertext) IntegrityMismatch"

definition ENC_MAGIC :: bytes where
  "ENC_MAGIC = [0x4D, 0x45, 0x4E, 0x43, 0x76, 0x30, 0x30, 0x31]"

definition PREFIX_LENGTH :: nat where
  "PREFIX_LENGTH = 12 + 16 + NONCE_LENGTH"

definition AAD_LABEL :: bytes where
  "AAD_LABEL = map (\<lambda>c. of_char c) ''MirageSSD encrypted frame v1'' @ [0]"

record EncryptedFrameAad =
  aad_repository :: id16
  aad_pack_id :: bytes
  aad_frame_index :: u64
  aad_hash :: page_hash
  aad_length :: u32

definition aad_encode :: "EncryptedFrameAad \<Rightarrow> bytes" where
  "aad_encode a = AAD_LABEL @ id_bytes (aad_repository a) @ aad_pack_id a @ le_bytes 8 (aad_frame_index a) @
     hash_bytes (aad_hash a) @ le_bytes 4 (aad_length a)"

definition encode_encrypted_frame ::
  "(bytes \<Rightarrow> page_hash) \<Rightarrow> cipher \<Rightarrow> bytes option \<Rightarrow> bytes \<Rightarrow> EncryptedFrameAad \<Rightarrow> bytes result" where
  "encode_encrypted_frame blake3 encrypt random plaintext aad0 =
     (if length plaintext > u32_max then Inl InvalidArgument
      else let aad = aad0\<lparr>aad_length := length plaintext\<rparr> in
        if blake3 plaintext \<noteq> aad_hash aad then Inl IntegrityMismatch
        else bind_result (key_seal encrypt random plaintext (aad_encode aad)) (\<lambda>(nonce, ciphertext).
          if length ciphertext > u32_max then Inl InvalidArgument
          else Inr (ENC_MAGIC @ le_bytes 4 (length ciphertext) @ aad_pack_id aad @ nonce @ ciphertext)))"

definition decode_encrypted_frame ::
  "(bytes \<Rightarrow> page_hash) \<Rightarrow> cipher \<Rightarrow> bytes \<Rightarrow> EncryptedFrameAad \<Rightarrow> bytes result" where
  "decode_encrypted_frame blake3 decrypt frame aad =
     (if length frame < PREFIX_LENGTH \<or> slice 0 8 frame \<noteq> ENC_MAGIC then Inl IntegrityMismatch
      else if le_value (slice 8 4 frame) \<noteq> length frame - PREFIX_LENGTH then Inl IntegrityMismatch
      else if slice 12 16 frame \<noteq> aad_pack_id aad then Inl IntegrityMismatch
      else bind_result (key_open decrypt (slice 28 NONCE_LENGTH frame) (drop PREFIX_LENGTH frame) (aad_encode aad)) (\<lambda>plaintext.
        if length plaintext \<noteq> aad_length aad \<or> blake3 plaintext \<noteq> aad_hash aad then Inl IntegrityMismatch
        else Inr plaintext))"

definition encrypted_frame_pack_id :: "bytes \<Rightarrow> bytes result" where
  "encrypted_frame_pack_id frame =
     (if length frame < PREFIX_LENGTH \<or> slice 0 8 frame \<noteq> ENC_MAGIC then Inl IntegrityMismatch
      else Inr (slice 12 16 frame))"

definition aead_ok :: "cipher \<Rightarrow> cipher \<Rightarrow> bool" where
  "aead_ok encrypt decrypt \<longleftrightarrow> (\<forall>n a p c. encrypt n a p = Some c \<longrightarrow> decrypt n a c = Some p \<and> length c = length p + 16)"

section \<open>Exactness of the codecs\<close>

lemmas pack_lens = PACK_HEADER_LEN_def FRAME_HEADER_LEN_def INDEX_ENTRY_LEN_def FOOTER_LEN_def PACK_VERSION_def
  FRAME_VERSION_def MAX_ENCODED_FRAME_LEN_def

lemma magic_length [simp]: "length PACK_MAGIC = 8" "length FOOTER_MAGIC = 8" "length FRAME_MAGIC = 4" "length ENC_MAGIC = 8"
  by (simp_all add: PACK_MAGIC_def FOOTER_MAGIC_def FRAME_MAGIC_def ENC_MAGIC_def)

lemma unat_crc_u32: "unat (c :: 32 word) \<le> u32_max"
  using unsigned_less [of c, where 'a = nat] by (simp add: u32_max_def)

lemma le_value_crc32 [simp]: "le_value (le_bytes 4 (unat (c :: 32 word))) = unat c"
  using unat_crc_u32 by simp

lemma small_u64: "n \<le> 1000 \<Longrightarrow> n \<le> u64_max"
  by (simp add: u64_max_def)

lemma field_reads:
  "off + 2 \<le> length bs \<Longrightarrow> off \<le> 900 \<Longrightarrow> read_u16 bs off = Inr (le_value (slice off 2 bs))"
  "off + 4 \<le> length bs \<Longrightarrow> off \<le> 900 \<Longrightarrow> read_u32 bs off = Inr (le_value (slice off 4 bs))"
  "off + 8 \<le> length bs \<Longrightarrow> off \<le> 900 \<Longrightarrow> read_u64 bs off = Inr (le_value (slice off 8 bs))"
  "off + n \<le> length bs \<Longrightarrow> off \<le> 900 \<Longrightarrow> n \<le> 64 \<Longrightarrow> take_bytes n bs off = Inr (slice off n bs)"
  by (simp_all add: reads_in take_bytes_in small_u64)

definition header_ok :: "PackHeader \<Rightarrow> bool" where
  "header_ok h \<longleftrightarrow> pack_page_size_ok (pack_page_size h) \<and> index_offset h \<le> u64_max \<and> index_length h \<le> u64_max \<and>
     entry_count h \<le> u64_max \<and> length (header_pack_id h) = 16 \<and> (pack_encrypted h \<longleftrightarrow> header_pack_id h \<noteq> zeros 16)"

lemma page_size_u32: "pack_page_size_ok n \<Longrightarrow> n \<le> u32_max"
  by (simp add: pack_page_size_ok_def u32_max_def)

lemma header_encode_length: "length (header_pack_id h) = 16 \<Longrightarrow> length (header_encode crc32 h) = 64"
  by (simp add: header_encode_def Let_def pack_lens)

lemma header_decode_encode:
  assumes "header_ok h"
  shows "header_decode crc32 (header_encode crc32 h) = Inr h"
proof -
  have id: "length (header_pack_id h) = 16" using assms by (simp add: header_ok_def)
  have l: "length (header_encode crc32 h) = 64" by (rule header_encode_length [OF id])
  have "slice 0 4 (header_pack_id h) @ slice 4 12 (header_pack_id h) = header_pack_id h"
    using slice_split [of 0 4 12 "header_pack_id h"] slice_whole [OF id] by simp
  then have f: "slice 20 4 (header_encode crc32 h) @ slice 52 12 (header_encode crc32 h) = header_pack_id h"
    using id by (simp add: header_encode_def Let_def pack_lens slice_simps)
  have g: "slice 0 8 (header_encode crc32 h) = PACK_MAGIC" "slice 8 4 (header_encode crc32 h) = le_bytes 4 1"
    "slice 12 4 (header_encode crc32 h) = le_bytes 4 (of_bool (pack_encrypted h))"
    "slice 16 4 (header_encode crc32 h) = le_bytes 4 (pack_page_size h)"
    "slice 24 8 (header_encode crc32 h) = le_bytes 8 (index_offset h)"
    "slice 32 8 (header_encode crc32 h) = le_bytes 8 (index_length h)"
    "slice 40 8 (header_encode crc32 h) = le_bytes 8 (entry_count h)"
    "slice 48 4 (header_encode crc32 h) = le_bytes 4 (unat (crc32 (slice 0 48 (header_encode crc32 h))))"
    using id by (simp_all add: header_encode_def Let_def pack_lens slice_simps)
  show ?thesis using assms page_size_u32 [of "pack_page_size h"]
    unfolding header_decode_def f using l g
    by (auto simp: field_reads pack_lens header_ok_def)
qed

lemma header_encode_decode:
  assumes "header_decode crc32 bs = Inr h"
  shows "header_ok h \<and> header_encode crc32 h = bs"
proof -
  have len: "length bs = 64" using assms by (simp add: header_decode_def PACK_HEADER_LEN_def split: if_splits)
  let ?flags = "le_value (slice 12 4 bs)"
  have f: "slice 0 8 bs = PACK_MAGIC" "le_value (slice 8 4 bs) = 1" "unat (crc32 (slice 0 48 bs)) = le_value (slice 48 4 bs)"
    "?flags div 2 = 0" "odd ?flags \<longleftrightarrow> slice 20 4 bs @ slice 52 12 bs \<noteq> zeros 16"
    "pack_page_size_ok (le_value (slice 16 4 bs))"
    "h = \<lparr>pack_page_size = le_value (slice 16 4 bs), index_offset = le_value (slice 24 8 bs),
      index_length = le_value (slice 32 8 bs), entry_count = le_value (slice 40 8 bs),
      pack_encrypted = odd ?flags, header_pack_id = slice 20 4 bs @ slice 52 12 bs\<rparr>"
    using assms len by (auto simp: header_decode_def pack_lens field_reads Let_def split: if_splits)
  have "?flags = of_bool (odd ?flags)" using f(4) by (cases "odd ?flags") (auto simp: div_eq_0_iff less_2_cases_iff)
  then have w: "le_bytes 4 (Suc 0) = slice 8 4 bs" "le_bytes 4 (unat (crc32 (slice 0 48 bs))) = slice 48 4 bs"
    "le_bytes 4 (of_bool (odd ?flags)) = slice 12 4 bs"
    using f(2,3) len le_bytes_of_value [of "slice 8 4 bs" 4] le_bytes_of_value [of "slice 48 4 bs" 4]
      le_bytes_of_value [of "slice 12 4 bs" 4] by simp_all
  have id: "slice 0 4 (slice 20 4 bs @ slice 52 12 bs) = slice 20 4 bs" "slice 4 12 (slice 20 4 bs @ slice 52 12 bs) = slice 52 12 bs"
    using len by (simp_all add: slice_def)
  let ?b = "copy_into (copy_into (copy_into (copy_into (copy_into (copy_into (copy_into (copy_into (zeros 64) 0 PACK_MAGIC) 8
     (le_bytes 4 1)) 12 (le_bytes 4 (of_bool (pack_encrypted h)))) 16 (le_bytes 4 (pack_page_size h))) 20
     (slice 0 4 (header_pack_id h))) 24 (le_bytes 8 (index_offset h))) 32 (le_bytes 8 (index_length h))) 40 (le_bytes 8 (entry_count h))"
  have pre: "slice 0 48 ?b = slice 0 48 bs"
    by (rule prefix_by_fields [of "[8, 4, 4, 4, 4, 8, 8, 8]"])
      (simp_all add: slice_simps f(1,7) w id len le_bytes_of_value)
  have "copy_into (copy_into ?b 48 (le_bytes 4 (unat (crc32 (slice 0 48 ?b))))) 52 (slice 4 12 (header_pack_id h)) = bs"
    unfolding pre by (rule eq_by_fields [of "[48, 4, 12]"]) (use pre w(2) f(7) id len in \<open>simp_all add: slice_simps\<close>)
  then show ?thesis using f(5-7) len
    by (simp add: header_encode_def Let_def pack_lens header_ok_def le_value_u64_bound)
qed

definition footer_ok :: "PackFooter \<Rightarrow> bool" where
  "footer_ok f \<longleftrightarrow> pack_length f \<le> u64_max"

lemma footer_encode_length: "length (footer_encode crc32 f) = 128"
  by (simp add: footer_encode_def Let_def pack_lens)

lemma footer_decode_encode:
  assumes "footer_ok f"
  shows "footer_decode crc32 (footer_encode crc32 f) = Inr f"
proof -
  have g: "slice 0 8 (footer_encode crc32 f) = FOOTER_MAGIC" "slice 8 4 (footer_encode crc32 f) = le_bytes 4 1"
    "slice 12 4 (footer_encode crc32 f) = zeros 4" "slice 92 36 (footer_encode crc32 f) = zeros 36"
    "slice 16 32 (footer_encode crc32 f) = hash_bytes (index_hash f)"
    "slice 48 32 (footer_encode crc32 f) = hash_bytes (footer_content_hash f)"
    "slice 80 8 (footer_encode crc32 f) = le_bytes 8 (pack_length f)"
    "slice 88 4 (footer_encode crc32 f) = le_bytes 4 (unat (crc32 (slice 0 88 (footer_encode crc32 f))))"
    by (simp_all add: footer_encode_def Let_def pack_lens slice_simps)
  show ?thesis unfolding footer_decode_def using footer_encode_length [of crc32 f] g assms
    by (simp add: field_reads pack_lens footer_ok_def)
qed

lemma footer_encode_decode:
  assumes "footer_decode crc32 bs = Inr f"
  shows "footer_ok f \<and> footer_encode crc32 f = bs"
proof -
  have len: "length bs = 128" using assms by (simp add: footer_decode_def FOOTER_LEN_def split: if_splits)
  have g: "slice 0 8 bs = FOOTER_MAGIC" "le_value (slice 8 4 bs) = 1" "slice 12 4 bs = zeros 4" "slice 92 36 bs = zeros 36"
    "unat (crc32 (slice 0 88 bs)) = le_value (slice 88 4 bs)"
    "f = \<lparr>index_hash = hash_of_bytes (slice 16 32 bs), footer_content_hash = hash_of_bytes (slice 48 32 bs),
      pack_length = le_value (slice 80 8 bs)\<rparr>"
    using assms len by (auto simp: footer_decode_def pack_lens field_reads split: if_splits)
  have w: "le_bytes 4 (Suc 0) = slice 8 4 bs" "le_bytes 4 (unat (crc32 (slice 0 88 bs))) = slice 88 4 bs"
    using g(2,5) len le_bytes_of_value [of "slice 8 4 bs" 4] le_bytes_of_value [of "slice 88 4 bs" 4] by simp_all
  let ?b = "copy_into (copy_into (copy_into (copy_into (copy_into (zeros 128) 0 FOOTER_MAGIC) 8 (le_bytes 4 1)) 16
     (hash_bytes (index_hash f))) 48 (hash_bytes (footer_content_hash f))) 80 (le_bytes 8 (pack_length f))"
  have pre: "slice 0 88 ?b = slice 0 88 bs"
    by (rule prefix_by_fields [of "[8, 4, 4, 32, 32, 8]"])
      (simp_all add: slice_simps g(1,3,6) w len le_bytes_of_value hash_bytes_of_hash)
  have "copy_into ?b 88 (le_bytes 4 (unat (crc32 (slice 0 88 ?b)))) = bs"
    unfolding pre by (rule eq_by_fields [of "[88, 4, 36]"]) (use pre w(2) g(4) len in \<open>simp_all add: slice_simps\<close>)
  then show ?thesis using g(6) len
    by (simp add: footer_encode_def Let_def pack_lens footer_ok_def le_value_u64_bound)
qed

definition entry_ok :: "PackEntry \<Rightarrow> bool" where
  "entry_ok e \<longleftrightarrow> frame_offset e \<le> u64_max \<and> entry_logical e \<le> u32_max \<and> entry_encoded e \<le> u32_max \<and>
     frame_length e = frame_overhead (entry_encrypted e) + entry_encoded e \<and> 0 < entry_logical e \<and> 0 < entry_encoded e \<and>
     entry_codec e = CodecNone"

lemma entry_encode_length: "length (entry_encode e) = 64"
  by (simp add: entry_encode_def Let_def pack_lens)

lemma frame_length_sat:
  "n \<le> u32_max \<Longrightarrow> saturating_add64 (frame_overhead b) n = frame_overhead b + n" "n \<le> u32_max \<Longrightarrow> frame_overhead b + n \<le> u64_max"
  by (simp_all add: saturating_add64_def frame_overhead_def u32_max_def u64_max_def)

lemma entry_decode_encode:
  assumes "entry_ok e"
  shows "entry_decode (entry_encode e) = Inr e"
proof -
  have g: "entry_encode e ! 57 = of_bool (entry_encrypted e)" "entry_encode e ! 56 = 0" "slice 58 6 (entry_encode e) = zeros 6"
    "slice 0 32 (entry_encode e) = hash_bytes (entry_hash e)" "slice 32 8 (entry_encode e) = le_bytes 8 (frame_offset e)"
    "slice 40 8 (entry_encode e) = le_bytes 8 (frame_length e)" "slice 48 4 (entry_encode e) = le_bytes 4 (entry_logical e)"
    "slice 52 4 (entry_encode e) = le_bytes 4 (entry_encoded e)"
    using assms by (simp_all add: entry_encode_def Let_def pack_lens slice_simps entry_ok_def)
  show ?thesis unfolding entry_decode_def using entry_encode_length [of e] g assms frame_length_sat [of "entry_encoded e"]
    by (auto simp: field_reads pack_lens entry_ok_def Let_def)
qed

lemma entry_encode_decode:
  assumes "entry_decode bs = Inr e"
  shows "entry_ok e \<and> entry_encode e = bs"
proof -
  have len: "length bs = 64" using assms by (simp add: entry_decode_def INDEX_ENTRY_LEN_def split: if_splits)
  have g: "\<not> 1 < unat (bs ! 57)" "slice 58 6 bs = zeros 6" "bs ! 56 = 0"
    "e = \<lparr>entry_hash = hash_of_bytes (slice 0 32 bs), frame_offset = le_value (slice 32 8 bs),
      frame_length = le_value (slice 40 8 bs), entry_logical = le_value (slice 48 4 bs),
      entry_encoded = le_value (slice 52 4 bs), entry_codec = CodecNone, entry_encrypted = (bs ! 57 \<noteq> 0)\<rparr>"
    "le_value (slice 40 8 bs) = saturating_add64 (frame_overhead (bs ! 57 \<noteq> 0)) (le_value (slice 52 4 bs))"
    "0 < le_value (slice 48 4 bs)" "0 < le_value (slice 52 4 bs)"
    using assms len by (auto simp: entry_decode_def pack_lens field_reads Let_def split: if_splits)
  have b: "of_bool (bs ! 57 \<noteq> 0) = bs ! 57"
  proof -
    have "unat (bs ! 57) = unat (0 :: byte) \<or> unat (bs ! 57) = unat (1 :: byte)" using g(1) by auto
    then have "bs ! 57 = 0 \<or> bs ! 57 = 1" unfolding word_unat_eq_iff [symmetric] .
    then show ?thesis by auto
  qed
  let ?b = "((copy_into (copy_into (copy_into (copy_into (copy_into (zeros 64) 0 (hash_bytes (entry_hash e))) 32
     (le_bytes 8 (frame_offset e))) 40 (le_bytes 8 (frame_length e))) 48 (le_bytes 4 (entry_logical e))) 52
     (le_bytes 4 (entry_encoded e)))[56 := 0])[57 := bs ! 57]"
  have "?b = bs"
    by (rule eq_by_fields [of "[32, 8, 8, 4, 4, 1, 1, 6]"])
      (simp_all add: slice_simps slice_nth g(2,3,4) len le_bytes_of_value hash_bytes_of_hash)
  then show ?thesis using g(4-7) len b frame_length_sat(1) [of "le_value (slice 52 4 bs)"]
    by (simp add: entry_encode_def Let_def pack_lens entry_ok_def le_value_u64_bound le_value_u32_bound)
qed

interpretation entry_table: record_codec entry_encode entry_decode entry_ok 64
  by unfold_locales (auto simp: entry_encode_length entry_decode_encode dest: entry_encode_decode)

interpretation footer_record: record_codec "footer_encode crc32" "footer_decode crc32" footer_ok 128
  for crc32
  by unfold_locales (auto simp: footer_encode_length footer_decode_encode dest: footer_encode_decode)

text \<open>Frames.\<close>

lemma plain_frame_length: "encode_plain_frame crc32 blake3 p = Inr bs \<Longrightarrow> length bs = 64 + plain_len p"
  by (auto simp: encode_plain_frame_def Let_def pack_lens split: if_splits)

lemma plain_frame_decode_encode:
  assumes "encode_plain_frame crc32 blake3 p = Inr bs"
  shows "decode_plain_frame crc32 blake3 bs = Inr \<lparr>frame_page = p, frame_codec = CodecNone\<rparr>"
proof -
  let ?n = "length (plain_bytes p)"
  have p: "plain_len p = ?n" "0 < ?n" "?n \<le> 16 * 1024 * 1024" "blake3 (plain_bytes p) = plain_hash p"
    using assms by (auto simp: encode_plain_frame_def pack_lens split: if_splits)
  then have u: "?n \<le> u32_max" "64 + ?n \<le> u64_max" by (simp_all add: u32_max_def u64_max_def)
  have l: "length bs = 64 + ?n" using plain_frame_length [OF assms] p(1) by simp
  have g: "slice 0 4 bs = FRAME_MAGIC" "slice 4 2 bs = le_bytes 2 1" "slice 6 2 bs = zeros 2" "slice 8 32 bs = hash_bytes (plain_hash p)"
    "slice 40 4 bs = le_bytes 4 ?n" "slice 44 4 bs = le_bytes 4 ?n" "bs ! 48 = 0" "bs ! 49 = 0" "slice 50 2 bs = zeros 2"
    "slice 52 4 bs = le_bytes 4 (unat (crc32 (slice 0 52 bs)))" "slice 56 8 bs = zeros 8" "slice 64 ?n bs = plain_bytes p"
    using assms p by (auto simp: encode_plain_frame_def Let_def pack_lens slice_simps split: if_splits)
  have z: "le_value (zeros 2) = 0" "le_value (le_bytes 2 (Suc 0)) = Suc 0"
    by (simp_all add: zeros_def numeral_2_eq_2)
  have t: "slice 4 8 (slice 52 12 bs) = slice 56 8 bs" by (simp add: slice_slice)
  show ?thesis unfolding decode_plain_frame_def using l g z t p u
    by (simp add: field_reads pack_lens checked_add64_def Let_def)
qed

lemma plain_frame_encode_decode:
  assumes "decode_plain_frame crc32 blake3 bs = Inr fr"
  shows "frame_codec fr = CodecNone \<and> encode_plain_frame crc32 blake3 (frame_page fr) = Inr bs"
proof -
  have l64: "\<not> length bs < 64" using assms by (simp add: decode_plain_frame_def pack_lens split: if_splits)
  let ?n = "le_value (slice 44 4 bs)" and ?h = "hash_of_bytes (slice 8 32 bs)"
  have g: "slice 0 4 bs = FRAME_MAGIC" "le_value (slice 4 2 bs) = 1" "le_value (slice 6 2 bs) = 0"
    "bs ! 49 = 0" "le_value (slice 50 2 bs) = 0" "slice 4 8 (slice 52 12 bs) = zeros 8" "bs ! 48 = 0"
    "unat (crc32 (slice 0 52 bs)) = le_value (slice 52 4 bs)" "le_value (slice 40 4 bs) = ?n" "0 < ?n" "?n \<le> 16 * 1024 * 1024"
    "length bs = 64 + ?n" "hash_bytes (blake3 (slice 64 ?n bs)) = slice 8 32 bs"
    "fr = \<lparr>frame_page = \<lparr>plain_hash = ?h, plain_len = ?n, plain_bytes = slice 64 ?n bs\<rparr>, frame_codec = CodecNone\<rparr>"
    using assms l64 by (auto simp: decode_plain_frame_def pack_lens field_reads checked_add64_def Let_def split: if_splits)
  have h: "blake3 (slice 64 ?n bs) = ?h" unfolding g(13) [symmetric] by simp
  have t: "slice 56 8 bs = zeros 8" using g(6) by (simp add: slice_slice)
  have v: "le_bytes k (le_value (slice a k bs)) = slice a k bs" if "a + k \<le> 64" for a k
    by (rule le_bytes_of_value) (use that l64 in simp)
  have z: "le_bytes 2 0 = zeros 2" by (simp add: zeros_def numeral_2_eq_2)
  have w: "le_bytes 2 (Suc 0) = slice 4 2 bs" "slice 6 2 bs = zeros 2" "slice 50 2 bs = zeros 2"
    "le_bytes 4 (unat (crc32 (slice 0 52 bs))) = slice 52 4 bs" "slice 40 4 bs = le_bytes 4 ?n" "slice 44 4 bs = le_bytes 4 ?n"
    using v [of 4 2] v [of 6 2] v [of 50 2] v [of 52 4] v [of 40 4] v [of 44 4] unfolding g(2,3,5,8,9) z by simp_all
  let ?b = "(copy_into (copy_into (copy_into (copy_into (copy_into (zeros (64 + ?n)) 0 FRAME_MAGIC) 4 (le_bytes 2 1)) 8
     (hash_bytes ?h)) 40 (le_bytes 4 ?n)) 44 (le_bytes 4 ?n))[48 := 0]"
  have pre: "slice 0 52 ?b = slice 0 52 bs"
    by (rule prefix_by_fields [of "[4, 2, 2, 32, 4, 4, 1, 1, 2]"])
      (use w(5) w(6) in \<open>simp_all add: slice_simps slice_nth g(1,4,7,12) w(1-4) hash_bytes_of_hash zeros_def [of "Suc 0"]\<close>)
  have "copy_into (copy_into ?b 52 (le_bytes 4 (unat (crc32 (slice 0 52 ?b))))) 64 (slice 64 ?n bs) = bs"
    unfolding pre by (rule eq_by_fields [of "[52, 4, 8, ?n]"]) (use pre w(4) t g(12) in \<open>simp_all add: slice_simps\<close>)
  then show ?thesis using g h by (simp add: encode_plain_frame_def Let_def pack_lens)
qed

lemma encrypted_frame_decode_encode:
  assumes enc: "encode_encrypted_frame blake3 encrypt random pt aad = Inr frame" and aead: "aead_ok encrypt decrypt"
    and nonce: "\<And>n. random = Some n \<Longrightarrow> length n = 24" and id: "length (aad_pack_id aad) = 16"
    and len: "aad_length aad = length pt"
  shows "decode_encrypted_frame blake3 decrypt frame aad = Inr pt" "length frame = 68 + length pt" "blake3 pt = aad_hash aad"
    "encrypted_frame_pack_id frame = Inr (aad_pack_id aad)"
proof -
  have aad: "aad\<lparr>aad_length := length pt\<rparr> = aad" using len by simp
  obtain n c where nc: "random = Some n" "encrypt n (aad_encode aad) pt = Some c" "blake3 pt = aad_hash aad" "length c \<le> u32_max"
    "frame = ENC_MAGIC @ le_bytes 4 (length c) @ aad_pack_id aad @ n @ c"
    using enc unfolding encode_encrypted_frame_def Let_def aad key_seal_def
    by (auto simp: bind_result_eq_Inr split: if_splits option.splits)
  have c: "decrypt n (aad_encode aad) c = Some pt" "length c = length pt + 16"
    using aead nc(2) by (auto simp: aead_ok_def)
  have ln: "length n = 24" using nonce nc(1) by simp
  have s: "slice 0 8 frame = ENC_MAGIC" "slice 8 4 frame = le_bytes 4 (length c)" "slice 12 16 frame = aad_pack_id aad"
    "slice 28 24 frame = n" "drop 52 frame = c" "length frame = 52 + length c"
    unfolding nc(5) using ln id by (simp_all add: slice_def)
  show "length frame = 68 + length pt" using s(6) c(2) by simp
  show "blake3 pt = aad_hash aad" by (rule nc(3))
  show "encrypted_frame_pack_id frame = Inr (aad_pack_id aad)"
    using s by (simp add: encrypted_frame_pack_id_def PREFIX_LENGTH_def NONCE_LENGTH_def)
  show "decode_encrypted_frame blake3 decrypt frame aad = Inr pt"
    using s c nc(3,4) len by (simp add: decode_encrypted_frame_def PREFIX_LENGTH_def NONCE_LENGTH_def key_open_def)
qed

text \<open>The index as a whole.\<close>

lemma adjacent_sorted: "adjacent (\<lambda>a b. f a < (f b :: 'k::order)) xs \<longleftrightarrow> sorted_wrt (\<lambda>a b. f a < f b) xs"
proof (induction "\<lambda>a b. f a < f b" xs rule: adjacent.induct)
  case (1 x y xs)
  then show ?case by (auto dest: order.strict_trans)
qed simp_all

lemma decode_index_iff:
  assumes "length entries * 64 \<le> u64_max"
  shows "decode_index bs (length entries) = Inr entries \<longleftrightarrow>
    encode_index entries = bs \<and> list_all entry_ok entries \<and> sorted_wrt (\<lambda>a b. entry_hash a < entry_hash b) entries"
proof
  assume d: "decode_index bs (length entries) = Inr entries"
  then have "length bs = length entries * 64" "decode_chunks 64 entry_decode bs = Inr entries"
    "adjacent (\<lambda>a b. entry_hash a < entry_hash b) entries"
    using assms by (auto simp: decode_index_def checked_mul64_def pack_lens bind_result_eq_Inr split: if_splits)
  then show "encode_index entries = bs \<and> list_all entry_ok entries \<and> sorted_wrt (\<lambda>a b. entry_hash a < entry_hash b) entries"
    using entry_table.table_encode_decode [of bs entries "length entries"] by (simp add: encode_index_def adjacent_sorted)
next
  assume "encode_index entries = bs \<and> list_all entry_ok entries \<and> sorted_wrt (\<lambda>a b. entry_hash a < entry_hash b) entries"
  then show "decode_index bs (length entries) = Inr entries"
    using assms entry_table.table_decode_encode [of entries] entry_table.length_table [of entries]
    by (auto simp: decode_index_def checked_mul64_def pack_lens encode_index_def adjacent_sorted)
qed

text \<open>C35: the fixed structures of a pack have exactly one encoding.  A header, a footer, an index entry or
  a plain frame decodes to a value exactly when its bytes are the encoding of that value and the value
  is well-formed; so every accepted byte string is canonical and every well-formed value survives a
  round trip.\<close>

theorem pack_codecs_exact:
  "(header_decode crc32 bs = Inr h \<longleftrightarrow> header_ok h \<and> header_encode crc32 h = bs) \<and>
   (footer_decode crc32 bs = Inr f \<longleftrightarrow> pack_length f \<le> u64_max \<and> footer_encode crc32 f = bs) \<and>
   (entry_decode bs = Inr e \<longleftrightarrow> entry_ok e \<and> entry_encode e = bs) \<and>
   (decode_plain_frame crc32 blake3 bs = Inr fr \<longleftrightarrow>
      frame_codec fr = CodecNone \<and> encode_plain_frame crc32 blake3 (frame_page fr) = Inr bs)"
proof (intro conjI)
  show "header_decode crc32 bs = Inr h \<longleftrightarrow> header_ok h \<and> header_encode crc32 h = bs"
    using header_decode_encode header_encode_decode by blast
  show "footer_decode crc32 bs = Inr f \<longleftrightarrow> pack_length f \<le> u64_max \<and> footer_encode crc32 f = bs"
    using footer_record.decode_iff by (simp add: footer_ok_def)
  show "entry_decode bs = Inr e \<longleftrightarrow> entry_ok e \<and> entry_encode e = bs" by (rule entry_table.decode_iff)
  show "decode_plain_frame crc32 blake3 bs = Inr fr \<longleftrightarrow>
      frame_codec fr = CodecNone \<and> encode_plain_frame crc32 blake3 (frame_page fr) = Inr bs"
    using plain_frame_decode_encode [of crc32 blake3 "frame_page fr" bs] plain_frame_encode_decode by fastforce
qed

end
