(* ===== verification/Hash_Text.thy ===== *)
theory Hash_Text
  imports Byte_Codec
begin

text \<open>The textual form of hashes and identifiers: \<open>mirage-types/src/hash.rs\<close> and \<open>id.rs\<close>.  A string is the
  list of its UTF-8 bytes, as \<open>str::as_bytes\<close> gives it.\<close>

unbundle bit_operations_syntax

section \<open>Constant-time comparison\<close>

fun or_of_xors :: "byte \<Rightarrow> (byte \<times> byte) list \<Rightarrow> byte" where
  "or_of_xors diff [] = diff"
| "or_of_xors diff ((a, b) # ps) = or_of_xors (diff OR (a XOR b)) ps"

definition constant_time_eq :: "bytes \<Rightarrow> bytes \<Rightarrow> bool" where
  "constant_time_eq a b \<longleftrightarrow> or_of_xors 0 (zip a b) = 0"

section \<open>Canonical hexadecimal\<close>

definition decode_hex_nibble :: "byte \<Rightarrow> byte result" where
  "decode_hex_nibble b =
     (if 0x30 \<le> b \<and> b \<le> 0x39 then Inr (b - 0x30)
      else if 0x61 \<le> b \<and> b \<le> 0x66 then Inr (b - 0x61 + 10)
      else Inl InvalidArgument)"

fun parse_pairs :: "bytes \<Rightarrow> bytes result" where
  "parse_pairs (h # l # s) =
     bind_result (decode_hex_nibble h) (\<lambda>hi.
     bind_result (decode_hex_nibble l) (\<lambda>lo.
     bind_result (parse_pairs s) (\<lambda>rest. Inr ((push_bit 4 hi OR lo) # rest))))"
| "parse_pairs s = Inr []"

definition parse_canonical_hex_32 :: "bytes \<Rightarrow> bytes result" where
  "parse_canonical_hex_32 s = (if length s \<noteq> 64 then Inl InvalidArgument else parse_pairs s)"

definition parse_canonical_hex_16 :: "bytes \<Rightarrow> bytes result" where
  "parse_canonical_hex_16 s = (if length s \<noteq> 32 then Inl InvalidArgument else parse_pairs s)"

definition HEX_CHARS :: bytes where
  "HEX_CHARS = [0x30, 0x31, 0x32, 0x33, 0x34, 0x35, 0x36, 0x37, 0x38, 0x39, 0x61, 0x62, 0x63, 0x64, 0x65, 0x66]"

primrec encode_canonical_hex :: "bytes \<Rightarrow> bytes" where
  "encode_canonical_hex [] = []"
| "encode_canonical_hex (b # bs) =
     HEX_CHARS ! unat (drop_bit 4 b) # HEX_CHARS ! unat (b AND 0x0F) # encode_canonical_hex bs"

section \<open>Exactness\<close>

lemma xor_zero: "(x :: byte) XOR y = 0 \<longleftrightarrow> x = y"
proof
  assume "x XOR y = 0"
  then have "bit (x XOR y) n = bit (0 :: byte) n" for n by simp
  then show "x = y" by (intro bit_eqI) (simp add: bit_simps)
qed simp

lemma or_zero: "(x :: byte) OR y = 0 \<longleftrightarrow> x = 0 \<and> y = 0"
  by (simp add: or_eq_0_iff)

lemma or_of_xors_zero: "or_of_xors d ps = 0 \<longleftrightarrow> d = 0 \<and> (\<forall>(a, b)\<in>set ps. a = b)"
  by (induction d ps rule: or_of_xors.induct) (auto simp: or_zero xor_zero)

lemma constant_time_eq_iff: "length a = length b \<Longrightarrow> constant_time_eq a b \<longleftrightarrow> a = b"
  by (induction a b rule: list_induct2) (auto simp: constant_time_eq_def or_of_xors_zero xor_zero)

definition is_nibble :: "byte \<Rightarrow> bool" where
  "is_nibble v \<longleftrightarrow> take_bit 4 v = v"

lemma word_of_unat: "word_of_nat (unat (c :: byte)) = c"
  by simp

lemma is_nibble_unat: "is_nibble v \<longleftrightarrow> unat v < 16"
proof -
  have "unat (take_bit 4 v) = unat v mod 16" by (simp only: unsigned_take_bit_eq) (simp add: take_bit_eq_mod)
  then show ?thesis unfolding is_nibble_def by (metis mod_less mod_less_divisor zero_less_numeral word_of_unat)
qed

lemma nibble_bit: "is_nibble v \<Longrightarrow> bit v n \<Longrightarrow> n < 4"
  unfolding is_nibble_def by (metis bit_take_bit_iff)

lemma nibble_parts: "is_nibble (drop_bit 4 b)" "is_nibble (b AND 0x0F)" "push_bit 4 (drop_bit 4 b) OR (b AND 0x0F) = (b :: byte)"
proof -
  have m: "(0x0F :: byte) = mask 4" by (simp add: mask_eq_exp_minus_1)
  show "is_nibble (drop_bit 4 b)"
    unfolding is_nibble_def by (rule bit_eqI) (auto simp: bit_simps dest: bit_imp_le_length)
  show "is_nibble (b AND 0x0F)" by (simp add: is_nibble_def m flip: take_bit_eq_mask)
  show "push_bit 4 (drop_bit 4 b) OR (b AND 0x0F) = b"
    unfolding m by (rule bit_eqI) (auto simp: bit_simps)
qed

lemma nibble_join:
  assumes "is_nibble hi" "is_nibble lo"
  shows "drop_bit 4 (push_bit 4 hi OR lo) = hi" "(push_bit 4 hi OR lo) AND 0x0F = lo"
proof -
  have m: "(0x0F :: byte) = mask 4" by (simp add: mask_eq_exp_minus_1)
  show "drop_bit 4 (push_bit 4 hi OR lo) = hi" using nibble_bit [OF assms(1)] nibble_bit [OF assms(2)]
    by (intro bit_eqI) (fastforce simp: bit_simps)
  show "(push_bit 4 hi OR lo) AND 0x0F = lo" using nibble_bit [OF assms(2)]
    unfolding m by (intro bit_eqI) (auto simp: bit_simps)
qed

lemma hex_table:
  "list_all (\<lambda>v. decode_hex_nibble (HEX_CHARS ! v) = Inr (word_of_nat v)) [0..<16]"
  "list_all (\<lambda>c. case decode_hex_nibble c of Inl _ \<Rightarrow> True | Inr v \<Rightarrow> unat v < 16 \<and> HEX_CHARS ! unat v = c) (map word_of_nat [48..<103])"
  by code_simp+

lemma decode_hex_char: "is_nibble v \<Longrightarrow> decode_hex_nibble (HEX_CHARS ! unat v) = Inr v"
  using hex_table(1) by (simp add: is_nibble_unat list_all_iff)

lemma decode_hex_nibble_Inr:
  assumes "decode_hex_nibble c = Inr v"
  shows "is_nibble v \<and> HEX_CHARS ! unat v = c"
proof -
  have "48 \<le> unat c \<and> unat c < 103"
    using assms by (auto simp: decode_hex_nibble_def word_le_nat_alt split: if_splits)
  then have "unat c \<in> set [48..<103]" by (simp only: set_upt) simp
  then have "(word_of_nat (unat c) :: byte) \<in> word_of_nat ` set [48..<103]" by (rule imageI)
  then have "c \<in> set (map word_of_nat [48..<103])" by (simp only: set_map word_of_unat)
  then have "case decode_hex_nibble c of Inl _ \<Rightarrow> True | Inr v \<Rightarrow> unat v < 16 \<and> HEX_CHARS ! unat v = c"
    using hex_table(2) unfolding list_all_iff by blast
  then show ?thesis using assms by (simp add: is_nibble_unat)
qed

lemma encode_hex_length [simp]: "length (encode_canonical_hex bs) = 2 * length bs"
  by (induction bs) simp_all

lemma parse_encode_hex: "parse_pairs (encode_canonical_hex bs) = Inr bs"
  by (induction bs) (simp_all add: decode_hex_char nibble_parts)

lemma parse_pairs_Inr: "parse_pairs s = Inr bs \<Longrightarrow> even (length s) \<Longrightarrow> encode_canonical_hex bs = s"
proof (induction s arbitrary: bs rule: parse_pairs.induct)
  case (1 h l s)
  then obtain hi lo rest where d: "decode_hex_nibble h = Inr hi" "decode_hex_nibble l = Inr lo" "parse_pairs s = Inr rest"
    "bs = (push_bit 4 hi OR lo) # rest" by (auto simp: bind_result_eq_Inr)
  then show ?case
    using 1 decode_hex_nibble_Inr [OF d(1)] decode_hex_nibble_Inr [OF d(2)] nibble_join by simp
qed auto

text \<open>C37: the hexadecimal form of a hash or an identifier is canonical.  A string parses to a value exactly
  when it is the formatting of that value, so formatting and parsing are inverse and no second
  spelling (upper case, other lengths) is accepted; and the branch-free comparison of two hashes
  decides their equality.\<close>

theorem hex_exact:
  "(parse_canonical_hex_32 s = Inr h \<longleftrightarrow> length h = 32 \<and> encode_canonical_hex h = s) \<and>
   (parse_canonical_hex_16 s = Inr i \<longleftrightarrow> length i = 16 \<and> encode_canonical_hex i = s) \<and>
   (constant_time_eq (hash_bytes x) (hash_bytes y) \<longleftrightarrow> x = y)"
proof -
  have *: "parse_pairs s = Inr bs \<longleftrightarrow> encode_canonical_hex bs = s" if "even (length s)" for bs
    using that parse_pairs_Inr [of s bs] parse_encode_hex [of bs] by auto
  have 32: "parse_canonical_hex_32 s = Inr h \<longleftrightarrow> length h = 32 \<and> encode_canonical_hex h = s"
    using * [of h] by (auto simp: parse_canonical_hex_32_def)
  have 16: "parse_canonical_hex_16 s = Inr i \<longleftrightarrow> length i = 16 \<and> encode_canonical_hex i = s"
    using * [of i] by (auto simp: parse_canonical_hex_16_def)
  show ?thesis using 32 16 by (simp add: constant_time_eq_iff)
qed

lemma encode_hex_inj: "encode_canonical_hex a = encode_canonical_hex b \<longleftrightarrow> a = b"
  using parse_encode_hex by (metis sum.inject(2))

end
