(* ===== verification/Sorted_Search.thy ===== *)
theory Sorted_Search
  imports Main
begin

text \<open>The standard library's \<open>binary_search_by\<close> and \<open>partition_point\<close> on slices.  The comparison returns
  how an element stands to the target; on a slice ordered for it the halving search finds an element
  equal to the target exactly when there is one.  The lookups of the pack reader and of the mount
  index are clients.\<close>

datatype ordering = Less | Equal | Greater

definition compare_with :: "'k::linorder \<Rightarrow> 'k \<Rightarrow> ordering" where
  "compare_with target k = (if k < target then Less else if k = target then Equal else Greater)"

text \<open>The search between two bounds; it returns the index of a match.\<close>

function search_between :: "('a \<Rightarrow> ordering) \<Rightarrow> 'a list \<Rightarrow> nat \<Rightarrow> nat \<Rightarrow> nat option" where
  "search_between cmp xs lo hi =
     (if lo < hi then
        let mid = lo + (hi - lo) div 2 in
        (case cmp (xs ! mid) of
           Equal \<Rightarrow> Some mid
         | Less \<Rightarrow> search_between cmp xs (Suc mid) hi
         | Greater \<Rightarrow> search_between cmp xs lo mid)
      else None)"
  by pat_completeness auto
termination by (relation "measure (\<lambda>(cmp, xs, lo, hi). hi - lo)") auto

declare search_between.simps [simp del]

definition binary_search_by :: "('a \<Rightarrow> ordering) \<Rightarrow> 'a list \<Rightarrow> nat option" where
  "binary_search_by cmp xs = search_between cmp xs 0 (length xs)"

definition binary_search_by_key :: "('a \<Rightarrow> 'k::linorder) \<Rightarrow> 'k \<Rightarrow> 'a list \<Rightarrow> nat option" where
  "binary_search_by_key f k xs = binary_search_by (\<lambda>x. compare_with k (f x)) xs"

text \<open>A slice is ordered for a comparison when smaller elements come first.\<close>

definition ordered_for :: "('a \<Rightarrow> ordering) \<Rightarrow> 'a list \<Rightarrow> bool" where
  "ordered_for cmp xs \<longleftrightarrow> (\<forall>i j. i < j \<longrightarrow> j < length xs \<longrightarrow>
     (cmp (xs ! i) = Greater \<longrightarrow> cmp (xs ! j) = Greater) \<and> (cmp (xs ! j) = Less \<longrightarrow> cmp (xs ! i) = Less))"

lemma search_between_Some:
  "search_between cmp xs lo hi = Some i \<Longrightarrow> lo \<le> i \<and> i < hi \<and> cmp (xs ! i) = Equal"
proof (induction cmp xs lo hi rule: search_between.induct)
  case (1 cmp xs lo hi)
  then show ?case
    by (subst (asm) (3) search_between.simps) (fastforce simp: Let_def split: if_splits ordering.splits)
qed

lemma search_between_None:
  assumes "ordered_for cmp xs" "hi \<le> length xs" "search_between cmp xs lo hi = None" "lo \<le> i" "i < hi"
  shows "cmp (xs ! i) \<noteq> Equal"
  using assms
proof (induction cmp xs lo hi rule: search_between.induct)
  case (1 cmp xs lo hi)
  let ?mid = "lo + (hi - lo) div 2"
  have lt: "lo < hi" and mid: "lo \<le> ?mid" "?mid < hi" using "1.prems" by auto
  have ord: "i < ?mid \<Longrightarrow> cmp (xs ! ?mid) = Less \<Longrightarrow> cmp (xs ! i) = Less"
    "?mid < i \<Longrightarrow> cmp (xs ! ?mid) = Greater \<Longrightarrow> cmp (xs ! i) = Greater"
    using "1.prems"(1,2,5) mid unfolding ordered_for_def by (meson order.strict_trans2)+
  show ?case
  proof (cases "cmp (xs ! ?mid)")
    case Less
    then have "search_between cmp xs (Suc ?mid) hi = None"
      using "1.prems"(3) lt by (subst (asm) search_between.simps) (simp add: Let_def)
    then show ?thesis using "1.IH"(1) [OF lt refl Less] "1.prems" Less ord(1) by (cases "?mid < i"; cases "i = ?mid") auto
  next
    case Equal
    then show ?thesis using "1.prems"(3) lt by (subst (asm) search_between.simps) (simp add: Let_def)
  next
    case Greater
    then have "search_between cmp xs lo ?mid = None"
      using "1.prems"(3) lt by (subst (asm) search_between.simps) (simp add: Let_def)
    then show ?thesis using "1.IH"(2) [OF lt refl Greater] "1.prems" Greater ord(2) by (cases "i < ?mid"; cases "i = ?mid") auto
  qed
qed

lemma binary_search_by_Some: "binary_search_by cmp xs = Some i \<Longrightarrow> i < length xs \<and> cmp (xs ! i) = Equal"
  using search_between_Some unfolding binary_search_by_def by fastforce

lemma binary_search_by_None:
  "ordered_for cmp xs \<Longrightarrow> binary_search_by cmp xs = None \<Longrightarrow> x \<in> set xs \<Longrightarrow> cmp x \<noteq> Equal"
  using search_between_None [of cmp xs "length xs" 0] unfolding binary_search_by_def by (auto simp: in_set_conv_nth)

text \<open>On strictly ascending keys the search is the linear one.\<close>

lemma compare_with_Equal [simp]: "compare_with k x = Equal \<longleftrightarrow> x = k"
  by (auto simp: compare_with_def)

lemma ordered_for_keys:
  assumes "sorted_wrt (<) (map f xs)"
  shows "ordered_for (\<lambda>x. compare_with k (f x)) xs"
proof -
  have "f (xs ! i) < f (xs ! j)" if "i < j" "j < length xs" for i j
    using sorted_wrt_nth_less [OF assms, of i j] that by simp
  then show ?thesis unfolding ordered_for_def compare_with_def
    by (auto split: if_splits dest: order.strict_trans order.asym)
qed

lemma binary_search_by_key_find:
  assumes "sorted_wrt (<) (map f xs)"
  shows "map_option ((!) xs) (binary_search_by_key f k xs) = find (\<lambda>x. f x = k) xs"
proof (cases "binary_search_by_key f k xs")
  case None
  then have "\<forall>x\<in>set xs. f x \<noteq> k"
    using binary_search_by_None [OF ordered_for_keys [OF assms]] by (auto simp: binary_search_by_key_def)
  then have "find (\<lambda>x. f x = k) xs = None" by (simp add: find_None_iff)
  then show ?thesis using None by simp
next
  case (Some i)
  then have i: "i < length xs" "f (xs ! i) = k" using binary_search_by_Some by (fastforce simp: binary_search_by_key_def)+
  have "f (xs ! j) \<noteq> k" if "j < i" for j
    using sorted_wrt_nth_less [OF assms, of j i] i that by auto
  then have "find (\<lambda>x. f x = k) xs = Some (xs ! i)" using i by (auto simp: find_Some_iff)
  then show ?thesis using Some by simp
qed

lemma binary_search_by_key_mem:
  assumes "sorted_wrt (<) (map f xs)" "x \<in> set xs"
  shows "\<exists>i. binary_search_by_key f (f x) xs = Some i \<and> xs ! i = x"
proof -
  have d: "distinct (map f xs)" using assms(1) by (simp add: strict_sorted_iff)
  obtain j where j: "j < length xs" "xs ! j = x" using assms(2) by (auto simp: in_set_conv_nth)
  have "find (\<lambda>y. f y = f x) xs = Some x"
    using j d by (auto simp: find_Some_iff distinct_conv_nth intro!: exI [of _ j])
  then show ?thesis using binary_search_by_key_find [OF assms(1), of "f x"] by auto
qed

end
