(* ===== verification/Pack_File.thy ===== *)
theory Pack_File
  imports Pack_Format Hash_Text Sorted_Search
begin

text \<open>Writing and reading an immutable pack: \<open>mirage-pack/src/writer.rs\<close> and \<open>reader.rs\<close>.  The staged file is
  its bytes; a failing disk access only aborts the operation and is not represented.  Random bytes
  (the pack identity, the nonces) are arguments, the key of a repository is its pair of cipher
  functions, and the staging directory is a lookup function from file names to contents.\<close>

section \<open>The writer\<close>

record PackWriterOptions =
  opt_page_size :: u32
  target_size :: u64
  align_frames_4k :: bool

record PackEncryption =
  enc_repository :: id16
  enc_encrypt :: cipher
  enc_decrypt :: cipher

record PackWriter =
  staged_file :: bytes
  writer_options :: PackWriterOptions
  writer_entries :: "PackEntry list"
  known_pages :: "page_hash \<rightharpoonup> PackEntry"
  writer_position :: u64
  writer_encryption :: "PackEncryption option"
  writer_pack_id :: bytes

definition validate_options :: "PackWriterOptions \<Rightarrow> unit result" where
  "validate_options opts =
     (if \<not> pack_page_size_ok (opt_page_size opts) \<or> target_size opts < opt_page_size opts + 4096 then Inl InvalidArgument
      else Inr ())"

definition create_inner :: "PackWriterOptions \<Rightarrow> PackEncryption option \<Rightarrow> bytes option \<Rightarrow> PackWriter result" where
  "create_inner opts enc random =
     bind_result (validate_options opts) (\<lambda>_.
     bind_result (ok_or random InternalInvariant) (\<lambda>writer_id.
       Inr \<lparr>staged_file = zeros PACK_HEADER_LEN, writer_options = opts, writer_entries = [], known_pages = Map.empty,
            writer_position = PACK_HEADER_LEN, writer_encryption = enc,
            writer_pack_id = (if enc \<noteq> None then writer_id else zeros 16)\<rparr>))"

definition align_up :: "u64 \<Rightarrow> u64 \<Rightarrow> u64 result" where
  "align_up v alignment =
     ok_or (map_option (\<lambda>sum. sum div alignment * alignment) (checked_add64 v (alignment - 1))) InvalidArgument"

text \<open>\<open>write_zeros\<close> appends in chunks of at most 4096.\<close>

function write_zeros :: "bytes \<Rightarrow> nat \<Rightarrow> bytes" where
  "write_zeros file remaining =
     (if remaining = 0 then file
      else write_zeros (file @ zeros (min remaining 4096)) (remaining - min remaining 4096))"
  by pat_completeness auto
termination by (relation "measure snd") auto

declare write_zeros.simps [simp del]

definition frame_position :: "PackWriter \<Rightarrow> u64 result" where
  "frame_position w =
     (if align_frames_4k (writer_options w) then align_up (writer_position w) 4096 else Inr (writer_position w))"

definition encode_frame ::
  "(bytes \<Rightarrow> 32 word) \<Rightarrow> (bytes \<Rightarrow> page_hash) \<Rightarrow> PackWriter \<Rightarrow> bytes option \<Rightarrow> u64 \<Rightarrow> PlainPage \<Rightarrow> bytes result" where
  "encode_frame crc32 blake3 w random aligned p =
     (case writer_encryption w of
        Some enc \<Rightarrow>
          encode_encrypted_frame blake3 (enc_encrypt enc) random (plain_bytes p)
            \<lparr>aad_repository = enc_repository enc, aad_pack_id = writer_pack_id w, aad_frame_index = aligned,
             aad_hash = plain_hash p, aad_length = plain_len p\<rparr>
      | None \<Rightarrow> encode_plain_frame crc32 blake3 p)"

definition append_page ::
  "(bytes \<Rightarrow> 32 word) \<Rightarrow> (bytes \<Rightarrow> page_hash) \<Rightarrow> PackWriter \<Rightarrow> bytes option \<Rightarrow> PlainPage \<Rightarrow> (PackWriter \<times> PackEntry) result" where
  "append_page crc32 blake3 w random p =
     (case known_pages w (plain_hash p) of
        Some entry \<Rightarrow> if entry_logical entry \<noteq> plain_len p then Inl IntegrityMismatch else Inr (w, entry)
      | None \<Rightarrow>
          if plain_len p > opt_page_size (writer_options w) then Inl InvalidArgument
          else bind_result (frame_position w) (\<lambda>aligned.
          bind_result (encode_frame crc32 blake3 w random aligned p) (\<lambda>frame.
          bind_result (ok_or (checked_add64 aligned (length frame)) InvalidArgument) (\<lambda>e.
          if writer_entries w \<noteq> [] \<and> e > target_size (writer_options w) then Inl CacheFull
          else
            let padded = (if aligned > writer_position w then write_zeros (staged_file w) (aligned - writer_position w)
                          else staged_file w);
                entry = \<lparr>entry_hash = plain_hash p, frame_offset = aligned, frame_length = length frame,
                         entry_logical = plain_len p, entry_encoded = plain_len p, entry_codec = CodecNone,
                         entry_encrypted = (writer_encryption w \<noteq> None)\<rparr>
            in Inr (w\<lparr>staged_file := padded @ frame, writer_position := e, writer_entries := writer_entries w @ [entry],
                      known_pages := (known_pages w)(plain_hash p \<mapsto> entry)\<rparr>, entry)))))"

definition would_rollover :: "PackWriter \<Rightarrow> PlainPage \<Rightarrow> bool result" where
  "would_rollover w p =
     (if known_pages w (plain_hash p) \<noteq> None \<or> writer_entries w = [] then Inr False
      else bind_result (frame_position w) (\<lambda>aligned.
      bind_result (ok_or (checked_add64 (frame_overhead (writer_encryption w \<noteq> None)) (plain_len p)) InvalidArgument) (\<lambda>flen.
      bind_result (ok_or (Option.bind (checked_add64 aligned flen) (\<lambda>v.
          Option.bind (checked_add64 v (saturating_mul64 (saturating_add64 (length (writer_entries w)) 1) 64)) (\<lambda>v.
          checked_add64 v 128))) InvalidArgument) (\<lambda>projected.
        Inr (projected > target_size (writer_options w))))))"

definition contains_page :: "PackWriter \<Rightarrow> page_hash \<Rightarrow> bool" where
  "contains_page w h \<longleftrightarrow> known_pages w h \<noteq> None"

definition hash_prefix :: "(bytes \<Rightarrow> page_hash) \<Rightarrow> bytes \<Rightarrow> nat \<Rightarrow> page_hash result" where
  "hash_prefix blake3 file n = (if n \<le> length file then Inr (blake3 (take n file)) else Inl IntegrityMismatch)"

section \<open>The reader\<close>

record PackReader =
  reader_file :: bytes
  file_length :: u64
  object_hash :: "page_hash option"
  reader_entries :: "PackEntry list"
  reader_encrypted :: bool
  reader_pack_id :: bytes
  reader_encryption :: "PackEncryption option"

fun validate_physical :: "u64 \<Rightarrow> u32 \<Rightarrow> u64 \<Rightarrow> PackEntry list \<Rightarrow> unit result" where
  "validate_physical idx page previous_end [] = Inr ()"
| "validate_physical idx page previous_end (e # es) =
     bind_result (ok_or (checked_add64 (frame_offset e) (frame_length e)) ManifestInvalid) (\<lambda>frame_end.
       if frame_offset e < previous_end \<or> frame_end > idx \<or> entry_logical e > page then Inl ManifestInvalid
       else validate_physical idx page frame_end es)"

definition validate_entries :: "PackEntry list \<Rightarrow> u64 \<Rightarrow> u32 \<Rightarrow> unit result" where
  "validate_entries entries idx page = validate_physical idx page PACK_HEADER_LEN (sort_key frame_offset entries)"

definition open_inner ::
  "(bytes \<Rightarrow> 32 word) \<Rightarrow> (bytes \<Rightarrow> page_hash) \<Rightarrow> bytes \<Rightarrow> PackEncryption option \<Rightarrow> bool \<Rightarrow> PackReader result" where
  "open_inner crc32 blake3 file enc verify_content =
     (if length file < PACK_HEADER_LEN + FOOTER_LEN then Inl ManifestInvalid
      else bind_result (header_decode crc32 (slice 0 PACK_HEADER_LEN file)) (\<lambda>header.
      bind_result (footer_decode crc32 (slice (length file - FOOTER_LEN) FOOTER_LEN file)) (\<lambda>footer.
      if pack_length footer \<noteq> length file \<or> index_offset header < PACK_HEADER_LEN \<or>
         checked_add64 (index_offset header) (index_length header) \<noteq> Some (length file - FOOTER_LEN)
      then Inl ManifestInvalid
      else
        let index_bytes = slice (index_offset header) (index_length header) file in
        if blake3 index_bytes \<noteq> index_hash footer then Inl IntegrityMismatch
        else bind_result
          (if verify_content then
             bind_result (hash_prefix blake3 file (length file - FOOTER_LEN)) (\<lambda>body.
               if body \<noteq> footer_content_hash footer then Inl IntegrityMismatch
               else bind_result (hash_prefix blake3 file (length file)) (\<lambda>h. Inr (Some h)))
           else Inr None) (\<lambda>object.
        bind_result (decode_index index_bytes (entry_count header)) (\<lambda>entries.
        bind_result (validate_entries entries (index_offset header) (pack_page_size header)) (\<lambda>_.
        if list_ex (\<lambda>e. entry_encrypted e \<noteq> pack_encrypted header) entries then Inl IntegrityMismatch
        else Inr \<lparr>reader_file = file, file_length = length file, object_hash = object, reader_entries = entries,
                  reader_encrypted = pack_encrypted header, reader_pack_id = header_pack_id header,
                  reader_encryption = enc\<rparr>))))))"

definition pack_lookup :: "PackReader \<Rightarrow> page_hash \<Rightarrow> PackEntry option" where
  "pack_lookup r h = map_option ((!) (reader_entries r)) (binary_search_by_key entry_hash h (reader_entries r))"

definition decode_entry_frame ::
  "(bytes \<Rightarrow> 32 word) \<Rightarrow> (bytes \<Rightarrow> page_hash) \<Rightarrow> bytes \<Rightarrow> PackEntry \<Rightarrow> PackEncryption option \<Rightarrow> bytes \<Rightarrow> DecodedFrame result" where
  "decode_entry_frame crc32 blake3 frame entry enc pack_id =
     (if \<not> entry_encrypted entry then decode_plain_frame crc32 blake3 frame
      else bind_result (ok_or enc BackendUnauthenticated) (\<lambda>key.
      bind_result (decode_encrypted_frame blake3 (enc_decrypt key) frame
          \<lparr>aad_repository = enc_repository key, aad_pack_id = pack_id, aad_frame_index = frame_offset entry,
           aad_hash = entry_hash entry, aad_length = entry_logical entry\<rparr>) (\<lambda>plaintext.
        Inr \<lparr>frame_page = \<lparr>plain_hash = entry_hash entry, plain_len = entry_logical entry, plain_bytes = plaintext\<rparr>,
             frame_codec = CodecNone\<rparr>)))"

definition read_page :: "(bytes \<Rightarrow> 32 word) \<Rightarrow> (bytes \<Rightarrow> page_hash) \<Rightarrow> PackReader \<Rightarrow> page_hash \<Rightarrow> DecodedFrame result" where
  "read_page crc32 blake3 r h =
     bind_result (ok_or (pack_lookup r h) RemoteObjectMissing) (\<lambda>entry.
     if frame_length entry \<noteq> 0 \<and> frame_offset entry + frame_length entry > length (reader_file r) then Inl Io
     else bind_result (decode_entry_frame crc32 blake3 (slice (frame_offset entry) (frame_length entry) (reader_file r)) entry
            (reader_encryption r) (reader_pack_id r)) (\<lambda>decoded.
       if plain_hash (frame_page decoded) \<noteq> h then Inl IntegrityMismatch else Inr decoded))"

definition range_frame :: "u64 \<Rightarrow> bytes \<Rightarrow> PackEntry \<Rightarrow> bytes result" where
  "range_frame range_start bs entry =
     bind_result (ok_or (checked_sub64 (frame_offset entry) range_start) InvalidArgument) (\<lambda>start.
     bind_result (ok_or (checked_add64 start (frame_length entry)) InvalidArgument) (\<lambda>frame_end.
       if frame_end \<le> length bs then Inr (slice start (frame_length entry) bs) else Inl IntegrityMismatch))"

definition decode_page_from_range ::
  "(bytes \<Rightarrow> 32 word) \<Rightarrow> (bytes \<Rightarrow> page_hash) \<Rightarrow> u64 \<Rightarrow> bytes \<Rightarrow> PackEntry \<Rightarrow> DecodedFrame result" where
  "decode_page_from_range crc32 blake3 range_start bs entry =
     bind_result (range_frame range_start bs entry) (\<lambda>frame.
     bind_result (decode_plain_frame crc32 blake3 frame) (\<lambda>decoded.
       if plain_hash (frame_page decoded) \<noteq> entry_hash entry then Inl IntegrityMismatch else Inr decoded))"

definition decode_page_from_range_encrypted ::
  "(bytes \<Rightarrow> 32 word) \<Rightarrow> (bytes \<Rightarrow> page_hash) \<Rightarrow> u64 \<Rightarrow> bytes \<Rightarrow> PackEntry \<Rightarrow> PackEncryption \<Rightarrow> DecodedFrame result" where
  "decode_page_from_range_encrypted crc32 blake3 range_start bs entry enc =
     bind_result (range_frame range_start bs entry) (\<lambda>frame.
     bind_result (encrypted_frame_pack_id frame) (\<lambda>pack_id.
     bind_result (decode_entry_frame crc32 blake3 frame entry (Some enc) pack_id) (\<lambda>decoded.
       if plain_hash (frame_page decoded) \<noteq> entry_hash entry then Inl IntegrityMismatch else Inr decoded)))"

section \<open>Finishing a pack\<close>

definition pack_name :: "page_hash \<Rightarrow> bytes" where
  "pack_name h = map of_char ''pack-'' @ encode_canonical_hex (hash_bytes h) @ map of_char ''.bin''"

record CompletedPack =
  completed_name :: bytes
  completed_file :: bytes
  completed_hash :: page_hash
  byte_length :: u64
  completed_entries :: "PackEntry list"

definition finish ::
  "(bytes \<Rightarrow> 32 word) \<Rightarrow> (bytes \<Rightarrow> page_hash) \<Rightarrow> (bytes \<Rightarrow> bytes option) \<Rightarrow> PackWriter \<Rightarrow> CompletedPack result" where
  "finish crc32 blake3 existing w =
     (if writer_entries w = [] then Inl InvalidArgument
      else
        let sorted_entries = sort_key entry_hash (writer_entries w);
            index = encode_index sorted_entries;
            index_at = writer_position w;
            file = staged_file w @ index
        in bind_result (ok_or (checked_add64 index_at (length index)) InvalidArgument) (\<lambda>content_length.
           bind_result (ok_or (checked_add64 content_length FOOTER_LEN) InvalidArgument) (\<lambda>total.
           let header = \<lparr>pack_page_size = opt_page_size (writer_options w), index_offset = index_at,
                 index_length = length index, entry_count = length sorted_entries,
                 pack_encrypted = (writer_encryption w \<noteq> None), header_pack_id = writer_pack_id w\<rparr>;
               file = copy_into file 0 (header_encode crc32 header)
           in bind_result (hash_prefix blake3 file content_length) (\<lambda>body.
              let footer = \<lparr>index_hash = blake3 index, footer_content_hash = body, pack_length = total\<rparr>;
                  file = copy_into file content_length (footer_encode crc32 footer)
              in bind_result (hash_prefix blake3 file total) (\<lambda>content_hash.
                 bind_result (open_inner crc32 blake3 file None True) (\<lambda>_.
                 case existing (pack_name content_hash) of
                   Some stored \<Rightarrow>
                     bind_result (open_inner crc32 blake3 stored None True) (\<lambda>r.
                       if object_hash r \<noteq> Some content_hash then Inl IntegrityMismatch
                       else Inr \<lparr>completed_name = pack_name content_hash, completed_file = stored, completed_hash = content_hash, byte_length = total,
                                 completed_entries = sorted_entries\<rparr>)
                 | None \<Rightarrow> Inr \<lparr>completed_name = pack_name content_hash, completed_file = file, completed_hash = content_hash, byte_length = total,
                                completed_entries = sorted_entries\<rparr>))))))"

fun append_pages ::
  "(bytes \<Rightarrow> 32 word) \<Rightarrow> (bytes \<Rightarrow> page_hash) \<Rightarrow> PackWriter \<Rightarrow> (bytes option \<times> PlainPage) list \<Rightarrow> PackWriter result" where
  "append_pages crc32 blake3 w [] = Inr w"
| "append_pages crc32 blake3 w ((random, p) # ps) =
     bind_result (append_page crc32 blake3 w random p) (\<lambda>(w', _). append_pages crc32 blake3 w' ps)"

section \<open>The writer invariant\<close>

lemma zeros_append: "zeros a @ zeros b = zeros (a + b)"
  by (simp add: zeros_def replicate_add)

lemma write_zeros_eq: "write_zeros bs n = bs @ zeros n"
proof (induction bs n rule: write_zeros.induct)
  case (1 bs n)
  then show ?case
    by (subst write_zeros.simps) (auto simp: zeros_append zeros_def [of 0])
qed

lemma align_up_spec: "align_up v 4096 = Inr a \<Longrightarrow> v \<le> a"
  by (auto simp: align_up_def checked_add64_def ok_or_def split: if_splits)

lemma frame_position_spec: "frame_position w = Inr a \<Longrightarrow> writer_position w \<le> a"
  using align_up_spec by (auto simp: frame_position_def split: if_splits)

lemma slice_append_left: "a + n \<le> length xs \<Longrightarrow> slice a n (xs @ ys) = slice a n xs"
  by (simp add: slice_def)

lemma slice_append_right: "n = length ys \<Longrightarrow> a = length xs \<Longrightarrow> slice a n (xs @ ys @ zs) = ys"
  by (simp add: slice_def)

definition page_ok :: "PlainPage \<Rightarrow> bool" where
  "page_ok p \<longleftrightarrow> plain_len p = length (plain_bytes p) \<and> 0 < plain_len p"

definition key_ok :: "PackEncryption option \<Rightarrow> bool" where
  "key_ok enc \<longleftrightarrow> (case enc of None \<Rightarrow> True | Some key \<Rightarrow> aead_ok (enc_encrypt key) (enc_decrypt key))"

definition nonce_ok :: "bytes option \<Rightarrow> bool" where
  "nonce_ok random \<longleftrightarrow> (case random of None \<Rightarrow> True | Some n \<Rightarrow> length n = NONCE_LENGTH)"

text \<open>An entry is served as page \<open>p\<close> when the bytes it addresses decode to it.\<close>

definition serves ::
  "(bytes \<Rightarrow> 32 word) \<Rightarrow> (bytes \<Rightarrow> page_hash) \<Rightarrow> PackEncryption option \<Rightarrow> bytes \<Rightarrow> bytes \<Rightarrow> PackEntry \<Rightarrow> PlainPage \<Rightarrow> bool" where
  "serves crc32 blake3 enc pack_id file e p \<longleftrightarrow>
     entry_hash e = plain_hash p \<and>
     decode_entry_frame crc32 blake3 (slice (frame_offset e) (frame_length e) file) e enc pack_id =
       Inr \<lparr>frame_page = p, frame_codec = CodecNone\<rparr>"

definition entries_by_hash :: "PackEntry list \<Rightarrow> page_hash \<rightharpoonup> PackEntry" where
  "entries_by_hash es = map_of (map (\<lambda>e. (entry_hash e, e)) es)"

definition placed :: "nat \<Rightarrow> nat \<Rightarrow> bool \<Rightarrow> PackEntry \<Rightarrow> bool" where
  "placed limit page b e \<longleftrightarrow> PACK_HEADER_LEN \<le> frame_offset e \<and> frame_offset e + frame_length e \<le> limit \<and>
     entry_logical e \<le> page \<and> entry_encrypted e = b \<and> entry_ok e"

definition page_at :: "PlainPage list \<Rightarrow> page_hash \<Rightarrow> PlainPage option" where
  "page_at ps h = find (\<lambda>p. plain_hash p = h) ps"

definition serves_all ::
  "(bytes \<Rightarrow> 32 word) \<Rightarrow> (bytes \<Rightarrow> page_hash) \<Rightarrow> PackEncryption option \<Rightarrow> bytes \<Rightarrow> bytes \<Rightarrow> PackEntry list \<Rightarrow> PlainPage list \<Rightarrow> bool" where
  "serves_all crc32 blake3 enc pack_id file es ps \<longleftrightarrow>
     (\<forall>h. rel_option (serves crc32 blake3 enc pack_id file) (entries_by_hash es h) (page_at ps h))"

definition writer_inv :: "(bytes \<Rightarrow> 32 word) \<Rightarrow> (bytes \<Rightarrow> page_hash) \<Rightarrow> PackWriter \<Rightarrow> PlainPage list \<Rightarrow> bool" where
  "writer_inv crc32 blake3 w ps \<longleftrightarrow>
     writer_position w = length (staged_file w) \<and> PACK_HEADER_LEN \<le> writer_position w \<and> writer_position w \<le> u64_max \<and>
     pack_page_size_ok (opt_page_size (writer_options w)) \<and> length (writer_pack_id w) = 16 \<and>
     (writer_encryption w \<noteq> None \<longleftrightarrow> writer_pack_id w \<noteq> zeros 16) \<and> key_ok (writer_encryption w) \<and>
     list_all (placed (writer_position w) (opt_page_size (writer_options w)) (writer_encryption w \<noteq> None)) (writer_entries w) \<and>
     sorted_wrt (\<lambda>a b. frame_offset a + frame_length a \<le> frame_offset b) (writer_entries w) \<and>
     distinct (map entry_hash (writer_entries w)) \<and> known_pages w = entries_by_hash (writer_entries w) \<and>
     serves_all crc32 blake3 (writer_encryption w) (writer_pack_id w) (staged_file w) (writer_entries w) ps"

text \<open>What every append keeps, whatever page it is given: the layout of the staged file, and an index
  whose entries are in range and are well-formed exactly when the page they stand for is.\<close>

definition entry_fits :: "PackEntry \<Rightarrow> bool" where
  "entry_fits e \<longleftrightarrow> frame_offset e \<le> u64_max \<and> frame_length e \<le> u64_max \<and> entry_logical e \<le> u32_max \<and>
     entry_encoded e \<le> u32_max \<and> entry_codec e = CodecNone"

definition writer_staged :: "PackWriter \<Rightarrow> bool" where
  "writer_staged w \<longleftrightarrow>
     writer_position w = length (staged_file w) \<and> PACK_HEADER_LEN \<le> writer_position w \<and> writer_position w \<le> u64_max \<and>
     pack_page_size_ok (opt_page_size (writer_options w)) \<and> length (writer_pack_id w) = 16 \<and>
     (writer_encryption w \<noteq> None \<longleftrightarrow> writer_pack_id w \<noteq> zeros 16) \<and> key_ok (writer_encryption w)"

definition index_tracks :: "PackWriter \<Rightarrow> PlainPage list \<Rightarrow> bool" where
  "index_tracks w ps \<longleftrightarrow>
     writer_staged w \<and> list_all entry_fits (writer_entries w) \<and> known_pages w = entries_by_hash (writer_entries w) \<and>
     (\<forall>h. rel_option (\<lambda>e p. (entry_ok e \<longleftrightarrow> page_ok p) \<and> (writer_encryption w = None \<longrightarrow> page_ok p))
        (entries_by_hash (writer_entries w) h) (page_at ps h))"

lemma writer_inv_staged: "writer_inv crc32 blake3 w ps \<Longrightarrow> writer_staged w"
  by (simp add: writer_inv_def writer_staged_def)

lemma page_at_snoc:
  "page_at (ps @ [p]) h = (case page_at ps h of None \<Rightarrow> if plain_hash p = h then Some p else None | Some q \<Rightarrow> Some q)"
  unfolding page_at_def by (induction ps) auto

lemma entries_by_hash_snoc:
  "entries_by_hash es (entry_hash e) = None \<Longrightarrow> entries_by_hash (es @ [e]) = (entries_by_hash es)(entry_hash e \<mapsto> e)"
  unfolding entries_by_hash_def by (auto simp: map_add_def fun_eq_iff split: option.splits)

lemma entries_by_hash_None: "entries_by_hash es h = None \<longleftrightarrow> h \<notin> entry_hash ` set es"
  by (auto simp: entries_by_hash_def map_of_eq_None_iff image_comp comp_def)

lemma entries_by_hash_mem: "entries_by_hash es h = Some e \<Longrightarrow> e \<in> set es \<and> entry_hash e = h"
  unfolding entries_by_hash_def by (auto dest: map_of_SomeD)

lemma entries_by_hash_find: "find (\<lambda>e. entry_hash e = h) es = entries_by_hash es h"
  unfolding entries_by_hash_def by (induction es) auto

lemma entries_by_hash_mset:
  "mset es = mset es' \<Longrightarrow> distinct (map entry_hash es) \<Longrightarrow> entries_by_hash es = entries_by_hash es'"
  unfolding entries_by_hash_def
  by (rule map_of_inject_set [THEN iffD2])
    (auto simp: comp_def dest: mset_eq_setD intro: mset_eq_imp_distinct_iff [THEN iffD1, rotated])

lemma encode_frame_spec:
  assumes f: "encode_frame crc32 blake3 w random at p = Inr frame" and p: "page_ok p" "plain_len p \<le> u32_max"
    and r: "nonce_ok random" and k: "key_ok (writer_encryption w)" and id: "length (writer_pack_id w) = 16"
    and e: "entry_hash e = plain_hash p" "frame_offset e = at" "entry_logical e = plain_len p"
      "entry_encrypted e = (writer_encryption w \<noteq> None)"
  shows "decode_entry_frame crc32 blake3 frame e (writer_encryption w) (writer_pack_id w) =
           Inr \<lparr>frame_page = p, frame_codec = CodecNone\<rparr>"
    "length frame = frame_overhead (writer_encryption w \<noteq> None) + plain_len p"
proof -
  have "decode_entry_frame crc32 blake3 frame e (writer_encryption w) (writer_pack_id w) =
           Inr \<lparr>frame_page = p, frame_codec = CodecNone\<rparr> \<and>
        length frame = frame_overhead (writer_encryption w \<noteq> None) + plain_len p"
  proof (cases "writer_encryption w")
    case None
    then show ?thesis
      using f e plain_frame_decode_encode [of crc32 blake3 p frame] plain_frame_length [of crc32 blake3 p frame]
      by (simp add: encode_frame_def decode_entry_frame_def frame_overhead_def)
  next
    case (Some key)
    let ?aad = "\<lparr>aad_repository = enc_repository key, aad_pack_id = writer_pack_id w, aad_frame_index = at,
                 aad_hash = plain_hash p, aad_length = plain_len p\<rparr>"
    have enc: "encode_encrypted_frame blake3 (enc_encrypt key) random (plain_bytes p) ?aad = Inr frame"
      using f Some by (simp add: encode_frame_def)
    have ok: "aead_ok (enc_encrypt key) (enc_decrypt key)" "\<And>n. random = Some n \<Longrightarrow> length n = 24"
      using k r Some by (auto simp: key_ok_def nonce_ok_def NONCE_LENGTH_def)
    have "decode_encrypted_frame blake3 (enc_decrypt key) frame ?aad = Inr (plain_bytes p)"
      "length frame = 68 + length (plain_bytes p)"
      using encrypted_frame_decode_encode [OF enc ok] id p by (simp_all add: page_ok_def)
    then show ?thesis using Some e p by (simp add: decode_entry_frame_def frame_overhead_def page_ok_def)
  qed
  then show "decode_entry_frame crc32 blake3 frame e (writer_encryption w) (writer_pack_id w) =
           Inr \<lparr>frame_page = p, frame_codec = CodecNone\<rparr>"
    "length frame = frame_overhead (writer_encryption w \<noteq> None) + plain_len p" by auto
qed

lemma serves_extend:
  "serves crc32 blake3 enc i bs e p \<Longrightarrow> frame_offset e + frame_length e \<le> length bs \<Longrightarrow> serves crc32 blake3 enc i (bs @ ys) e p"
  by (simp add: serves_def slice_append_left)

lemma serves_all_extend:
  assumes "serves_all crc32 blake3 enc i bs es ps" "\<forall>e\<in>set es. frame_offset e + frame_length e \<le> length bs"
  shows "serves_all crc32 blake3 enc i (bs @ ys) es ps"
  unfolding serves_all_def
proof
  fix h
  have "rel_option (serves crc32 blake3 enc i bs) (entries_by_hash es h) (page_at ps h)"
    using assms(1) by (simp add: serves_all_def)
  then show "rel_option (serves crc32 blake3 enc i (bs @ ys)) (entries_by_hash es h) (page_at ps h)"
    using assms(2) entries_by_hash_mem [of es h] serves_extend [of crc32 blake3 enc i bs]
    by (cases "entries_by_hash es h"; cases "page_at ps h") auto
qed

lemma serves_all_snoc:
  assumes s: "serves_all crc32 blake3 enc i bs es ps" and e: "serves crc32 blake3 enc i bs e p"
    and n: "entries_by_hash es (entry_hash e) = None"
  shows "serves_all crc32 blake3 enc i bs (es @ [e]) (ps @ [p])"
  unfolding serves_all_def
proof
  fix h
  have h: "rel_option (serves crc32 blake3 enc i bs) (entries_by_hash es h') (page_at ps h')" for h'
    using s by (simp add: serves_all_def)
  have "entry_hash e = plain_hash p" using e by (simp add: serves_def)
  moreover have "page_at ps (entry_hash e) = None" using h [of "entry_hash e"] n by simp
  ultimately show "rel_option (serves crc32 blake3 enc i bs) (entries_by_hash (es @ [e]) h) (page_at (ps @ [p]) h)"
    using h [of h] e by (auto simp: entries_by_hash_snoc [OF n] page_at_snoc split: option.splits)
qed

lemma serves_all_known:
  assumes s: "serves_all crc32 blake3 enc i bs es ps" and n: "entries_by_hash es (plain_hash p) \<noteq> None"
  shows "serves_all crc32 blake3 enc i bs es (ps @ [p])"
proof -
  have "page_at ps (plain_hash p) \<noteq> None"
    using s n unfolding serves_all_def by (metis option.rel_distinct(2) not_None_eq)
  then have "page_at (ps @ [p]) h = page_at ps h" for h by (auto simp: page_at_snoc split: option.splits)
  then show ?thesis using s by (simp add: serves_all_def)
qed

lemma writer_inv_create:
  assumes "create_inner opts enc (Some i) = Inr w" "length i = 16" "i \<noteq> zeros 16" "key_ok enc"
  shows "writer_inv crc32 blake3 w []"
  using assms
  by (auto simp: create_inner_def validate_options_def bind_result_eq_Inr ok_or_def writer_inv_def serves_all_def page_at_def
      entries_by_hash_def pack_lens u64_max_def split: if_splits)

lemma placed_mono: "placed l n b e \<Longrightarrow> l \<le> l' \<Longrightarrow> placed l' n b e"
  by (simp add: placed_def)

lemma append_page_new:
  assumes "append_page crc32 blake3 w random p = Inr (w', e)" "known_pages w (plain_hash p) = None"
    "writer_position w = length (staged_file w)"
  obtains at frame where "writer_position w \<le> at" "encode_frame crc32 blake3 w random at p = Inr frame"
    "at + length frame \<le> u64_max" "plain_len p \<le> opt_page_size (writer_options w)"
    "e = \<lparr>entry_hash = plain_hash p, frame_offset = at, frame_length = length frame, entry_logical = plain_len p,
          entry_encoded = plain_len p, entry_codec = CodecNone, entry_encrypted = (writer_encryption w \<noteq> None)\<rparr>"
    "w' = w\<lparr>staged_file := staged_file w @ zeros (at - writer_position w) @ frame, writer_position := at + length frame,
             writer_entries := writer_entries w @ [e], known_pages := (known_pages w)(plain_hash p \<mapsto> e)\<rparr>"
proof -
  obtain at frame where at: "frame_position w = Inr at" and f: "encode_frame crc32 blake3 w random at p = Inr frame"
      "at + length frame \<le> u64_max" "plain_len p \<le> opt_page_size (writer_options w)"
      "e = \<lparr>entry_hash = plain_hash p, frame_offset = at, frame_length = length frame, entry_logical = plain_len p,
            entry_encoded = plain_len p, entry_codec = CodecNone, entry_encrypted = (writer_encryption w \<noteq> None)\<rparr>"
      "w' = w\<lparr>staged_file := (if at > writer_position w then write_zeros (staged_file w) (at - writer_position w)
                          else staged_file w) @ frame, writer_position := at + length frame,
               writer_entries := writer_entries w @ [e], known_pages := (known_pages w)(plain_hash p \<mapsto> e)\<rparr>"
    using assms(1,2)
    by (auto simp: append_page_def bind_result_eq_Inr Let_def ok_or_def checked_add64_def split: if_splits option.splits)
  show thesis
    using frame_position_spec [OF at] f by (intro that [of at frame]) (auto simp: write_zeros_eq zeros_def)
qed

lemma append_page_keeps:
  assumes "append_page crc32 blake3 w random p = Inr (w', e)"
  shows "writer_encryption w' = writer_encryption w" "writer_pack_id w' = writer_pack_id w"
  using assms by (auto simp: append_page_def bind_result_eq_Inr Let_def split: if_splits option.splits)

lemma encode_frame_length:
  assumes f: "encode_frame crc32 blake3 w random at p = Inr frame" and r: "nonce_ok random" and w: "writer_staged w"
  shows "length frame = frame_overhead (writer_encryption w \<noteq> None) + length (plain_bytes p)"
    "writer_encryption w = None \<longrightarrow> page_ok p"
proof -
  have "length frame = frame_overhead (writer_encryption w \<noteq> None) + length (plain_bytes p) \<and>
    (writer_encryption w = None \<longrightarrow> page_ok p)"
  proof (cases "writer_encryption w")
    case None
    then have enc: "encode_plain_frame crc32 blake3 p = Inr frame" using f by (simp add: encode_frame_def)
    then have "page_ok p" by (auto simp: encode_plain_frame_def page_ok_def split: if_splits)
    then show ?thesis using None plain_frame_length [OF enc] by (auto simp: page_ok_def frame_overhead_def)
  next
    case (Some key)
    let ?aad = "\<lparr>aad_repository = enc_repository key, aad_pack_id = writer_pack_id w, aad_frame_index = at,
                 aad_hash = plain_hash p, aad_length = length (plain_bytes p)\<rparr>"
    have enc: "encode_encrypted_frame blake3 (enc_encrypt key) random (plain_bytes p) ?aad = Inr frame"
      using f Some by (simp add: encode_frame_def encode_encrypted_frame_def Let_def split: if_splits)
    have "aead_ok (enc_encrypt key) (enc_decrypt key)" "\<And>n. random = Some n \<Longrightarrow> length n = 24"
      using w r Some by (auto simp: writer_staged_def key_ok_def nonce_ok_def NONCE_LENGTH_def)
    from encrypted_frame_decode_encode(2) [OF enc this] show ?thesis
      using w Some by (simp add: frame_overhead_def writer_staged_def)
  qed
  then show "length frame = frame_overhead (writer_encryption w \<noteq> None) + length (plain_bytes p)"
    "writer_encryption w = None \<longrightarrow> page_ok p" by auto
qed

lemma index_tracks_append:
  assumes inv: "index_tracks w ps" and app: "append_page crc32 blake3 w random p = Inr (w', e)" and r: "nonce_ok random"
  shows "index_tracks w' (ps @ [p])"
proof -
  have st: "writer_staged w" and fits: "list_all entry_fits (writer_entries w)"
    and kn: "known_pages w = entries_by_hash (writer_entries w)"
    and rel: "rel_option (\<lambda>e p. (entry_ok e \<longleftrightarrow> page_ok p) \<and> (writer_encryption w = None \<longrightarrow> page_ok p))
        (entries_by_hash (writer_entries w) h) (page_at ps h)" for h
    using inv unfolding index_tracks_def by blast+
  show ?thesis
  proof (cases "known_pages w (plain_hash p)")
    case (Some k)
    then have w': "w' = w" using app by (simp add: append_page_def split: if_splits)
    have "page_at ps (plain_hash p) \<noteq> None" using rel [of "plain_hash p"] Some kn by (auto simp: option_rel_Some1)
    then have "page_at (ps @ [p]) h = page_at ps h" for h by (auto simp: page_at_snoc split: option.splits)
    then show ?thesis using inv by (simp add: w' index_tracks_def)
  next
    case None
    have pos: "writer_position w = length (staged_file w)" using st by (simp add: writer_staged_def)
    obtain at frame where at: "writer_position w \<le> at" and f: "encode_frame crc32 blake3 w random at p = Inr frame"
      and lim: "at + length frame \<le> u64_max" "plain_len p \<le> opt_page_size (writer_options w)"
      and e: "e = \<lparr>entry_hash = plain_hash p, frame_offset = at, frame_length = length frame, entry_logical = plain_len p,
            entry_encoded = plain_len p, entry_codec = CodecNone, entry_encrypted = (writer_encryption w \<noteq> None)\<rparr>"
      and w': "w' = w\<lparr>staged_file := staged_file w @ zeros (at - writer_position w) @ frame, writer_position := at + length frame,
               writer_entries := writer_entries w @ [e], known_pages := (known_pages w)(plain_hash p \<mapsto> e)\<rparr>"
      using append_page_new [OF app None pos] by blast
    note fl = encode_frame_length [OF f r st]
    have "plain_len p \<le> u32_max" using lim(2) st page_size_u32 order_trans unfolding writer_staged_def by blast
    then have ok: "entry_fits e" "entry_ok e \<longleftrightarrow> page_ok p"
      using lim fl(1) by (auto simp: e entry_fits_def entry_ok_def page_ok_def)
    have eh: "entry_hash e = plain_hash p" by (simp add: e)
    then have fresh: "entries_by_hash (writer_entries w) (entry_hash e) = None" using None kn by simp
    have "page_at ps (plain_hash p) = None" using rel [of "plain_hash p"] fresh eh by simp
    then have "rel_option (\<lambda>e p. (entry_ok e \<longleftrightarrow> page_ok p) \<and> (writer_encryption w = None \<longrightarrow> page_ok p))
        (entries_by_hash (writer_entries w @ [e]) h) (page_at (ps @ [p]) h)" for h
      using rel [of h] ok(2) fl(2) eh
      by (cases "plain_hash p = h") (auto simp: entries_by_hash_snoc [OF fresh] page_at_snoc split: option.splits)
    moreover have "known_pages w' = entries_by_hash (writer_entries w @ [e])"
      using kn entries_by_hash_snoc [OF fresh] by (simp add: w' e)
    moreover have "writer_staged w'" using st at lim(1) pos by (simp add: writer_staged_def w')
    ultimately show ?thesis using fits ok(1) unfolding index_tracks_def by (simp add: w')
  qed
qed

lemma index_tracks_append_pages:
  assumes "index_tracks w ps" "append_pages crc32 blake3 w rps = Inr w'" "list_all (\<lambda>(random, p). nonce_ok random) rps"
  shows "index_tracks w' (ps @ map snd rps)"
  using assms
proof (induction crc32 blake3 w rps arbitrary: ps rule: append_pages.induct)
  case (2 crc32 blake3 w random p rps)
  obtain w1 e where a: "append_page crc32 blake3 w random p = Inr (w1, e)" "append_pages crc32 blake3 w1 rps = Inr w'"
    using 2(3) by (auto simp: bind_result_eq_Inr)
  then show ?case using 2(1) [of w1 "ps @ [p]"] index_tracks_append [OF 2(2) a(1)] 2(4) by auto
qed simp

lemma writer_inv_append_new:
  assumes inv: "writer_inv crc32 blake3 w ps" and app: "append_page crc32 blake3 w random p = Inr (w', e)"
    and p: "page_ok p" and r: "nonce_ok random" and None: "known_pages w (plain_hash p) = None"
  shows "writer_inv crc32 blake3 w' (ps @ [p])"
proof -
  let ?enc = "writer_encryption w" and ?id = "writer_pack_id w" and ?es = "writer_entries w"
  let ?placed = "\<lambda>n. placed n (opt_page_size (writer_options w)) (?enc \<noteq> None)"
  have i: "writer_position w = length (staged_file w)" "length ?id = 16" "key_ok ?enc"
    and pl: "\<forall>x\<in>set ?es. ?placed (writer_position w) x"
    using inv unfolding writer_inv_def list_all_iff by blast+
  obtain at frame where pos: "writer_position w \<le> at" and frame: "encode_frame crc32 blake3 w random at p = Inr frame"
    and lim: "at + length frame \<le> u64_max" "plain_len p \<le> opt_page_size (writer_options w)"
    and e: "e = \<lparr>entry_hash = plain_hash p, frame_offset = at, frame_length = length frame, entry_logical = plain_len p,
          entry_encoded = plain_len p, entry_codec = CodecNone, entry_encrypted = (?enc \<noteq> None)\<rparr>"
    and w': "w' = w\<lparr>staged_file := staged_file w @ zeros (at - writer_position w) @ frame, writer_position := at + length frame,
             writer_entries := ?es @ [e], known_pages := (known_pages w)(plain_hash p \<mapsto> e)\<rparr>"
    using append_page_new [OF app None i(1)] by blast
  have "pack_page_size_ok (opt_page_size (writer_options w))" using inv unfolding writer_inv_def by blast
  then have u: "plain_len p \<le> u32_max" using lim(2) page_size_u32 order_trans by blast
  have dec: "decode_entry_frame crc32 blake3 frame e ?enc ?id = Inr \<lparr>frame_page = p, frame_codec = CodecNone\<rparr>"
    and flen: "length frame = frame_overhead (?enc \<noteq> None) + plain_len p"
    using encode_frame_spec [OF frame p u r i(3,2), of e] unfolding e by simp_all
  have fresh: "entries_by_hash ?es (entry_hash e) = None" using None inv by (simp add: writer_inv_def e)
  have new: "serves crc32 blake3 ?enc ?id (staged_file w') e p" using dec pos i by (simp add: w' serves_def e slice_def)
  have "serves_all crc32 blake3 ?enc ?id (staged_file w') ?es ps"
    using inv pl i(1) unfolding w' writer_inv_def
    by (simp add: serves_all_extend placed_def)
  then have "serves_all crc32 blake3 ?enc ?id (staged_file w') (?es @ [e]) (ps @ [p])"
    using new fresh by (rule serves_all_snoc)
  moreover have "?placed (at + length frame) e"
    using inv lim flen u p pos by (auto simp: placed_def e entry_ok_def writer_inv_def page_ok_def)
  moreover have "list_all (?placed (at + length frame)) ?es"
    using pl pos by (auto simp: list_all_iff intro: placed_mono)
  moreover have "\<forall>x\<in>set ?es. frame_offset x + frame_length x \<le> frame_offset e"
    using pl pos by (fastforce simp: e placed_def)
  moreover have "entry_hash e \<notin> entry_hash ` set ?es" using fresh by (simp add: entries_by_hash_None)
  moreover have "known_pages w' = entries_by_hash (?es @ [e])"
    using inv entries_by_hash_snoc [OF fresh] by (simp add: w' writer_inv_def e)
  ultimately show ?thesis
    using inv lim pos i unfolding writer_inv_def w' by (simp add: sorted_wrt_append)
qed

lemma writer_inv_append_stored:
  assumes "writer_inv crc32 blake3 w ps" "append_page crc32 blake3 w random p = Inr (w', e)" "nonce_ok random"
    and "known_pages w (plain_hash p) = None \<Longrightarrow> page_ok p"
  shows "writer_inv crc32 blake3 w' (ps @ [p])"
proof (cases "known_pages w (plain_hash p)")
  case None
  then show ?thesis using writer_inv_append_new assms by blast
next
  case (Some k)
  then have "w' = w" using assms(2) by (simp add: append_page_def split: if_splits)
  moreover have "entries_by_hash (writer_entries w) (plain_hash p) \<noteq> None" using Some assms(1) by (simp add: writer_inv_def)
  ultimately show ?thesis using assms(1) serves_all_known unfolding writer_inv_def by blast
qed

lemma writer_inv_append:
  assumes "writer_inv crc32 blake3 w ps" "append_page crc32 blake3 w random p = Inr (w', e)" "page_ok p" "nonce_ok random"
  shows "writer_inv crc32 blake3 w' (ps @ [p])"
  using writer_inv_append_stored assms by blast

lemma page_at_append:
  "page_at (ps @ qs) h = (case page_at ps h of None \<Rightarrow> page_at qs h | Some p \<Rightarrow> Some p)"
  unfolding page_at_def by (induction ps) auto

lemma writer_inv_append_pages:
  assumes "writer_inv crc32 blake3 w ps" "append_pages crc32 blake3 w rps = Inr w'" "list_all (\<lambda>(random, p). nonce_ok random) rps"
    and "\<And>h p. page_at (ps @ map snd rps) h = Some p \<Longrightarrow> page_ok p"
  shows "writer_inv crc32 blake3 w' (ps @ map snd rps)"
  using assms
proof (induction crc32 blake3 w rps arbitrary: ps rule: append_pages.induct)
  case (2 crc32 blake3 w random p rps)
  obtain w1 e where a: "append_page crc32 blake3 w random p = Inr (w1, e)" "append_pages crc32 blake3 w1 rps = Inr w'"
    using 2(3) by (auto simp: bind_result_eq_Inr)
  have "page_ok p" if "known_pages w (plain_hash p) = None"
  proof -
    have "page_at ps (plain_hash p) = None"
      using that 2(2) unfolding writer_inv_def serves_all_def by (metis option.rel_distinct(1) not_None_eq)
    then show ?thesis using 2(5) [of "plain_hash p" p] by (simp add: page_at_append) (simp add: page_at_def)
  qed
  then have "writer_inv crc32 blake3 w1 (ps @ [p])" using writer_inv_append_stored [OF 2(2) a(1)] 2(4) by simp
  then show ?case using 2(1) [of w1 "ps @ [p]"] a(2) 2(4,5) by simp
qed simp

lemma append_pages_keeps:
  "append_pages crc32 blake3 w rps = Inr w' \<Longrightarrow> writer_encryption w' = writer_encryption w"
  by (induction crc32 blake3 w rps rule: append_pages.induct)
    (auto simp: bind_result_eq_Inr dest: append_page_keeps)

section \<open>A finished pack opens and serves what was appended\<close>

lemma validate_physical_ok:
  assumes "list_all (placed idx page b) es" "sorted_wrt (\<lambda>a b. frame_offset a + frame_length a \<le> frame_offset b) es"
    "\<forall>e\<in>set es. previous \<le> frame_offset e" "idx \<le> u64_max"
  shows "validate_physical idx page previous es = Inr ()"
  using assms
  by (induction idx page previous es rule: validate_physical.induct) (auto simp: placed_def checked_add64_def ok_or_def)

lemma entry_ok_length: "entry_ok e \<Longrightarrow> 0 < frame_length e"
  by (simp add: entry_ok_def)

lemma sort_offsets:
  assumes "list_all (placed idx page b) es" "sorted_wrt (\<lambda>a b. frame_offset a + frame_length a \<le> frame_offset b) es"
    "mset es' = mset es"
  shows "sort_key frame_offset es' = es"
proof -
  have s: "sorted_wrt (<) (map frame_offset es)"
    using assms(1,2) by (induction es) (fastforce simp: placed_def dest!: entry_ok_length)+
  then have "inj_on frame_offset (set es)" "sorted (map frame_offset es)"
    by (simp_all add: strict_sorted_iff distinct_map)
  moreover have "set es' = set es" using assms(3) by (rule mset_eq_setD)
  ultimately show ?thesis using assms(3) by (intro sort_key_inj_key_eq) auto
qed

lemma sort_hashes:
  assumes "distinct (map entry_hash es)"
  shows "sorted_wrt (<) (map entry_hash (sort_key entry_hash es))"
proof -
  have "mset (map entry_hash (sort_key entry_hash es)) = mset (map entry_hash es)" by simp
  then have "distinct (map entry_hash (sort_key entry_hash es))" using assms mset_eq_imp_distinct_iff by blast
  then show ?thesis by (simp add: strict_sorted_iff)
qed

lemma encode_index_length: "length (encode_index es) = 64 * length es"
  using entry_table.length_table [of es] by (simp add: encode_index_def)

definition sealed :: "(bytes \<Rightarrow> 32 word) \<Rightarrow> (bytes \<Rightarrow> page_hash) \<Rightarrow> PackHeader \<Rightarrow> bytes \<Rightarrow> bytes \<Rightarrow> bytes" where
  "sealed crc32 blake3 h body idx =
     (let front = header_encode crc32 h @ body @ idx
      in front @ footer_encode crc32 \<lparr>index_hash = blake3 idx, footer_content_hash = blake3 front, pack_length = length front + FOOTER_LEN\<rparr>)"

lemma open_sealed_index:
  assumes h: "header_ok h" "index_offset h = 64 + length body" "index_length h = length idx" "entry_count h = length es"
    and idx: "idx = encode_index es" and u: "64 + length body + length idx + 128 \<le> u64_max"
  shows "open_inner crc32 blake3 (sealed crc32 blake3 h body idx) enc True =
    bind_result (decode_index idx (length es)) (\<lambda>entries.
    bind_result (validate_entries entries (index_offset h) (pack_page_size h)) (\<lambda>_.
      if list_ex (\<lambda>e. entry_encrypted e \<noteq> pack_encrypted h) entries then Inl IntegrityMismatch
      else Inr \<lparr>reader_file = sealed crc32 blake3 h body idx, file_length = 64 + length body + length idx + 128,
         object_hash = Some (blake3 (sealed crc32 blake3 h body idx)), reader_entries = entries,
         reader_encrypted = pack_encrypted h, reader_pack_id = header_pack_id h, reader_encryption = enc\<rparr>))"
proof -
  let ?f = "sealed crc32 blake3 h body idx" and ?n = "64 + length body + length idx"
  let ?front = "header_encode crc32 h @ body @ idx"
  let ?ft = "\<lparr>index_hash = blake3 idx, footer_content_hash = blake3 ?front, pack_length = ?n + 128\<rparr>"
  have hl: "length (header_encode crc32 h) = 64" using h(1) by (intro header_encode_length) (simp add: header_ok_def)
  have f: "?f = ?front @ footer_encode crc32 ?ft" using hl by (simp add: sealed_def Let_def FOOTER_LEN_def add.assoc)
  have len: "length ?f = ?n + 128" using hl by (simp add: f footer_encode_length)
  have s: "slice 0 64 ?f = header_encode crc32 h" "slice ?n 128 ?f = footer_encode crc32 ?ft"
    "slice (64 + length body) (length idx) ?f = idx" "take ?n ?f = ?front"
    unfolding f using hl by (simp_all add: slice_def footer_encode_length)
  have dec: "header_decode crc32 (slice 0 64 ?f) = Inr h" "footer_decode crc32 (slice ?n 128 ?f) = Inr ?ft"
    unfolding s using header_decode_encode [OF h(1)] footer_decode_encode [of ?ft crc32] u by (simp_all add: footer_ok_def)
  have pre: "hash_prefix blake3 ?f ?n = Inr (blake3 ?front)" "hash_prefix blake3 ?f (length ?f) = Inr (blake3 ?f)"
    using s len by (simp_all add: hash_prefix_def)
  define n F where n: "n = ?n" and F: "F = ?f"
  have "open_inner crc32 blake3 F enc True =
    bind_result (decode_index idx (length es)) (\<lambda>entries.
    bind_result (validate_entries entries (index_offset h) (pack_page_size h)) (\<lambda>_.
      if list_ex (\<lambda>e. entry_encrypted e \<noteq> pack_encrypted h) entries then Inl IntegrityMismatch
      else Inr \<lparr>reader_file = F, file_length = n + 128, object_hash = Some (blake3 F), reader_entries = entries,
         reader_encrypted = pack_encrypted h, reader_pack_id = header_pack_id h, reader_encryption = enc\<rparr>))"
  proof -
    have "64 \<le> n" "n + 128 \<le> u64_max" "64 \<le> index_offset h" "index_offset h + index_length h = n"
      using len u h(2,3) by (simp_all add: n F)
    moreover have "slice (index_offset h) (index_length h) F = idx" "header_decode crc32 (slice 0 64 F) = Inr h"
      "footer_decode crc32 (slice n 128 F) = Inr ?ft" "hash_prefix blake3 F n = Inr (blake3 ?front)"
      "hash_prefix blake3 F (n + 128) = Inr (blake3 F)" "pack_length ?ft = n + 128"
      using dec pre s(3) len h(2,3) unfolding n F by simp_all
    moreover have "length F = n + 128" using len by (simp add: n F)
    ultimately show ?thesis using h(4) unfolding open_inner_def Let_def pack_lens \<open>length F = n + 128\<close> by (simp add: checked_add64_def)
  qed
  then show ?thesis unfolding n F .
qed

lemma open_sealed:
  assumes h: "header_ok h" "index_offset h = 64 + length body" "index_length h = length idx" "entry_count h = length es"
    and idx: "idx = encode_index es" and u: "64 + length body + length idx + 128 \<le> u64_max"
    and es: "list_all entry_ok es" "sorted_wrt (<) (map entry_hash es)"
    and v: "validate_entries es (index_offset h) (pack_page_size h) = Inr ()" "\<forall>e\<in>set es. entry_encrypted e = pack_encrypted h"
  shows "open_inner crc32 blake3 (sealed crc32 blake3 h body idx) enc True =
    Inr \<lparr>reader_file = sealed crc32 blake3 h body idx, file_length = 64 + length body + length idx + 128,
         object_hash = Some (blake3 (sealed crc32 blake3 h body idx)), reader_entries = es,
         reader_encrypted = pack_encrypted h, reader_pack_id = header_pack_id h, reader_encryption = enc\<rparr>"
proof -
  have "decode_index idx (length es) = Inr es"
    using decode_index_iff [of es idx] es u by (simp add: idx encode_index_length sorted_wrt_map)
  moreover have "\<not> list_ex (\<lambda>e. entry_encrypted e \<noteq> pack_encrypted h) es" using v(2) by (simp add: list_ex_iff)
  ultimately show ?thesis using open_sealed_index [OF h idx u] v(1) by simp
qed

text \<open>An index with an entry of an impossible length is refused.\<close>

lemma entry_decode_invalid:
  assumes "entry_fits e" "\<not> entry_ok e"
  shows "entry_decode (entry_encode e) = Inl ManifestInvalid"
proof -
  have g: "entry_encode e ! 57 = of_bool (entry_encrypted e)" "entry_encode e ! 56 = 0" "slice 58 6 (entry_encode e) = zeros 6"
    "slice 0 32 (entry_encode e) = hash_bytes (entry_hash e)" "slice 32 8 (entry_encode e) = le_bytes 8 (frame_offset e)"
    "slice 40 8 (entry_encode e) = le_bytes 8 (frame_length e)" "slice 48 4 (entry_encode e) = le_bytes 4 (entry_logical e)"
    "slice 52 4 (entry_encode e) = le_bytes 4 (entry_encoded e)"
    using assms by (simp_all add: entry_encode_def Let_def pack_lens slice_simps entry_fits_def)
  show ?thesis unfolding entry_decode_def using entry_encode_length [of e] g assms frame_length_sat [of "entry_encoded e"]
    by (auto simp: field_reads pack_lens entry_ok_def entry_fits_def Let_def)
qed

lemma decode_index_invalid:
  assumes "list_all entry_fits es" "\<not> list_all entry_ok es" "length es * 64 \<le> u64_max"
  shows "decode_index (encode_index es) (length es) = Inl ManifestInvalid"
proof -
  have "decode_chunks 64 entry_decode (encode_index es) = Inl ManifestInvalid"
    using assms(1,2)
  proof (induction es)
    case (Cons e es)
    then show ?case
      using entry_decode_encode [of e] entry_decode_invalid [of e]
      by (subst decode_chunks.simps) (cases "entry_ok e"; auto simp: encode_index_def entry_encode_length)
  qed simp
  then show ?thesis
    using assms(3) by (simp add: decode_index_def checked_mul64_def pack_lens encode_index_length mult.commute)
qed

definition writer_header :: "PackWriter \<Rightarrow> PackHeader" where
  "writer_header w = \<lparr>pack_page_size = opt_page_size (writer_options w), index_offset = writer_position w,
     index_length = 64 * length (writer_entries w), entry_count = length (writer_entries w),
     pack_encrypted = (writer_encryption w \<noteq> None), header_pack_id = writer_pack_id w\<rparr>"

definition sealed_pack :: "(bytes \<Rightarrow> 32 word) \<Rightarrow> (bytes \<Rightarrow> page_hash) \<Rightarrow> PackWriter \<Rightarrow> bytes" where
  "sealed_pack crc32 blake3 w =
     sealed crc32 blake3 (writer_header w) (drop 64 (staged_file w)) (encode_index (sort_key entry_hash (writer_entries w)))"

lemma open_sealed_pack:
  assumes inv: "writer_inv crc32 blake3 w ps" and u: "writer_position w + 64 * length (writer_entries w) + 128 \<le> u64_max"
  shows "open_inner crc32 blake3 (sealed_pack crc32 blake3 w) enc True =
    Inr \<lparr>reader_file = sealed_pack crc32 blake3 w, file_length = writer_position w + 64 * length (writer_entries w) + 128,
         object_hash = Some (blake3 (sealed_pack crc32 blake3 w)), reader_entries = sort_key entry_hash (writer_entries w),
         reader_encrypted = (writer_encryption w \<noteq> None), reader_pack_id = writer_pack_id w, reader_encryption = enc\<rparr>"
proof -
  let ?es = "sort_key entry_hash (writer_entries w)"
  have i: "64 \<le> writer_position w" "writer_position w = length (staged_file w)"
    and pl: "list_all (placed (writer_position w) (opt_page_size (writer_options w)) (writer_encryption w \<noteq> None)) (writer_entries w)"
    and so: "sorted_wrt (\<lambda>a b. frame_offset a + frame_length a \<le> frame_offset b) (writer_entries w)"
    and ds: "distinct (map entry_hash (writer_entries w))" and pu: "writer_position w \<le> u64_max"
    using inv unfolding writer_inv_def pack_lens by blast+
  have h: "header_ok (writer_header w)" using inv u unfolding writer_inv_def writer_header_def header_ok_def by simp
  have ok: "\<forall>e\<in>set ?es. entry_ok e \<and> entry_encrypted e = (writer_encryption w \<noteq> None) \<and> PACK_HEADER_LEN \<le> frame_offset e"
    using pl by (auto simp: placed_def list_all_iff)
  have "sort_key frame_offset ?es = writer_entries w" by (rule sort_offsets [OF pl so]) simp
  then have "validate_entries ?es (writer_position w) (opt_page_size (writer_options w)) = Inr ()"
    unfolding validate_entries_def using ok pl so pu by (simp add: validate_physical_ok)
  then show ?thesis
    using open_sealed [OF h, of "drop 64 (staged_file w)" "encode_index ?es" ?es crc32 blake3 enc] sort_hashes [OF ds] ok i u
    by (simp add: sealed_pack_def writer_header_def encode_index_length list_all_iff)
qed

lemma sealed_pack_length:
  assumes "writer_inv crc32 blake3 w ps"
  shows "length (sealed_pack crc32 blake3 w) = writer_position w + 64 * length (writer_entries w) + 128"
proof -
  have "length (header_encode crc32 (writer_header w)) = 64" "64 \<le> writer_position w" "writer_position w = length (staged_file w)"
    using assms header_encode_length [of "writer_header w"] by (auto simp: writer_inv_def writer_header_def pack_lens)
  then show ?thesis by (simp add: sealed_pack_def sealed_def Let_def encode_index_length footer_encode_length)
qed

lemma copy_into_end: "copy_into xs (length xs) v = xs @ v"
  by (simp add: copy_into_def)

lemma finish_opens:
  assumes st: "writer_staged w" and u: "writer_position w + 64 * length (writer_entries w) + 128 \<le> u64_max"
    and ne: "writer_entries w \<noteq> []"
  shows "finish crc32 blake3 existing w =
    bind_result (open_inner crc32 blake3 (sealed_pack crc32 blake3 w) None True) (\<lambda>_.
    let h = blake3 (sealed_pack crc32 blake3 w);
         pack = (\<lambda>content. \<lparr>completed_name = pack_name h, completed_file = content, completed_hash = h,
           byte_length = writer_position w + 64 * length (writer_entries w) + 128,
           completed_entries = sort_key entry_hash (writer_entries w)\<rparr>)
     in case existing (pack_name h) of
          None \<Rightarrow> Inr (pack (sealed_pack crc32 blake3 w))
        | Some stored \<Rightarrow> bind_result (open_inner crc32 blake3 stored None True) (\<lambda>r.
            if object_hash r \<noteq> Some h then Inl IntegrityMismatch else Inr (pack stored)))"
proof -
  let ?ix = "encode_index (sort_key entry_hash (writer_entries w))" and ?h = "header_encode crc32 (writer_header w)"
  let ?front = "?h @ drop 64 (staged_file w) @ ?ix"
  let ?ft = "\<lparr>index_hash = blake3 ?ix, footer_content_hash = blake3 ?front, pack_length = length ?front + 128\<rparr>"
  have i: "64 \<le> writer_position w" "length (staged_file w) = writer_position w"
    using st by (simp_all add: writer_staged_def pack_lens)
  have hl: "length ?h = 64" using st by (intro header_encode_length) (simp add: writer_staged_def writer_header_def)
  have fl: "length ?front = writer_position w + 64 * length (writer_entries w)" using hl i by (simp add: encode_index_length)
  have c: "copy_into (staged_file w @ ?ix) 0 ?h = ?front" using hl i by (simp add: copy_into_def)
  have f: "?front @ footer_encode crc32 ?ft = sealed_pack crc32 blake3 w"
    by (simp add: sealed_pack_def sealed_def Let_def pack_lens)
  have sl: "length (sealed_pack crc32 blake3 w) = length ?front + 128"
    unfolding f [symmetric] by (simp add: footer_encode_length)
  define front where "front = ?front"
  define n where "n = length ?front"
  have hd: "\<lparr>pack_page_size = opt_page_size (writer_options w), index_offset = writer_position w,
     index_length = length ?ix, entry_count = length (sort_key entry_hash (writer_entries w)),
     pack_encrypted = (writer_encryption w \<noteq> None), header_pack_id = writer_pack_id w\<rparr> = writer_header w"
    by (simp add: writer_header_def encode_index_length)
  have n: "checked_add64 (writer_position w) (length ?ix) = Some n" "checked_add64 n 128 = Some (n + 128)"
    using u fl by (simp_all add: checked_add64_def encode_index_length n_def)
  have "length front = n" "copy_into (staged_file w @ ?ix) 0 ?h = front"
    "front @ footer_encode crc32 \<lparr>index_hash = blake3 ?ix, footer_content_hash = blake3 front, pack_length = n + 128\<rparr> =
       sealed_pack crc32 blake3 w" "length (sealed_pack crc32 blake3 w) = n + 128"
    using c f sl by (simp_all add: front_def n_def)
  moreover have fn: "writer_position w + 64 * length (writer_entries w) = n" using fl by (simp add: n_def)
  ultimately show ?thesis
    using ne copy_into_end [of front]
    unfolding finish_def Let_def hd pack_lens fn by (simp add: n hash_prefix_def footer_encode_length split: option.split)
qed

lemma finish_eq:
  assumes inv: "writer_inv crc32 blake3 w ps" and u: "writer_position w + 64 * length (writer_entries w) + 128 \<le> u64_max"
    and ne: "writer_entries w \<noteq> []"
  shows "finish crc32 blake3 existing w =
    (let h = blake3 (sealed_pack crc32 blake3 w);
         pack = (\<lambda>content. \<lparr>completed_name = pack_name h, completed_file = content, completed_hash = h,
           byte_length = writer_position w + 64 * length (writer_entries w) + 128,
           completed_entries = sort_key entry_hash (writer_entries w)\<rparr>)
     in case existing (pack_name h) of
          None \<Rightarrow> Inr (pack (sealed_pack crc32 blake3 w))
        | Some stored \<Rightarrow> bind_result (open_inner crc32 blake3 stored None True) (\<lambda>r.
            if object_hash r \<noteq> Some h then Inl IntegrityMismatch else Inr (pack stored)))"
  using finish_opens [OF writer_inv_staged [OF inv] u ne] open_sealed_pack [OF inv u, of None] by simp

lemma finish_refuses:
  assumes "index_tracks w ps" "\<not> list_all entry_ok (writer_entries w)"
    and u: "writer_position w + 64 * length (writer_entries w) + 128 \<le> u64_max"
  shows "finish crc32 blake3 existing w = Inl ManifestInvalid"
proof -
  have st: "writer_staged w" and fits: "list_all entry_fits (writer_entries w)" using assms(1) by (simp_all add: index_tracks_def)
  let ?es = "sort_key entry_hash (writer_entries w)"
  have "header_ok (writer_header w)" using st u unfolding writer_staged_def writer_header_def header_ok_def by simp
  moreover have "decode_index (encode_index ?es) (length ?es) = Inl ManifestInvalid"
    by (rule decode_index_invalid) (use fits assms(2) u in \<open>auto simp: list_all_iff\<close>)
  moreover have "64 \<le> length (staged_file w)" "writer_position w = length (staged_file w)"
    using st by (simp_all add: writer_staged_def pack_lens)
  ultimately have "open_inner crc32 blake3 (sealed_pack crc32 blake3 w) None True = Inl ManifestInvalid"
    using open_sealed_index [of "writer_header w" "drop 64 (staged_file w)" "encode_index ?es" ?es crc32 blake3 None] u
    by (simp add: sealed_pack_def writer_header_def encode_index_length)
  moreover have "writer_entries w \<noteq> []" using assms(2) by auto
  ultimately show ?thesis using finish_opens [OF st u] by simp
qed

lemma finish_limits:
  assumes "writer_entries w = [] \<or> u64_max < writer_position w + 64 * length (writer_entries w) + 128"
  shows "finish crc32 blake3 existing w = Inl InvalidArgument"
  using assms
  by (auto simp: finish_def Let_def checked_add64_def ok_or_def encode_index_length pack_lens)

lemma finish_seals:
  assumes "writer_inv crc32 blake3 w ps" "writer_position w + 64 * length (writer_entries w) + 128 \<le> u64_max"
    "writer_entries w \<noteq> []" "existing (pack_name (blake3 (sealed_pack crc32 blake3 w))) = None"
  shows "finish crc32 blake3 existing w =
    Inr \<lparr>completed_name = pack_name (blake3 (sealed_pack crc32 blake3 w)), completed_file = sealed_pack crc32 blake3 w,
         completed_hash = blake3 (sealed_pack crc32 blake3 w),
         byte_length = writer_position w + 64 * length (writer_entries w) + 128,
         completed_entries = sort_key entry_hash (writer_entries w)\<rparr>"
  using assms(4) finish_eq [OF assms(1-3)] by (simp add: Let_def)

lemma finish_Inr:
  assumes "finish crc32 blake3 existing w = Inr pack" "writer_inv crc32 blake3 w ps"
  shows "writer_entries w \<noteq> []" "writer_position w + 64 * length (writer_entries w) + 128 \<le> u64_max"
    "completed_name pack = pack_name (blake3 (sealed_pack crc32 blake3 w))"
    "completed_entries pack = sort_key entry_hash (writer_entries w)"
proof -
  show ne: "writer_entries w \<noteq> []" using assms(1) by (auto simp: finish_def)
  show u: "writer_position w + 64 * length (writer_entries w) + 128 \<le> u64_max"
    using assms(1) by (auto simp: finish_def Let_def bind_result_eq_Inr checked_add64_def encode_index_length pack_lens split: if_splits)
  show "completed_name pack = pack_name (blake3 (sealed_pack crc32 blake3 w))"
    "completed_entries pack = sort_key entry_hash (writer_entries w)"
    using assms(1) finish_eq [OF assms(2) u ne, of existing]
    by (auto simp: Let_def bind_result_eq_Inr split: option.splits if_splits)
qed

lemma read_sealed:
  assumes inv: "writer_inv crc32 blake3 w ps" and f: "reader_file r = sealed_pack crc32 blake3 w"
    and es: "reader_entries r = sort_key entry_hash (writer_entries w)"
    and k: "reader_encryption r = writer_encryption w" "reader_pack_id r = writer_pack_id w"
  shows "read_page crc32 blake3 r h = (case page_at ps h of None \<Rightarrow> Inl RemoteObjectMissing
           | Some p \<Rightarrow> Inr \<lparr>frame_page = p, frame_codec = CodecNone\<rparr>)"
proof -
  have ds: "distinct (map entry_hash (writer_entries w))" using inv by (simp add: writer_inv_def)
  have hl: "length (header_encode crc32 (writer_header w)) = 64"
    using inv by (intro header_encode_length) (simp add: writer_inv_def writer_header_def)
  have l: "pack_lookup r h = entries_by_hash (writer_entries w) h"
    unfolding pack_lookup_def es binary_search_by_key_find [OF sort_hashes [OF ds]] entries_by_hash_find
    using entries_by_hash_mset [of "writer_entries w" "sort_key entry_hash (writer_entries w)"] ds by simp
  have rel: "rel_option (serves crc32 blake3 (writer_encryption w) (writer_pack_id w) (staged_file w)) (pack_lookup r h) (page_at ps h)"
    using inv unfolding l writer_inv_def serves_all_def by blast
  show ?thesis
  proof (cases "pack_lookup r h")
    case None
    then show ?thesis using rel by (simp add: read_page_def ok_or_def)
  next
    case (Some e)
    then obtain p where p: "page_at ps h = Some p" "serves crc32 blake3 (writer_encryption w) (writer_pack_id w) (staged_file w) e p"
      using rel by (auto simp: option_rel_Some1)
    have e: "e \<in> set (writer_entries w)" "entry_hash e = h" using entries_by_hash_mem [of "writer_entries w" h e] Some l by auto
    then have pl: "64 \<le> frame_offset e" "frame_offset e + frame_length e \<le> length (staged_file w)"
      using inv by (auto simp: writer_inv_def list_all_iff placed_def pack_lens)
    have sl: "slice (frame_offset e) (frame_length e) (sealed_pack crc32 blake3 w) = slice (frame_offset e) (frame_length e) (staged_file w)"
      using pl hl by (simp add: sealed_pack_def sealed_def Let_def slice_def drop_take)
    have "frame_offset e + frame_length e \<le> length (sealed_pack crc32 blake3 w)"
      using pl hl by (simp add: sealed_pack_def sealed_def Let_def)
    then show ?thesis
      using p e(2) Some by (simp add: read_page_def ok_or_def f k sl serves_def)
  qed
qed

lemma index_tracks_create:
  assumes "create_inner opts enc (Some i) = Inr w" "length i = 16" "i \<noteq> zeros 16" "key_ok enc"
  shows "index_tracks w [] \<and> writer_encryption w = enc"
  using assms writer_inv_staged [OF writer_inv_create [OF assms]]
  by (auto simp: create_inner_def bind_result_eq_Inr ok_or_def index_tracks_def page_at_def entries_by_hash_def)

text \<open>C4: a pack gives back exactly what was put into it, or is refused as a whole.  Take a writer created
  with valid options, plain or encrypted, with a non-zero identity, and any sequence of appends that
  all succeeded.  With no page appended, or a file length beyond 64 bits, \<open>finish\<close> reports an invalid
  argument.  Otherwise, when the first page appended under some hash is empty or its bytes do not have
  its stated length, which only an encrypted writer accepts, the verification pass of \<open>finish\<close> rejects
  the file as an invalid manifest.  In every other case \<open>finish\<close> succeeds, the finished file opens with
  full verification under the content hash that names it, and reading a page hash returns the first
  page appended under that hash, or reports it missing when no such page was appended.\<close>

theorem pack_round_trip:
  assumes "create_inner opts enc (Some pack_id) = Inr w0" "length pack_id = 16" "pack_id \<noteq> zeros 16" "key_ok enc"
    and "append_pages crc32 blake3 w0 rps = Inr w" "list_all (\<lambda>(random, p). nonce_ok random) rps"
  shows "if rps = [] \<or> u64_max < length (staged_file w) + 64 * length (writer_entries w) + 128
    then finish crc32 blake3 (\<lambda>_. None) w = Inl InvalidArgument
    else if \<exists>h p. page_at (map snd rps) h = Some p \<and> \<not> page_ok p
    then enc \<noteq> None \<and> finish crc32 blake3 (\<lambda>_. None) w = Inl ManifestInvalid
    else \<exists>pack r. finish crc32 blake3 (\<lambda>_. None) w = Inr pack \<and>
      open_inner crc32 blake3 (completed_file pack) enc True = Inr r \<and> object_hash r = Some (completed_hash pack) \<and>
      byte_length pack = length (completed_file pack) \<and>
      (\<forall>h. read_page crc32 blake3 r h =
         (case page_at (map snd rps) h of None \<Rightarrow> Inl RemoteObjectMissing
          | Some p \<Rightarrow> Inr \<lparr>frame_page = p, frame_codec = CodecNone\<rparr>))"
    (is "if ?limit then _ else if ?bad then _ else ?served")
proof -
  have tr: "index_tracks w (map snd rps)" and e: "writer_encryption w = enc"
    using index_tracks_append_pages [OF _ assms(5,6), of "[]"] index_tracks_create [OF assms(1-4)] append_pages_keeps [OF assms(5)] by auto
  have pos: "writer_position w = length (staged_file w)" using tr by (simp add: index_tracks_def writer_staged_def)
  have rel: "rel_option (\<lambda>e p. (entry_ok e \<longleftrightarrow> page_ok p) \<and> (enc = None \<longrightarrow> page_ok p))
      (entries_by_hash (writer_entries w) h) (page_at (map snd rps) h)" for h
    using tr unfolding index_tracks_def e by blast
  have ne: "writer_entries w = [] \<longleftrightarrow> rps = []"
  proof (cases rps)
    case Nil
    then show ?thesis using assms(1,5) by (auto simp: create_inner_def bind_result_eq_Inr ok_or_def)
  next
    case (Cons rp rps')
    then show ?thesis using rel [of "plain_hash (snd rp)"] by (auto simp: page_at_def entries_by_hash_def)
  qed
  consider "?limit" | "\<not> ?limit" "?bad" | "\<not> ?limit" "\<not> ?bad" by blast
  then show ?thesis
  proof cases
    case 1
    then show ?thesis using finish_limits [of w] ne pos by auto
  next
    case 2
    then obtain h p where p: "page_at (map snd rps) h = Some p" "\<not> page_ok p" by blast
    then obtain en where en: "entries_by_hash (writer_entries w) h = Some en" "\<not> entry_ok en" "enc \<noteq> None"
      using rel [of h] by (auto simp: option_rel_Some2)
    then have "\<not> list_all entry_ok (writer_entries w)" by (auto simp: list_all_iff dest!: entries_by_hash_mem)
    then show ?thesis using finish_refuses [OF tr] 2 en(3) pos by auto
  next
    case 3
    have inv: "writer_inv crc32 blake3 w (map snd rps)"
      using writer_inv_append_pages [OF writer_inv_create [OF assms(1-4)] assms(5,6)] 3(2) by auto
    have u: "writer_position w + 64 * length (writer_entries w) + 128 \<le> u64_max" and w: "writer_entries w \<noteq> []"
      using 3(1) pos ne by auto
    have "?served"
      using finish_seals [OF inv u w, of "\<lambda>_. None"] open_sealed_pack [OF inv u, of enc] read_sealed [OF inv] e
        sealed_pack_length [OF inv] by simp
    then show ?thesis unfolding if_not_P [OF 3(1)] if_not_P [OF 3(2)] .
  qed
qed

definition sample_cipher :: cipher where
  "sample_cipher nonce aad p = Some (p @ zeros 16)"

definition sample_decipher :: cipher where
  "sample_decipher nonce aad c = Some (take (length c - 16) c)"

definition sample_key :: PackEncryption where
  "sample_key = \<lparr>enc_repository = 3, enc_encrypt = sample_cipher, enc_decrypt = sample_decipher\<rparr>"

definition sample_pages :: "(bytes option \<times> PlainPage) list" where
  "sample_pages =
     [(Some (zeros 24), \<lparr>plain_hash = 1, plain_len = 1, plain_bytes = [5]\<rparr>),
      (Some (zeros 24), \<lparr>plain_hash = 2, plain_len = 2, plain_bytes = [6, 7]\<rparr>),
      (Some (zeros 24), \<lparr>plain_hash = 1, plain_len = 1, plain_bytes = [5]\<rparr>)]"

definition sample_options :: PackWriterOptions where
  "sample_options = \<lparr>opt_page_size = 65536, target_size = 131072, align_frames_4k = True\<rparr>"

definition sample_hash :: "bytes \<Rightarrow> page_hash" where
  "sample_hash bs = of_nat (length bs)"

definition sample_crc :: "bytes \<Rightarrow> 32 word" where
  "sample_crc bs = 0"

lemma sample_facts:
  "key_ok (Some sample_key)" "list_all (\<lambda>(random, p). nonce_ok random) sample_pages"
  "length (replicate 16 (1 :: byte)) = 16" "replicate 16 (1 :: byte) \<noteq> zeros 16"
  by (simp_all add: key_ok_def sample_key_def aead_ok_def sample_cipher_def sample_decipher_def sample_pages_def nonce_ok_def
      NONCE_LENGTH_def zeros_def)

lemma sample_pages_ok: "page_at (map snd sample_pages) h = Some p \<Longrightarrow> page_ok p"
  by (auto simp: page_at_def sample_pages_def page_ok_def split: if_splits)

lemma sample_writer:
  obtains w0 w where "create_inner sample_options (Some sample_key) (Some (replicate 16 1)) = Inr w0"
    "append_pages sample_crc sample_hash w0 sample_pages = Inr w"
    "length (staged_file w) + 64 * length (writer_entries w) + 128 \<le> u64_max" "writer_encryption w = Some sample_key"
    "map entry_hash (writer_entries w) = [1, 2]" "map frame_length (writer_entries w) = [69, 70]"
    "map entry_encrypted (writer_entries w) = [True, True]"
proof -
  have "is_power_of_two 65536" unfolding is_power_of_two_iff by (rule exI [of _ 16]) simp
  then obtain w0 where w0: "create_inner sample_options (Some sample_key) (Some (replicate 16 1)) = Inr w0"
    and w0': "w0 = \<lparr>staged_file = zeros 64, writer_options = sample_options, writer_entries = [], known_pages = Map.empty,
      writer_position = 64, writer_encryption = Some sample_key, writer_pack_id = replicate 16 1\<rparr>"
    by (simp add: create_inner_def validate_options_def pack_page_size_ok_def ok_or_def pack_lens sample_options_def)
  have "\<exists>w. append_pages sample_crc sample_hash w0 sample_pages = Inr w \<and>
      length (staged_file w) + 64 * length (writer_entries w) + 128 \<le> u64_max \<and> writer_encryption w = Some sample_key \<and>
      map entry_hash (writer_entries w) = [1, 2] \<and> map frame_length (writer_entries w) = [69, 70] \<and>
      map entry_encrypted (writer_entries w) = [True, True]"
    by (simp add: w0' sample_pages_def append_page_def frame_position_def align_up_def checked_add64_def u64_max_def sample_options_def
        encode_frame_def sample_key_def encode_encrypted_frame_def key_seal_def sample_cipher_def u32_max_def Let_def
        write_zeros_eq sample_hash_def)
  then show thesis by (elim exE conjE) (rule that [OF w0])
qed

definition empty_page :: "bytes option \<times> PlainPage" where
  "empty_page = (Some (zeros 24), \<lparr>plain_hash = 0, plain_len = 0, plain_bytes = []\<rparr>)"

lemma sample_empty_append:
  assumes "create_inner sample_options (Some sample_key) (Some (replicate 16 1)) = Inr w0"
  obtains w where "append_pages sample_crc sample_hash w0 [empty_page] = Inr w"
    "length (staged_file w) + 64 * length (writer_entries w) + 128 \<le> u64_max"
proof -
  have w0: "w0 = \<lparr>staged_file = zeros 64, writer_options = sample_options, writer_entries = [], known_pages = Map.empty,
      writer_position = 64, writer_encryption = Some sample_key, writer_pack_id = replicate 16 1\<rparr>"
    using assms by (auto simp: create_inner_def bind_result_eq_Inr ok_or_def pack_lens)
  have "\<exists>w. append_pages sample_crc sample_hash w0 [empty_page] = Inr w \<and>
      length (staged_file w) + 64 * length (writer_entries w) + 128 \<le> u64_max"
    by (simp add: w0 empty_page_def append_page_def frame_position_def align_up_def checked_add64_def u64_max_def sample_options_def
        encode_frame_def sample_key_def encode_encrypted_frame_def key_seal_def sample_cipher_def u32_max_def Let_def
        write_zeros_eq sample_hash_def)
  then show thesis using that by blast
qed

theorem pack_round_trip_witness:
  "\<exists>w0 w w' pack r. create_inner sample_options (Some sample_key) (Some (replicate 16 1)) = Inr w0 \<and>
    append_pages sample_crc sample_hash w0 sample_pages = Inr w \<and> finish sample_crc sample_hash (\<lambda>_. None) w = Inr pack \<and>
    open_inner sample_crc sample_hash (completed_file pack) (Some sample_key) True = Inr r \<and>
    read_page sample_crc sample_hash r 2 =
      Inr \<lparr>frame_page = \<lparr>plain_hash = 2, plain_len = 2, plain_bytes = [6, 7]\<rparr>, frame_codec = CodecNone\<rparr> \<and>
    read_page sample_crc sample_hash r 9 = Inl RemoteObjectMissing \<and>
    append_pages sample_crc sample_hash w0 [empty_page] = Inr w' \<and>
    finish sample_crc sample_hash (\<lambda>_. None) w' = Inl ManifestInvalid"
proof -
  obtain w0 w where w0: "create_inner sample_options (Some sample_key) (Some (replicate 16 1)) = Inr w0"
    and w: "append_pages sample_crc sample_hash w0 sample_pages = Inr w"
    and u: "length (staged_file w) + 64 * length (writer_entries w) + 128 \<le> u64_max"
    by (rule sample_writer)
  obtain w' where w': "append_pages sample_crc sample_hash w0 [empty_page] = Inr w'"
    "length (staged_file w') + 64 * length (writer_entries w') + 128 \<le> u64_max"
    by (rule sample_empty_append [OF w0])
  have ne: "sample_pages \<noteq> []" by (simp add: sample_pages_def)
  obtain pack r where "finish sample_crc sample_hash (\<lambda>_. None) w = Inr pack"
    "open_inner sample_crc sample_hash (completed_file pack) (Some sample_key) True = Inr r"
    "\<forall>h. read_page sample_crc sample_hash r h = (case page_at (map snd sample_pages) h of None \<Rightarrow> Inl RemoteObjectMissing
        | Some p \<Rightarrow> Inr \<lparr>frame_page = p, frame_codec = CodecNone\<rparr>)"
    using pack_round_trip [OF w0 sample_facts(3,4,1) w sample_facts(2)] ne u sample_pages_ok by (auto split: if_splits)
  moreover have "finish sample_crc sample_hash (\<lambda>_. None) w' = Inl ManifestInvalid"
  proof -
    have "\<exists>h p. page_at (map snd [empty_page]) h = Some p \<and> \<not> page_ok p"
      by (rule exI [of _ 0]) (simp add: page_at_def empty_page_def page_ok_def)
    moreover have "list_all (\<lambda>(random, p). nonce_ok random) [empty_page]"
      by (simp add: empty_page_def nonce_ok_def NONCE_LENGTH_def)
    ultimately show ?thesis using pack_round_trip [OF w0 sample_facts(3,4,1) w'(1)] w'(2) by (auto split: if_splits)
  qed
  ultimately show ?thesis using w0 w w'(1) by (simp add: sample_pages_def page_at_def)
qed

end
