(* ===== verification/Range_Plan.thy ===== *)
theory Range_Plan
  imports Byte_Range Pack_File
begin

text \<open>Coalescing the frames of a pack into ranged reads: \<open>mirage-pack/src/range_plan.rs\<close>.  The plan is
  characterised as the greedy grouping of the frames in file order, and a frame cut out of the bytes
  of its planned range is the frame itself.\<close>

record PlannedRange =
  planned_range :: CheckedRange
  planned_pages :: "page_hash list"

definition plan_push :: "PlannedRange list \<Rightarrow> PackEntry \<Rightarrow> PlannedRange list result" where
  "plan_push rs e =
     bind_result (range_new (frame_offset e) (frame_length e)) (\<lambda>r.
       Inr (rs @ [\<lparr>planned_range = r, planned_pages = [entry_hash e]\<rparr>]))"

definition plan_step :: "u64 \<Rightarrow> u64 \<Rightarrow> u64 \<Rightarrow> PlannedRange list \<Rightarrow> PackEntry \<Rightarrow> PlannedRange list result" where
  "plan_step pack_len max_gap max_window rs e =
     bind_result (ok_or (checked_add64 (frame_offset e) (frame_length e)) ManifestInvalid) (\<lambda>frame_end.
       if frame_length e = 0 \<or> frame_end > pack_len \<or> frame_length e > max_window then Inl ManifestInvalid
       else if rs = [] then plan_push rs e
       else
         let prev = last rs; last_end = end_exclusive (planned_range prev)
         in if frame_offset e < last_end then Inl ManifestInvalid
            else
              let gap = frame_offset e - last_end; combined = frame_end - range_start (planned_range prev)
              in if gap \<le> max_gap \<and> combined \<le> max_window then
                   bind_result (range_new (range_start (planned_range prev)) combined) (\<lambda>r.
                     Inr (butlast rs @ [\<lparr>planned_range = r, planned_pages = planned_pages prev @ [entry_hash e]\<rparr>]))
                 else plan_push rs e)"

fun plan_loop :: "u64 \<Rightarrow> u64 \<Rightarrow> u64 \<Rightarrow> PlannedRange list \<Rightarrow> PackEntry list \<Rightarrow> PlannedRange list result" where
  "plan_loop pack_len max_gap max_window rs [] = Inr rs"
| "plan_loop pack_len max_gap max_window rs (e # es) =
     bind_result (plan_step pack_len max_gap max_window rs e) (\<lambda>rs'. plan_loop pack_len max_gap max_window rs' es)"

definition plan_ranges :: "PackEntry list \<Rightarrow> u64 \<Rightarrow> u64 \<Rightarrow> u64 \<Rightarrow> PlannedRange list result" where
  "plan_ranges entries pack_len max_gap max_window =
     (if max_window = 0 then Inl InvalidArgument
      else plan_loop pack_len max_gap max_window [] (sort_key frame_offset entries))"

section \<open>The greedy grouping\<close>

definition frame_end :: "PackEntry \<Rightarrow> nat" where
  "frame_end e = frame_offset e + frame_length e"

definition frame_fits :: "nat \<Rightarrow> nat \<Rightarrow> PackEntry \<Rightarrow> bool" where
  "frame_fits pack_len window e \<longleftrightarrow> 0 < frame_length e \<and> frame_length e \<le> window \<and> frame_end e \<le> pack_len"

definition frame_before :: "PackEntry \<Rightarrow> PackEntry \<Rightarrow> bool" where
  "frame_before a b \<longleftrightarrow> frame_end a \<le> frame_offset b"

definition group_range :: "PackEntry list \<Rightarrow> PlannedRange" where
  "group_range g = \<lparr>planned_range = \<lparr>range_start = frame_offset (hd g), range_len = frame_end (last g) - frame_offset (hd g)\<rparr>,
     planned_pages = map entry_hash g\<rparr>"

definition group_ok :: "nat \<Rightarrow> nat \<Rightarrow> PackEntry list \<Rightarrow> bool" where
  "group_ok max_gap window g \<longleftrightarrow> g \<noteq> [] \<and> adjacent (\<lambda>a b. frame_offset b - frame_end a \<le> max_gap) g \<and>
     frame_end (last g) - frame_offset (hd g) \<le> window"

definition may_join :: "nat \<Rightarrow> nat \<Rightarrow> PackEntry list \<Rightarrow> PackEntry \<Rightarrow> bool" where
  "may_join max_gap window g e \<longleftrightarrow>
     frame_offset e - frame_end (last g) \<le> max_gap \<and> frame_end e - frame_offset (hd g) \<le> window"

definition greedy :: "nat \<Rightarrow> nat \<Rightarrow> PackEntry list list \<Rightarrow> bool" where
  "greedy max_gap window gs \<longleftrightarrow>
     list_all (group_ok max_gap window) gs \<and> adjacent (\<lambda>g h. \<not> may_join max_gap window g (hd h)) gs"

definition frames_ok :: "nat \<Rightarrow> nat \<Rightarrow> PackEntry list \<Rightarrow> bool" where
  "frames_ok pack_len window es \<longleftrightarrow> list_all (frame_fits pack_len window) es \<and> sorted_wrt frame_before es"

lemma adjacent_snoc: "adjacent P (xs @ [x]) \<longleftrightarrow> adjacent P xs \<and> (xs = [] \<or> P (last xs) x)"
  by (induction P xs rule: adjacent.induct) (auto simp: neq_Nil_conv)

lemma frames_ok_snoc:
  assumes "frames_ok n window es"
  shows "frames_ok n window (es @ [e]) \<longleftrightarrow> frame_fits n window e \<and> (es = [] \<or> frame_end (last es) \<le> frame_offset e)"
proof (cases es rule: rev_cases)
  case Nil
  then show ?thesis by (simp add: frames_ok_def)
next
  case (snoc xs y)
  have "frame_end y \<le> frame_offset e \<Longrightarrow> x \<in> set xs \<Longrightarrow> frame_before x e" for x
    using assms by (force simp: snoc frames_ok_def sorted_wrt_append frame_before_def frame_end_def)
  then show ?thesis using assms by (auto simp: snoc frames_ok_def sorted_wrt_append frame_before_def)
qed

lemma frames_ok_span:
  assumes "frames_ok n w g" "g \<noteq> []"
  shows "frame_offset (hd g) \<le> frame_end (last g)" "frame_end (last g) \<le> n"
proof -
  obtain x xs where g: "g = x # xs" using assms(2) by (cases g) auto
  have "xs \<noteq> [] \<Longrightarrow> frame_before x (last xs)" using assms(1) by (simp add: g frames_ok_def)
  then show "frame_offset (hd g) \<le> frame_end (last g)" by (auto simp: g frame_before_def frame_end_def)
  have "frame_fits n w (last g)" using assms by (auto simp: frames_ok_def list_all_iff)
  then show "frame_end (last g) \<le> n" by (simp add: frame_fits_def)
qed

lemma greedy_join:
  assumes "greedy k w (gs @ [g])" "may_join k w g e"
  shows "greedy k w (gs @ [g @ [e]])"
  using assms by (auto simp: greedy_def group_ok_def may_join_def adjacent_snoc)

lemma greedy_push:
  assumes "greedy k w gs" "frame_length e \<le> w" "gs = [] \<or> \<not> may_join k w (last gs) e"
  shows "greedy k w (gs @ [[e]])"
  using assms by (auto simp: greedy_def group_ok_def adjacent_snoc frame_end_def)

definition plan_inv :: "nat \<Rightarrow> nat \<Rightarrow> nat \<Rightarrow> PackEntry list \<Rightarrow> PlannedRange list \<Rightarrow> bool" where
  "plan_inv pack_len max_gap window es rs \<longleftrightarrow>
     (\<exists>gs. concat gs = es \<and> rs = map group_range gs \<and> greedy max_gap window gs) \<and> frames_ok pack_len window es"

lemma plan_step_inv:
  assumes inv: "plan_inv n k w es rs" and n: "n \<le> u64_max"
  shows "(frames_ok n w (es @ [e]) \<longrightarrow> (\<exists>rs'. plan_step n k w rs e = Inr rs' \<and> plan_inv n k w (es @ [e]) rs')) \<and>
    (\<not> frames_ok n w (es @ [e]) \<longrightarrow> plan_step n k w rs e = Inl ManifestInvalid)"
proof -
  obtain gs where gs: "concat gs = es" "rs = map group_range gs" "greedy k w gs" and ok: "frames_ok n w es"
    using inv by (auto simp: plan_inv_def)
  note snoc = frames_ok_snoc [OF ok, of e]
  show ?thesis
  proof (cases gs rule: rev_cases)
    case Nil
    have "greedy k w [[e]]" if "frame_fits n w e"
      using that greedy_push [of k w "[]" e] by (simp add: greedy_def frame_fits_def)
    then show ?thesis
      using Nil gs n snoc
      by (auto simp: plan_step_def plan_push_def checked_add64_def frame_fits_def frame_end_def range_new_def plan_inv_def
          group_range_def intro!: exI [of _ "[[e]]"])
  next
    case g: (snoc hs g)
    have ne: "g \<noteq> []" using gs(3) by (simp add: g greedy_def group_ok_def)
    have le: "last es = last g" "es \<noteq> []" using gs(1) ne by (auto simp: g)
    have "frames_ok n w g" using ok gs(1) by (auto simp: g frames_ok_def sorted_wrt_append)
    note span = frames_ok_span [OF this ne]
    have le_end: "end_exclusive (planned_range (last rs)) = frame_end (last g)" "range_start (planned_range (last rs)) = frame_offset (hd g)"
      "planned_pages (last rs) = map entry_hash g" "butlast rs = map group_range hs" "rs \<noteq> []"
      using span n by (simp_all add: gs(2) g end_exclusive_def group_range_def checked_add64_def)
    show ?thesis
    proof (cases "frames_ok n w (es @ [e])")
      case False
      then show ?thesis using snoc n le
        by (auto simp: plan_step_def checked_add64_def frame_fits_def frame_end_def le_end [unfolded frame_end_def] Let_def)
    next
      case True
      then have f: "frame_fits n w e" "frame_end (last g) \<le> frame_offset e" using snoc le by simp_all
      define gs' where "gs' = (if may_join k w g e then hs @ [g @ [e]] else gs @ [[e]])"
      have step: "plan_step n k w rs e = Inr (map group_range gs')"
        using f n span ne le_end gs(2)
        by (auto simp: plan_step_def plan_push_def checked_add64_def frame_fits_def frame_end_def [of e] Let_def range_new_def
            may_join_def group_range_def gs'_def)
      have "greedy k w gs'"
        using gs(3) greedy_join [of k w hs g e] greedy_push [of k w gs e] f(1) by (auto simp: g frame_fits_def gs'_def)
      moreover have "concat gs' = es @ [e]" using gs(1) by (simp add: g gs'_def)
      ultimately show ?thesis using step True unfolding plan_inv_def by blast
    qed
  qed
qed

lemma frames_ok_prefix: "frames_ok n w (xs @ ys) \<Longrightarrow> frames_ok n w xs"
  by (simp add: frames_ok_def sorted_wrt_append)

lemma plan_loop_inv:
  assumes "plan_inv n k w es rs" "n \<le> u64_max"
  shows "(frames_ok n w (es @ fs) \<longrightarrow> (\<exists>rs'. plan_loop n k w rs fs = Inr rs' \<and> plan_inv n k w (es @ fs) rs')) \<and>
    (\<not> frames_ok n w (es @ fs) \<longrightarrow> plan_loop n k w rs fs = Inl ManifestInvalid)"
  using assms(1)
proof (induction fs arbitrary: es rs)
  case Nil
  then show ?case by (simp add: plan_inv_def)
next
  case (Cons e fs)
  show ?case
  proof (cases "frames_ok n w (es @ [e])")
    case True
    then obtain rs' where "plan_step n k w rs e = Inr rs'" "plan_inv n k w (es @ [e]) rs'"
      using plan_step_inv [OF Cons.prems assms(2), of e] by blast
    then show ?thesis using Cons.IH [of "es @ [e]" rs'] by simp
  next
    case False
    then have "\<not> frames_ok n w (es @ e # fs)" using frames_ok_prefix [of n w "es @ [e]" fs] by auto
    then show ?thesis using plan_step_inv [OF Cons.prems assms(2), of e] False by simp
  qed
qed

lemma plan_ranges_cases:
  assumes "n \<le> u64_max" "w \<noteq> 0"
  shows "(frames_ok n w (sort_key frame_offset es) \<longrightarrow>
      (\<exists>rs. plan_ranges es n k w = Inr rs \<and> plan_inv n k w (sort_key frame_offset es) rs)) \<and>
    (\<not> frames_ok n w (sort_key frame_offset es) \<longrightarrow> plan_ranges es n k w = Inl ManifestInvalid)"
proof -
  have "plan_inv n k w [] []" by (auto simp: plan_inv_def greedy_def frames_ok_def)
  then show ?thesis using plan_loop_inv [of n k w "[]" "[]" "sort_key frame_offset es"] assms by (simp add: plan_ranges_def)
qed

text \<open>C19: the read plan is the greedy one.  For a positive window, planning succeeds exactly when, in file
  order, every frame is non-empty, inside the pack, no longer than the window, and begins no earlier
  than the previous one ends; any other input is reported as an invalid manifest.  On success the
  ranges are those of a partition of the frames in file order into consecutive groups: a group spans
  at most the window, its gaps are at most the permitted gap, and the first frame of a group could not
  have joined the previous group.\<close>

theorem plan_ranges_greedy:
  assumes "pack_len \<le> u64_max" "max_window \<noteq> 0"
  shows "case plan_ranges entries pack_len max_gap max_window of
      Inr rs \<Rightarrow> frames_ok pack_len max_window (sort_key frame_offset entries) \<and>
        (\<exists>gs. concat gs = sort_key frame_offset entries \<and> greedy max_gap max_window gs \<and> rs = map group_range gs)
    | Inl k \<Rightarrow> k = ManifestInvalid \<and> \<not> frames_ok pack_len max_window (sort_key frame_offset entries)"
  using plan_ranges_cases [OF assms, of entries max_gap] by (auto simp: plan_inv_def split: sum.splits)

definition sample_frame :: "page_hash \<Rightarrow> nat \<Rightarrow> PackEntry" where
  "sample_frame h off = \<lparr>entry_hash = h, frame_offset = off, frame_length = 100, entry_logical = 36, entry_encoded = 36,
     entry_codec = CodecNone, entry_encrypted = False\<rparr>"

definition sample_frames :: "PackEntry list" where
  "sample_frames = [sample_frame 3 400, sample_frame 1 64, sample_frame 2 170]"

theorem plan_ranges_greedy_witness:
  "plan_ranges sample_frames 1000 10 500 =
      Inr [\<lparr>planned_range = \<lparr>range_start = 64, range_len = 206\<rparr>, planned_pages = [1, 2]\<rparr>,
           \<lparr>planned_range = \<lparr>range_start = 400, range_len = 100\<rparr>, planned_pages = [3]\<rparr>] \<and>
   frames_ok 1000 500 (sort_key frame_offset sample_frames)"
proof -
  have "plan_ranges sample_frames 1000 10 500 =
      Inr [\<lparr>planned_range = \<lparr>range_start = 64, range_len = 206\<rparr>, planned_pages = [1, 2]\<rparr>,
           \<lparr>planned_range = \<lparr>range_start = 400, range_len = 100\<rparr>, planned_pages = [3]\<rparr>]"
    by (simp add: plan_ranges_def plan_step_def plan_push_def range_new_def checked_add64_def u64_max_def Let_def end_exclusive_def
        sample_frames_def sample_frame_def)
  then show ?thesis
    using plan_ranges_greedy [of 1000 500 sample_frames 10] by (simp add: u64_max_def del: sort_key_simps)
qed

section \<open>Ranged reads serve the same pages\<close>

lemma validate_physical_frames:
  "validate_physical idx page previous es = Inr () \<Longrightarrow>
   sorted_wrt frame_before es \<and> (\<forall>e\<in>set es. previous \<le> frame_offset e \<and> frame_end e \<le> idx)"
proof (induction idx page previous es rule: validate_physical.induct)
  case (2 idx page previous e es)
  then have "previous \<le> frame_offset e" "frame_end e \<le> idx" "sorted_wrt frame_before es"
    "\<forall>x\<in>set es. frame_end e \<le> frame_offset x \<and> frame_end x \<le> idx"
    by (auto simp: bind_result_eq_Inr checked_add64_def frame_end_def split: if_splits)
  moreover have "frame_offset e \<le> frame_end e" by (simp add: frame_end_def)
  ultimately show ?case by (fastforce simp: frame_before_def [of e])
qed simp

lemma decode_index_entries:
  assumes "decode_index bs n = Inr es"
  shows "list_all entry_ok es" "sorted_wrt (<) (map entry_hash es)"
  using assms entry_table.table_encode_decode [of bs es n]
  by (auto simp: decode_index_def checked_mul64_def pack_lens bind_result_eq_Inr adjacent_sorted sorted_wrt_map split: if_splits)

lemma open_inner_entries:
  assumes "open_inner crc32 blake3 bs enc v = Inr r"
  shows "reader_file r = bs" "reader_encryption r = enc" "sorted_wrt (<) (map entry_hash (reader_entries r))"
    "list_all entry_ok (reader_entries r)" "sorted_wrt frame_before (sort_key frame_offset (reader_entries r))"
    "\<forall>e\<in>set (reader_entries r). frame_end e \<le> length bs"
proof -
  have "\<exists>h. header_decode crc32 (slice 0 PACK_HEADER_LEN bs) = Inr h \<and> index_offset h \<le> length bs \<and>
      decode_index (slice (index_offset h) (index_length h) bs) (entry_count h) = Inr (reader_entries r) \<and>
      validate_entries (reader_entries r) (index_offset h) (pack_page_size h) = Inr () \<and> reader_file r = bs \<and> reader_encryption r = enc"
    using assms by (auto simp: open_inner_def Let_def bind_result_eq_Inr checked_add64_def split: if_splits)
  then obtain ix n idx page where d: "decode_index ix n = Inr (reader_entries r)" and le: "idx \<le> length bs"
    and p: "validate_physical idx page PACK_HEADER_LEN (sort_key frame_offset (reader_entries r)) = Inr ()"
    and f: "reader_file r = bs" "reader_encryption r = enc"
    unfolding validate_entries_def by blast
  show "reader_file r = bs" "reader_encryption r = enc" by (rule f)+
  show "sorted_wrt (<) (map entry_hash (reader_entries r))" "list_all entry_ok (reader_entries r)"
    using decode_index_entries [OF d] by auto
  show "sorted_wrt frame_before (sort_key frame_offset (reader_entries r))" "\<forall>e\<in>set (reader_entries r). frame_end e \<le> length bs"
    using validate_physical_frames [OF p] le by force+
qed

lemma group_contains:
  assumes "frames_ok n w (concat gs)" "greedy k w gs" "e \<in> set (concat gs)"
  shows "\<exists>g\<in>set gs. e \<in> set g \<and> frame_offset (hd g) \<le> frame_offset e \<and> frame_end e \<le> frame_end (last g) \<and> frame_end (last g) \<le> n"
proof -
  obtain g where g: "g \<in> set gs" "e \<in> set g" using assms(3) by auto
  have ok: "frames_ok n w g"
    using assms(1) split_list [OF g(1)] by (auto simp: frames_ok_def sorted_wrt_append)
  obtain xs ys where s: "g = xs @ e # ys" using split_list [OF g(2)] by blast
  have "frame_offset (hd g) \<le> frame_offset e"
    using ok by (cases xs) (auto simp: s frames_ok_def sorted_wrt_append frame_before_def frame_end_def)
  moreover have "frame_end e \<le> frame_end (last g)"
    using ok by (cases ys rule: rev_cases) (auto simp: s frames_ok_def sorted_wrt_append frame_before_def frame_end_def)
  moreover have "frame_end (last g) \<le> n" using frames_ok_span(2) [OF ok] g(2) by fastforce
  ultimately show ?thesis using g by blast
qed

lemma range_frame_exact:
  assumes "s \<le> frame_offset e" "frame_end e \<le> s + len" "s + len \<le> length bs" "length bs \<le> u64_max"
  shows "range_frame s (slice s len bs) e = Inr (slice (frame_offset e) (frame_length e) bs)"
  using assms by (simp add: range_frame_def checked_sub64_def checked_add64_def frame_end_def slice_slice)

lemma read_page_entry:
  assumes "sorted_wrt (<) (map entry_hash (reader_entries r))" "e \<in> set (reader_entries r)" "frame_end e \<le> length (reader_file r)"
  shows "read_page crc32 blake3 r (entry_hash e) =
    bind_result (decode_entry_frame crc32 blake3 (slice (frame_offset e) (frame_length e) (reader_file r)) e (reader_encryption r) (reader_pack_id r))
      (\<lambda>d. if plain_hash (frame_page d) \<noteq> entry_hash e then Inl IntegrityMismatch else Inr d)"
  using binary_search_by_key_mem [OF assms(1,2)] assms(3) by (auto simp: read_page_def pack_lookup_def frame_end_def)

lemma encrypted_decode_entry:
  assumes "entry_encrypted e"
  shows "decode_entry_frame crc32 blake3 f e (Some key) pid = Inr d \<Longrightarrow>
      plain_hash (frame_page d) = entry_hash e \<and> plain_len (frame_page d) = entry_logical e \<and>
      length (plain_bytes (frame_page d)) = entry_logical e \<and> blake3 (plain_bytes (frame_page d)) = entry_hash e"
    and "encrypted_frame_pack_id f \<noteq> Inr pid \<Longrightarrow>
      decode_entry_frame crc32 blake3 f e (Some key) pid = Inl IntegrityMismatch"
    and "encrypted_frame_pack_id f = Inl k \<Longrightarrow> k = IntegrityMismatch"
  using assms
  by (auto simp: decode_entry_frame_def decode_encrypted_frame_def encrypted_frame_pack_id_def bind_result_eq_Inr
      split: if_splits)

lemma encrypted_ranged_read:
  assumes e: "entry_encrypted e" and rf: "range_frame s part e = Inr f"
    and rd: "read = bind_result (decode_entry_frame crc32 blake3 f e (Some key) rid)
          (\<lambda>d. if plain_hash (frame_page d) \<noteq> entry_hash e then Inl IntegrityMismatch else Inr d)"
  shows "case encrypted_frame_pack_id f of
       Inr pid \<Rightarrow> if pid = rid
         then decode_page_from_range_encrypted crc32 blake3 s part e key = read
         else read = Inl IntegrityMismatch \<and>
           (\<forall>d. decode_page_from_range_encrypted crc32 blake3 s part e key = Inr d \<longrightarrow>
              plain_hash (frame_page d) = entry_hash e \<and> plain_len (frame_page d) = entry_logical e \<and>
              length (plain_bytes (frame_page d)) = entry_logical e \<and> blake3 (plain_bytes (frame_page d)) = entry_hash e)
     | Inl k \<Rightarrow> k = IntegrityMismatch \<and> read = Inl k \<and>
         decode_page_from_range_encrypted crc32 blake3 s part e key = Inl k"
proof (cases "encrypted_frame_pack_id f")
  case (Inl kd)
  then show ?thesis
    using encrypted_decode_entry(2,3) [OF e, of f] by (simp add: rd decode_page_from_range_encrypted_def rf)
next
  case (Inr pid)
  have "decode_entry_frame crc32 blake3 f e (Some key) pid = Inr d"
    if "decode_page_from_range_encrypted crc32 blake3 s part e key = Inr d" for d
    using that Inr rf by (auto simp: decode_page_from_range_encrypted_def bind_result_eq_Inr split: if_splits)
  note dec = this [THEN encrypted_decode_entry(1) [OF e]]
  show ?thesis
  proof (cases "pid = rid")
    case True
    then show ?thesis using Inr by (simp add: rd decode_page_from_range_encrypted_def rf)
  next
    case False
    then have "read = Inl IntegrityMismatch"
      using Inr encrypted_decode_entry(2) [OF e, of f rid] by (simp add: rd)
    then show ?thesis using Inr False dec by simp
  qed
qed

text \<open>C17: fetching a pack by planned ranges and reading it frame by frame agree.  For every pack that
  opens, and a positive window no frame exceeds, planning succeeds, and every entry lies in a planned
  range that lists its page.  Cutting a plain entry out of the bytes of that range gives the result of
  \<open>read_page\<close>, error or page.  An encrypted entry decoded under the key of the reader gives the result
  of \<open>read_page\<close> too, error or page, unless its frame carries the identity of another pack: the ranged
  decoder takes the identity from the frame, so there \<open>read_page\<close> reports an integrity mismatch while
  the ranged decoder may return a page, which then has the hash and the length of the entry.\<close>

theorem planned_reads_agree:
  assumes op: "open_inner crc32 blake3 bs enc v = Inr r" and u: "length bs \<le> u64_max" "w \<noteq> 0"
    and fit: "\<forall>e\<in>set (reader_entries r). frame_length e \<le> w" and e: "e \<in> set (reader_entries r)"
  shows "\<exists>rs. plan_ranges (reader_entries r) (length bs) k w = Inr rs \<and>
    (\<exists>pr\<in>set rs. entry_hash e \<in> set (planned_pages pr) \<and>
      (let s = range_start (planned_range pr); part = slice s (range_len (planned_range pr)) bs in
        (\<not> entry_encrypted e \<longrightarrow> decode_page_from_range crc32 blake3 s part e = read_page crc32 blake3 r (entry_hash e)) \<and>
        (\<forall>key. enc = Some key \<and> entry_encrypted e \<longrightarrow>
          (case encrypted_frame_pack_id (slice (frame_offset e) (frame_length e) bs) of
             Inr pid \<Rightarrow> if pid = reader_pack_id r
               then decode_page_from_range_encrypted crc32 blake3 s part e key = read_page crc32 blake3 r (entry_hash e)
               else read_page crc32 blake3 r (entry_hash e) = Inl IntegrityMismatch \<and>
                 (\<forall>d. decode_page_from_range_encrypted crc32 blake3 s part e key = Inr d \<longrightarrow>
                    plain_hash (frame_page d) = entry_hash e \<and> plain_len (frame_page d) = entry_logical e \<and>
                    length (plain_bytes (frame_page d)) = entry_logical e \<and> blake3 (plain_bytes (frame_page d)) = entry_hash e)
           | Inl kd \<Rightarrow> kd = IntegrityMismatch \<and> read_page crc32 blake3 r (entry_hash e) = Inl kd \<and>
               decode_page_from_range_encrypted crc32 blake3 s part e key = Inl kd))))"
    (is "\<exists>rs. _ \<and> (\<exists>pr\<in>set rs. _ \<and> (let s = _ pr; part = _ pr s in _ s part \<and> (\<forall>key. _ key \<longrightarrow> ?enc s part key)))")
proof -
  note o = open_inner_entries [OF op]
  have "frames_ok (length bs) w (sort_key frame_offset (reader_entries r))"
    using o(4,5,6) fit by (auto simp: frames_ok_def list_all_iff frame_fits_def entry_ok_length)
  then obtain gs where pl: "plan_ranges (reader_entries r) (length bs) k w = Inr (map group_range gs)"
    and gs: "concat gs = sort_key frame_offset (reader_entries r)" "greedy k w gs" "frames_ok (length bs) w (concat gs)"
    using plan_ranges_cases [OF u, of "reader_entries r" k] by (auto simp: plan_inv_def)
  obtain g where g: "g \<in> set gs" "e \<in> set g" "frame_offset (hd g) \<le> frame_offset e" "frame_end e \<le> frame_end (last g)"
    "frame_end (last g) \<le> length bs"
    using group_contains [OF gs(3,2), of e] e gs(1) by auto
  let ?s = "frame_offset (hd g)" and ?l = "frame_end (last g) - frame_offset (hd g)"
  let ?f = "slice (frame_offset e) (frame_length e) bs"
  have le: "?s + ?l = frame_end (last g)" using g(3,4) by (simp add: frame_end_def)
  have rf: "range_frame ?s (slice ?s ?l bs) e = Inr ?f" by (rule range_frame_exact) (use g le u in simp_all)
  have "frame_end e \<le> length (reader_file r)" using o(1,6) e by simp
  note rp = read_page_entry [OF o(3) e this, of crc32 blake3]
  have gr: "range_start (planned_range (group_range g)) = ?s" "range_len (planned_range (group_range g)) = ?l"
    "entry_hash e \<in> set (planned_pages (group_range g))"
    using g(2) by (simp_all add: group_range_def)
  show ?thesis
  proof (intro exI conjI bexI [of _ "group_range g"])
    show "plan_ranges (reader_entries r) (length bs) k w = Inr (map group_range gs)" by (rule pl)
    show "entry_hash e \<in> set (planned_pages (group_range g))" by (rule gr)
    show "group_range g \<in> set (map group_range gs)" using g(1) by simp
    show "let s = range_start (planned_range (group_range g)); part = slice s (range_len (planned_range (group_range g))) bs in
        (\<not> entry_encrypted e \<longrightarrow> decode_page_from_range crc32 blake3 s part e = read_page crc32 blake3 r (entry_hash e)) \<and>
        (\<forall>key. enc = Some key \<and> entry_encrypted e \<longrightarrow> ?enc s part key)"
      unfolding Let_def gr
    proof (intro conjI allI impI)
      show "decode_page_from_range crc32 blake3 ?s (slice ?s ?l bs) e = read_page crc32 blake3 r (entry_hash e)"
        if "\<not> entry_encrypted e"
        using rf that o(1) unfolding rp by (simp add: decode_page_from_range_def decode_entry_frame_def)
      show "?enc ?s (slice ?s ?l bs) key" if "enc = Some key \<and> entry_encrypted e" for key
        by (rule encrypted_ranged_read [OF _ rf]) (use rp that o(1,2) in simp_all)
    qed
  qed
qed

theorem planned_reads_agree_witness:
  "\<exists>bs r rs pr. open_inner sample_crc sample_hash bs (Some sample_key) True = Inr r \<and>
    plan_ranges (reader_entries r) (length bs) 65536 65536 = Inr rs \<and> pr \<in> set rs \<and> 2 \<in> set (planned_pages pr) \<and>
    (\<exists>e\<in>set (reader_entries r). entry_hash e = 2 \<and>
      decode_page_from_range_encrypted sample_crc sample_hash (range_start (planned_range pr))
        (slice (range_start (planned_range pr)) (range_len (planned_range pr)) bs) e sample_key =
      Inr \<lparr>frame_page = \<lparr>plain_hash = 2, plain_len = 2, plain_bytes = [6, 7]\<rparr>, frame_codec = CodecNone\<rparr>)"
proof -
  obtain w0 w where w0: "create_inner sample_options (Some sample_key) (Some (replicate 16 1)) = Inr w0"
    and w: "append_pages sample_crc sample_hash w0 sample_pages = Inr w"
    and u: "length (staged_file w) + 64 * length (writer_entries w) + 128 \<le> u64_max" and k: "writer_encryption w = Some sample_key"
    and es: "map entry_hash (writer_entries w) = [1, 2]" "map frame_length (writer_entries w) = [69, 70]"
      "map entry_encrypted (writer_entries w) = [True, True]"
    by (rule sample_writer)
  have inv: "writer_inv sample_crc sample_hash w (map snd sample_pages)"
    using writer_inv_append_pages [OF writer_inv_create [OF w0 sample_facts(3,4,1)] w sample_facts(2)] sample_pages_ok by simp
  then have p: "writer_position w = length (staged_file w)" unfolding writer_inv_def by blast
  let ?bs = "sealed_pack sample_crc sample_hash w"
  obtain r where r: "open_inner sample_crc sample_hash ?bs (Some sample_key) True = Inr r" "file_length r = length ?bs"
      "reader_entries r = sort_key entry_hash (writer_entries w)" "reader_file r = ?bs" "file_length r \<le> u64_max"
      "reader_encryption r = Some sample_key" "reader_pack_id r = writer_pack_id w"
    using open_sealed_pack [OF inv, of "Some sample_key"] u p sealed_pack_length [OF inv] by auto
  obtain a e where ae: "writer_entries w = [a, e]" "entry_hash a = 1" "entry_hash e = 2" "frame_length a = 69" "frame_length e = 70"
    "entry_encrypted e" using es by auto
  have e: "e \<in> set (reader_entries r)" "\<forall>x\<in>set (reader_entries r). frame_length x \<le> 65536" using ae r(3) by auto
  have "read_page sample_crc sample_hash r (entry_hash e) =
      Inr \<lparr>frame_page = \<lparr>plain_hash = 2, plain_len = 2, plain_bytes = [6, 7]\<rparr>, frame_codec = CodecNone\<rparr>"
    using read_sealed [OF inv r(4,3), of 2] r(6,7) k ae(3) by (simp add: page_at_def sample_pages_def)
  moreover have "\<exists>rs. plan_ranges (reader_entries r) (length ?bs) 65536 65536 = Inr rs \<and>
     (\<exists>pr\<in>set rs. entry_hash e \<in> set (planned_pages pr) \<and>
       (\<forall>d. read_page sample_crc sample_hash r (entry_hash e) = Inr d \<longrightarrow>
          decode_page_from_range_encrypted sample_crc sample_hash (range_start (planned_range pr))
            (slice (range_start (planned_range pr)) (range_len (planned_range pr)) ?bs) e sample_key = Inr d))"
    using planned_reads_agree [OF r(1) _ _ e(2,1), of 65536] r(2,5) ae(6)
    by (cases "encrypted_frame_pack_id (slice (frame_offset e) (frame_length e) ?bs)")
      (fastforce simp: Let_def split: if_splits)+
  ultimately show ?thesis using r(1) e(1) ae(3) by fastforce
qed

end
