(* ===== verification/Name_Policy.thy ===== *)
theory Name_Policy
  imports Byte_Codec Sorted_Search "HOL-Library.List_Lexorder"
begin

text \<open>File names: the naming policy of \<open>mirage-types/src/inode.rs\<close>, its wrapper in \<open>mirage-manifest/src/path.rs\<close> and
  the case-insensitive order of \<open>mirage-index/src/name.rs\<close>.  A \<open>str\<close> is the list of its UTF-8 bytes.  The
  Unicode upper-case table is the parameter \<open>upper\<close>, from code points to code points; the comparison of
  names that are not ASCII is the parameter \<open>wide\<close>, which stands for the operating system's
  \<open>CompareStringOrdinal\<close> on Windows and for \<open>fallback_compare\<close> elsewhere.\<close>

section \<open>UTF-8\<close>

definition utf8_cont :: "byte \<Rightarrow> bool" where
  "utf8_cont b \<longleftrightarrow> 0x80 \<le> unat b \<and> unat b < 0xC0"

fun utf8_chars :: "bytes \<Rightarrow> nat list option" where
  "utf8_chars [] = Some []"
| "utf8_chars (a # bs) =
     (let x = unat a in
      if x < 0x80 then map_option (Cons x) (utf8_chars bs)
      else case bs of [] \<Rightarrow> None
      | b # cs \<Rightarrow>
        if 0xC2 \<le> x \<and> x < 0xE0 \<and> utf8_cont b then map_option (Cons ((x - 0xC0) * 64 + (unat b - 0x80))) (utf8_chars cs)
        else case cs of [] \<Rightarrow> None
        | c # ds \<Rightarrow>
          if 0xE0 \<le> x \<and> x < 0xF0 \<and> utf8_cont b \<and> utf8_cont c then
            let v = (x - 0xE0) * 4096 + (unat b - 0x80) * 64 + (unat c - 0x80) in
            if v < 0x800 \<or> (0xD800 \<le> v \<and> v \<le> 0xDFFF) then None else map_option (Cons v) (utf8_chars ds)
          else case ds of [] \<Rightarrow> None
          | d # es \<Rightarrow>
            if 0xF0 \<le> x \<and> x < 0xF5 \<and> utf8_cont b \<and> utf8_cont c \<and> utf8_cont d then
              let v = (x - 0xF0) * 262144 + (unat b - 0x80) * 4096 + (unat c - 0x80) * 64 + (unat d - 0x80) in
              if v < 0x10000 \<or> v > 0x10FFFF then None else map_option (Cons v) (utf8_chars es)
            else None)"

definition from_utf8 :: "bytes \<Rightarrow> bytes result" where
  "from_utf8 bs = (if utf8_chars bs = None then Inl ManifestInvalid else Inr bs)"

definition chars :: "bytes \<Rightarrow> nat list" where
  "chars bs = (case utf8_chars bs of None \<Rightarrow> [] | Some cs \<Rightarrow> cs)"

definition utf8_encode :: "nat \<Rightarrow> bytes" where
  "utf8_encode v =
     map word_of_nat
       (if v < 0x80 then [v]
        else if v < 0x800 then [0xC0 + v div 64, 0x80 + v mod 64]
        else if v < 0x10000 then [0xE0 + v div 4096, 0x80 + v div 64 mod 64, 0x80 + v mod 64]
        else [0xF0 + v div 262144, 0x80 + v div 4096 mod 64, 0x80 + v div 64 mod 64, 0x80 + v mod 64])"

definition is_ascii :: "bytes \<Rightarrow> bool" where
  "is_ascii bs = list_all (\<lambda>b. unat b < 0x80) bs"

section \<open>The order of names\<close>

definition order_cmp :: "'a::linorder \<Rightarrow> 'a \<Rightarrow> ordering" where
  "order_cmp l r = compare_with r l"

definition ordinal_key :: "(nat \<Rightarrow> nat list) \<Rightarrow> bytes \<Rightarrow> bytes" where
  "ordinal_key upper v = concat (map utf8_encode (concat (map upper (chars v))))"

definition to_ascii_uppercase :: "byte \<Rightarrow> byte" where
  "to_ascii_uppercase b = (if 0x61 \<le> b \<and> b \<le> 0x7A then b - 0x20 else b)"

definition compare_ascii_ignore_case :: "bytes \<Rightarrow> bytes \<Rightarrow> ordering" where
  "compare_ascii_ignore_case l r = order_cmp (map to_ascii_uppercase l) (map to_ascii_uppercase r)"

definition fallback_compare :: "(nat \<Rightarrow> nat list) \<Rightarrow> bytes \<Rightarrow> bytes \<Rightarrow> ordering" where
  "fallback_compare upper l r = order_cmp (ordinal_key upper l) (ordinal_key upper r)"

definition compare_ordinal_ignore_case :: "(bytes \<Rightarrow> bytes \<Rightarrow> ordering) \<Rightarrow> bytes \<Rightarrow> bytes \<Rightarrow> ordering" where
  "compare_ordinal_ignore_case wide l r =
     (if is_ascii l \<and> is_ascii r then compare_ascii_ignore_case l r else wide l r)"

definition compare_names :: "(bytes \<Rightarrow> bytes \<Rightarrow> ordering) \<Rightarrow> bytes \<Rightarrow> bytes \<Rightarrow> ordering" where
  "compare_names wide l r =
     (case compare_ordinal_ignore_case wide l r of Equal \<Rightarrow> order_cmp l r | c \<Rightarrow> c)"

section \<open>Components\<close>

definition MAX_COMPONENT_BYTES :: nat where
  "MAX_COMPONENT_BYTES = 255"

definition validate_lookup_component :: "bytes \<Rightarrow> unit result" where
  "validate_lookup_component c =
     (if c = [] \<or> c = [0x2E] \<or> c = [0x2E, 0x2E] \<or> length c > MAX_COMPONENT_BYTES \<or>
         list_ex (\<lambda>x. x \<in> {0x2F, 0x5C, 0}) (chars c)
      then Inl InvalidArgument else Inr ())"

definition MAX_NAME_UNITS :: nat where
  "MAX_NAME_UNITS = 255"

definition utf16_units :: "bytes \<Rightarrow> nat" where
  "utf16_units v = sum_list (map (\<lambda>c. if c < 0x10000 then 1 else 2) (chars v))"

definition is_control :: "nat \<Rightarrow> bool" where
  "is_control c \<longleftrightarrow> c < 0x20 \<or> (0x7F \<le> c \<and> c < 0xA0)"

definition RESERVED_STEMS :: "bytes list" where
  "RESERVED_STEMS = map (map (\<lambda>c. word_of_nat (of_char c)))
     ([''CON'', ''PRN'', ''AUX'', ''NUL'', ''CLOCK$'', ''CONIN$'', ''CONOUT$''] @
      [''COM1'', ''COM2'', ''COM3'', ''COM4'', ''COM5'', ''COM6'', ''COM7'', ''COM8'', ''COM9''] @
      [''LPT1'', ''LPT2'', ''LPT3'', ''LPT4'', ''LPT5'', ''LPT6'', ''LPT7'', ''LPT8'', ''LPT9''])"

definition fold_name :: "(nat \<Rightarrow> nat list) \<Rightarrow> bytes \<Rightarrow> bytes result" where
  "fold_name upper name =
     (if name = [] \<or> utf16_units name > MAX_NAME_UNITS \<or> last name \<in> {0x2E, 0x20} then Inl InvalidArgument
      else if list_ex (\<lambda>c. is_control c \<or> c \<in> {0x2F, 0x5C, 0x3A, 0x2A, 0x3F, 0x22, 0x3C, 0x3E, 0x7C}) (chars name)
      then Inl InvalidArgument
      else if ordinal_key upper (takeWhile (\<lambda>b. b \<noteq> 0x2E) name) \<in> set RESERVED_STEMS then Inl InvalidArgument
      else Inr (ordinal_key upper name))"

definition validate_component :: "(nat \<Rightarrow> nat list) \<Rightarrow> bytes \<Rightarrow> unit result" where
  "validate_component upper c =
     (if c = [0x2E] \<or> c = [0x2E, 0x2E] then Inl ManifestInvalid
      else case fold_name upper c of Inl _ \<Rightarrow> Inl ManifestInvalid | Inr _ \<Rightarrow> Inr ())"

definition windows_case_key :: "(nat \<Rightarrow> nat list) \<Rightarrow> bytes \<Rightarrow> bytes" where
  "windows_case_key upper c = (case fold_name upper c of Inl _ \<Rightarrow> [] | Inr k \<Rightarrow> k)"

section \<open>Facts about UTF-8\<close>

lemma utf8_chars_ascii: "is_ascii bs \<Longrightarrow> utf8_chars bs = Some (map unat bs)"
  by (induction bs) (simp_all add: is_ascii_def)

lemma chars_ascii: "is_ascii bs \<Longrightarrow> chars bs = map unat bs"
  by (simp add: chars_def utf8_chars_ascii)

section \<open>Comparison is an order\<close>

lemma order_cmp_simps [simp]:
  "order_cmp l r = Less \<longleftrightarrow> l < r" "order_cmp l r = Equal \<longleftrightarrow> l = r" "order_cmp l r = Greater \<longleftrightarrow> r < l"
  by (auto simp: order_cmp_def compare_with_def)

text \<open>What is assumed of the comparison: it orders names by a key.  Two names with the same key are the same
  name for a lookup.\<close>

definition name_order :: "(bytes \<Rightarrow> bytes \<Rightarrow> ordering) \<Rightarrow> (bytes \<Rightarrow> nat list) \<Rightarrow> bool" where
  "name_order wide key \<longleftrightarrow> (\<forall>l r. compare_ordinal_ignore_case wide l r = order_cmp (key l) (key r))"

definition name_less :: "(bytes \<Rightarrow> nat list) \<Rightarrow> bytes \<Rightarrow> bytes \<Rightarrow> bool" where
  "name_less key l r \<longleftrightarrow> key l < key r \<or> (key l = key r \<and> l < r)"

lemma compare_names_iff:
  assumes "name_order wide key"
  shows "compare_names wide l r = Less \<longleftrightarrow> name_less key l r" "compare_names wide l r = Greater \<longleftrightarrow> name_less key r l"
    "compare_names wide l r = Equal \<longleftrightarrow> l = r"
  using assms unfolding name_order_def compare_names_def name_less_def
  by (auto simp: order_cmp_def compare_with_def split: ordering.splits if_splits)

lemma name_less_order: "name_less key a b \<Longrightarrow> name_less key b c \<Longrightarrow> name_less key a c" "\<not> name_less key a a"
  "name_less key a b \<or> a = b \<or> name_less key b a"
  unfolding name_less_def by (auto dest: order.strict_trans)

text \<open>The comparison off Windows meets it, for every upper-case table that agrees with ASCII.\<close>

definition upper_ascii :: "(nat \<Rightarrow> nat list) \<Rightarrow> bool" where
  "upper_ascii upper \<longleftrightarrow> (\<forall>c < 0x80. upper c = [if 0x61 \<le> c \<and> c \<le> 0x7A then c - 0x20 else c])"

lemma byte_of_upper: "unat b < 0x80 \<Longrightarrow> word_of_nat (if 0x61 \<le> unat b \<and> unat b \<le> 0x7A then unat b - 0x20 else unat b) = to_ascii_uppercase b"
  by (auto simp: to_ascii_uppercase_def word_le_nat_alt unat_sub of_nat_diff)

lemma ordinal_key_ascii:
  assumes "upper_ascii upper" "is_ascii bs"
  shows "ordinal_key upper bs = map to_ascii_uppercase bs"
proof -
  have "concat (map utf8_encode (concat (map upper (map unat bs)))) = map to_ascii_uppercase bs"
    using assms(2)
  proof (induction bs)
    case (Cons b bs)
    then have b: "unat b < 0x80" by (simp add: is_ascii_def)
    then have "upper (unat b) = [if 0x61 \<le> unat b \<and> unat b \<le> 0x7A then unat b - 0x20 else unat b]"
      using assms(1) unfolding upper_ascii_def by blast
    then have "concat (map utf8_encode (upper (unat b))) = [to_ascii_uppercase b]"
      using b byte_of_upper [OF b] by (auto simp: utf8_encode_def)
    then show ?case using Cons by (simp add: is_ascii_def)
  qed simp
  then show ?thesis using assms(2) by (simp add: ordinal_key_def chars_ascii)
qed

lemma map_unat_less: "map unat l < map unat r \<longleftrightarrow> l < (r :: bytes)"
proof (induction l arbitrary: r)
  case Nil
  then show ?case by (cases r) simp_all
next
  case (Cons a l)
  show ?case
  proof (cases r)
    case (Cons b s)
    then show ?thesis by (simp only: list.map Cons_less_Cons Cons.IH word_less_nat_alt word_unat_eq_iff)
  qed simp
qed

lemma fallback_name_order:
  assumes "upper_ascii upper"
  shows "name_order (fallback_compare upper) (\<lambda>v. map unat (ordinal_key upper v))"
  unfolding name_order_def compare_ordinal_ignore_case_def fallback_compare_def compare_ascii_ignore_case_def
  using ordinal_key_ascii [OF assms]
  by (auto simp: order_cmp_def compare_with_def map_unat_less inj_map_eq_map [OF injI [OF unsigned_word_eqI]])

end
