(* ===== verification/Manifest_Types.thy ===== *)
theory Manifest_Types
  imports Pack_Format
begin

text \<open>Classes of files and of remote objects: \<open>FileClass\<close> of \<open>mirage-manifest/src/model.rs\<close> and \<open>ObjectKind\<close> of
  \<open>mirage-backend/src/object.rs\<close>, which the importer and the mount index share.\<close>

datatype FileClass = NativeExecutable | NativeLibrary | NativeConfiguration | NativeMutable | VirtualAsset | VirtualContainer

fun is_virtual :: "FileClass \<Rightarrow> bool" where
  "is_virtual VirtualAsset = True"
| "is_virtual VirtualContainer = True"
| "is_virtual _ = False"

fun class_code :: "FileClass \<Rightarrow> byte" where
  "class_code NativeExecutable = 0"
| "class_code NativeLibrary = 1"
| "class_code NativeConfiguration = 2"
| "class_code NativeMutable = 3"
| "class_code VirtualAsset = 4"
| "class_code VirtualContainer = 5"

datatype ObjectKind = RepositoryConfig | PackObject | ManifestObject | CommitObject | ProfileObject | PayloadObject

end
