(* ===== verification/Pack_Import.thy ===== *)
theory Pack_Import
  imports Pack_File Name_Policy Manifest_Types
begin

text \<open>Importing a directory tree into packs: the streaming pager of \<open>mirage-pack/src/pager.rs\<close> and
  \<open>mirage-pack/src/import.rs\<close> up to the manifest files.  The file system is an environment: what opening
  a relative path and observing the file afterwards yield, the names and contents of the staging
  directory, the outcomes of cancellation polls and the random bytes.  Paths and names are byte strings.\<close>

section \<open>Paging a source file\<close>

record SourceFingerprint =
  fp_len :: u64
  fp_modified :: "nat option"
  fp_created :: "nat option"

record SourceFile =
  src_is_file :: bool
  src_len :: u64
  src_plain :: bool
  src_bytes :: bytes
  src_before :: SourceFingerprint
  src_identity :: nat
  src_after_handle :: "SourceFingerprint result"
  src_after_path :: "SourceFingerprint result"
  src_after_identity :: "nat result"

record SourcePager =
  pager_file :: SourceFile
  pager_stream :: bytes
  pager_remaining :: u64
  pager_page_size :: nat
  pager_finished :: bool

definition validate_page_size :: "u32 \<Rightarrow> unit result" where
  "validate_page_size n = (if pack_page_size_ok n then Inr () else Inl InvalidArgument)"

definition reject_non_regular :: "SourceFile \<Rightarrow> unit result" where
  "reject_non_regular f = (if \<not> src_plain f then Inl UnsupportedLayout else Inr ())"

definition page_path_streaming :: "SourceFile \<Rightarrow> u32 \<Rightarrow> SourcePager result" where
  "page_path_streaming f page_size =
     bind_result (validate_page_size page_size) (\<lambda>_.
     bind_result (reject_non_regular f) (\<lambda>_.
       Inr \<lparr>pager_file = f, pager_stream = src_bytes f, pager_remaining = fp_len (src_before f), pager_page_size = page_size,
            pager_finished = False\<rparr>))"

definition validate_unchanged :: "SourceFile \<Rightarrow> unit result" where
  "validate_unchanged f =
     bind_result (src_after_handle f) (\<lambda>after_handle.
     bind_result (src_after_path f) (\<lambda>after_path.
     bind_result (src_after_identity f) (\<lambda>current.
       if src_before f \<noteq> after_handle \<or> src_before f \<noteq> after_path \<or> src_identity f \<noteq> current then Inl IntegrityMismatch
       else Inr ())))"

definition source_next :: "(bytes \<Rightarrow> page_hash) \<Rightarrow> SourcePager \<Rightarrow> PlainPage result option \<times> SourcePager" where
  "source_next blake3 pg =
     (if pager_finished pg then (None, pg)
      else if pager_remaining pg = 0 then
        (case validate_unchanged (pager_file pg) of
           Inl e \<Rightarrow> (Some (Inl e), pg\<lparr>pager_finished := True\<rparr>)
         | Inr _ \<Rightarrow> (None, pg\<lparr>pager_finished := True\<rparr>))
      else
        let wanted = min (pager_remaining pg) (pager_page_size pg) in
        if length (pager_stream pg) < wanted then (Some (Inl Io), pg\<lparr>pager_finished := True\<rparr>)
        else
          let bs = take wanted (pager_stream pg);
              pg = pg\<lparr>pager_stream := drop wanted (pager_stream pg), pager_remaining := pager_remaining pg - wanted\<rparr>
          in if pager_remaining pg = 0 then
               (case validate_unchanged (pager_file pg) of
                  Inl e \<Rightarrow> (Some (Inl e), pg\<lparr>pager_finished := True\<rparr>)
                | Inr _ \<Rightarrow> (Some (Inr (plain_page_from_bytes blake3 bs)), pg\<lparr>pager_finished := True\<rparr>))
             else (Some (Inr (plain_page_from_bytes blake3 bs)), pg))"

definition pager_size_hint :: "SourcePager \<Rightarrow> nat" where
  "pager_size_hint pg = (pager_remaining pg + pager_page_size pg - 1) div pager_page_size pg"

section \<open>The import plan\<close>

record PlannedFile =
  relative_path :: bytes
  plan_class :: FileClass

record ImportPlan =
  plan_files :: "PlannedFile list"
  plan_page_size :: u32
  plan_pack_target :: u64
  plan_encryption :: "PackEncryption option"

record ImportEnv =
  env_root_check :: "unit result"
  env_source :: "bytes \<Rightarrow> SourceFile result"
  env_cancelled :: "nat \<Rightarrow> bool"
  env_random :: "nat \<Rightarrow> bytes option"

definition fold_path :: "bytes \<Rightarrow> bytes" where
  "fold_path p = map (\<lambda>b. let b = (if b = 0x5C then 0x2F else b) in if 0x41 \<le> b \<and> b \<le> 0x5A then b + 0x20 else b) p"

fun distinct_paths :: "bytes set \<Rightarrow> PlannedFile list \<Rightarrow> bool" where
  "distinct_paths seen [] = True"
| "distinct_paths seen (f # fs) =
     (fold_path (relative_path f) \<notin> seen \<and> distinct_paths (insert (fold_path (relative_path f)) seen) fs)"

definition validate_plan :: "ImportEnv \<Rightarrow> ImportPlan \<Rightarrow> bool \<Rightarrow> unit result" where
  "validate_plan env plan allow_empty =
     (if \<not> allow_empty \<and> plan_files plan = [] then Inl InvalidArgument
      else bind_result (env_root_check env) (\<lambda>_.
        if \<not> distinct_paths {} (plan_files plan) then Inl InvalidArgument else Inr ()))"

section \<open>The import loop\<close>

record ImportState =
  im_packs :: "CompletedPack list"
  im_locations :: "page_hash \<rightharpoonup> nat \<times> PackEntry"
  im_writer :: "PackWriter option"
  im_directory :: "bytes \<rightharpoonup> bytes"
  im_reused :: u64
  im_draws :: nat
  im_file_pages :: "bytes \<rightharpoonup> page_hash list"
  im_sizes :: "bytes \<rightharpoonup> u64"
  im_logical :: u64
  im_virtual :: u64
  im_native_count :: u64
  im_virtual_count :: u64

fun insert_locations :: "nat \<Rightarrow> PackEntry list \<Rightarrow> (page_hash \<rightharpoonup> nat \<times> PackEntry) \<Rightarrow> (page_hash \<rightharpoonup> nat \<times> PackEntry)" where
  "insert_locations i [] m = m"
| "insert_locations i (e # es) m = insert_locations i es (m(entry_hash e \<mapsto> (i, e)))"

fun or_insert_locations :: "nat \<Rightarrow> PackEntry list \<Rightarrow> (page_hash \<rightharpoonup> nat \<times> PackEntry) \<Rightarrow> (page_hash \<rightharpoonup> nat \<times> PackEntry)" where
  "or_insert_locations i [] m = m"
| "or_insert_locations i (e # es) m =
     or_insert_locations i es (if m (entry_hash e) = None then m(entry_hash e \<mapsto> (i, e)) else m)"

fun initial_locations :: "nat \<Rightarrow> CompletedPack list \<Rightarrow> (page_hash \<rightharpoonup> nat \<times> PackEntry) \<Rightarrow> (page_hash \<rightharpoonup> nat \<times> PackEntry)" where
  "initial_locations i [] m = m"
| "initial_locations i (c # cs) m = initial_locations (Suc i) cs (or_insert_locations i (completed_entries c) m)"

definition finish_active ::
  "(bytes \<Rightarrow> 32 word) \<Rightarrow> (bytes \<Rightarrow> page_hash) \<Rightarrow> ImportState \<Rightarrow> PackWriter \<Rightarrow> ImportState result" where
  "finish_active crc32 blake3 s w =
     bind_result (finish crc32 blake3 (im_directory s) w) (\<lambda>complete.
       let pack_index = length (im_packs s) in
       Inr (s\<lparr>im_writer := None, im_locations := insert_locations pack_index (completed_entries complete) (im_locations s),
              im_packs := im_packs s @ [complete],
              im_directory := (im_directory s)(completed_name complete \<mapsto> completed_file complete)\<rparr>))"

definition writer_has :: "ImportState \<Rightarrow> page_hash \<Rightarrow> bool" where
  "writer_has s h \<longleftrightarrow> (case im_writer s of None \<Rightarrow> False | Some w \<Rightarrow> contains_page w h)"

definition pack_options :: "ImportPlan \<Rightarrow> PackWriterOptions" where
  "pack_options plan = \<lparr>opt_page_size = plan_page_size plan, target_size = plan_pack_target plan, align_frames_4k = True\<rparr>"

definition import_new_page ::
  "(bytes \<Rightarrow> 32 word) \<Rightarrow> (bytes \<Rightarrow> page_hash) \<Rightarrow> ImportEnv \<Rightarrow> ImportPlan \<Rightarrow> ImportState \<Rightarrow> PlainPage \<Rightarrow> ImportState result" where
  "import_new_page crc32 blake3 env plan s p =
     bind_result (case im_writer s of None \<Rightarrow> Inr False | Some w \<Rightarrow> would_rollover w p) (\<lambda>should_rollover.
     bind_result (case im_writer s of Some w \<Rightarrow> if should_rollover then finish_active crc32 blake3 s w else Inr s | None \<Rightarrow> Inr s) (\<lambda>s.
     bind_result (case im_writer s of
         Some w \<Rightarrow> Inr w
       | None \<Rightarrow> create_inner (pack_options plan) (plan_encryption plan) (map_option (take 16) (env_random env (im_draws s)))) (\<lambda>w.
     bind_result (append_page crc32 blake3 w (map_option (take NONCE_LENGTH) (env_random env (Suc (im_draws s)))) p) (\<lambda>(w', _).
       Inr (s\<lparr>im_writer := Some w', im_draws := im_draws s + 2\<rparr>)))))"

definition import_page ::
  "(bytes \<Rightarrow> 32 word) \<Rightarrow> (bytes \<Rightarrow> page_hash) \<Rightarrow> ImportEnv \<Rightarrow> ImportPlan \<Rightarrow> ImportState \<Rightarrow> PlainPage \<Rightarrow> ImportState result" where
  "import_page crc32 blake3 env plan s p =
     (if im_locations s (plain_hash p) \<noteq> None \<or> writer_has s (plain_hash p) then
        let s = s\<lparr>im_reused := im_reused s + 1\<rparr> in
        case im_writer s of
          None \<Rightarrow> Inr s
        | Some w \<Rightarrow>
            if contains_page w (plain_hash p)
            then bind_result (append_page crc32 blake3 w None p) (\<lambda>(w', _). Inr (s\<lparr>im_writer := Some w'\<rparr>))
            else Inr s
      else import_new_page crc32 blake3 env plan s p)"

partial_function (option) import_pages ::
  "(bytes \<Rightarrow> 32 word) \<Rightarrow> (bytes \<Rightarrow> page_hash) \<Rightarrow> ImportEnv \<Rightarrow> ImportPlan \<Rightarrow> SourcePager \<Rightarrow> page_hash list \<Rightarrow> ImportState \<Rightarrow>
   (ImportState \<times> page_hash list) result option" where
  "import_pages crc32 blake3 env plan pg sequence s =
     (case source_next blake3 pg of
        (None, _) \<Rightarrow> Some (Inr (s, sequence))
      | (Some (Inl e), _) \<Rightarrow> Some (Inl e)
      | (Some (Inr p), pg') \<Rightarrow>
          (case import_page crc32 blake3 env plan s p of
             Inl e \<Rightarrow> Some (Inl e)
           | Inr s' \<Rightarrow> import_pages crc32 blake3 env plan pg' (sequence @ [plain_hash p]) s'))"

definition import_virtual_file ::
  "(bytes \<Rightarrow> 32 word) \<Rightarrow> (bytes \<Rightarrow> page_hash) \<Rightarrow> ImportEnv \<Rightarrow> ImportPlan \<Rightarrow> bytes \<Rightarrow> SourceFile \<Rightarrow> ImportState \<Rightarrow> ImportState result option" where
  "import_virtual_file crc32 blake3 env plan path source s =
     (case checked_add64 (im_virtual s) (src_len source) of
        None \<Rightarrow> Some (Inl InvalidArgument)
      | Some bytes_so_far \<Rightarrow>
          let s = s\<lparr>im_virtual := bytes_so_far, im_virtual_count := im_virtual_count s + 1\<rparr> in
          (case page_path_streaming source (plan_page_size plan) of
             Inl e \<Rightarrow> Some (Inl e)
           | Inr pg \<Rightarrow>
               Option.bind (import_pages crc32 blake3 env plan pg [] s) (\<lambda>r.
                 Some (bind_result r (\<lambda>(s, sequence). Inr (s\<lparr>im_file_pages := (im_file_pages s)(path \<mapsto> sequence)\<rparr>))))))"

definition import_file ::
  "(bytes \<Rightarrow> 32 word) \<Rightarrow> (bytes \<Rightarrow> page_hash) \<Rightarrow> ImportEnv \<Rightarrow> ImportPlan \<Rightarrow> nat \<Rightarrow> PlannedFile \<Rightarrow> ImportState \<Rightarrow> ImportState result option" where
  "import_file crc32 blake3 env plan k f s =
     (if env_cancelled env k then Some (Inl InvalidArgument)
      else case env_source env (relative_path f) of
        Inl e \<Rightarrow> Some (Inl e)
      | Inr source \<Rightarrow>
          if \<not> src_is_file source then Some (Inl UnsupportedLayout)
          else case checked_add64 (im_logical s) (src_len source) of
            None \<Rightarrow> Some (Inl InvalidArgument)
          | Some bytes_so_far \<Rightarrow>
              let s = s\<lparr>im_logical := bytes_so_far, im_sizes := (im_sizes s)(relative_path f \<mapsto> src_len source)\<rparr> in
              if \<not> is_virtual (plan_class f) then Some (Inr (s\<lparr>im_native_count := im_native_count s + 1\<rparr>))
              else import_virtual_file crc32 blake3 env plan (relative_path f) source s)"

fun import_files ::
  "(bytes \<Rightarrow> 32 word) \<Rightarrow> (bytes \<Rightarrow> page_hash) \<Rightarrow> ImportEnv \<Rightarrow> ImportPlan \<Rightarrow> nat \<Rightarrow> PlannedFile list \<Rightarrow> ImportState \<Rightarrow> ImportState result option" where
  "import_files crc32 blake3 env plan k [] s = Some (Inr s)"
| "import_files crc32 blake3 env plan k (f # fs) s =
     Option.bind (import_file crc32 blake3 env plan k f s) (\<lambda>r.
       case r of Inl e \<Rightarrow> Some (Inl e) | Inr s' \<Rightarrow> import_files crc32 blake3 env plan (Suc k) fs s')"

section \<open>Existing packs and the manifest files\<close>

definition is_pack_name :: "bytes \<Rightarrow> bool" where
  "is_pack_name name \<longleftrightarrow> utf8_chars name \<noteq> None \<and> take 5 name = map of_char ''pack-'' \<and> length name \<ge> 4 \<and> drop (length name - 4) name = map of_char ''.bin''"

fun load_packs :: "(bytes \<Rightarrow> 32 word) \<Rightarrow> (bytes \<Rightarrow> page_hash) \<Rightarrow> bool \<Rightarrow> (bytes \<times> bytes) list \<Rightarrow> CompletedPack list result" where
  "load_packs crc32 blake3 encrypted [] = Inr []"
| "load_packs crc32 blake3 encrypted ((name, content) # files) =
     bind_result (open_inner crc32 blake3 content None True) (\<lambda>reader.
     if reader_encrypted reader \<noteq> encrypted then Inl RepositoryConflict
     else bind_result (load_packs crc32 blake3 encrypted files) (\<lambda>rest.
       Inr (\<lparr>completed_name = name, completed_file = content, completed_hash = the (object_hash reader),
             byte_length = file_length reader, completed_entries = reader_entries reader\<rparr> # rest)))"

definition load_verified_packs ::
  "(bytes \<Rightarrow> 32 word) \<Rightarrow> (bytes \<Rightarrow> page_hash) \<Rightarrow> (bytes \<times> bytes) list \<Rightarrow> bool \<Rightarrow> CompletedPack list result" where
  "load_verified_packs crc32 blake3 directory encrypted =
     load_packs crc32 blake3 encrypted (sort_key fst (filter (\<lambda>(name, _). is_pack_name name) directory))"

record ManifestPage =
  mp_hash :: page_hash
  mp_logical_length :: u32
  mp_object :: bytes
  mp_revision :: bytes
  mp_object_length :: u64
  mp_content_hash :: page_hash
  mp_offset :: u64
  mp_encoded_length :: u64

record ManifestFile =
  mf_path :: bytes
  mf_logical_size :: u64
  mf_class :: FileClass
  mf_pages :: "ManifestPage list"

fun has_control :: "bytes \<Rightarrow> bool" where
  "has_control [] = False"
| "has_control (b # bs) =
     (b < 0x20 \<or> b = 0x7F \<or> (b = 0xC2 \<and> (case bs of c # _ \<Rightarrow> 0x80 \<le> c \<and> c < 0xA0 | [] \<Rightarrow> False)) \<or> has_control bs)"

definition opaque_id :: "nat \<Rightarrow> bytes \<Rightarrow> bytes result" where
  "opaque_id maximum v = (if v = [] \<or> length v > maximum \<or> has_control v then Inl InvalidArgument else Inr v)"

definition manifest_page :: "CompletedPack list \<Rightarrow> (page_hash \<rightharpoonup> nat \<times> PackEntry) \<Rightarrow> page_hash \<Rightarrow> ManifestPage result" where
  "manifest_page packs locations h =
     bind_result (ok_or (locations h) InternalInvariant) (\<lambda>(i, entry).
       let pack = packs ! i in
       bind_result (opaque_id 1024 (completed_name pack)) (\<lambda>name.
       bind_result (opaque_id 512 (encode_canonical_hex (hash_bytes (completed_hash pack)))) (\<lambda>revision.
         Inr \<lparr>mp_hash = h, mp_logical_length = entry_logical entry, mp_object = name, mp_revision = revision,
              mp_object_length = byte_length pack, mp_content_hash = completed_hash pack, mp_offset = frame_offset entry,
              mp_encoded_length = frame_length entry\<rparr>)))"

definition manifest_file :: "ImportState \<Rightarrow> PlannedFile \<Rightarrow> ManifestFile result" where
  "manifest_file s f =
     bind_result (map_results (manifest_page (im_packs s) (im_locations s))
         (case im_file_pages s (relative_path f) of None \<Rightarrow> [] | Some hs \<Rightarrow> hs)) (\<lambda>pages.
     bind_result (ok_or (im_sizes s (relative_path f)) InternalInvariant) (\<lambda>size.
       Inr \<lparr>mf_path = relative_path f, mf_logical_size = size, mf_class = plan_class f, mf_pages = pages\<rparr>))"

definition build_manifest_files :: "ImportPlan \<Rightarrow> ImportState \<Rightarrow> ManifestFile list result" where
  "build_manifest_files plan s = map_results (manifest_file s) (plan_files plan)"

definition initial_import :: "(bytes \<times> bytes) list \<Rightarrow> CompletedPack list \<Rightarrow> ImportState" where
  "initial_import directory packs =
     \<lparr>im_packs = packs, im_locations = initial_locations 0 packs Map.empty, im_writer = None, im_directory = map_of directory,
      im_reused = 0, im_draws = 0, im_file_pages = Map.empty, im_sizes = Map.empty, im_logical = 0, im_virtual = 0,
      im_native_count = 0, im_virtual_count = 0\<rparr>"

definition import_local_inner ::
  "(bytes \<Rightarrow> 32 word) \<Rightarrow> (bytes \<Rightarrow> page_hash) \<Rightarrow> ImportEnv \<Rightarrow> (bytes \<times> bytes) list \<Rightarrow> ImportPlan \<Rightarrow> bool \<Rightarrow>
   (ImportState \<times> ManifestFile list) result option" where
  "import_local_inner crc32 blake3 env directory plan allow_empty =
     (case bind_result (validate_plan env plan allow_empty) (\<lambda>_.
             load_verified_packs crc32 blake3 directory (plan_encryption plan \<noteq> None)) of
        Inl e \<Rightarrow> Some (Inl e)
      | Inr packs \<Rightarrow>
          Option.bind (import_files crc32 blake3 env plan 0 (plan_files plan) (initial_import directory packs)) (\<lambda>r.
            Some (bind_result r (\<lambda>s.
              bind_result (case im_writer s of None \<Rightarrow> Inr s | Some w \<Rightarrow> finish_active crc32 blake3 s w) (\<lambda>s.
              bind_result (build_manifest_files plan s) (\<lambda>files. Inr (s, files)))))))"

section \<open>The pager cuts a file into its pages\<close>

fun import_list ::
  "(bytes \<Rightarrow> 32 word) \<Rightarrow> (bytes \<Rightarrow> page_hash) \<Rightarrow> ImportEnv \<Rightarrow> ImportPlan \<Rightarrow> ImportState \<Rightarrow> PlainPage list \<Rightarrow> ImportState result" where
  "import_list crc32 blake3 env plan s [] = Inr s"
| "import_list crc32 blake3 env plan s (p # ps) =
     bind_result (import_page crc32 blake3 env plan s p) (\<lambda>s'. import_list crc32 blake3 env plan s' ps)"

definition pager_pages :: "(bytes \<Rightarrow> page_hash) \<Rightarrow> SourcePager \<Rightarrow> PlainPage list" where
  "pager_pages blake3 pg =
     (if pager_finished pg then []
      else map (plain_page_from_bytes blake3) (page_chunks (pager_page_size pg) (take (pager_remaining pg) (pager_stream pg))))"

lemma source_next_page:
  assumes "source_next blake3 pg = (Some (Inr p), pg')" "0 < pager_page_size pg"
  shows "pager_pages blake3 pg = p # pager_pages blake3 pg'" "pager_page_size pg' = pager_page_size pg"
    "pager_remaining pg' < pager_remaining pg" "\<not> pager_finished pg" "pager_finished pg' \<longleftrightarrow> pager_remaining pg' = 0"
    "pager_remaining pg' \<le> length (pager_stream pg') \<Longrightarrow> pager_remaining pg \<le> length (pager_stream pg)"
proof -
  let ?n = "min (pager_remaining pg) (pager_page_size pg)" and ?bs = "take (pager_remaining pg) (pager_stream pg)"
  have open_: "\<not> pager_finished pg" "0 < pager_remaining pg" "?n \<le> length (pager_stream pg)"
    and p: "p = plain_page_from_bytes blake3 (take ?n (pager_stream pg))"
    and pg': "pager_page_size pg' = pager_page_size pg" "pager_remaining pg' = pager_remaining pg - ?n"
      "pager_stream pg' = drop ?n (pager_stream pg)" "pager_finished pg' \<longleftrightarrow> pager_remaining pg - ?n = 0"
    using assms(1) by (auto simp: source_next_def Let_def split: if_splits sum.splits)
  have ne: "?bs \<noteq> []" using open_ assms(2) by (cases "pager_stream pg") auto
  have "page_chunks (pager_page_size pg) ?bs = take ?n (pager_stream pg) # page_chunks (pager_page_size pg) (drop (pager_page_size pg) ?bs)"
    using ne assms(2) by (subst page_chunks.simps) (simp add: min.commute)
  moreover have "drop (pager_page_size pg) ?bs = take (pager_remaining pg - ?n) (drop ?n (pager_stream pg))"
    by (cases "pager_page_size pg \<le> pager_remaining pg") (simp_all add: drop_take)
  ultimately show "pager_pages blake3 pg = p # pager_pages blake3 pg'"
    using open_ p pg' by (auto simp: pager_pages_def page_chunks.simps [of _ "[]"])
  show "pager_page_size pg' = pager_page_size pg" "pager_remaining pg' < pager_remaining pg" "\<not> pager_finished pg"
    "pager_finished pg' \<longleftrightarrow> pager_remaining pg' = 0"
    "pager_remaining pg' \<le> length (pager_stream pg') \<Longrightarrow> pager_remaining pg \<le> length (pager_stream pg)"
    using open_ pg' assms(2) by auto
qed

lemma source_next_end:
  assumes "source_next blake3 pg = (None, pg')"
  shows "pager_pages blake3 pg = []" "pager_finished pg \<or> pager_remaining pg = 0"
  using assms by (auto simp: source_next_def pager_pages_def page_chunks.simps [of _ "[]"] Let_def split: if_splits sum.splits)

lemma import_pages_spec:
  assumes "0 < pager_page_size pg"
  shows "\<exists>r. import_pages crc32 blake3 env plan pg seq s = Some r \<and>
    (\<forall>s' seq'. r = Inr (s', seq') \<longrightarrow> import_list crc32 blake3 env plan s (pager_pages blake3 pg) = Inr s' \<and>
       seq' = seq @ map plain_hash (pager_pages blake3 pg) \<and> (pager_finished pg \<or> pager_remaining pg \<le> length (pager_stream pg)))"
  using assms
proof (induction "pager_remaining pg" arbitrary: pg seq s rule: less_induct)
  case less
  obtain o1 pg' where n: "source_next blake3 pg = (o1, pg')" by (cases "source_next blake3 pg")
  consider "o1 = None" | e where "o1 = Some (Inl e)" | p where "o1 = Some (Inr p)" by (metis option.exhaust sum.exhaust)
  then show ?case
  proof cases
    case 1
    note e = source_next_end [OF n [unfolded 1]]
    have "pager_finished pg \<or> pager_remaining pg \<le> length (pager_stream pg)" using e(2) by auto
    then show ?thesis using 1 n e(1) by (subst import_pages.simps) simp
  next
    case 2
    then show ?thesis using n by (subst import_pages.simps) auto
  next
    case (3 p)
    note next_ = source_next_page [OF n [unfolded 3] less.prems]
    show ?thesis
    proof (cases "import_page crc32 blake3 env plan s p")
      case (Inl e)
      then show ?thesis using n 3 by (subst import_pages.simps) simp
    next
      case (Inr s1)
      then show ?thesis
        using less.hyps [of pg' "seq @ [plain_hash p]" s1] next_ less.prems n 3
        by (subst import_pages.simps) auto
    qed
  qed
qed

section \<open>The import always returns\<close>

lemma page_path_streaming_Inr:
  assumes "page_path_streaming f n = Inr pg"
  shows "pager_page_size pg = n" "0 < n" "n \<le> u32_max" "\<not> pager_finished pg" "pager_remaining pg = fp_len (src_before f)" "pager_stream pg = src_bytes f"
  using assms
  by (auto simp: page_path_streaming_def validate_page_size_def reject_non_regular_def bind_result_eq_Inr pack_page_size_ok_def
      u32_max_def split: if_splits)

lemma import_virtual_file_cases:
  "\<exists>r. import_virtual_file crc32 blake3 env plan path source s = Some r \<and>
    (\<forall>s'. r = Inr s' \<longrightarrow> (\<exists>s1 ps. import_list crc32 blake3 env plan (s\<lparr>im_virtual := im_virtual s + src_len source, im_virtual_count := im_virtual_count s + 1\<rparr>) ps = Inr s1 \<and>
      ps = map (plain_page_from_bytes blake3) (page_chunks (plan_page_size plan) (take (fp_len (src_before source)) (src_bytes source))) \<and>
      fp_len (src_before source) \<le> length (src_bytes source) \<and> 0 < plan_page_size plan \<and> plan_page_size plan \<le> u32_max \<and>
      s' = s1\<lparr>im_file_pages := (im_file_pages s1)(path \<mapsto> map plain_hash ps)\<rparr>))"
proof (cases "page_path_streaming source (plan_page_size plan)")
  case (Inl e)
  then show ?thesis by (auto simp: import_virtual_file_def Let_def split: option.split)
next
  case (Inr pg)
  note pg = page_path_streaming_Inr [OF Inr]
  let ?s = "s\<lparr>im_virtual := im_virtual s + src_len source, im_virtual_count := im_virtual_count s + 1\<rparr>"
  have "0 < pager_page_size pg" using pg by simp
  from import_pages_spec [OF this, of crc32 blake3 env plan "[]" ?s] obtain r
    where r: "import_pages crc32 blake3 env plan pg [] ?s = Some r"
      "\<forall>s' seq'. r = Inr (s', seq') \<longrightarrow> import_list crc32 blake3 env plan ?s (pager_pages blake3 pg) = Inr s' \<and>
         seq' = map plain_hash (pager_pages blake3 pg) \<and> (pager_finished pg \<or> pager_remaining pg \<le> length (pager_stream pg))"
    by auto
  show ?thesis
    using r Inr pg by (auto simp: import_virtual_file_def Let_def checked_add64_def bind_result_eq_Inr pager_pages_def split: option.split)
qed

lemma import_file_returns: "\<exists>r. import_file crc32 blake3 env plan k f s = Some r"
  using import_virtual_file_cases by (fastforce simp: import_file_def Let_def split: sum.split option.split)

lemma import_files_return: "\<exists>r. import_files crc32 blake3 env plan k fs s = Some r"
proof (induction fs arbitrary: k s)
  case (Cons f fs)
  obtain r where "import_file crc32 blake3 env plan k f s = Some r" using import_file_returns by blast
  then show ?case using Cons by (cases r) auto
qed simp

text \<open>C36: an import always returns.  Whatever the source files deliver (shorter than announced, changed
  while being read, failing to open), whatever the staging directory holds and whichever polls cancel
  it, the import, up to the list of manifest files, ends with packs and files or with an error; its page loop never runs forever, because the
  page size has been checked to be positive before the first page is read.\<close>

theorem import_terminates:
  "\<exists>r. import_local_inner crc32 blake3 env directory plan allow_empty = Some r"
proof (cases "bind_result (validate_plan env plan allow_empty) (\<lambda>_. load_verified_packs crc32 blake3 directory (plan_encryption plan \<noteq> None))")
  case (Inl e)
  then show ?thesis by (simp add: import_local_inner_def)
next
  case (Inr packs)
  obtain r where "import_files crc32 blake3 env plan 0 (plan_files plan) (initial_import directory packs) = Some r"
    using import_files_return by blast
  then show ?thesis using Inr by (simp add: import_local_inner_def)
qed

end
