(* ===== verification/Import_Restores.thy ===== *)
theory Import_Restores
  imports Pack_Import
begin

text \<open>What an import stores can be restored: the packs and the manifest files that
  \<open>import_local_inner\<close> produces determine every virtual source file byte for byte.  Restoring is the
  specification here: follow the manifest pages of a file, open the named packs and join what
  \<open>PackReader::read_page\<close> returns.\<close>

definition restore_page ::
  "(bytes \<Rightarrow> 32 word) \<Rightarrow> (bytes \<Rightarrow> page_hash) \<Rightarrow> PackEncryption option \<Rightarrow> (bytes \<rightharpoonup> bytes) \<Rightarrow> ManifestPage \<Rightarrow> bytes result" where
  "restore_page crc32 blake3 enc directory mp =
     bind_result (ok_or (directory (mp_object mp)) RemoteObjectMissing) (\<lambda>content.
     bind_result (open_inner crc32 blake3 content enc True) (\<lambda>r.
     bind_result (read_page crc32 blake3 r (mp_hash mp)) (\<lambda>d. Inr (plain_bytes (frame_page d)))))"

definition restore_file ::
  "(bytes \<Rightarrow> 32 word) \<Rightarrow> (bytes \<Rightarrow> page_hash) \<Rightarrow> PackEncryption option \<Rightarrow> (bytes \<rightharpoonup> bytes) \<Rightarrow> ManifestFile \<Rightarrow> bytes result" where
  "restore_file crc32 blake3 enc directory mf =
     bind_result (map_results (restore_page crc32 blake3 enc directory) (mf_pages mf)) (\<lambda>parts. Inr (concat parts))"

section \<open>The import invariant\<close>

definition page_in :: "(bytes \<Rightarrow> page_hash) \<Rightarrow> bytes set \<Rightarrow> PlainPage \<Rightarrow> bool" where
  "page_in blake3 B p \<longleftrightarrow> page_ok p \<and> plain_hash p = blake3 (plain_bytes p) \<and> plain_bytes p \<in> B"

definition pack_serves ::
  "(bytes \<Rightarrow> 32 word) \<Rightarrow> (bytes \<Rightarrow> page_hash) \<Rightarrow> PackEncryption option \<Rightarrow> bytes set \<Rightarrow> bytes \<Rightarrow> PackEntry list \<Rightarrow> bool" where
  "pack_serves crc32 blake3 enc B content es \<longleftrightarrow>
     (\<exists>r. open_inner crc32 blake3 content enc True = Inr r \<and> reader_entries r = es \<and>
        (\<forall>e\<in>set es. \<exists>d. read_page crc32 blake3 r (entry_hash e) = Inr d \<and> plain_bytes (frame_page d) \<in> B))"

definition holds_page :: "ImportState \<Rightarrow> page_hash \<Rightarrow> bool" where
  "holds_page s h \<longleftrightarrow> im_locations s h \<noteq> None \<or> writer_has s h"

definition pack_names_distinct :: "ImportState \<Rightarrow> bool" where
  "pack_names_distinct s \<longleftrightarrow> distinct (map completed_name (im_packs s))"

definition locations_ok :: "CompletedPack list \<Rightarrow> (page_hash \<rightharpoonup> nat \<times> PackEntry) \<Rightarrow> bool" where
  "locations_ok packs m \<longleftrightarrow>
     (\<forall>h i e. m h = Some (i, e) \<longrightarrow> i < length packs \<and> e \<in> set (completed_entries (packs ! i)) \<and> entry_hash e = h)"

definition writer_ok ::
  "(bytes \<Rightarrow> 32 word) \<Rightarrow> (bytes \<Rightarrow> page_hash) \<Rightarrow> bytes set \<Rightarrow> PackEncryption option \<Rightarrow> PackWriter option \<Rightarrow> bool" where
  "writer_ok crc32 blake3 B enc wo \<longleftrightarrow>
     (case wo of None \<Rightarrow> True
      | Some w \<Rightarrow> \<exists>ps. writer_inv crc32 blake3 w ps \<and> list_all (page_in blake3 B) ps \<and> writer_encryption w = enc)"

definition import_inv ::
  "(bytes \<Rightarrow> 32 word) \<Rightarrow> (bytes \<Rightarrow> page_hash) \<Rightarrow> bytes set \<Rightarrow> PackEncryption option \<Rightarrow> ImportState \<Rightarrow> bool" where
  "import_inv crc32 blake3 B enc s \<longleftrightarrow>
     list_all (\<lambda>c. pack_serves crc32 blake3 enc B (completed_file c) (completed_entries c) \<and>
        im_directory s (completed_name c) = Some (completed_file c)) (im_packs s) \<and>
     (\<forall>name. is_pack_name name \<longrightarrow> im_directory s name \<noteq> None \<longrightarrow> name \<in> completed_name ` set (im_packs s)) \<and>
     locations_ok (im_packs s) (im_locations s) \<and> writer_ok crc32 blake3 B enc (im_writer s)"

text \<open>One step of the import: the pack list only grows, and as long as no two packs get the same name the
  invariant is kept and no page is lost.\<close>

definition advances ::
  "(bytes \<Rightarrow> 32 word) \<Rightarrow> (bytes \<Rightarrow> page_hash) \<Rightarrow> bytes set \<Rightarrow> PackEncryption option \<Rightarrow> ImportState \<Rightarrow> ImportState \<Rightarrow> bool" where
  "advances crc32 blake3 B enc s s' \<longleftrightarrow>
     (\<exists>cs. im_packs s' = im_packs s @ cs) \<and>
     (import_inv crc32 blake3 B enc s \<and> pack_names_distinct s' \<longrightarrow>
        import_inv crc32 blake3 B enc s' \<and> (\<forall>h. holds_page s h \<longrightarrow> holds_page s' h))"

lemma advances_refl: "advances crc32 blake3 B enc s s"
  by (simp add: advances_def)

lemma advances_trans:
  assumes "advances crc32 blake3 B enc a b" "advances crc32 blake3 B enc b c"
  shows "advances crc32 blake3 B enc a c"
proof -
  have "pack_names_distinct c \<Longrightarrow> pack_names_distinct b" using assms(2) by (auto simp: advances_def pack_names_distinct_def)
  then show ?thesis using assms unfolding advances_def by (metis append_assoc)
qed

lemma advances_same:
  assumes "im_packs s' = im_packs s" "im_directory s' = im_directory s" "im_locations s' = im_locations s" "im_writer s' = im_writer s"
  shows "advances crc32 blake3 B enc s s'"
  using assms by (simp add: advances_def import_inv_def holds_page_def writer_has_def)

lemma insert_locations_cases:
  "insert_locations i es m h = Some (j, e) \<Longrightarrow> (j = i \<and> e \<in> set es \<and> entry_hash e = h) \<or> m h = Some (j, e)"
proof (induction es arbitrary: m)
  case (Cons x es)
  from Cons.prems have "insert_locations i es (m(entry_hash x \<mapsto> (i, x))) h = Some (j, e)" by simp
  from Cons.IH [OF this] show ?case by (auto split: if_splits)
qed simp

lemma insert_locations_None: "insert_locations i es m h = None \<longleftrightarrow> m h = None \<and> h \<notin> entry_hash ` set es"
proof (induction es arbitrary: m)
  case (Cons x es)
  show ?case unfolding insert_locations.simps Cons.IH by auto
qed simp

lemma hex_ascii: "list_all (\<lambda>b. 0x20 \<le> b \<and> b < 0x7F) (encode_canonical_hex bs)"
proof -
  have t: "list_all (\<lambda>b. 0x20 \<le> b \<and> b < (0x7F :: byte)) HEX_CHARS" by code_simp
  have "0x20 \<le> HEX_CHARS ! unat v \<and> HEX_CHARS ! unat v < 0x7F" if "is_nibble v" for v
    using t that by (auto simp: list_all_length is_nibble_unat HEX_CHARS_def)
  then show ?thesis by (induction bs) (simp_all add: nibble_parts)
qed

lemma pack_name_ascii: "list_all (\<lambda>b. 0x20 \<le> b \<and> b < 0x7F) (pack_name h)"
  unfolding pack_name_def list_all_append using hex_ascii by (simp add: of_char_def)

lemma pack_name_is_pack: "is_pack_name (pack_name h)"
proof -
  have "is_ascii (pack_name h)"
    using pack_name_ascii [of h] by (auto simp: is_ascii_def list_all_iff word_less_nat_alt)
  then show ?thesis by (simp add: utf8_chars_ascii is_pack_name_def) (simp add: pack_name_def)
qed

lemma page_at_mem: "page_at ps h = Some p \<Longrightarrow> p \<in> set ps \<and> plain_hash p = h"
  by (auto simp: page_at_def find_Some_iff)

lemma sealed_pack_serves:
  assumes inv: "writer_inv crc32 blake3 w ps" and u: "writer_position w + 64 * length (writer_entries w) + 128 \<le> u64_max"
    and B: "list_all (page_in blake3 B) ps"
  shows "pack_serves crc32 blake3 (writer_encryption w) B (sealed_pack crc32 blake3 w) (sort_key entry_hash (writer_entries w))"
proof -
  obtain r where r: "open_inner crc32 blake3 (sealed_pack crc32 blake3 w) (writer_encryption w) True = Inr r"
    "reader_file r = sealed_pack crc32 blake3 w" "reader_entries r = sort_key entry_hash (writer_entries w)"
    "reader_encryption r = writer_encryption w" "reader_pack_id r = writer_pack_id w"
    using open_sealed_pack [OF inv u, of "writer_encryption w"] by simp
  have "\<exists>d. read_page crc32 blake3 r (entry_hash e) = Inr d \<and> plain_bytes (frame_page d) \<in> B"
    if "e \<in> set (writer_entries w)" for e
  proof -
    have "entries_by_hash (writer_entries w) (entry_hash e) \<noteq> None" using that by (auto simp: entries_by_hash_None)
    moreover have "rel_option (serves crc32 blake3 (writer_encryption w) (writer_pack_id w) (staged_file w))
        (entries_by_hash (writer_entries w) (entry_hash e)) (page_at ps (entry_hash e))"
      using inv unfolding writer_inv_def serves_all_def by blast
    ultimately obtain p where p: "page_at ps (entry_hash e) = Some p" by (auto simp: option_rel_Some1)
    then show ?thesis
      using read_sealed [OF inv r(2,3,4,5), of "entry_hash e"] page_at_mem [OF p] B by (auto simp: list_all_iff page_in_def)
  qed
  then show ?thesis using r(1,3) unfolding pack_serves_def by (intro exI [of _ r]) simp
qed

section \<open>Steps of the import\<close>

lemma writer_has_entry:
  assumes "writer_inv crc32 blake3 w ps"
  shows "contains_page w h \<longleftrightarrow> h \<in> entry_hash ` set (writer_entries w)"
proof -
  have "known_pages w = entries_by_hash (writer_entries w)" using assms unfolding writer_inv_def by blast
  then show ?thesis using entries_by_hash_None [of "writer_entries w" h] by (auto simp: contains_page_def)
qed

lemma finish_active_inv:
  assumes f: "finish_active crc32 blake3 s w = Inr s'" and w: "im_writer s = Some w"
    and inv: "import_inv crc32 blake3 B enc s" and d: "pack_names_distinct s'"
  shows "import_inv crc32 blake3 B enc s'" "holds_page s h \<Longrightarrow> holds_page s' h"
proof -
  obtain c where c: "finish crc32 blake3 (im_directory s) w = Inr c"
    and s': "s' = s\<lparr>im_writer := None, im_locations := insert_locations (length (im_packs s)) (completed_entries c) (im_locations s),
              im_packs := im_packs s @ [c], im_directory := (im_directory s)(completed_name c \<mapsto> completed_file c)\<rparr>"
    using f by (auto simp: finish_active_def bind_result_eq_Inr Let_def)
  obtain ps where ps: "writer_inv crc32 blake3 w ps" "list_all (page_in blake3 B) ps" "writer_encryption w = enc"
    using inv w by (auto simp: import_inv_def writer_ok_def)
  note fin = finish_Inr [OF c ps(1)]
  have new: "completed_name c \<notin> completed_name ` set (im_packs s)" using d by (simp add: s' pack_names_distinct_def)
  then have fresh: "im_directory s (pack_name (blake3 (sealed_pack crc32 blake3 w))) = None"
    using inv pack_name_is_pack fin(3) by (metis import_inv_def)
  have "completed_file c = sealed_pack crc32 blake3 w"
    using c finish_seals [where existing = "im_directory s", OF ps(1) fin(2,1) fresh] by auto
  then have "pack_serves crc32 blake3 enc B (completed_file c) (completed_entries c)"
    using sealed_pack_serves [OF ps(1) fin(2) ps(2)] ps(3) fin(4) by simp
  moreover have "list_all (\<lambda>x. pack_serves crc32 blake3 enc B (completed_file x) (completed_entries x) \<and>
      im_directory s' (completed_name x) = Some (completed_file x)) (im_packs s)"
  proof -
    have "completed_name x \<noteq> completed_name c" if "x \<in> set (im_packs s)" for x using new that by (metis imageI)
    then show ?thesis using inv by (simp add: import_inv_def list_all_iff s')
  qed
  moreover have "locations_ok (im_packs s @ [c]) (im_locations s')"
    using inv by (fastforce simp: import_inv_def locations_ok_def s' nth_append dest!: insert_locations_cases)
  ultimately show "import_inv crc32 blake3 B enc s'"
    using inv by (auto simp: import_inv_def s' writer_ok_def)
  show "holds_page s' h" if "holds_page s h"
    using that w writer_has_entry [OF ps(1), of h] fin(4)
    by (auto simp: holds_page_def writer_has_def s' insert_locations_None)
qed

lemma finish_active_advances:
  assumes "finish_active crc32 blake3 s w = Inr s'" "im_writer s = Some w"
  shows "advances crc32 blake3 B enc s s'"
proof -
  have "\<exists>cs. im_packs s' = im_packs s @ cs" using assms(1) by (auto simp: finish_active_def bind_result_eq_Inr Let_def)
  then show ?thesis using finish_active_inv [OF assms] unfolding advances_def by blast
qed

lemma append_page_contains:
  assumes "append_page crc32 blake3 w random p = Inr (w', e)"
  shows "contains_page w' (plain_hash p)" "contains_page w h \<Longrightarrow> contains_page w' h"
  using assms by (auto simp: append_page_def contains_page_def bind_result_eq_Inr Let_def split: option.splits if_splits)

lemma set_writer_inv:
  assumes "import_inv crc32 blake3 B enc s" "writer_inv crc32 blake3 w ps" "list_all (page_in blake3 B) ps" "writer_encryption w = enc"
  shows "import_inv crc32 blake3 B enc (s\<lparr>im_writer := Some w\<rparr>)"
  using assms by (auto simp: import_inv_def writer_ok_def)

definition random_ok :: "ImportEnv \<Rightarrow> bool" where
  "random_ok env \<longleftrightarrow> (\<forall>k b. env_random env k = Some b \<longrightarrow> NONCE_LENGTH \<le> length b \<and> take 16 b \<noteq> zeros 16)"

lemma append_advances:
  assumes a: "append_page crc32 blake3 w random p = Inr (w', e)" and p: "page_in blake3 B p" and r: "nonce_ok random"
    and w: "im_writer s = Some w \<or> (im_writer s = None \<and> writer_inv crc32 blake3 w [] \<and> writer_encryption w = enc)"
  shows "advances crc32 blake3 B enc s (s\<lparr>im_writer := Some w'\<rparr>)"
proof -
  have "import_inv crc32 blake3 B enc (s\<lparr>im_writer := Some w'\<rparr>)" if inv: "import_inv crc32 blake3 B enc s"
  proof -
    obtain ps where ps: "writer_inv crc32 blake3 w ps" "list_all (page_in blake3 B) ps" "writer_encryption w = enc"
      using w inv by (auto simp: import_inv_def writer_ok_def)
    have "writer_inv crc32 blake3 w' (ps @ [p])" using writer_inv_append [OF ps(1) a _ r] p by (simp add: page_in_def)
    then show ?thesis using set_writer_inv [OF inv] ps p append_page_keeps(1) [OF a] by simp
  qed
  moreover have "holds_page s h \<Longrightarrow> holds_page (s\<lparr>im_writer := Some w'\<rparr>) h" for h
    using w append_page_contains(2) [OF a] by (auto simp: holds_page_def writer_has_def)
  ultimately show ?thesis by (auto simp: advances_def)
qed

lemma import_new_page_advances:
  assumes i: "import_new_page crc32 blake3 env plan s p = Inr s'" and p: "page_in blake3 B p"
    and r: "random_ok env" and k: "key_ok (plan_encryption plan)"
  shows "advances crc32 blake3 B (plan_encryption plan) s s'" "writer_has s' (plain_hash p)" "im_file_pages s' = im_file_pages s"
proof -
  obtain roll s1 w w' e where
    s1: "(case im_writer s of Some w \<Rightarrow> if roll then finish_active crc32 blake3 s w else Inr s | None \<Rightarrow> Inr s) = Inr s1"
    and w: "(case im_writer s1 of Some w \<Rightarrow> Inr w
       | None \<Rightarrow> create_inner (pack_options plan) (plan_encryption plan) (map_option (take 16) (env_random env (im_draws s1)))) = Inr w"
    and a: "append_page crc32 blake3 w (map_option (take NONCE_LENGTH) (env_random env (Suc (im_draws s1)))) p = Inr (w', e)"
    and s': "s' = s1\<lparr>im_writer := Some w', im_draws := im_draws s1 + 2\<rparr>"
    using i by (auto simp: import_new_page_def bind_result_eq_Inr)
  have 1: "advances crc32 blake3 B (plan_encryption plan) s s1" "im_file_pages s1 = im_file_pages s"
    using s1 finish_active_advances
    by (auto simp: advances_refl finish_active_def bind_result_eq_Inr Let_def split: option.splits if_splits)
  have n: "nonce_ok (map_option (take NONCE_LENGTH) (env_random env k))" for k
    using r by (auto simp: random_ok_def nonce_ok_def split: option.split)
  have "im_writer s1 = Some w \<or> (im_writer s1 = None \<and> writer_inv crc32 blake3 w [] \<and> writer_encryption w = plan_encryption plan)"
  proof (cases "im_writer s1")
    case None
    then obtain b where b: "env_random env (im_draws s1) = Some b" "create_inner (pack_options plan) (plan_encryption plan) (Some (take 16 b)) = Inr w"
      using w by (auto simp: create_inner_def bind_result_eq_Inr)
    have "writer_inv crc32 blake3 w []"
      by (rule writer_inv_create [OF b(2)]) (use r b(1) k in \<open>fastforce simp: random_ok_def NONCE_LENGTH_def\<close>)+
    moreover have "writer_encryption w = plan_encryption plan" using b(2) by (auto simp: create_inner_def bind_result_eq_Inr)
    ultimately show ?thesis using None by simp
  qed (use w in simp)
  from append_advances [OF a p n this] have "advances crc32 blake3 B (plan_encryption plan) s1 (s1\<lparr>im_writer := Some w'\<rparr>)" .
  moreover have "advances crc32 blake3 B (plan_encryption plan) (s1\<lparr>im_writer := Some w'\<rparr>) s'"
    by (rule advances_same) (simp_all add: s')
  ultimately show "advances crc32 blake3 B (plan_encryption plan) s s'" using 1(1) advances_trans by blast
  show "writer_has s' (plain_hash p)" using append_page_contains(1) [OF a] by (simp add: writer_has_def s')
  show "im_file_pages s' = im_file_pages s" using 1(2) by (simp add: s')
qed

lemma import_page_advances:
  assumes i: "import_page crc32 blake3 env plan s p = Inr s'" and p: "page_in blake3 B p"
    and r: "random_ok env" and k: "key_ok (plan_encryption plan)"
  shows "advances crc32 blake3 B (plan_encryption plan) s s'" "holds_page s' (plain_hash p)" "im_file_pages s' = im_file_pages s"
proof -
  let ?s = "s\<lparr>im_reused := Suc (im_reused s)\<rparr>"
  have same: "advances crc32 blake3 B (plan_encryption plan) s ?s" by (rule advances_same) simp_all
  consider (new) "import_new_page crc32 blake3 env plan s p = Inr s'"
    | (kept) "holds_page s (plain_hash p)" "s' = ?s"
    | (again) w w' e where "im_writer s = Some w" "append_page crc32 blake3 w None p = Inr (w', e)" "s' = ?s\<lparr>im_writer := Some w'\<rparr>"
  proof (cases "holds_page s (plain_hash p)")
    case False
    then show thesis using i new by (simp add: import_page_def holds_page_def)
  next
    case True
    then have "(case im_writer s of None \<Rightarrow> Inr ?s | Some w \<Rightarrow> if contains_page w (plain_hash p)
        then bind_result (append_page crc32 blake3 w None p) (\<lambda>(w', _). Inr (?s\<lparr>im_writer := Some w'\<rparr>)) else Inr ?s) = Inr s'"
      using i by (simp add: import_page_def holds_page_def Let_def)
    then show thesis using True kept again by (auto simp: bind_result_eq_Inr split: option.splits if_splits)
  qed
  then have "advances crc32 blake3 B (plan_encryption plan) s s' \<and> holds_page s' (plain_hash p) \<and> im_file_pages s' = im_file_pages s"
  proof cases
    case new
    then show ?thesis using import_new_page_advances [OF new p r k] by (simp add: holds_page_def)
  next
    case kept
    then show ?thesis using same by (simp add: holds_page_def writer_has_def)
  next
    case (again w w' e)
    have n: "nonce_ok None" by (simp add: nonce_ok_def)
    have "im_writer ?s = Some w \<or> (im_writer ?s = None \<and> writer_inv crc32 blake3 w [] \<and> writer_encryption w = plan_encryption plan)"
      using again(1) by simp
    from append_advances [OF again(2) p n this] have "advances crc32 blake3 B (plan_encryption plan) ?s s'" by (simp add: again(3))
    from advances_trans [OF same this] show ?thesis
      using append_page_contains(1) [OF again(2)] by (simp add: holds_page_def writer_has_def again(3))
  qed
  then show "advances crc32 blake3 B (plan_encryption plan) s s'" "holds_page s' (plain_hash p)" "im_file_pages s' = im_file_pages s"
    by auto
qed

lemma advances_packs: "advances crc32 blake3 B enc s s' \<Longrightarrow> pack_names_distinct s' \<Longrightarrow> pack_names_distinct s"
  by (auto simp: advances_def pack_names_distinct_def)

lemma advances_apply:
  assumes "advances crc32 blake3 B enc s s'" "import_inv crc32 blake3 B enc s" "pack_names_distinct s'"
  shows "import_inv crc32 blake3 B enc s'" "holds_page s h \<Longrightarrow> holds_page s' h"
  using assms unfolding advances_def by blast+

lemma import_list_advances:
  assumes "import_list crc32 blake3 env plan s ps = Inr s'" "list_all (page_in blake3 B) ps" "random_ok env" "key_ok (plan_encryption plan)"
  shows "advances crc32 blake3 B (plan_encryption plan) s s' \<and> im_file_pages s' = im_file_pages s \<and>
    (import_inv crc32 blake3 B (plan_encryption plan) s \<and> pack_names_distinct s' \<longrightarrow> (\<forall>p\<in>set ps. holds_page s' (plain_hash p)))"
  using assms
proof (induction crc32 blake3 env plan s ps rule: import_list.induct)
  case (1 crc32 blake3 env plan s)
  then show ?case by (simp add: advances_refl)
next
  case (2 crc32 blake3 env plan s p ps)
  then obtain s1 where s1: "import_page crc32 blake3 env plan s p = Inr s1" "import_list crc32 blake3 env plan s1 ps = Inr s'"
    by (auto simp: bind_result_eq_Inr)
  have pp: "page_in blake3 B p" using 2(3) by simp
  note a = import_page_advances [OF s1(1) pp 2(4,5)]
  have b: "advances crc32 blake3 B (plan_encryption plan) s1 s'" "im_file_pages s' = im_file_pages s1"
    "import_inv crc32 blake3 B (plan_encryption plan) s1 \<and> pack_names_distinct s' \<longrightarrow> (\<forall>p\<in>set ps. holds_page s' (plain_hash p))"
    using 2(1) [OF s1(2)] 2(3,4,5) by auto
  have "\<forall>q\<in>set (p # ps). holds_page s' (plain_hash q)"
    if inv: "import_inv crc32 blake3 B (plan_encryption plan) s" and d: "pack_names_distinct s'"
  proof -
    have "import_inv crc32 blake3 B (plan_encryption plan) s1" using advances_apply(1) [OF a(1) inv advances_packs [OF b(1) d]] .
    then show ?thesis using b(3) d a(2) advances_apply(2) [OF b(1) _ d] by simp
  qed
  then show ?case using a(1,3) b(1,2) advances_trans by auto
qed

section \<open>Whole files\<close>

definition file_chunks :: "ImportPlan \<Rightarrow> SourceFile \<Rightarrow> bytes list" where
  "file_chunks plan source = page_chunks (plan_page_size plan) (take (fp_len (src_before source)) (src_bytes source))"

definition sources_in :: "ImportEnv \<Rightarrow> ImportPlan \<Rightarrow> bytes set \<Rightarrow> bool" where
  "sources_in env plan B \<longleftrightarrow> (\<forall>f\<in>set (plan_files plan). case env_source env (relative_path f) of
      Inl _ \<Rightarrow> True | Inr source \<Rightarrow> set (file_chunks plan source) \<subseteq> B)"

definition file_stored :: "(bytes \<Rightarrow> page_hash) \<Rightarrow> ImportEnv \<Rightarrow> ImportPlan \<Rightarrow> ImportState \<Rightarrow> PlannedFile \<Rightarrow> bool" where
  "file_stored blake3 env plan s f \<longleftrightarrow> (is_virtual (plan_class f) \<longrightarrow>
     (\<exists>source. env_source env (relative_path f) = Inr source \<and> fp_len (src_before source) \<le> length (src_bytes source) \<and>
        0 < plan_page_size plan \<and> im_file_pages s (relative_path f) = Some (map blake3 (file_chunks plan source)) \<and>
        (\<forall>c\<in>set (file_chunks plan source). holds_page s (blake3 c))))"

lemma chunk_page_in:
  assumes "set (file_chunks plan source) \<subseteq> B" "plan_page_size plan \<le> u32_max" "c \<in> set (file_chunks plan source)"
  shows "page_in blake3 B (plain_page_from_bytes blake3 c)"
proof -
  have "c \<noteq> []" "length c \<le> plan_page_size plan" using page_chunks_bounds assms(3) unfolding file_chunks_def by blast+
  then show ?thesis using assms by (auto simp: page_in_def page_ok_def plain_page_from_bytes_def)
qed

lemma import_virtual_file_stored:
  assumes v: "import_virtual_file crc32 blake3 env plan (relative_path f) source s = Some (Inr s')"
    and src: "env_source env (relative_path f) = Inr source" "set (file_chunks plan source) \<subseteq> B"
    and r: "random_ok env" and k: "key_ok (plan_encryption plan)"
  shows "advances crc32 blake3 B (plan_encryption plan) s s'"
    "import_inv crc32 blake3 B (plan_encryption plan) s \<Longrightarrow> pack_names_distinct s' \<Longrightarrow> file_stored blake3 env plan s' f"
    "path \<noteq> relative_path f \<Longrightarrow> im_file_pages s' path = im_file_pages s path"
proof -
  let ?s = "s\<lparr>im_virtual := im_virtual s + src_len source, im_virtual_count := im_virtual_count s + 1\<rparr>"
  let ?ps = "map (plain_page_from_bytes blake3) (file_chunks plan source)"
  obtain s1 where s1: "import_list crc32 blake3 env plan ?s ?ps = Inr s1" "fp_len (src_before source) \<le> length (src_bytes source)"
    "0 < plan_page_size plan" and n: "plan_page_size plan \<le> u32_max" and s': "s' = s1\<lparr>im_file_pages := (im_file_pages s1)(relative_path f \<mapsto> map plain_hash ?ps)\<rparr>"
    using import_virtual_file_cases [of crc32 blake3 env plan "relative_path f" source s] v by (auto simp: file_chunks_def)
  have ps: "list_all (page_in blake3 B) ?ps" using chunk_page_in [OF src(2) n] by (simp add: list_all_iff)
  have hs: "map plain_hash ?ps = map blake3 (file_chunks plan source)" by (simp add: plain_page_from_bytes_def)
  have a0: "advances crc32 blake3 B (plan_encryption plan) s ?s" by (rule advances_same) simp_all
  note l = import_list_advances [OF s1(1) ps r k]
  have a1: "advances crc32 blake3 B (plan_encryption plan) s1 s'" by (rule advances_same) (simp_all add: s')
  show "advances crc32 blake3 B (plan_encryption plan) s s'" using advances_trans [OF advances_trans [OF a0 conjunct1 [OF l]] a1] .
  show "im_file_pages s' path = im_file_pages s path" if "path \<noteq> relative_path f" using that l by (simp add: s')
  show "file_stored blake3 env plan s' f"
    if inv: "import_inv crc32 blake3 B (plan_encryption plan) s" and d: "pack_names_distinct s'"
  proof -
    have d1: "pack_names_distinct s1" using d by (simp add: s' pack_names_distinct_def)
    have "import_inv crc32 blake3 B (plan_encryption plan) ?s" using inv by (simp add: import_inv_def)
    then have "\<forall>p\<in>set ?ps. holds_page s1 (plain_hash p)" using l d1 by blast
    moreover have "plain_hash (plain_page_from_bytes blake3 c) = blake3 c" for c by (simp add: plain_page_from_bytes_def)
    moreover have "holds_page s' h \<longleftrightarrow> holds_page s1 h" for h by (simp add: holds_page_def writer_has_def s')
    ultimately have "\<forall>c\<in>set (file_chunks plan source). holds_page s' (blake3 c)" by simp
    moreover have "im_file_pages s' (relative_path f) = Some (map blake3 (file_chunks plan source))" unfolding s' using hs by simp
    ultimately show ?thesis using src(1) s1(2,3) unfolding file_stored_def by blast
  qed
qed

lemma import_file_stored:
  assumes i: "import_file crc32 blake3 env plan k f s = Some (Inr s')" and f: "f \<in> set (plan_files plan)"
    and src: "sources_in env plan B" and r: "random_ok env" and k: "key_ok (plan_encryption plan)"
  shows "advances crc32 blake3 B (plan_encryption plan) s s'"
    "import_inv crc32 blake3 B (plan_encryption plan) s \<Longrightarrow> pack_names_distinct s' \<Longrightarrow> file_stored blake3 env plan s' f"
    "path \<noteq> relative_path f \<Longrightarrow> im_file_pages s' path = im_file_pages s path"
proof -
  obtain source where source: "env_source env (relative_path f) = Inr source"
    using i by (auto simp: import_file_def split: if_splits sum.splits)
  have B: "set (file_chunks plan source) \<subseteq> B" using src f source by (force simp: sources_in_def)
  let ?s = "s\<lparr>im_logical := im_logical s + src_len source, im_sizes := (im_sizes s)(relative_path f \<mapsto> src_len source)\<rparr>"
  have a0: "advances crc32 blake3 B (plan_encryption plan) s ?s" by (rule advances_same) simp_all
  have inv0: "import_inv crc32 blake3 B (plan_encryption plan) s \<Longrightarrow> import_inv crc32 blake3 B (plan_encryption plan) ?s"
    by (simp add: import_inv_def)
  have "advances crc32 blake3 B (plan_encryption plan) s s' \<and>
    (import_inv crc32 blake3 B (plan_encryption plan) s \<longrightarrow> pack_names_distinct s' \<longrightarrow> file_stored blake3 env plan s' f) \<and>
    (path \<noteq> relative_path f \<longrightarrow> im_file_pages s' path = im_file_pages s path)"
  proof (cases "is_virtual (plan_class f)")
    case True
    then have v: "import_virtual_file crc32 blake3 env plan (relative_path f) source ?s = Some (Inr s')"
      using i source by (auto simp: import_file_def Let_def checked_add64_def split: if_splits)
    note st = import_virtual_file_stored [OF v source B r k]
    then show ?thesis using advances_trans [OF a0 st(1)] inv0 by auto
  next
    case False
    then have s': "s' = ?s\<lparr>im_native_count := im_native_count s + 1\<rparr>"
      using i source by (auto simp: import_file_def Let_def checked_add64_def split: if_splits)
    have "advances crc32 blake3 B (plan_encryption plan) s s'" by (rule advances_same) (simp_all add: s')
    then show ?thesis using False by (simp add: file_stored_def s')
  qed
  then show "advances crc32 blake3 B (plan_encryption plan) s s'"
    "import_inv crc32 blake3 B (plan_encryption plan) s \<Longrightarrow> pack_names_distinct s' \<Longrightarrow> file_stored blake3 env plan s' f"
    "path \<noteq> relative_path f \<Longrightarrow> im_file_pages s' path = im_file_pages s path" by auto
qed

lemma file_stored_keeps:
  assumes "file_stored blake3 env plan s f" "\<And>h. holds_page s h \<Longrightarrow> holds_page s' h"
    "im_file_pages s' (relative_path f) = im_file_pages s (relative_path f)"
  shows "file_stored blake3 env plan s' f"
  using assms unfolding file_stored_def by fastforce

lemma import_files_stored:
  assumes "import_files crc32 blake3 env plan k fs s = Some (Inr s')" "set fs \<subseteq> set (plan_files plan)"
    "distinct (map relative_path (ds @ fs))" "sources_in env plan B" "random_ok env"
    "key_ok (plan_encryption plan)"
  shows "advances crc32 blake3 B (plan_encryption plan) s s' \<and>
    (import_inv crc32 blake3 B (plan_encryption plan) s \<and> pack_names_distinct s' \<and> (\<forall>f\<in>set ds. file_stored blake3 env plan s f) \<longrightarrow>
      (\<forall>f\<in>set (ds @ fs). file_stored blake3 env plan s' f))"
  using assms(1-3)
proof (induction fs arbitrary: k s ds)
  case Nil
  then show ?case by (simp add: advances_refl)
next
  case (Cons f fs)
  obtain s1 where s1: "import_file crc32 blake3 env plan k f s = Some (Inr s1)" "import_files crc32 blake3 env plan (Suc k) fs s1 = Some (Inr s')"
  proof (cases "import_file crc32 blake3 env plan k f s")
    case (Some r)
    then show thesis using Cons.prems(1) that by (cases r) auto
  qed (use Cons.prems(1) in simp)
  have f: "f \<in> set (plan_files plan)" "set fs \<subseteq> set (plan_files plan)" using Cons.prems(2) by auto
  note one = import_file_stored [OF s1(1) f(1) assms(4-6)]
  have "distinct (map relative_path ((ds @ [f]) @ fs))" using Cons.prems(3) by simp
  note rest = Cons.IH [OF s1(2) f(2) this]
  have "\<forall>g\<in>set (ds @ f # fs). file_stored blake3 env plan s' g"
    if inv: "import_inv crc32 blake3 B (plan_encryption plan) s" and d: "pack_names_distinct s'"
      and ds: "\<forall>g\<in>set ds. file_stored blake3 env plan s g"
  proof -
    have d1: "pack_names_distinct s1" using advances_packs d rest by blast
    have "file_stored blake3 env plan s1 g" if "g \<in> set ds" for g
    proof (rule file_stored_keeps)
      show "file_stored blake3 env plan s g" using ds that by blast
      show "holds_page s h \<Longrightarrow> holds_page s1 h" for h using advances_apply(2) [OF one(1) inv d1] .
      show "im_file_pages s1 (relative_path g) = im_file_pages s (relative_path g)"
      proof (rule one(3))
        have "relative_path f \<notin> relative_path ` set ds" using Cons.prems(3) by simp
        then show "relative_path g \<noteq> relative_path f" using that by (metis imageI)
      qed
    qed
    moreover have "file_stored blake3 env plan s1 f" using one(2) inv d1 by blast
    ultimately have "\<forall>g\<in>set (ds @ [f]). file_stored blake3 env plan s1 g" by auto
    then show ?thesis using rest advances_apply(1) [OF one(1) inv d1] d by auto
  qed
  then show ?case using advances_trans [OF one(1)] rest by blast
qed

section \<open>The starting state and the final manifest\<close>

lemma distinct_paths_map: "distinct_paths seen fs \<Longrightarrow> distinct (map relative_path fs) \<and> (\<forall>f\<in>set fs. fold_path (relative_path f) \<notin> seen)"
  by (induction seen fs rule: distinct_paths.induct) force+

lemma bind_result_assoc: "bind_result (bind_result r f) g = bind_result r (\<lambda>x. bind_result (f x) g)"
  by (cases r) simp_all

lemma bind_result_if: "bind_result (if c then a else b) g = (if c then bind_result a g else bind_result b g)"
  by simp

lemma open_inner_key_eq:
  "open_inner crc32 blake3 bs enc' v = bind_result (open_inner crc32 blake3 bs enc v) (\<lambda>r. Inr (r\<lparr>reader_encryption := enc'\<rparr>))"
  unfolding open_inner_def Let_def bind_result_assoc bind_result_if bind_result_simps by (simp cong: if_cong)

lemma open_inner_key:
  "open_inner crc32 blake3 bs enc v = Inr r \<Longrightarrow> open_inner crc32 blake3 bs enc' v = Inr (r\<lparr>reader_encryption := enc'\<rparr>)"
  using open_inner_key_eq [of crc32 blake3 bs enc' v enc] by simp

definition directory_ok ::
  "(bytes \<Rightarrow> 32 word) \<Rightarrow> (bytes \<Rightarrow> page_hash) \<Rightarrow> PackEncryption option \<Rightarrow> bytes set \<Rightarrow> (bytes \<times> bytes) list \<Rightarrow> bool" where
  "directory_ok crc32 blake3 enc B directory \<longleftrightarrow> distinct (map fst directory) \<and>
     (\<forall>(name, content)\<in>set directory. is_pack_name name \<longrightarrow>
        (case open_inner crc32 blake3 content enc True of Inl _ \<Rightarrow> True
         | Inr r \<Rightarrow> pack_serves crc32 blake3 enc B content (reader_entries r)))"

lemma load_packs_serve:
  assumes "load_packs crc32 blake3 b files = Inr cs"
    "\<forall>(name, content)\<in>set files. case open_inner crc32 blake3 content enc True of Inl _ \<Rightarrow> True
         | Inr r \<Rightarrow> pack_serves crc32 blake3 enc B content (reader_entries r)"
  shows "map (\<lambda>c. (completed_name c, completed_file c)) cs = files \<and>
    list_all (\<lambda>c. pack_serves crc32 blake3 enc B (completed_file c) (completed_entries c)) cs"
  using assms
proof (induction crc32 blake3 b files arbitrary: cs rule: load_packs.induct)
  case (2 crc32 blake3 b name content files)
  then obtain r rest where r: "open_inner crc32 blake3 content None True = Inr r" "load_packs crc32 blake3 b files = Inr rest"
    "cs = \<lparr>completed_name = name, completed_file = content, completed_hash = the (object_hash r), byte_length = file_length r,
      completed_entries = reader_entries r\<rparr> # rest" "reader_encrypted r = b"
    by (auto simp: bind_result_eq_Inr split: if_splits)
  moreover have "pack_serves crc32 blake3 enc B content (reader_entries r)"
    using 2(3) open_inner_key [OF r(1), of enc] by simp
  moreover have "\<not> reader_encrypted r \<noteq> b" using r(4) by simp
  ultimately show ?case using 2(1) [of r rest] 2(3) by auto
qed simp

lemma or_insert_cases:
  "or_insert_locations i es m h = Some (j, e) \<Longrightarrow> (j = i \<and> e \<in> set es \<and> entry_hash e = h) \<or> m h = Some (j, e)"
proof (induction es arbitrary: m)
  case (Cons x es)
  from Cons.prems have "or_insert_locations i es (if m (entry_hash x) = None then m(entry_hash x \<mapsto> (i, x)) else m) h = Some (j, e)" by simp
  from Cons.IH [OF this] show ?case by (auto split: if_splits)
qed simp

lemma initial_locations_cases:
  "initial_locations i cs m h = Some (j, e) \<Longrightarrow>
    (i \<le> j \<and> j < i + length cs \<and> e \<in> set (completed_entries (cs ! (j - i))) \<and> entry_hash e = h) \<or> m h = Some (j, e)"
proof (induction cs arbitrary: i m)
  case (Cons c cs)
  from Cons.prems have "initial_locations (Suc i) cs (or_insert_locations i (completed_entries c) m) h = Some (j, e)" by simp
  from Cons.IH [OF this] show ?case
    by (auto dest!: or_insert_cases simp: nth_Cons' Suc_diff_le)
qed simp

lemma initial_import_inv:
  assumes l: "load_verified_packs crc32 blake3 directory b = Inr packs" and d: "directory_ok crc32 blake3 enc B directory"
  shows "import_inv crc32 blake3 B enc (initial_import directory packs)"
proof -
  let ?fs = "sort_key fst (filter (\<lambda>(name, _). is_pack_name name) directory)"
  have c: "map (\<lambda>c. (completed_name c, completed_file c)) packs = ?fs"
    "list_all (\<lambda>c. pack_serves crc32 blake3 enc B (completed_file c) (completed_entries c)) packs"
    using load_packs_serve [of crc32 blake3 b ?fs packs enc B] l d by (auto simp: load_verified_packs_def directory_ok_def)
  have m: "(completed_name x, completed_file x) \<in> set directory" if "x \<in> set packs" for x
  proof -
    have "(completed_name x, completed_file x) \<in> set (map (\<lambda>c. (completed_name c, completed_file c)) packs)" using that by auto
    then show ?thesis unfolding c(1) by simp
  qed
  have "name \<in> completed_name ` set packs" if n: "is_pack_name name" and m: "map_of directory name \<noteq> None" for name
  proof -
    obtain content where "map_of directory name = Some content" using m by auto
    then have "(name, content) \<in> set ?fs" using n by (auto dest: map_of_SomeD)
    then have "(name, content) \<in> set (map (\<lambda>c. (completed_name c, completed_file c)) packs)" unfolding c(1) .
    then show ?thesis by auto
  qed
  moreover have "locations_ok packs (initial_locations 0 packs Map.empty)"
    by (auto simp: locations_ok_def dest: initial_locations_cases)
  ultimately show ?thesis
    using c(2) m d by (auto simp: import_inv_def initial_import_def writer_ok_def list_all_iff directory_ok_def)
qed

lemma read_page_hash:
  assumes "read_page crc32 blake3 r h = Inr d"
  shows "blake3 (plain_bytes (frame_page d)) = h"
proof -
  obtain e where d: "decode_entry_frame crc32 blake3 (slice (frame_offset e) (frame_length e) (reader_file r)) e (reader_encryption r) (reader_pack_id r) = Inr d"
    and h: "plain_hash (frame_page d) = h"
    using assms by (auto simp: read_page_def bind_result_eq_Inr split: if_splits)
  show ?thesis
  proof (cases "entry_encrypted e")
    case True
    then show ?thesis using d h by (auto simp: decode_entry_frame_def bind_result_eq_Inr decode_encrypted_frame_def split: if_splits)
  next
    case False
    then have "encode_plain_frame crc32 blake3 (frame_page d) = Inr (slice (frame_offset e) (frame_length e) (reader_file r))"
      using d plain_frame_encode_decode by (simp add: decode_entry_frame_def)
    then show ?thesis using h by (auto simp: encode_plain_frame_def split: if_splits)
  qed
qed

lemma restore_page_chunk:
  assumes inv: "import_inv crc32 blake3 B enc s" and B: "inj_on blake3 B" "c \<in> B"
    and mp: "manifest_page (im_packs s) (im_locations s) (blake3 c) = Inr mp"
  shows "restore_page crc32 blake3 enc (im_directory s) mp = Inr c"
proof -
  obtain i e where l: "im_locations s (blake3 c) = Some (i, e)" and m: "mp_object mp = completed_name (im_packs s ! i)" "mp_hash mp = blake3 c"
    using mp by (auto simp: manifest_page_def bind_result_eq_Inr Let_def opaque_id_def split: if_splits)
  have i: "i < length (im_packs s)" "e \<in> set (completed_entries (im_packs s ! i))" "entry_hash e = blake3 c"
    using inv l by (auto simp: import_inv_def locations_ok_def)
  have "im_packs s ! i \<in> set (im_packs s)" using i(1) by simp
  then have dir: "im_directory s (mp_object mp) = Some (completed_file (im_packs s ! i))"
    and ps: "pack_serves crc32 blake3 enc B (completed_file (im_packs s ! i)) (completed_entries (im_packs s ! i))"
    using inv unfolding m import_inv_def list_all_iff by blast+
  obtain r d where r: "open_inner crc32 blake3 (completed_file (im_packs s ! i)) enc True = Inr r"
    "read_page crc32 blake3 r (blake3 c) = Inr d" "plain_bytes (frame_page d) \<in> B"
    using ps i(2,3) unfolding pack_serves_def by fastforce
  have "plain_bytes (frame_page d) = c" using read_page_hash [OF r(2)] B r(3) by (auto dest: inj_onD)
  then show ?thesis using r(1,2) dir m by (simp add: restore_page_def)
qed

lemma restore_stored_file:
  assumes inv: "import_inv crc32 blake3 B enc s" and B: "inj_on blake3 B" "set (file_chunks plan source) \<subseteq> B"
    and f: "im_file_pages s (relative_path f) = Some (map blake3 (file_chunks plan source))" "0 < plan_page_size plan"
    and mf: "manifest_file s f = Inr mf"
  shows "restore_file crc32 blake3 enc (im_directory s) mf = Inr (take (fp_len (src_before source)) (src_bytes source))"
proof -
  have "list_all2 (\<lambda>h mp. manifest_page (im_packs s) (im_locations s) h = Inr mp) (map blake3 (file_chunks plan source)) (mf_pages mf)"
    using mf f(1) by (auto simp: manifest_file_def bind_result_eq_Inr map_results_all2)
  moreover have "list_all2 (\<lambda>c mp. restore_page crc32 blake3 enc (im_directory s) mp = Inr c) (file_chunks plan source) (mf_pages mf)"
  proof -
    have "file_chunks plan source ! i \<in> B" if "i < length (file_chunks plan source)" for i using B(2) that nth_mem by blast
    then show ?thesis using calculation restore_page_chunk [OF inv B(1)] by (simp add: list_all2_conv_all_nth)
  qed
  ultimately have "map_results (restore_page crc32 blake3 enc (im_directory s)) (mf_pages mf) = Inr (file_chunks plan source)"
    unfolding map_results_all2 by (simp add: list_all2_conv_all_nth)
  then show ?thesis using page_chunks_concat [OF f(2)] by (simp add: restore_file_def file_chunks_def)
qed

lemma import_local_inner_Inr:
  assumes "import_local_inner crc32 blake3 env directory plan allow_empty = Some (Inr (s, files))"
  obtains packs s1 where "distinct (map relative_path (plan_files plan))"
    "load_verified_packs crc32 blake3 directory (plan_encryption plan \<noteq> None) = Inr packs"
    "import_files crc32 blake3 env plan 0 (plan_files plan) (initial_import directory packs) = Some (Inr s1)"
    "(case im_writer s1 of None \<Rightarrow> Inr s1 | Some w \<Rightarrow> finish_active crc32 blake3 s1 w) = Inr s"
    "map_results (manifest_file s) (plan_files plan) = Inr files"
proof -
  obtain packs where p: "validate_plan env plan allow_empty = Inr ()"
      "load_verified_packs crc32 blake3 directory (plan_encryption plan \<noteq> None) = Inr packs"
    using assms by (auto simp: import_local_inner_def bind_result_eq_Inr split: sum.splits)
  obtain s1 where s1: "import_files crc32 blake3 env plan 0 (plan_files plan) (initial_import directory packs) = Some (Inr s1)"
      "(case im_writer s1 of None \<Rightarrow> Inr s1 | Some w \<Rightarrow> finish_active crc32 blake3 s1 w) = Inr s"
      "map_results (manifest_file s) (plan_files plan) = Inr files"
    using assms p by (auto simp: import_local_inner_def bind_result_eq_Inr bind_eq_Some_conv build_manifest_files_def)
  have "distinct (map relative_path (plan_files plan))"
    using p(1) distinct_paths_map by (fastforce simp: validate_plan_def bind_result_eq_Inr split: if_splits)
  then show thesis using that p(2) s1 by blast
qed

text \<open>C3: what is imported can be restored.  When an import succeeds, the manifest names the planned files
  in order, and for every virtual file the packs in the staging directory give back exactly the bytes
  the source file had when it was opened: following its manifest pages, every named pack is present and
  opens verified, every page is read back, and their concatenation is the file.  Pages shared between
  files, pages already present in packs of an earlier import, rollover to new packs and encryption are
  all included.  BLAKE3 is assumed collision-free on the pages involved, no two packs may have got the
  same content-addressed name, packs left by an earlier import must be readable, and random bytes are of
  the requested length and do not form the all-zero pack identity.\<close>

theorem import_restores:
  assumes imp: "import_local_inner crc32 blake3 env directory plan allow_empty = Some (Inr (s, files))"
    and r: "random_ok env" and k: "key_ok (plan_encryption plan)" and B: "inj_on blake3 B" "sources_in env plan B"
    and dir: "directory_ok crc32 blake3 (plan_encryption plan) B directory" and d: "pack_names_distinct s"
  shows "list_all2 (\<lambda>f mf. mf_path mf = relative_path f \<and> (is_virtual (plan_class f) \<longrightarrow>
      (\<exists>source. env_source env (relative_path f) = Inr source \<and> fp_len (src_before source) \<le> length (src_bytes source) \<and>
         restore_file crc32 blake3 (plan_encryption plan) (im_directory s) mf =
           Inr (take (fp_len (src_before source)) (src_bytes source))))) (plan_files plan) files"
proof -
  let ?inv = "import_inv crc32 blake3 B (plan_encryption plan)"
  obtain packs s1 where paths: "distinct (map relative_path ([] @ plan_files plan))"
    and l: "load_verified_packs crc32 blake3 directory (plan_encryption plan \<noteq> None) = Inr packs"
    and fs: "import_files crc32 blake3 env plan 0 (plan_files plan) (initial_import directory packs) = Some (Inr s1)"
    and last: "(case im_writer s1 of None \<Rightarrow> Inr s1 | Some w \<Rightarrow> finish_active crc32 blake3 s1 w) = Inr s"
    and files: "map_results (manifest_file s) (plan_files plan) = Inr files"
    using import_local_inner_Inr [OF imp] by (metis append_Nil)
  have inv0: "?inv (initial_import directory packs)" by (rule initial_import_inv [OF l dir])
  note st = import_files_stored [OF fs order_refl paths B(2) r k]
  have a: "advances crc32 blake3 B (plan_encryption plan) s1 s" "im_file_pages s = im_file_pages s1"
    using last finish_active_advances
    by (auto simp: advances_refl finish_active_def bind_result_eq_Inr Let_def split: option.splits)
  have d1: "pack_names_distinct s1" by (rule advances_packs [OF a(1) d])
  have inv1: "?inv s1" using advances_apply(1) [OF _ inv0 d1] st by blast
  have inv: "?inv s" by (rule advances_apply(1) [OF a(1) inv1 d])
  have "file_stored blake3 env plan s1 f" if "f \<in> set (plan_files plan)" for f using st inv0 d1 that by auto
  then have fin: "file_stored blake3 env plan s f" if "f \<in> set (plan_files plan)" for f
    using file_stored_keeps advances_apply(2) [OF a(1) inv1 d] a(2) that by metis
  have "mf_path mf = relative_path f \<and> (is_virtual (plan_class f) \<longrightarrow>
      (\<exists>source. env_source env (relative_path f) = Inr source \<and> fp_len (src_before source) \<le> length (src_bytes source) \<and>
         restore_file crc32 blake3 (plan_encryption plan) (im_directory s) mf =
           Inr (take (fp_len (src_before source)) (src_bytes source))))"
    if f: "f \<in> set (plan_files plan)" and mf: "manifest_file s f = Inr mf" for f mf
  proof (intro conjI impI)
    show "mf_path mf = relative_path f" using mf by (auto simp: manifest_file_def bind_result_eq_Inr)
    assume v: "is_virtual (plan_class f)"
    obtain source where so: "env_source env (relative_path f) = Inr source" "fp_len (src_before source) \<le> length (src_bytes source)"
      "0 < plan_page_size plan" "im_file_pages s (relative_path f) = Some (map blake3 (file_chunks plan source))"
      using fin [OF f] v unfolding file_stored_def by blast
    have "set (file_chunks plan source) \<subseteq> B" using B(2) f so(1) by (force simp: sources_in_def)
    from restore_stored_file [OF inv B(1) this so(4,3) mf] so(1,2)
    show "\<exists>source. env_source env (relative_path f) = Inr source \<and> fp_len (src_before source) \<le> length (src_bytes source) \<and>
         restore_file crc32 blake3 (plan_encryption plan) (im_directory s) mf =
           Inr (take (fp_len (src_before source)) (src_bytes source))" by blast
  qed
  then show ?thesis using files unfolding map_results_all2 by (auto simp: list_all2_conv_all_nth)
qed

section \<open>A concrete import\<close>

lemma ascii_no_control: "list_all (\<lambda>b. 0x20 \<le> b \<and> b < 0x7F) bs \<Longrightarrow> \<not> has_control bs"
proof (induction bs rule: has_control.induct)
  case (2 b bs)
  then have "0x20 \<le> b" "b < 0x7F" "\<not> has_control bs" by simp_all
  then show ?case by (auto simp: not_less)
qed simp

lemma pack_name_opaque: "opaque_id 1024 (pack_name h) = Inr (pack_name h)"
  using ascii_no_control [OF pack_name_ascii] by (simp add: opaque_id_def) (simp add: pack_name_def)

lemma revision_opaque: "opaque_id 512 (encode_canonical_hex (hash_bytes h)) = Inr (encode_canonical_hex (hash_bytes h))"
proof -
  have "encode_canonical_hex (hash_bytes h) \<noteq> []" using encode_hex_length [of "hash_bytes h"] by (metis hash_bytes_length length_0_conv mult_is_0 numeral_eq_iff zero_neq_numeral)
  then show ?thesis using ascii_no_control [OF hex_ascii] by (simp add: opaque_id_def)
qed

definition sample_fingerprint :: SourceFingerprint where
  "sample_fingerprint = \<lparr>fp_len = 2, fp_modified = Some 7, fp_created = None\<rparr>"

definition sample_source :: SourceFile where
  "sample_source = \<lparr>src_is_file = True, src_len = 2, src_plain = True, src_bytes = [5, 6], src_before = sample_fingerprint, src_identity = 1,
     src_after_handle = Inr sample_fingerprint, src_after_path = Inr sample_fingerprint, src_after_identity = Inr 1\<rparr>"

definition sample_env :: ImportEnv where
  "sample_env = \<lparr>env_root_check = Inr (), env_source = (\<lambda>_. Inr sample_source), env_cancelled = (\<lambda>_. False),
     env_random = (\<lambda>_. Some (replicate 24 1))\<rparr>"

definition sample_plan :: ImportPlan where
  "sample_plan = \<lparr>plan_files = [\<lparr>relative_path = [0x61], plan_class = VirtualAsset\<rparr>], plan_page_size = 65536, plan_pack_target = 131072,
     plan_encryption = None\<rparr>"

definition sample_page :: PlainPage where
  "sample_page = \<lparr>plain_hash = 2, plain_len = 2, plain_bytes = [5, 6]\<rparr>"

lemma sample_import_page:
  assumes s: "im_writer s = None" "im_locations s = Map.empty"
  obtains w e where "import_page sample_crc sample_hash sample_env sample_plan s sample_page = Inr (s\<lparr>im_writer := Some w, im_draws := im_draws s + 2\<rparr>)"
    "writer_inv sample_crc sample_hash w [sample_page]" "writer_position w + 64 * length (writer_entries w) + 128 \<le> u64_max"
    "writer_entries w = [e]" "entry_hash e = 2" "writer_encryption w = None"
proof -
  have "is_power_of_two 65536" unfolding is_power_of_two_iff by (rule exI [of _ 16]) simp
  then obtain w0 where w0: "create_inner (pack_options sample_plan) None (Some (replicate 16 1)) = Inr w0"
    and w0': "w0 = \<lparr>staged_file = zeros 64, writer_options = pack_options sample_plan, writer_entries = [], known_pages = Map.empty,
      writer_position = 64, writer_encryption = None, writer_pack_id = zeros 16\<rparr>"
    by (simp add: create_inner_def validate_options_def pack_page_size_ok_def pack_options_def sample_plan_def pack_lens)
  obtain frame where fr: "encode_plain_frame sample_crc sample_hash sample_page = Inr frame" "length frame = 66"
    using plain_frame_length [of sample_crc sample_hash sample_page]
    by (simp add: encode_plain_frame_def sample_page_def sample_hash_def Let_def pack_lens)
  have "\<exists>w e. append_page sample_crc sample_hash w0 (Some (replicate 24 1)) sample_page = Inr (w, e) \<and> writer_entries w = [e] \<and>
      entry_hash e = 2 \<and> writer_position w = 4162"
    using fr by (simp add: append_page_def w0' sample_page_def pack_options_def sample_plan_def frame_position_def align_up_def
        checked_add64_def u64_max_def encode_frame_def Let_def)
  then obtain w e where a: "append_page sample_crc sample_hash w0 (Some (replicate 24 1)) sample_page = Inr (w, e)"
    and e: "writer_entries w = [e]" "entry_hash e = 2" "writer_position w = 4162" by blast
  have "writer_inv sample_crc sample_hash w0 []"
    by (rule writer_inv_create [OF w0]) (simp_all add: key_ok_def sample_facts(4))
  from writer_inv_append [OF this a] have "writer_inv sample_crc sample_hash w [sample_page]"
    by (simp add: page_ok_def sample_page_def nonce_ok_def NONCE_LENGTH_def)
  moreover have "import_page sample_crc sample_hash sample_env sample_plan s sample_page = Inr (s\<lparr>im_writer := Some w, im_draws := im_draws s + 2\<rparr>)"
    using s w0 a by (simp add: import_page_def writer_has_def import_new_page_def sample_env_def sample_plan_def NONCE_LENGTH_def)
  moreover have "writer_encryption w = None" using append_page_keeps(1) [OF a] w0' by simp
  ultimately show thesis using e by (intro that [of w e]) (simp_all add: u64_max_def)
qed

lemma sample_import:
  "\<exists>s files. import_local_inner sample_crc sample_hash sample_env [] sample_plan False = Some (Inr (s, files)) \<and> pack_names_distinct s"
proof -
  let ?s0 = "(initial_import [] [])\<lparr>im_logical := 2, im_sizes := [[0x61] \<mapsto> 2], im_virtual := 2, im_virtual_count := 1\<rparr>"
  obtain w e where w: "import_page sample_crc sample_hash sample_env sample_plan ?s0 sample_page = Inr (?s0\<lparr>im_writer := Some w, im_draws := im_draws ?s0 + 2\<rparr>)"
    "writer_inv sample_crc sample_hash w [sample_page]" "writer_position w + 64 * length (writer_entries w) + 128 \<le> u64_max"
    "writer_entries w = [e]" "entry_hash e = 2" "writer_encryption w = None"
    by (rule sample_import_page [of ?s0]) (simp_all add: initial_import_def)
  let ?s1 = "?s0\<lparr>im_writer := Some w, im_draws := im_draws ?s0 + 2\<rparr>"
  let ?pg = "\<lparr>pager_file = sample_source, pager_stream = [5, 6], pager_remaining = 2, pager_page_size = 65536, pager_finished = False\<rparr>"
  have un: "validate_unchanged sample_source = Inr ()" by (simp add: validate_unchanged_def sample_source_def)
  let ?pg2 = "\<lparr>pager_file = sample_source, pager_stream = [], pager_remaining = 0, pager_page_size = 65536, pager_finished = True\<rparr>"
  have n1: "source_next sample_hash ?pg = (Some (Inr sample_page), ?pg2)"
    using un by (simp add: source_next_def Let_def plain_page_from_bytes_def sample_page_def sample_hash_def u32_max_def)
  have n2: "source_next sample_hash ?pg2 = (None, ?pg2)" by (simp add: source_next_def)
  have p2: "import_pages sample_crc sample_hash sample_env sample_plan ?pg2 seq s = Some (Inr (s, seq))" for seq s
    by (subst import_pages.simps) (simp add: n2)
  have "plain_hash sample_page = 2" by (simp add: sample_page_def)
  then have pages: "import_pages sample_crc sample_hash sample_env sample_plan ?pg [] ?s0 = Some (Inr (?s1, [2]))"
    by (subst import_pages.simps) (simp only: n1 w(1) p2 prod.case option.case sum.case append_Nil)
  have "is_power_of_two 65536" unfolding is_power_of_two_iff by (rule exI [of _ 16]) simp
  then have pg: "page_path_streaming sample_source 65536 = Inr ?pg"
    by (simp add: page_path_streaming_def validate_page_size_def pack_page_size_ok_def reject_non_regular_def sample_source_def sample_fingerprint_def)
  let ?s2 = "?s1\<lparr>im_file_pages := [[0x61] \<mapsto> [2]]\<rparr>"
  have sum: "checked_add64 0 2 = Some 2" by (simp add: checked_add64_def u64_max_def)
  have p: "plan_files sample_plan = [\<lparr>relative_path = [0x61], plan_class = VirtualAsset\<rparr>]" "plan_page_size sample_plan = 65536"
    "env_source sample_env = (\<lambda>_. Inr sample_source)" "env_cancelled sample_env = (\<lambda>_. False)" "src_is_file sample_source"
    "src_len sample_source = 2"
    by (simp_all add: sample_plan_def sample_env_def sample_source_def)
  have i: "im_logical (initial_import [] []) = 0" "im_virtual (initial_import [] []) = 0" "im_sizes (initial_import [] []) = Map.empty"
    "im_virtual_count (initial_import [] []) = 0" "im_file_pages (initial_import [] []) = Map.empty"
    by (simp_all add: initial_import_def)
  have v: "import_virtual_file sample_crc sample_hash sample_env sample_plan [0x61] sample_source
      ((initial_import [] [])\<lparr>im_logical := 2, im_sizes := [[0x61] \<mapsto> 2]\<rparr>) = Some (Inr ?s2)"
    using pages unfolding import_virtual_file_def by (simp add: p i sum pg Let_def)
  have fs: "import_files sample_crc sample_hash sample_env sample_plan 0 (plan_files sample_plan) (initial_import [] []) = Some (Inr ?s2)"
    using v by (simp add: import_file_def p i sum Let_def)
  let ?h = "sample_hash (sealed_pack sample_crc sample_hash w)"
  have ne: "writer_entries w \<noteq> []" using w(4) by simp
  have "finish sample_crc sample_hash (im_directory ?s2) w = Inr \<lparr>completed_name = pack_name ?h, completed_file = sealed_pack sample_crc sample_hash w,
      completed_hash = ?h, byte_length = writer_position w + 64 * length (writer_entries w) + 128, completed_entries = [e]\<rparr>"
    using finish_seals [OF w(2,3) ne, of "im_directory ?s2"] w(4) by (simp add: initial_import_def)
  then obtain s3 c where s3: "finish_active sample_crc sample_hash ?s2 w = Inr s3" "im_packs s3 = [c]" "completed_name c = pack_name ?h"
      "im_locations s3 = [2 \<mapsto> (0, e)]" "im_file_pages s3 = [[0x61] \<mapsto> [2]]" "im_sizes s3 = [[0x61] \<mapsto> 2]"
    using w(5) by (simp add: finish_active_def initial_import_def)
  obtain mf where mf: "manifest_file s3 \<lparr>relative_path = [0x61], plan_class = VirtualAsset\<rparr> = Inr mf"
    using s3(2-6) by (simp add: manifest_file_def manifest_page_def pack_name_opaque revision_opaque)
  have "import_local_inner sample_crc sample_hash sample_env [] sample_plan False = Some (Inr (s3, [mf]))"
    using fs s3(1) mf
    by (simp add: import_local_inner_def validate_plan_def load_verified_packs_def build_manifest_files_def sample_plan_def sample_env_def)
  then show ?thesis using s3(2) by (auto simp: pack_names_distinct_def)
qed

theorem import_restores_witness:
  "\<exists>s mf. import_local_inner sample_crc sample_hash sample_env [] sample_plan False = Some (Inr (s, [mf])) \<and>
    restore_file sample_crc sample_hash None (im_directory s) mf = Inr [5, 6]"
proof -
  obtain s files where i: "import_local_inner sample_crc sample_hash sample_env [] sample_plan False = Some (Inr (s, files))"
    and d: "pack_names_distinct s" using sample_import by blast
  have r: "random_ok sample_env" by (simp add: random_ok_def sample_env_def NONCE_LENGTH_def sample_facts(4))
  have k: "key_ok (plan_encryption sample_plan)" by (simp add: key_ok_def sample_plan_def)
  have c: "file_chunks sample_plan sample_source = [[5, 6]]"
    by (simp add: file_chunks_def sample_plan_def sample_source_def sample_fingerprint_def page_chunks.simps)
  have B: "inj_on sample_hash {[5, 6]}" "sources_in sample_env sample_plan {[5, 6]}"
    using c by (simp_all add: sources_in_def sample_env_def)
  have o: "directory_ok sample_crc sample_hash (plan_encryption sample_plan) {[5, 6]} []" by (simp add: directory_ok_def)
  from import_restores [OF i r k B o d] i show ?thesis
    by (auto simp: sample_plan_def list_all2_Cons1 sample_env_def sample_source_def sample_fingerprint_def)
qed

end
