(* ===== verification/Verified_Sector.thy ===== *)
theory Verified_Sector
  imports Pack_Format
begin

text \<open>Serving single sectors of an encrypted frame: \<open>mirage-pack/src/verified_sector.rs\<close>.  The chaining-value
  functions of BLAKE3 (\<open>Hasher::finalize_non_root\<close> at an input offset, the two subtree merges, the split
  \<open>left_subtree_len\<close>) and the seekable key stream are parameters.  Because the split is a parameter,
  the recursion over it is a partial function whose \<open>None\<close> would mean that it does not return.\<close>

definition VERIFIED_SECTOR_BYTES :: nat where
  "VERIFIED_SECTOR_BYTES = 65536"

definition MAX_VERIFIED_FRAME_BYTES :: nat where
  "MAX_VERIFIED_FRAME_BYTES = 4194304"

definition ENCRYPTED_FRAME_PREFIX_BYTES :: nat where
  "ENCRYPTED_FRAME_PREFIX_BYTES = 52"

record FrameProofCatalog =
  cat_header :: bytes
  cat_root :: page_hash
  cat_total :: nat
  cat_leaves :: "page_hash list"
  cat_repository :: id16
  cat_frame_index :: u64

record TreeHash =
  tree_leaf :: "nat \<Rightarrow> bytes \<Rightarrow> page_hash"
  tree_merge :: "page_hash \<Rightarrow> page_hash \<Rightarrow> page_hash"
  tree_merge_root :: "page_hash \<Rightarrow> page_hash \<Rightarrow> page_hash"
  tree_left :: "nat \<Rightarrow> nat"

definition learn_verified_frame ::
  "(bytes \<Rightarrow> page_hash) \<Rightarrow> TreeHash \<Rightarrow> cipher \<Rightarrow> bytes \<Rightarrow> EncryptedFrameAad \<Rightarrow> (bytes \<times> FrameProofCatalog) result" where
  "learn_verified_frame blake3 th decrypt encoded aad =
     (if aad_length aad > MAX_VERIFIED_FRAME_BYTES then Inl IntegrityMismatch
      else bind_result (decode_encrypted_frame blake3 decrypt encoded aad) (\<lambda>plaintext.
        Inr (plaintext,
          \<lparr>cat_header = take ENCRYPTED_FRAME_PREFIX_BYTES encoded, cat_root = aad_hash aad, cat_total = length plaintext,
           cat_leaves = map (\<lambda>(i, bs). tree_leaf th (i * VERIFIED_SECTOR_BYTES) bs) (enumerate 0 (page_chunks VERIFIED_SECTOR_BYTES plaintext)),
           cat_repository = aad_repository aad, cat_frame_index = aad_frame_index aad\<rparr>)))"

partial_function (option) rebuild ::
  "TreeHash \<Rightarrow> page_hash list \<Rightarrow> nat \<Rightarrow> nat \<Rightarrow> nat \<Rightarrow> page_hash \<Rightarrow> bool \<Rightarrow> page_hash result option" where
  "rebuild th leaves start len selected_index selected root =
     (if len \<le> VERIFIED_SECTOR_BYTES then
        (let index = start div VERIFIED_SECTOR_BYTES in
         Some (if index = selected_index then Inr selected
               else if index < length leaves then Inr (leaves ! index) else Inl IntegrityMismatch))
      else
        (let split = tree_left th len in
         Option.bind (rebuild th leaves start split selected_index selected False) (\<lambda>left.
           case left of Inl e \<Rightarrow> Some (Inl e)
           | Inr l \<Rightarrow> Option.bind (rebuild th leaves (start + split) (len - split) selected_index selected False) (\<lambda>right.
               case right of Inl e \<Rightarrow> Some (Inl e)
               | Inr r \<Rightarrow> Some (Inr (if root then tree_merge_root th l r else tree_merge th l r))))))"

text \<open>\<open>apply_keystream nonce position bytes\<close> is \<open>try_seek\<close> followed by \<open>try_apply_keystream\<close> under the
  repository key.\<close>

definition decode_verified_sector ::
  "(bytes \<Rightarrow> page_hash) \<Rightarrow> TreeHash \<Rightarrow> (bytes \<Rightarrow> nat \<Rightarrow> bytes \<Rightarrow> bytes option) \<Rightarrow> FrameProofCatalog \<Rightarrow> EncryptedFrameAad \<Rightarrow> nat \<Rightarrow>
   bytes \<Rightarrow> bytes result option" where
  "decode_verified_sector blake3 th apply_keystream catalog aad offset ciphertext =
     (let tot = aad_length aad in
      if tot = 0 \<or> tot > MAX_VERIFIED_FRAME_BYTES \<or> cat_total catalog \<noteq> tot \<or> cat_repository catalog \<noteq> aad_repository aad \<or>
         cat_frame_index catalog \<noteq> aad_frame_index aad \<or> cat_root catalog \<noteq> aad_hash aad \<or>
         length (cat_leaves catalog) \<noteq> (tot + VERIFIED_SECTOR_BYTES - 1) div VERIFIED_SECTOR_BYTES \<or>
         offset mod VERIFIED_SECTOR_BYTES \<noteq> 0 \<or> offset \<ge> tot \<or>
         length ciphertext \<noteq> min VERIFIED_SECTOR_BYTES (tot - offset) \<or>
         slice 0 8 (cat_header catalog) \<noteq> ENC_MAGIC \<or> slice 12 16 (cat_header catalog) \<noteq> aad_pack_id aad \<or>
         le_value (slice 8 4 (cat_header catalog)) \<noteq> tot + 16
      then Some (Inl IntegrityMismatch)
      else case apply_keystream (drop 28 (cat_header catalog)) (64 + offset) ciphertext of
        None \<Rightarrow> Some (Inl IntegrityMismatch)
      | Some plaintext \<Rightarrow>
          Option.bind
            (if tot \<le> VERIFIED_SECTOR_BYTES then Some (Inr (blake3 plaintext))
             else rebuild th (cat_leaves catalog) 0 tot (offset div VERIFIED_SECTOR_BYTES) (tree_leaf th offset plaintext) True) (\<lambda>actual.
            Some (bind_result actual (\<lambda>h. if h \<noteq> aad_hash aad then Inl IntegrityMismatch else Inr plaintext))))"

section \<open>What is assumed of the primitives\<close>

text \<open>The split of \<open>n\<close> bytes is the largest power of two below \<open>n\<close>; a subtree of BLAKE3 that begins at
  \<open>off\<close> is addressed by a power of two that divides \<open>off\<close> and bounds its length; hashing splits there.\<close>

definition split_ok :: "(nat \<Rightarrow> nat) \<Rightarrow> bool" where
  "split_ok left \<longleftrightarrow> (\<forall>n. 1024 < n \<longrightarrow> (\<exists>k. left n = 2 ^ k \<and> 2 ^ k < n \<and> n \<le> 2 * 2 ^ k))"

definition subtree_at :: "nat \<Rightarrow> nat \<Rightarrow> bool" where
  "subtree_at off n \<longleftrightarrow> off = 0 \<or> (\<exists>k. 2 ^ k dvd off \<and> n \<le> 2 ^ k)"

definition tree_ok :: "(bytes \<Rightarrow> page_hash) \<Rightarrow> TreeHash \<Rightarrow> bool" where
  "tree_ok blake3 th \<longleftrightarrow> split_ok (tree_left th) \<and>
     (\<forall>bs. 1024 < length bs \<longrightarrow> (let l = tree_left th (length bs) in
        blake3 bs = tree_merge_root th (tree_leaf th 0 (take l bs)) (tree_leaf th l (drop l bs)))) \<and>
     (\<forall>off bs. 1024 < length bs \<longrightarrow> subtree_at off (length bs) \<longrightarrow> (let l = tree_left th (length bs) in
        tree_leaf th off bs = tree_merge th (tree_leaf th off (take l bs)) (tree_leaf th (off + l) (drop l bs))))"

text \<open>XChaCha20-Poly1305 encrypts the payload with the key stream from position 64 on and appends a tag
  of 16 bytes; the key stream transforms bytes one by one.\<close>

definition stream_ok :: "cipher \<Rightarrow> (bytes \<Rightarrow> nat \<Rightarrow> bytes \<Rightarrow> bytes option) \<Rightarrow> bool" where
  "stream_ok decrypt apply_keystream \<longleftrightarrow>
     (\<forall>nonce aad c p. decrypt nonce aad c = Some p \<longrightarrow> length c = length p + 16 \<and>
        (\<forall>off n. off + n \<le> length p \<longrightarrow> apply_keystream nonce (64 + off) (slice off n c) = Some (slice off n p))) \<and>
     (\<forall>nonce pos bs out. apply_keystream nonce pos bs = Some out \<longrightarrow> length out = length bs)"

section \<open>Rebuilding the root\<close>

lemma split_sector:
  assumes "split_ok left" "VERIFIED_SECTOR_BYTES < n"
  obtains k where "left n = VERIFIED_SECTOR_BYTES * 2 ^ k" "left n < n" "n \<le> 2 * left n"
proof -
  have "1024 < n" using assms(2) by (simp add: VERIFIED_SECTOR_BYTES_def)
  then obtain k where k: "left n = 2 ^ k" "2 ^ k < n" "n \<le> 2 * 2 ^ k" using assms(1) unfolding split_ok_def by blast
  have "(2 :: nat) ^ 16 < 2 ^ Suc k" using k(3) assms(2) by (simp add: VERIFIED_SECTOR_BYTES_def)
  then have "16 \<le> k" using power_less_imp_less_exp [of "2 :: nat" 16 "Suc k"] by simp
  then have "(2 :: nat) ^ k = 2 ^ 16 * 2 ^ (k - 16)" unfolding power_add [symmetric] by simp
  then show thesis using k that by (simp add: VERIFIED_SECTOR_BYTES_def)
qed

lemma subtree_split:
  assumes "subtree_at off n" "l = 2 ^ k" "l < n" "n \<le> 2 * l"
  shows "subtree_at off l" "subtree_at (off + l) (n - l)"
proof -
  have "n \<le> m \<Longrightarrow> l \<le> m" for m using assms(3) by simp
  then show "subtree_at off l" using assms(1) unfolding subtree_at_def by blast
  have "l dvd off"
  proof (cases "off = 0")
    case False
    then obtain j where j: "2 ^ j dvd off" "n \<le> 2 ^ j" using assms(1) by (auto simp: subtree_at_def)
    then have "(2 :: nat) ^ k < 2 ^ j" using assms(2,3) by linarith
    then have "k < j" using power_less_imp_less_exp [of "2 :: nat" k j] by simp
    then show ?thesis using j(1) assms(2) by (meson dvd_trans le_imp_power_dvd less_imp_le)
  qed simp
  then have "2 ^ k dvd off + l" using assms(2) by simp
  then show "subtree_at (off + l) (n - l)" using assms(2,4) unfolding subtree_at_def by (intro disjI2 exI [of _ k]) auto
qed

lemma take_sector:
  assumes "VERIFIED_SECTOR_BYTES dvd start" "start + len \<le> length bs" "0 < len" "len \<le> VERIFIED_SECTOR_BYTES"
    "start + len = length bs \<or> VERIFIED_SECTOR_BYTES dvd len"
  shows "slice start len bs = take VERIFIED_SECTOR_BYTES (drop (start div VERIFIED_SECTOR_BYTES * VERIFIED_SECTOR_BYTES) bs)"
proof -
  have s: "start div VERIFIED_SECTOR_BYTES * VERIFIED_SECTOR_BYTES = start" using assms(1) by simp
  show ?thesis
  proof (cases "len = VERIFIED_SECTOR_BYTES")
    case False
    then have "\<not> VERIFIED_SECTOR_BYTES dvd len" using assms(3,4) by (auto dest: dvd_imp_le)
    then show ?thesis using assms(4,5) by (simp add: slice_def s)
  qed (simp add: slice_def s)
qed

definition leaves_of :: "TreeHash \<Rightarrow> bytes \<Rightarrow> page_hash list" where
  "leaves_of th bs = map (\<lambda>(i, c). tree_leaf th (i * VERIFIED_SECTOR_BYTES) c) (enumerate 0 (page_chunks VERIFIED_SECTOR_BYTES bs))"

lemma sector_pos: "0 < VERIFIED_SECTOR_BYTES" "1024 < VERIFIED_SECTOR_BYTES"
  by (simp_all add: VERIFIED_SECTOR_BYTES_def)

lemma leaves_of_length: "length (leaves_of th bs) = (length bs + VERIFIED_SECTOR_BYTES - 1) div VERIFIED_SECTOR_BYTES"
  by (simp add: leaves_of_def page_chunks_length sector_pos)

lemma leaves_of_nth:
  "i < length (leaves_of th bs) \<Longrightarrow> leaves_of th bs ! i = tree_leaf th (i * VERIFIED_SECTOR_BYTES) (take VERIFIED_SECTOR_BYTES (drop (i * VERIFIED_SECTOR_BYTES) bs))"
  by (simp add: leaves_of_def nth_enumerate_eq page_chunks_nth)

lemma div_less_ceil: "start < n \<Longrightarrow> 0 < d \<Longrightarrow> start div d < (n + d - 1) div (d :: nat)"
proof -
  assume "start < n" "0 < d"
  then have "(start + d) div d \<le> (n + d - 1) div d" by (intro div_le_mono) linarith
  moreover have "(start + d) div d = Suc (start div d)" using \<open>0 < d\<close> by (metis Suc_eq_plus1 div_add_self2 not_gr0)
  ultimately show ?thesis by linarith
qed

text \<open>The frame \<open>bs\<close> with the sector at \<open>i\<close> replaced: the rebuilt value of a subtree is its chaining value.\<close>

lemma rebuild_subtree:
  assumes "tree_ok blake3 th" and l: "length leaves = (length bs + VERIFIED_SECTOR_BYTES - 1) div VERIFIED_SECTOR_BYTES"
    and leaf: "\<And>j. j < length leaves \<Longrightarrow> (if j = i then sel else leaves ! j) =
      tree_leaf th (j * VERIFIED_SECTOR_BYTES) (take VERIFIED_SECTOR_BYTES (drop (j * VERIFIED_SECTOR_BYTES) bs))"
    and "VERIFIED_SECTOR_BYTES dvd start" "start + len \<le> length bs" "0 < len" "start + len = length bs \<or> VERIFIED_SECTOR_BYTES dvd len"
    "subtree_at start len"
  shows "rebuild th leaves start len i sel False = Some (Inr (tree_leaf th start (slice start len bs)))"
  using assms(4-8)
proof (induction len arbitrary: start rule: less_induct)
  case (less len)
  show ?case
  proof (cases "len \<le> VERIFIED_SECTOR_BYTES")
    case True
    let ?j = "start div VERIFIED_SECTOR_BYTES"
    have "?j < length leaves" using less.prems l div_less_ceil [of start "length bs" VERIFIED_SECTOR_BYTES] sector_pos by simp
    moreover have "?j * VERIFIED_SECTOR_BYTES = start" using less.prems(1) by simp
    ultimately have "(if ?j = i then sel else leaves ! ?j) = tree_leaf th start (slice start len bs)"
      using leaf [of ?j] take_sector [OF less.prems(1,2,3) True less.prems(4)] by simp
    then show ?thesis using True \<open>?j < length leaves\<close> by (subst rebuild.simps) (auto simp: Let_def split: if_splits)
  next
    case False
    have so: "split_ok (tree_left th)" using assms(1) by (simp add: tree_ok_def)
    obtain k where k: "tree_left th len = VERIFIED_SECTOR_BYTES * 2 ^ k" "tree_left th len < len" "len \<le> 2 * tree_left th len"
      using split_sector [OF so] False by (metis not_le)
    let ?l = "tree_left th len"
    have p2: "?l = 2 ^ (16 + k)" using k(1) by (simp add: VERIFIED_SECTOR_BYTES_def power_add)
    have d: "VERIFIED_SECTOR_BYTES dvd ?l" "0 < ?l" using k(1) sector_pos by simp_all
    note st = subtree_split [OF less.prems(5) p2 k(2,3)]
    have left: "rebuild th leaves start ?l i sel False = Some (Inr (tree_leaf th start (slice start ?l bs)))"
      by (rule less.IH) (use less.prems k d st in auto)
    have "start + ?l + (len - ?l) = length bs \<or> VERIFIED_SECTOR_BYTES dvd len - ?l"
      using less.prems(4) k(2) d(1) by auto
    then have right: "rebuild th leaves (start + ?l) (len - ?l) i sel False =
        Some (Inr (tree_leaf th (start + ?l) (slice (start + ?l) (len - ?l) bs)))"
      by (intro less.IH) (use less.prems k d st in auto)
    have "length (slice start len bs) = len" "1024 < len" using less.prems(2) False sector_pos by auto
    then have "tree_leaf th start (slice start len bs) =
        tree_merge th (tree_leaf th start (take ?l (slice start len bs))) (tree_leaf th (start + ?l) (drop ?l (slice start len bs)))"
      using assms(1) less.prems(5) unfolding tree_ok_def Let_def by metis
    moreover have "take ?l (slice start len bs) = slice start ?l bs" "drop ?l (slice start len bs) = slice (start + ?l) (len - ?l) bs"
      using k(2) by (simp_all add: slice_def drop_take add.commute)
    ultimately show ?thesis using left right False by (subst rebuild.simps) (simp add: Let_def)
  qed
qed

lemma rebuild_root:
  assumes ok: "tree_ok blake3 th" and l: "length leaves = (length bs + VERIFIED_SECTOR_BYTES - 1) div VERIFIED_SECTOR_BYTES"
    and leaf: "\<And>j. j < length leaves \<Longrightarrow> (if j = i then sel else leaves ! j) =
      tree_leaf th (j * VERIFIED_SECTOR_BYTES) (take VERIFIED_SECTOR_BYTES (drop (j * VERIFIED_SECTOR_BYTES) bs))"
    and big: "VERIFIED_SECTOR_BYTES < length bs"
  shows "rebuild th leaves 0 (length bs) i sel True = Some (Inr (blake3 bs))"
proof -
  let ?l = "tree_left th (length bs)"
  have so: "split_ok (tree_left th)" using ok by (simp add: tree_ok_def)
  obtain k where k: "?l = VERIFIED_SECTOR_BYTES * 2 ^ k" "?l < length bs" "length bs \<le> 2 * ?l"
    using split_sector [OF so big] by metis
  have p2: "?l = 2 ^ (16 + k)" using k(1) by (simp add: VERIFIED_SECTOR_BYTES_def power_add)
  have d: "VERIFIED_SECTOR_BYTES dvd ?l" "0 < ?l" using k(1) sector_pos by simp_all
  have "subtree_at 0 (length bs)" by (simp add: subtree_at_def)
  note st = subtree_split [OF this p2 k(2,3)]
  have left: "rebuild th leaves 0 ?l i sel False = Some (Inr (tree_leaf th 0 (slice 0 ?l bs)))"
    by (rule rebuild_subtree [OF ok l leaf]) (use k d st in auto)
  have right: "rebuild th leaves (0 + ?l) (length bs - ?l) i sel False = Some (Inr (tree_leaf th (0 + ?l) (slice (0 + ?l) (length bs - ?l) bs)))"
    by (rule rebuild_subtree [OF ok l leaf]) (use k d st in auto)
  have "blake3 bs = tree_merge_root th (tree_leaf th 0 (take ?l bs)) (tree_leaf th ?l (drop ?l bs))"
    using ok big sector_pos(2) unfolding tree_ok_def Let_def by (meson less_trans)
  then show ?thesis using left right big by (subst rebuild.simps) (simp add: Let_def slice_def)
qed

section \<open>Sectors are authenticated by the hash of the whole frame\<close>

lemma replaced_leaves:
  assumes off: "VERIFIED_SECTOR_BYTES dvd off" "off < length pt" and x: "length x = min VERIFIED_SECTOR_BYTES (length pt - off)"
    and j: "j < length (leaves_of th pt)"
  shows "(if j = off div VERIFIED_SECTOR_BYTES then tree_leaf th off x else leaves_of th pt ! j) =
    tree_leaf th (j * VERIFIED_SECTOR_BYTES) (take VERIFIED_SECTOR_BYTES (drop (j * VERIFIED_SECTOR_BYTES) (copy_into pt off x)))"
proof -
  let ?S = VERIFIED_SECTOR_BYTES
  obtain i where i: "off = i * ?S" using off(1) by (metis dvd_div_mult_self)
  then have di: "off div ?S = i" using sector_pos by simp
  have fit: "off + length x \<le> length pt" using off(2) x by simp
  consider "j = i" | "j < i" | "i < j" by linarith
  then show ?thesis
  proof cases
    case 1
    have "take ?S (drop off (copy_into pt off x)) = x"
      using fit x by (cases "length x = ?S") (auto simp: copy_into_def min_def)
    then show ?thesis using 1 i di by simp
  next
    case 2
    then have "Suc j * ?S \<le> i * ?S" by (intro mult_le_mono1) simp
    then have "slice (j * ?S) ?S (copy_into pt off x) = slice (j * ?S) ?S pt" using fit i by (intro slice_copy_before) simp_all
    then show ?thesis using 2 di leaves_of_nth [OF j] by (simp add: slice_def)
  next
    case 3
    then have "Suc i * ?S \<le> j * ?S" by (intro mult_le_mono1) simp
    moreover have "length x \<le> ?S" using x by simp
    ultimately have "slice (j * ?S) ?S (copy_into pt off x) = slice (j * ?S) ?S pt" using fit i by (intro slice_copy_after) simp_all
    then show ?thesis using 3 di leaves_of_nth [OF j] by (simp add: slice_def)
  qed
qed

lemma sector_root:
  assumes ok: "tree_ok blake3 th" and off: "VERIFIED_SECTOR_BYTES dvd off" "off < length pt"
    and x: "length x = min VERIFIED_SECTOR_BYTES (length pt - off)"
  shows "(if length pt \<le> VERIFIED_SECTOR_BYTES then Some (Inr (blake3 x))
     else rebuild th (leaves_of th pt) 0 (length pt) (off div VERIFIED_SECTOR_BYTES) (tree_leaf th off x) True) =
    Some (Inr (blake3 (copy_into pt off x)))"
proof (cases "length pt \<le> VERIFIED_SECTOR_BYTES")
  case True
  then have "off = 0" using off by (auto dest: dvd_imp_le)
  then show ?thesis using True x by (simp add: copy_into_def)
next
  case False
  have l: "length (copy_into pt off x) = length pt" using off(2) x by simp
  have "rebuild th (leaves_of th pt) 0 (length (copy_into pt off x)) (off div VERIFIED_SECTOR_BYTES) (tree_leaf th off x) True =
      Some (Inr (blake3 (copy_into pt off x)))"
    by (rule rebuild_root [OF ok]) (use False l leaves_of_length replaced_leaves [OF off x] in \<open>simp_all add: leaves_of_length\<close>)
  then show ?thesis using False l by simp
qed

lemma learned_frame:
  assumes "learn_verified_frame blake3 th decrypt encoded aad = Inr (pt, catalog)" "stream_ok decrypt apply_keystream"
  shows "catalog = \<lparr>cat_header = take 52 encoded, cat_root = aad_hash aad, cat_total = length pt, cat_leaves = leaves_of th pt,
      cat_repository = aad_repository aad, cat_frame_index = aad_frame_index aad\<rparr>"
    "aad_length aad = length pt" "length pt \<le> MAX_VERIFIED_FRAME_BYTES" "blake3 pt = aad_hash aad"
    "decrypt (slice 28 24 encoded) (aad_encode aad) (drop 52 encoded) = Some pt" "slice 0 8 encoded = ENC_MAGIC"
    "slice 12 16 encoded = aad_pack_id aad" "le_value (slice 8 4 encoded) = length pt + 16"
proof -
  have d: "decode_encrypted_frame blake3 decrypt encoded aad = Inr pt" and m: "aad_length aad \<le> MAX_VERIFIED_FRAME_BYTES"
    and c: "catalog = \<lparr>cat_header = take 52 encoded, cat_root = aad_hash aad, cat_total = length pt, cat_leaves = leaves_of th pt,
      cat_repository = aad_repository aad, cat_frame_index = aad_frame_index aad\<rparr>"
    using assms(1)
    by (auto simp: learn_verified_frame_def bind_result_eq_Inr leaves_of_def ENCRYPTED_FRAME_PREFIX_BYTES_def split: if_splits)
  have f: "slice 0 8 encoded = ENC_MAGIC" "slice 12 16 encoded = aad_pack_id aad" "le_value (slice 8 4 encoded) = length encoded - 52"
    "52 \<le> length encoded" "decrypt (slice 28 24 encoded) (aad_encode aad) (drop 52 encoded) = Some pt" "length pt = aad_length aad"
    "blake3 pt = aad_hash aad"
    using d by (auto simp: decode_encrypted_frame_def PREFIX_LENGTH_def NONCE_LENGTH_def key_open_def bind_result_eq_Inr split: if_splits option.splits)
  have "length (drop 52 encoded) = length pt + 16" using assms(2) f(5) unfolding stream_ok_def by blast
  then show "le_value (slice 8 4 encoded) = length pt + 16" using f(3) by simp
  show "catalog = \<lparr>cat_header = take 52 encoded, cat_root = aad_hash aad, cat_total = length pt, cat_leaves = leaves_of th pt,
      cat_repository = aad_repository aad, cat_frame_index = aad_frame_index aad\<rparr>"
    "aad_length aad = length pt" "length pt \<le> MAX_VERIFIED_FRAME_BYTES" "blake3 pt = aad_hash aad"
    "decrypt (slice 28 24 encoded) (aad_encode aad) (drop 52 encoded) = Some pt" "slice 0 8 encoded = ENC_MAGIC"
    "slice 12 16 encoded = aad_pack_id aad"
    using c m f by simp_all
qed

lemma decode_sector_eq:
  assumes learn: "learn_verified_frame blake3 th decrypt encoded aad = Inr (pt, catalog)" and st: "stream_ok decrypt apply_keystream"
    and ok: "tree_ok blake3 th" and off: "VERIFIED_SECTOR_BYTES dvd off" "off < length pt"
    and ct: "length ct = min VERIFIED_SECTOR_BYTES (length pt - off)"
  shows "decode_verified_sector blake3 th apply_keystream catalog aad off ct =
    Some (case apply_keystream (slice 28 24 encoded) (64 + off) ct of None \<Rightarrow> Inl IntegrityMismatch
      | Some x \<Rightarrow> if blake3 (copy_into pt off x) = blake3 pt then Inr x else Inl IntegrityMismatch)"
proof -
  note f = learned_frame [OF learn st]
  have h: "slice a n (take 52 encoded) = slice a n encoded" if "a + n \<le> 52" for a n using that by (simp add: slice_def drop_take)
  have n: "drop 28 (take 52 encoded) = slice 28 24 encoded" by (simp add: slice_def drop_take)
  have g: "decode_verified_sector blake3 th apply_keystream catalog aad off ct =
      (case apply_keystream (slice 28 24 encoded) (64 + off) ct of None \<Rightarrow> Some (Inl IntegrityMismatch)
       | Some x \<Rightarrow> Option.bind (if length pt \<le> VERIFIED_SECTOR_BYTES then Some (Inr (blake3 x))
             else rebuild th (leaves_of th pt) 0 (length pt) (off div VERIFIED_SECTOR_BYTES) (tree_leaf th off x) True) (\<lambda>actual.
            Some (bind_result actual (\<lambda>h. if h \<noteq> blake3 pt then Inl IntegrityMismatch else Inr x))))"
  proof -
    have cat: "cat_header catalog = take 52 encoded" "cat_root catalog = blake3 pt" "cat_total catalog = length pt"
      "cat_leaves catalog = leaves_of th pt" "cat_repository catalog = aad_repository aad" "cat_frame_index catalog = aad_frame_index aad"
      using f(4) by (simp_all add: f(1))
    have "pt \<noteq> []" using off(2) by auto
    then show ?thesis
      using off ct f(3,6,7,8) unfolding decode_verified_sector_def Let_def cat f(2) f(4) [symmetric] n
      by (simp add: h leaves_of_length dvd_eq_mod_eq_0)
  qed
  show ?thesis
  proof (cases "apply_keystream (slice 28 24 encoded) (64 + off) ct")
    case (Some x)
    then have "length x = length ct" using st unfolding stream_ok_def by blast
    then have "length x = min VERIFIED_SECTOR_BYTES (length pt - off)" using ct by simp
    from sector_root [OF ok off this] show ?thesis using Some unfolding g by simp
  qed (simp add: g)
qed

text \<open>C5: a sector of an encrypted frame is served exactly when it is authentic.  Once a frame has been
  learned from its fully authenticated form, decoding any aligned sector of its ciphertext gives the
  corresponding bytes of the plaintext; and for arbitrary ciphertext of the right length the decrypted
  sector is returned if and only if the plaintext with that sector put in its place still has the
  published BLAKE3 hash, so accepting a wrong sector needs a collision of the whole frame.  The
  rebuilding of the root always returns.\<close>

theorem verified_sector_exact:
  assumes "learn_verified_frame blake3 th decrypt encoded aad = Inr (pt, catalog)" "stream_ok decrypt apply_keystream"
    "tree_ok blake3 th" "VERIFIED_SECTOR_BYTES dvd off" "off < length pt" "length ct = min VERIFIED_SECTOR_BYTES (length pt - off)"
  shows "decode_verified_sector blake3 th apply_keystream catalog aad off (slice (52 + off) (length ct) encoded) =
      Some (Inr (slice off (length ct) pt)) \<and>
    decode_verified_sector blake3 th apply_keystream catalog aad off ct =
      Some (case apply_keystream (slice 28 24 encoded) (64 + off) ct of None \<Rightarrow> Inl IntegrityMismatch
        | Some x \<Rightarrow> if blake3 (copy_into pt off x) = blake3 pt then Inr x else Inl IntegrityMismatch)"
proof
  note f = learned_frame [OF assms(1,2)]
  have fit: "off + length ct \<le> length pt" using assms(5,6) by simp
  have c: "length (drop 52 encoded) = length pt + 16"
    and s: "apply_keystream (slice 28 24 encoded) (64 + off) (slice off (length ct) (drop 52 encoded)) = Some (slice off (length ct) pt)"
    using assms(2) f(5) fit unfolding stream_ok_def by blast+
  have e: "slice off (length ct) (drop 52 encoded) = slice (52 + off) (length ct) encoded" by (simp add: slice_def add.commute)
  have l: "length (slice (52 + off) (length ct) encoded) = min VERIFIED_SECTOR_BYTES (length pt - off)"
    using c fit assms(6) by (subst length_slice) auto
  have "copy_into pt off (slice off (length ct) pt) = pt"
  proof -
    have "pt = take off pt @ take (length ct) (drop off pt) @ drop (off + length ct) pt"
      by (metis append_take_drop_id drop_drop add.commute)
    then show ?thesis using fit by (simp add: copy_into_def slice_def)
  qed
  then show "decode_verified_sector blake3 th apply_keystream catalog aad off (slice (52 + off) (length ct) encoded) =
      Some (Inr (slice off (length ct) pt))"
    using decode_sector_eq [OF assms(1-5) l] s by (simp add: e)
  show "decode_verified_sector blake3 th apply_keystream catalog aad off ct =
      Some (case apply_keystream (slice 28 24 encoded) (64 + off) ct of None \<Rightarrow> Inl IntegrityMismatch
        | Some x \<Rightarrow> if blake3 (copy_into pt off x) = blake3 pt then Inr x else Inl IntegrityMismatch)"
    by (rule decode_sector_eq [OF assms])
qed

section \<open>A concrete frame\<close>

fun largest_power_below :: "nat \<Rightarrow> nat" where
  "largest_power_below n = (if n \<le> 2 then 1 else 2 * largest_power_below ((n + 1) div 2))"

declare largest_power_below.simps [simp del]

lemma largest_power_below: "2 \<le> n \<Longrightarrow> \<exists>k. largest_power_below n = 2 ^ k \<and> 2 ^ k < n \<and> n \<le> 2 * 2 ^ k"
proof (induction n rule: largest_power_below.induct)
  case (1 n)
  show ?case
  proof (cases "n \<le> 2")
    case True
    then show ?thesis using 1(2) by (intro exI [of _ 0]) (simp add: largest_power_below.simps)
  next
    case False
    then obtain k where k: "largest_power_below ((n + 1) div 2) = 2 ^ k" "2 ^ k < (n + 1) div 2" "(n + 1) div 2 \<le> 2 * 2 ^ k"
      using 1(1) by force
    then have "2 * 2 ^ k < n" "n \<le> 2 * (2 * 2 ^ k)" by linarith+
    then show ?thesis using k(1) False by (intro exI [of _ "Suc k"]) (simp add: largest_power_below.simps [of n])
  qed
qed

definition sum_hash :: "bytes \<Rightarrow> page_hash" where
  "sum_hash bs = sum_list (map (\<lambda>b. word_of_nat (unat b)) bs)"

definition sum_tree :: TreeHash where
  "sum_tree = \<lparr>tree_leaf = (\<lambda>_. sum_hash), tree_merge = (+), tree_merge_root = (+), tree_left = largest_power_below\<rparr>"

lemma sum_tree_ok: "tree_ok sum_hash sum_tree"
proof -
  have split: "sum_hash bs = sum_hash (take l bs) + sum_hash (drop l bs)" for l bs
  proof -
    have "sum_hash (take l bs @ drop l bs) = sum_hash (take l bs) + sum_hash (drop l bs)" by (simp only: sum_hash_def map_append sum_list_append)
    then show ?thesis by (simp only: append_take_drop_id)
  qed
  have f: "tree_leaf sum_tree = (\<lambda>_. sum_hash)" "tree_merge sum_tree = (+)" "tree_merge_root sum_tree = (+)"
    "tree_left sum_tree = largest_power_below" by (simp_all add: sum_tree_def)
  have "split_ok largest_power_below" unfolding split_ok_def by (intro allI impI, rule largest_power_below) linarith
  then show ?thesis unfolding tree_ok_def f Let_def using split by blast
qed

definition plain_encrypt :: cipher where
  "plain_encrypt nonce aad p = Some (p @ zeros 16)"

definition plain_decrypt :: cipher where
  "plain_decrypt nonce aad c = (if 16 \<le> length c then Some (take (length c - 16) c) else None)"

definition plain_stream :: "bytes \<Rightarrow> nat \<Rightarrow> bytes \<Rightarrow> bytes option" where
  "plain_stream nonce pos bs = Some bs"

lemma plain_stream_ok: "stream_ok plain_decrypt plain_stream" "aead_ok plain_encrypt plain_decrypt"
  by (auto simp: stream_ok_def aead_ok_def plain_decrypt_def plain_stream_def plain_encrypt_def slice_def drop_take split: if_splits)

definition sample_aad :: EncryptedFrameAad where
  "sample_aad = \<lparr>aad_repository = 3, aad_pack_id = replicate 16 9, aad_frame_index = 64, aad_hash = 6, aad_length = 3\<rparr>"

theorem verified_sector_exact_witness:
  "\<exists>encoded catalog. learn_verified_frame sum_hash sum_tree plain_decrypt encoded sample_aad = Inr ([1, 2, 3], catalog) \<and>
    decode_verified_sector sum_hash sum_tree plain_stream catalog sample_aad 0 (slice 52 3 encoded) = Some (Inr [1, 2, 3]) \<and>
    decode_verified_sector sum_hash sum_tree plain_stream catalog sample_aad 0 [1, 2, 4] = Some (Inl IntegrityMismatch)"
proof -
  obtain encoded where e: "encode_encrypted_frame sum_hash plain_encrypt (Some (zeros 24)) [1, 2, 3] sample_aad = Inr encoded"
    by (simp add: encode_encrypted_frame_def key_seal_def plain_encrypt_def sample_aad_def sum_hash_def u32_max_def)
  have "decode_encrypted_frame sum_hash plain_decrypt encoded sample_aad = Inr [1, 2, 3]"
    by (rule encrypted_frame_decode_encode(1) [OF e plain_stream_ok(2)]) (simp_all add: sample_aad_def)
  then obtain catalog where l: "learn_verified_frame sum_hash sum_tree plain_decrypt encoded sample_aad = Inr ([1, 2, 3], catalog)"
    by (simp add: learn_verified_frame_def sample_aad_def MAX_VERIFIED_FRAME_BYTES_def)
  have "VERIFIED_SECTOR_BYTES dvd 0" "0 < length [1, 2, 3 :: byte]" "length [1, 2, 4 :: byte] = min VERIFIED_SECTOR_BYTES (length [1, 2, 3 :: byte] - 0)"
    by (simp_all add: VERIFIED_SECTOR_BYTES_def)
  note x = verified_sector_exact [OF l plain_stream_ok(1) sum_tree_ok this]
  have "sum_hash (copy_into [1, 2, 3] 0 [1, 2, 4]) \<noteq> sum_hash [1, 2, 3]" by (simp add: copy_into_def sum_hash_def)
  then have "decode_verified_sector sum_hash sum_tree plain_stream catalog sample_aad 0 [1, 2, 4] = Some (Inl IntegrityMismatch)"
    using conjunct2 [OF x] by (simp add: plain_stream_def)
  moreover have "decode_verified_sector sum_hash sum_tree plain_stream catalog sample_aad 0 (slice 52 3 encoded) = Some (Inr [1, 2, 3])"
    using conjunct1 [OF x] by (simp add: slice_def numeral_3_eq_3)
  ultimately show ?thesis using l by blast
qed

end
