(* ===== verification/Mount_Format.thy ===== *)
theory Mount_Format
  imports Manifest_Types
begin

text \<open>The mount index on disk: \<open>mirage-index/src/checked_slice.rs\<close>, \<open>format.rs\<close>, \<open>record.rs\<close> and \<open>header.rs\<close>.
  Sections of fixed-width records behind a header of 320 bytes that carries the hash of the whole file.
  The encoders write into a buffer that the caller provides, with the bounds checks of the source.\<close>

section \<open>Checked slices\<close>

definition bytes_at :: "bytes \<Rightarrow> u64 \<Rightarrow> u64 \<Rightarrow> bytes result" where
  "bytes_at bs offset len =
     bind_result (ok_or (checked_add64 offset len) ManifestInvalid) (\<lambda>e.
       if e \<le> length bs then Inr (slice offset len bs) else Inl ManifestInvalid)"

definition write_bytes :: "bytes \<Rightarrow> nat \<Rightarrow> bytes \<Rightarrow> bytes result" where
  "write_bytes bs offset v =
     bind_result (ok_or (checked_add64 offset (length v)) InternalInvariant) (\<lambda>e.
       if e \<le> length bs then Inr (copy_into bs offset v) else Inl InternalInvariant)"

definition write_u32 :: "bytes \<Rightarrow> nat \<Rightarrow> u32 \<Rightarrow> bytes result" where
  "write_u32 bs offset v = write_bytes bs offset (le_bytes 4 v)"

definition write_u64 :: "bytes \<Rightarrow> nat \<Rightarrow> u64 \<Rightarrow> bytes result" where
  "write_u64 bs offset v = write_bytes bs offset (le_bytes 8 v)"

section \<open>Sections\<close>

definition MOUNT_MAGIC :: bytes where
  "MOUNT_MAGIC = map (\<lambda>c. word_of_nat (of_char c)) ''MIRIDX02''"

definition FORMAT_VERSION :: nat where
  "FORMAT_VERSION = 2"

definition HEADER_SIZE :: nat where
  "HEADER_SIZE = 320"

definition HEADER_ALIGNMENT :: nat where
  "HEADER_ALIGNMENT = 64"

definition SECTION_DIRECTORY_OFFSET :: nat where
  "SECTION_DIRECTORY_OFFSET = 128"

definition SECTION_ENTRY_SIZE :: nat where
  "SECTION_ENTRY_SIZE = 32"

definition SECTION_COUNT :: nat where
  "SECTION_COUNT = 6"

definition INDEX_HASH_OFFSET :: nat where
  "INDEX_HASH_OFFSET = 88"

definition INDEX_HASH_LENGTH :: nat where
  "INDEX_HASH_LENGTH = 32"

definition DIRECTORY_RECORD_SIZE :: nat where
  "DIRECTORY_RECORD_SIZE = 56"

definition FILE_RECORD_SIZE :: nat where
  "FILE_RECORD_SIZE = 64"

definition EXTENT_RECORD_SIZE :: nat where
  "EXTENT_RECORD_SIZE = 32"

definition PAGE_RECORD_SIZE :: nat where
  "PAGE_RECORD_SIZE = 48"

definition REMOTE_LOCATION_RECORD_SIZE :: nat where
  "REMOTE_LOCATION_RECORD_SIZE = 104"

definition FORMAT_DESCRIPTOR :: bytes where
  "FORMAT_DESCRIPTOR = map (\<lambda>c. word_of_nat (of_char c))
     ''MirageSSD/MIRIDX02/le/header320/sections:string1,dir56,file64,extent32,page48,remote104/hash-zeroed-v2''"

datatype SectionKind = Strings | Directories | Files | Extents | Pages | RemoteLocations

definition ALL_KINDS :: "SectionKind list" where
  "ALL_KINDS = [Strings, Directories, Files, Extents, Pages, RemoteLocations]"

fun kind_code :: "SectionKind \<Rightarrow> u32" where
  "kind_code Strings = 1"
| "kind_code Directories = 2"
| "kind_code Files = 3"
| "kind_code Extents = 4"
| "kind_code Pages = 5"
| "kind_code RemoteLocations = 6"

definition kind_from_u32 :: "u32 \<Rightarrow> SectionKind result" where
  "kind_from_u32 v =
     (if v = 1 then Inr Strings else if v = 2 then Inr Directories else if v = 3 then Inr Files
      else if v = 4 then Inr Extents else if v = 5 then Inr Pages else if v = 6 then Inr RemoteLocations
      else Inl ManifestInvalid)"

definition kind_index :: "SectionKind \<Rightarrow> nat" where
  "kind_index k = kind_code k - 1"

fun record_size :: "SectionKind \<Rightarrow> u32" where
  "record_size Strings = 1"
| "record_size Directories = DIRECTORY_RECORD_SIZE"
| "record_size Files = FILE_RECORD_SIZE"
| "record_size Extents = EXTENT_RECORD_SIZE"
| "record_size Pages = PAGE_RECORD_SIZE"
| "record_size RemoteLocations = REMOTE_LOCATION_RECORD_SIZE"

record Section =
  sec_kind :: SectionKind
  sec_offset :: u64
  sec_length :: u64
  sec_count :: u64

definition section_end :: "Section \<Rightarrow> u64 result" where
  "section_end s = ok_or (checked_add64 (sec_offset s) (sec_length s)) ManifestInvalid"

definition format_hash :: "(bytes \<Rightarrow> page_hash) \<Rightarrow> page_hash" where
  "format_hash blake3 = blake3 FORMAT_DESCRIPTOR"

text \<open>For a power of two, clearing the low bits rounds down to a multiple.\<close>

definition align_up :: "u64 \<Rightarrow> u64 \<Rightarrow> u64 result" where
  "align_up v alignment =
     (if alignment = 0 \<or> \<not> is_power_of_two alignment then Inl InternalInvariant
      else ok_or (map_option (\<lambda>adjusted. adjusted div alignment * alignment) (checked_add64 v (alignment - 1))) ManifestInvalid)"

section \<open>Records\<close>

definition NO_PARENT :: u32 where
  "NO_PARENT = u32_max"

record StringRef =
  str_offset :: u64
  str_length :: u32

definition exact_width :: "bytes \<Rightarrow> nat \<Rightarrow> unit result" where
  "exact_width bs expected = (if length bs = expected then Inr () else Inl ManifestInvalid)"

definition require_zero :: "bytes \<Rightarrow> unit result" where
  "require_zero bs = (if all_zero bs then Inr () else Inl UnsupportedLayout)"

record DirectoryRecord =
  dir_parent :: u32
  dir_name :: StringRef
  dir_key :: StringRef
  dir_first_directory :: u32
  dir_directory_count :: u32
  dir_first_file :: u32
  dir_file_count :: u32
  dir_canonical_index :: u32

definition directory_encode :: "DirectoryRecord \<Rightarrow> bytes \<Rightarrow> bytes result" where
  "directory_encode r output =
     bind_result (exact_width output DIRECTORY_RECORD_SIZE) (\<lambda>_.
     bind_result (write_u32 output 0 (dir_parent r)) (\<lambda>output.
     bind_result (write_u64 output 8 (str_offset (dir_name r))) (\<lambda>output.
     bind_result (write_u32 output 16 (str_length (dir_name r))) (\<lambda>output.
     bind_result (write_u32 output 20 (str_length (dir_key r))) (\<lambda>output.
     bind_result (write_u64 output 24 (str_offset (dir_key r))) (\<lambda>output.
     bind_result (write_u32 output 32 (dir_first_directory r)) (\<lambda>output.
     bind_result (write_u32 output 36 (dir_directory_count r)) (\<lambda>output.
     bind_result (write_u32 output 40 (dir_first_file r)) (\<lambda>output.
     bind_result (write_u32 output 44 (dir_file_count r)) (\<lambda>output.
     write_u32 output 48 (dir_canonical_index r)))))))))))"

definition directory_decode :: "bytes \<Rightarrow> DirectoryRecord result" where
  "directory_decode input =
     bind_result (exact_width input DIRECTORY_RECORD_SIZE) (\<lambda>_.
     bind_result (require_zero (slice 4 4 input)) (\<lambda>_.
     bind_result (require_zero (slice 52 4 input)) (\<lambda>_.
     bind_result (read_u32 input 0) (\<lambda>parent.
     bind_result (read_u64 input 8) (\<lambda>name_offset.
     bind_result (read_u32 input 16) (\<lambda>name_length.
     bind_result (read_u64 input 24) (\<lambda>key_offset.
     bind_result (read_u32 input 20) (\<lambda>key_length.
     bind_result (read_u32 input 32) (\<lambda>first_directory.
     bind_result (read_u32 input 36) (\<lambda>directory_count.
     bind_result (read_u32 input 40) (\<lambda>first_file.
     bind_result (read_u32 input 44) (\<lambda>file_count.
     bind_result (read_u32 input 48) (\<lambda>canonical_index.
       Inr \<lparr>dir_parent = parent, dir_name = \<lparr>str_offset = name_offset, str_length = name_length\<rparr>,
            dir_key = \<lparr>str_offset = key_offset, str_length = key_length\<rparr>, dir_first_directory = first_directory,
            dir_directory_count = directory_count, dir_first_file = first_file, dir_file_count = file_count,
            dir_canonical_index = canonical_index\<rparr>)))))))))))))"

record FileRecord =
  fil_parent :: u32
  fil_class :: FileClass
  fil_name :: StringRef
  fil_key :: StringRef
  fil_logical_size :: u64
  fil_stable_id :: u64
  fil_extent_start :: u32
  fil_extent_count :: u32
  fil_canonical_index :: u32

definition decode_file_class :: "byte \<Rightarrow> FileClass result" where
  "decode_file_class b =
     (if b = 0 then Inr NativeExecutable else if b = 1 then Inr NativeLibrary else if b = 2 then Inr NativeConfiguration
      else if b = 3 then Inr NativeMutable else if b = 4 then Inr VirtualAsset else if b = 5 then Inr VirtualContainer
      else Inl ManifestInvalid)"

definition file_encode :: "FileRecord \<Rightarrow> bytes \<Rightarrow> bytes result" where
  "file_encode r output =
     bind_result (exact_width output FILE_RECORD_SIZE) (\<lambda>_.
     bind_result (write_u32 output 0 (fil_parent r)) (\<lambda>output.
     let output = output[4 := class_code (fil_class r)] in
     bind_result (write_u64 output 8 (str_offset (fil_name r))) (\<lambda>output.
     bind_result (write_u32 output 16 (str_length (fil_name r))) (\<lambda>output.
     bind_result (write_u32 output 20 (str_length (fil_key r))) (\<lambda>output.
     bind_result (write_u64 output 24 (str_offset (fil_key r))) (\<lambda>output.
     bind_result (write_u64 output 32 (fil_logical_size r)) (\<lambda>output.
     bind_result (write_u64 output 40 (fil_stable_id r)) (\<lambda>output.
     bind_result (write_u32 output 48 (fil_extent_start r)) (\<lambda>output.
     bind_result (write_u32 output 52 (fil_extent_count r)) (\<lambda>output.
     write_u32 output 56 (fil_canonical_index r)))))))))))"

definition file_decode :: "bytes \<Rightarrow> FileRecord result" where
  "file_decode input =
     bind_result (exact_width input FILE_RECORD_SIZE) (\<lambda>_.
     bind_result (require_zero (slice 5 3 input)) (\<lambda>_.
     bind_result (require_zero (slice 60 4 input)) (\<lambda>_.
     bind_result (read_u32 input 0) (\<lambda>parent.
     bind_result (decode_file_class (input ! 4)) (\<lambda>cls.
     bind_result (read_u64 input 8) (\<lambda>name_offset.
     bind_result (read_u32 input 16) (\<lambda>name_length.
     bind_result (read_u64 input 24) (\<lambda>key_offset.
     bind_result (read_u32 input 20) (\<lambda>key_length.
     bind_result (read_u64 input 32) (\<lambda>logical_size.
     bind_result (read_u64 input 40) (\<lambda>stable_id.
     bind_result (read_u32 input 48) (\<lambda>extent_start.
     bind_result (read_u32 input 52) (\<lambda>extent_count.
     bind_result (read_u32 input 56) (\<lambda>canonical_index.
       Inr \<lparr>fil_parent = parent, fil_class = cls, fil_name = \<lparr>str_offset = name_offset, str_length = name_length\<rparr>,
            fil_key = \<lparr>str_offset = key_offset, str_length = key_length\<rparr>, fil_logical_size = logical_size,
            fil_stable_id = stable_id, fil_extent_start = extent_start, fil_extent_count = extent_count,
            fil_canonical_index = canonical_index\<rparr>))))))))))))))"

record ExtentRecord =
  ext_logical_offset :: u64
  ext_logical_length :: u64
  ext_page_start :: u32
  ext_page_count :: u32
  ext_tail_length :: u32

definition extent_encode :: "ExtentRecord \<Rightarrow> bytes \<Rightarrow> bytes result" where
  "extent_encode r output =
     bind_result (exact_width output EXTENT_RECORD_SIZE) (\<lambda>_.
     bind_result (write_u64 output 0 (ext_logical_offset r)) (\<lambda>output.
     bind_result (write_u64 output 8 (ext_logical_length r)) (\<lambda>output.
     bind_result (write_u32 output 16 (ext_page_start r)) (\<lambda>output.
     bind_result (write_u32 output 20 (ext_page_count r)) (\<lambda>output.
     write_u32 output 24 (ext_tail_length r))))))"

definition extent_decode :: "bytes \<Rightarrow> ExtentRecord result" where
  "extent_decode input =
     bind_result (exact_width input EXTENT_RECORD_SIZE) (\<lambda>_.
     bind_result (require_zero (slice 28 4 input)) (\<lambda>_.
     bind_result (read_u64 input 0) (\<lambda>logical_offset.
     bind_result (read_u64 input 8) (\<lambda>logical_length.
     bind_result (read_u32 input 16) (\<lambda>page_start.
     bind_result (read_u32 input 20) (\<lambda>page_count.
     bind_result (read_u32 input 24) (\<lambda>tail_length.
       Inr \<lparr>ext_logical_offset = logical_offset, ext_logical_length = logical_length, ext_page_start = page_start,
            ext_page_count = page_count, ext_tail_length = tail_length\<rparr>)))))))"

record PageRecord =
  pag_hash :: page_hash
  pag_logical_length :: u32
  pag_remote_location :: u32

definition page_encode :: "PageRecord \<Rightarrow> bytes \<Rightarrow> bytes result" where
  "page_encode r output =
     bind_result (exact_width output PAGE_RECORD_SIZE) (\<lambda>_.
     bind_result (write_bytes output 0 (hash_bytes (pag_hash r))) (\<lambda>output.
     bind_result (write_u32 output 32 (pag_logical_length r)) (\<lambda>output.
     write_u32 output 36 (pag_remote_location r))))"

definition page_decode :: "bytes \<Rightarrow> PageRecord result" where
  "page_decode input =
     bind_result (exact_width input PAGE_RECORD_SIZE) (\<lambda>_.
     bind_result (require_zero (slice 40 8 input)) (\<lambda>_.
     bind_result (take_bytes 32 input 0) (\<lambda>h.
     bind_result (read_u32 input 32) (\<lambda>logical_length.
     bind_result (read_u32 input 36) (\<lambda>remote_location.
       Inr \<lparr>pag_hash = hash_of_bytes h, pag_logical_length = logical_length, pag_remote_location = remote_location\<rparr>)))))"

record RemoteLocationRecord =
  loc_backend_id :: StringRef
  loc_provider_object_id :: StringRef
  loc_immutable_revision :: "StringRef option"
  loc_object_length :: u64
  loc_object_hash :: page_hash
  loc_object_kind :: ObjectKind
  loc_codec :: Codec
  loc_pack_offset :: u64
  loc_encoded_length :: u64

fun object_kind_code :: "ObjectKind \<Rightarrow> byte" where
  "object_kind_code RepositoryConfig = 0"
| "object_kind_code PackObject = 1"
| "object_kind_code ManifestObject = 2"
| "object_kind_code CommitObject = 3"
| "object_kind_code ProfileObject = 4"
| "object_kind_code PayloadObject = 5"

definition decode_object_kind :: "byte \<Rightarrow> ObjectKind result" where
  "decode_object_kind b =
     (if b = 0 then Inr RepositoryConfig else if b = 1 then Inr PackObject else if b = 2 then Inr ManifestObject
      else if b = 3 then Inr CommitObject else if b = 4 then Inr ProfileObject else if b = 5 then Inr PayloadObject
      else Inl ManifestInvalid)"

definition decode_codec :: "byte \<Rightarrow> Codec result" where
  "decode_codec b =
     (if b = 0 then Inr CodecNone else if b = 1 then Inr CodecZstd else if b = 2 then Inr CodecLz4 else Inl ManifestInvalid)"

definition location_encode :: "RemoteLocationRecord \<Rightarrow> bytes \<Rightarrow> bytes result" where
  "location_encode r output =
     bind_result (exact_width output REMOTE_LOCATION_RECORD_SIZE) (\<lambda>_.
     bind_result (write_u64 output 0 (str_offset (loc_backend_id r))) (\<lambda>output.
     bind_result (write_u32 output 8 (str_length (loc_backend_id r))) (\<lambda>output.
     bind_result (write_u32 output 12 (str_length (loc_provider_object_id r))) (\<lambda>output.
     bind_result (write_u64 output 16 (str_offset (loc_provider_object_id r))) (\<lambda>output.
     bind_result
       (case loc_immutable_revision r of None \<Rightarrow> Inr output
        | Some revision \<Rightarrow>
            bind_result (write_u64 output 24 (str_offset revision)) (\<lambda>output.
            bind_result (write_u32 output 32 (str_length revision)) (\<lambda>output.
            write_u32 output 36 1))) (\<lambda>output.
     bind_result (write_u64 output 40 (loc_object_length r)) (\<lambda>output.
     bind_result (write_bytes output 48 (hash_bytes (loc_object_hash r))) (\<lambda>output.
     let output = output[80 := object_kind_code (loc_object_kind r)];
         output = output[81 := codec_code (loc_codec r)] in
     bind_result (write_u64 output 88 (loc_pack_offset r)) (\<lambda>output.
     write_u64 output 96 (loc_encoded_length r))))))))))"

definition location_decode :: "bytes \<Rightarrow> RemoteLocationRecord result" where
  "location_decode input =
     bind_result (exact_width input REMOTE_LOCATION_RECORD_SIZE) (\<lambda>_.
     bind_result (require_zero (slice 82 6 input)) (\<lambda>_.
     bind_result (read_u32 input 36) (\<lambda>revision_present.
     bind_result
       (if revision_present = 0 then bind_result (require_zero (slice 24 12 input)) (\<lambda>_. Inr None)
        else if revision_present = 1 then
          bind_result (read_u64 input 24) (\<lambda>off. bind_result (read_u32 input 32) (\<lambda>len.
            Inr (Some \<lparr>str_offset = off, str_length = len\<rparr>)))
        else Inl ManifestInvalid) (\<lambda>immutable_revision.
     bind_result (read_u64 input 0) (\<lambda>backend_offset.
     bind_result (read_u32 input 8) (\<lambda>backend_length.
     bind_result (read_u64 input 16) (\<lambda>provider_offset.
     bind_result (read_u32 input 12) (\<lambda>provider_length.
     bind_result (read_u64 input 40) (\<lambda>object_length.
     bind_result (take_bytes 32 input 48) (\<lambda>object_hash.
     bind_result (decode_object_kind (input ! 80)) (\<lambda>object_kind.
     bind_result (decode_codec (input ! 81)) (\<lambda>codec.
     bind_result (read_u64 input 88) (\<lambda>pack_offset.
     bind_result (read_u64 input 96) (\<lambda>encoded_length.
       Inr \<lparr>loc_backend_id = \<lparr>str_offset = backend_offset, str_length = backend_length\<rparr>,
            loc_provider_object_id = \<lparr>str_offset = provider_offset, str_length = provider_length\<rparr>,
            loc_immutable_revision = immutable_revision, loc_object_length = object_length,
            loc_object_hash = hash_of_bytes object_hash, loc_object_kind = object_kind, loc_codec = codec,
            loc_pack_offset = pack_offset, loc_encoded_length = encoded_length\<rparr>))))))))))))))"

section \<open>Header\<close>

record MountHeader =
  hdr_repository :: id16
  hdr_generation :: u64
  hdr_page_size :: u64
  hdr_index_hash :: page_hash
  hdr_file_length :: u64
  hdr_sections :: "Section list"

definition header_section :: "MountHeader \<Rightarrow> SectionKind \<Rightarrow> Section" where
  "header_section h kind = hdr_sections h ! kind_index kind"

definition check_section :: "MountHeader \<Rightarrow> SectionKind \<Rightarrow> (u64 \<times> u64) list \<Rightarrow> (u64 \<times> u64) list result" where
  "check_section h expected spans =
     (let s = hdr_sections h ! kind_index expected in
      if sec_kind s \<noteq> expected then Inl ManifestInvalid
      else if sec_offset s < HEADER_SIZE \<or> sec_offset s mod HEADER_ALIGNMENT \<noteq> 0 then Inl ManifestInvalid
      else bind_result (ok_or (checked_mul64 (sec_count s) (record_size (sec_kind s))) ManifestInvalid) (\<lambda>expected_length.
        if sec_length s \<noteq> expected_length then Inl ManifestInvalid
        else bind_result (section_end s) (\<lambda>e.
          if e > hdr_file_length h then Inl ManifestInvalid
          else Inr (if sec_length s \<noteq> 0 then spans @ [(sec_offset s, e)] else spans))))"

definition validate_sections :: "MountHeader \<Rightarrow> unit result" where
  "validate_sections h =
     bind_result (fold_results (check_section h) ALL_KINDS []) (\<lambda>spans.
       if \<not> adjacent (\<lambda>a b. snd a \<le> fst b) (sort spans) then Inl ManifestInvalid else Inr ())"

definition mount_header_new :: "id16 \<Rightarrow> u64 \<Rightarrow> u64 \<Rightarrow> page_hash \<Rightarrow> u64 \<Rightarrow> Section list \<Rightarrow> MountHeader result" where
  "mount_header_new repository_id generation_id page_size ihash file_length sections =
     (let h = \<lparr>hdr_repository = repository_id, hdr_generation = generation_id, hdr_page_size = page_size,
               hdr_index_hash = ihash, hdr_file_length = file_length, hdr_sections = sections\<rparr>
      in bind_result (validate_sections h) (\<lambda>_. Inr h))"

definition parse_section :: "bytes \<Rightarrow> nat \<Rightarrow> Section option list \<Rightarrow> Section option list result" where
  "parse_section bs entry_index parsed =
     (let base = SECTION_DIRECTORY_OFFSET + entry_index * SECTION_ENTRY_SIZE in
      bind_result (read_u32 bs base) (\<lambda>code.
      bind_result (kind_from_u32 code) (\<lambda>kind.
      if kind \<noteq> ALL_KINDS ! entry_index then Inl ManifestInvalid
      else bind_result (read_u32 bs (base + 4)) (\<lambda>width.
      if width \<noteq> record_size kind then Inl UnsupportedLayout
      else bind_result (read_u64 bs (base + 8)) (\<lambda>offset.
      bind_result (read_u64 bs (base + 16)) (\<lambda>len.
      bind_result (read_u64 bs (base + 24)) (\<lambda>cnt.
      if parsed ! kind_index kind \<noteq> None then Inl ManifestInvalid
      else Inr (parsed[kind_index kind := Some \<lparr>sec_kind = kind, sec_offset = offset, sec_length = len, sec_count = cnt\<rparr>]))))))))"

definition mount_header_parse :: "(bytes \<Rightarrow> page_hash) \<Rightarrow> bytes \<Rightarrow> MountHeader result" where
  "mount_header_parse blake3 bs =
     (if length bs < HEADER_SIZE then Inl ManifestInvalid
      else if slice 0 8 bs \<noteq> MOUNT_MAGIC then Inl UnsupportedLayout
      else bind_result (read_u32 bs 8) (\<lambda>version.
      if version \<noteq> FORMAT_VERSION then Inl UnsupportedLayout
      else bind_result (read_u32 bs 12) (\<lambda>size.
      if size \<noteq> HEADER_SIZE then Inl UnsupportedLayout
      else bind_result (read_u32 bs 48) (\<lambda>sections.
      if sections \<noteq> SECTION_COUNT then Inl ManifestInvalid
      else bind_result (read_u32 bs 52) (\<lambda>flags.
      if flags \<noteq> 0 then Inl UnsupportedLayout
      else bind_result (take_bytes 32 bs 56) (\<lambda>fmt.
      if hash_of_bytes fmt \<noteq> format_hash blake3 then Inl UnsupportedLayout
      else bind_result (read_u64 bs 120) (\<lambda>file_length.
      if file_length \<noteq> min (length bs) u64_max then Inl ManifestInvalid
      else bind_result (fold_results (parse_section bs) [0..<SECTION_COUNT] (replicate SECTION_COUNT None)) (\<lambda>parsed.
      bind_result (map_results (\<lambda>s. ok_or s ManifestInvalid) parsed) (\<lambda>sections.
      bind_result (take_bytes 16 bs 16) (\<lambda>repository.
      bind_result (read_u64 bs 32) (\<lambda>generation.
      bind_result (read_u64 bs 40) (\<lambda>page_size.
      bind_result (take_bytes 32 bs INDEX_HASH_OFFSET) (\<lambda>ihash.
        let h = \<lparr>hdr_repository = id_of_bytes repository, hdr_generation = generation, hdr_page_size = page_size,
                 hdr_index_hash = hash_of_bytes ihash, hdr_file_length = file_length, hdr_sections = sections\<rparr>
        in bind_result (validate_sections h) (\<lambda>_. Inr h))))))))))))))"

definition write_section :: "nat \<times> Section \<Rightarrow> bytes \<Rightarrow> bytes result" where
  "write_section = (\<lambda>(entry_index, s) output.
     let base = SECTION_DIRECTORY_OFFSET + entry_index * SECTION_ENTRY_SIZE in
     bind_result (write_u32 output base (kind_code (sec_kind s))) (\<lambda>output.
     bind_result (write_u32 output (base + 4) (record_size (sec_kind s))) (\<lambda>output.
     bind_result (write_u64 output (base + 8) (sec_offset s)) (\<lambda>output.
     bind_result (write_u64 output (base + 16) (sec_length s)) (\<lambda>output.
     write_u64 output (base + 24) (sec_count s))))))"

definition mount_header_encode :: "(bytes \<Rightarrow> page_hash) \<Rightarrow> MountHeader \<Rightarrow> bytes result" where
  "mount_header_encode blake3 h =
     bind_result (validate_sections h) (\<lambda>_.
     let output = zeros HEADER_SIZE in
     bind_result (write_bytes output 0 MOUNT_MAGIC) (\<lambda>output.
     bind_result (write_u32 output 8 FORMAT_VERSION) (\<lambda>output.
     bind_result (write_u32 output 12 HEADER_SIZE) (\<lambda>output.
     bind_result (write_bytes output 16 (id_bytes (hdr_repository h))) (\<lambda>output.
     bind_result (write_u64 output 32 (hdr_generation h)) (\<lambda>output.
     bind_result (write_u64 output 40 (hdr_page_size h)) (\<lambda>output.
     bind_result (write_u32 output 48 SECTION_COUNT) (\<lambda>output.
     bind_result (write_u32 output 52 0) (\<lambda>output.
     bind_result (write_bytes output 56 (hash_bytes (format_hash blake3))) (\<lambda>output.
     bind_result (write_bytes output INDEX_HASH_OFFSET (hash_bytes (hdr_index_hash h))) (\<lambda>output.
     bind_result (write_u64 output 120 (hdr_file_length h)) (\<lambda>output.
     fold_results write_section (enumerate 0 (hdr_sections h)) output))))))))))))"

definition compute_index_hash :: "(bytes \<Rightarrow> page_hash) \<Rightarrow> bytes \<Rightarrow> page_hash result" where
  "compute_index_hash blake3 bs =
     (if length bs < INDEX_HASH_OFFSET + INDEX_HASH_LENGTH then Inl ManifestInvalid
      else Inr (blake3 (take INDEX_HASH_OFFSET bs @ zeros INDEX_HASH_LENGTH @ drop (INDEX_HASH_OFFSET + INDEX_HASH_LENGTH) bs)))"

section \<open>Record codecs are exact\<close>

lemma write_in:
  "offset + length v \<le> length buf \<Longrightarrow> offset + length v \<le> u64_max \<Longrightarrow> write_bytes buf offset v = Inr (copy_into buf offset v)"
  by (simp add: write_bytes_def checked_add64_def)

lemma numeral_u64 [simp]: "numeral n \<le> u64_max \<longleftrightarrow> (numeral n :: nat) \<le> 18446744073709551615"
  by (simp add: u64_max_def)

lemmas mount_sizes = DIRECTORY_RECORD_SIZE_def FILE_RECORD_SIZE_def EXTENT_RECORD_SIZE_def PAGE_RECORD_SIZE_def
  REMOTE_LOCATION_RECORD_SIZE_def

lemmas mount_writes = exact_width_def write_u32_def write_u64_def write_in mount_sizes

text \<open>The bytes an encoder leaves in a zeroed buffer.\<close>

definition encoded :: "('a \<Rightarrow> bytes \<Rightarrow> bytes result) \<Rightarrow> nat \<Rightarrow> 'a \<Rightarrow> bytes" where
  "encoded enc width r = (case enc r (zeros width) of Inl _ \<Rightarrow> [] | Inr bs \<Rightarrow> bs)"

definition string_ref_ok :: "StringRef \<Rightarrow> bool" where
  "string_ref_ok r \<longleftrightarrow> str_offset r \<le> u64_max \<and> str_length r \<le> u32_max"

definition directory_ok :: "DirectoryRecord \<Rightarrow> bool" where
  "directory_ok r \<longleftrightarrow> dir_parent r \<le> u32_max \<and> string_ref_ok (dir_name r) \<and> string_ref_ok (dir_key r) \<and>
     dir_first_directory r \<le> u32_max \<and> dir_directory_count r \<le> u32_max \<and> dir_first_file r \<le> u32_max \<and>
     dir_file_count r \<le> u32_max \<and> dir_canonical_index r \<le> u32_max"

definition file_ok :: "FileRecord \<Rightarrow> bool" where
  "file_ok r \<longleftrightarrow> fil_parent r \<le> u32_max \<and> string_ref_ok (fil_name r) \<and> string_ref_ok (fil_key r) \<and>
     fil_logical_size r \<le> u64_max \<and> fil_stable_id r \<le> u64_max \<and> fil_extent_start r \<le> u32_max \<and>
     fil_extent_count r \<le> u32_max \<and> fil_canonical_index r \<le> u32_max"

definition extent_ok :: "ExtentRecord \<Rightarrow> bool" where
  "extent_ok r \<longleftrightarrow> ext_logical_offset r \<le> u64_max \<and> ext_logical_length r \<le> u64_max \<and> ext_page_start r \<le> u32_max \<and>
     ext_page_count r \<le> u32_max \<and> ext_tail_length r \<le> u32_max"

definition page_record_ok :: "PageRecord \<Rightarrow> bool" where
  "page_record_ok r \<longleftrightarrow> pag_logical_length r \<le> u32_max \<and> pag_remote_location r \<le> u32_max"

definition location_ok :: "RemoteLocationRecord \<Rightarrow> bool" where
  "location_ok r \<longleftrightarrow> string_ref_ok (loc_backend_id r) \<and> string_ref_ok (loc_provider_object_id r) \<and>
     (case loc_immutable_revision r of None \<Rightarrow> True | Some v \<Rightarrow> string_ref_ok v) \<and>
     loc_object_length r \<le> u64_max \<and> loc_pack_offset r \<le> u64_max \<and> loc_encoded_length r \<le> u64_max"

lemmas mount_ok_defs = directory_ok_def file_ok_def extent_ok_def page_record_ok_def location_ok_def string_ref_ok_def

lemmas mount_reads = exact_width_def require_zero_def reads_in take_bytes_in bind_result_eq_Inr all_zero_slice
  le_value_u32_bound le_value_u64_bound mount_sizes

text \<open>Fields written in ascending order into a zeroed buffer lie one after the other, with zeros in the gaps.\<close>

lemma write_fill:
  assumes "length p \<le> a" "a - length p + length v \<le> n" "length p + n \<le> u64_max"
  shows "write_bytes (p @ zeros n) a v = Inr ((p @ zeros (a - length p) @ v) @ zeros (n - (a - length p) - length v))"
proof -
  have "copy_into (p @ zeros n) a v = (p @ zeros (a - length p) @ v) @ zeros (n - (a - length p) - length v)"
    using assms(1,2) by (simp add: copy_into_def zeros_def)
  then show ?thesis using assms by (simp add: write_bytes_def checked_add64_def)
qed

lemma set_fill:
  assumes "length p \<le> a" "a - length p < n"
  shows "(p @ zeros n)[a := x] = (p @ zeros (a - length p) @ [x]) @ zeros (n - (a - length p) - 1)"
  using assms by (intro nth_equalityI) (auto simp: nth_append zeros_def nth_list_update nth_Cons split: nat.splits)

lemma zeros_0 [simp]: "zeros 0 = []"
  by (simp add: zeros_def)

lemma write_first:
  "a + length v \<le> n \<Longrightarrow> n \<le> u64_max \<Longrightarrow> write_bytes (zeros n) a v = Inr ((zeros a @ v) @ zeros (n - a - length v))"
  using write_fill [of "[]" a v n] by simp

lemma exact_width_bind: "bind_result (exact_width bs n) f = Inr r \<Longrightarrow> length bs = n"
  by (auto simp: exact_width_def bind_result_eq_Inr split: if_splits)

lemma slice_skip: "length p \<le> a \<Longrightarrow> slice a n (p @ q) = slice (a - length p) n q"
  by (simp add: slice_def)

lemma slice_hit: "n = length p \<Longrightarrow> slice 0 n (p @ q) = p"
  by (simp add: slice_def)

lemma slice_last: "n = length p \<Longrightarrow> slice 0 n p = p"
  by (simp add: slice_def)

lemma nth_skip: "length p \<le> i \<Longrightarrow> (p @ q) ! i = q ! (i - length p)"
  by (simp add: nth_append)

lemma slice_Cons: "0 < a \<Longrightarrow> slice a n (x # q) = slice (a - 1) n q" "slice 0 (Suc 0) (x # q) = [x]"
  by (cases a) (simp_all add: slice_def)

lemmas fill_simps = write_u32_def write_u64_def exact_width_def write_first write_fill set_fill mount_sizes

lemmas layout_simps = slice_Cons slice_skip slice_hit slice_last nth_skip

lemma if_Inr: "(if P then Inl e else Inr x) = Inr r \<Longrightarrow> \<not> P \<and> r = x"
  by (simp split: if_splits)

lemma directory_layout:
  "directory_encode r (zeros 56) = Inr (le_bytes 4 (dir_parent r) @ zeros 4 @ le_bytes 8 (str_offset (dir_name r)) @
     le_bytes 4 (str_length (dir_name r)) @ le_bytes 4 (str_length (dir_key r)) @ le_bytes 8 (str_offset (dir_key r)) @
     le_bytes 4 (dir_first_directory r) @ le_bytes 4 (dir_directory_count r) @ le_bytes 4 (dir_first_file r) @
     le_bytes 4 (dir_file_count r) @ le_bytes 4 (dir_canonical_index r) @ zeros 4)"
  by (simp add: directory_encode_def fill_simps del: append_assoc)

lemma directory_decode_eq:
  "length bs = 56 \<Longrightarrow> directory_decode bs =
     (if slice 4 4 bs \<noteq> zeros 4 \<or> slice 52 4 bs \<noteq> zeros 4 then Inl UnsupportedLayout
      else Inr \<lparr>dir_parent = le_value (slice 0 4 bs), dir_name = \<lparr>str_offset = le_value (slice 8 8 bs), str_length = le_value (slice 16 4 bs)\<rparr>,
        dir_key = \<lparr>str_offset = le_value (slice 24 8 bs), str_length = le_value (slice 20 4 bs)\<rparr>,
        dir_first_directory = le_value (slice 32 4 bs), dir_directory_count = le_value (slice 36 4 bs),
        dir_first_file = le_value (slice 40 4 bs), dir_file_count = le_value (slice 44 4 bs), dir_canonical_index = le_value (slice 48 4 bs)\<rparr>)"
  by (simp add: directory_decode_def mount_reads)

lemma directory_decode_encode: "directory_ok r \<Longrightarrow> directory_decode (encoded directory_encode 56 r) = Inr r"
  by (simp add: encoded_def directory_layout directory_decode_eq layout_simps mount_ok_defs)

lemma directory_encode_decode:
  assumes "directory_decode bs = Inr r"
  shows "directory_ok r \<and> encoded directory_encode 56 r = bs"
proof -
  have len: "length bs = 56" using assms unfolding directory_decode_def mount_sizes by (rule exact_width_bind)
  note f = if_Inr [OF assms [unfolded directory_decode_eq [OF len]]]
  have "encoded directory_encode 56 r = bs"
    by (rule eq_by_fields [of "[4, 4, 8, 4, 4, 8, 4, 4, 4, 4, 4, 4]"])
      (use conjunct1 [OF f] len in \<open>simp_all add: conjunct2 [OF f] encoded_def directory_layout layout_simps le_bytes_of_value\<close>)
  then show ?thesis using len by (simp add: conjunct2 [OF f] mount_ok_defs le_value_u32_bound le_value_u64_bound)
qed

lemma extent_layout:
  "extent_encode r (zeros 32) = Inr (le_bytes 8 (ext_logical_offset r) @ le_bytes 8 (ext_logical_length r) @
     le_bytes 4 (ext_page_start r) @ le_bytes 4 (ext_page_count r) @ le_bytes 4 (ext_tail_length r) @ zeros 4)"
  by (simp add: extent_encode_def fill_simps del: append_assoc)

lemma extent_decode_eq:
  "length bs = 32 \<Longrightarrow> extent_decode bs =
     (if slice 28 4 bs \<noteq> zeros 4 then Inl UnsupportedLayout
      else Inr \<lparr>ext_logical_offset = le_value (slice 0 8 bs), ext_logical_length = le_value (slice 8 8 bs),
        ext_page_start = le_value (slice 16 4 bs), ext_page_count = le_value (slice 20 4 bs), ext_tail_length = le_value (slice 24 4 bs)\<rparr>)"
  by (simp add: extent_decode_def mount_reads)

lemma extent_decode_encode: "extent_ok r \<Longrightarrow> extent_decode (encoded extent_encode 32 r) = Inr r"
  by (simp add: encoded_def extent_layout extent_decode_eq layout_simps mount_ok_defs)

lemma extent_encode_decode:
  assumes "extent_decode bs = Inr r"
  shows "extent_ok r \<and> encoded extent_encode 32 r = bs"
proof -
  have len: "length bs = 32" using assms unfolding extent_decode_def mount_sizes by (rule exact_width_bind)
  note f = if_Inr [OF assms [unfolded extent_decode_eq [OF len]]]
  have "encoded extent_encode 32 r = bs"
    by (rule eq_by_fields [of "[8, 8, 4, 4, 4, 4]"])
      (use conjunct1 [OF f] len in \<open>simp_all add: conjunct2 [OF f] encoded_def extent_layout layout_simps le_bytes_of_value hash_bytes_of_hash\<close>)
  then show ?thesis using len by (simp add: conjunct2 [OF f] mount_ok_defs le_value_u32_bound le_value_u64_bound)
qed

lemma page_layout:
  "page_encode r (zeros 48) = Inr (hash_bytes (pag_hash r) @ le_bytes 4 (pag_logical_length r) @
     le_bytes 4 (pag_remote_location r) @ zeros 8)"
  by (simp add: page_encode_def fill_simps del: append_assoc)

lemma page_decode_eq:
  "length bs = 48 \<Longrightarrow> page_decode bs =
     (if slice 40 8 bs \<noteq> zeros 8 then Inl UnsupportedLayout
      else Inr \<lparr>pag_hash = hash_of_bytes (slice 0 32 bs), pag_logical_length = le_value (slice 32 4 bs),
        pag_remote_location = le_value (slice 36 4 bs)\<rparr>)"
  by (simp add: page_decode_def mount_reads)

lemma page_decode_encode: "page_record_ok r \<Longrightarrow> page_decode (encoded page_encode 48 r) = Inr r"
  by (simp add: encoded_def page_layout page_decode_eq layout_simps mount_ok_defs)

lemma page_encode_decode:
  assumes "page_decode bs = Inr r"
  shows "page_record_ok r \<and> encoded page_encode 48 r = bs"
proof -
  have len: "length bs = 48" using assms unfolding page_decode_def mount_sizes by (rule exact_width_bind)
  note f = if_Inr [OF assms [unfolded page_decode_eq [OF len]]]
  have "encoded page_encode 48 r = bs"
    by (rule eq_by_fields [of "[32, 4, 4, 8]"])
      (use conjunct1 [OF f] len in \<open>simp_all add: conjunct2 [OF f] encoded_def page_layout layout_simps le_bytes_of_value hash_bytes_of_hash\<close>)
  then show ?thesis using len by (simp add: conjunct2 [OF f] mount_ok_defs le_value_u32_bound le_value_u64_bound)
qed

lemma decode_file_class_code [simp]: "decode_file_class (class_code c) = Inr c"
  by (cases c) (simp_all add: decode_file_class_def)

lemma class_code_decode: "decode_file_class b = Inr c \<Longrightarrow> class_code c = b"
  by (auto simp: decode_file_class_def split: if_splits)

lemma file_layout:
  "file_encode r (zeros 64) = Inr (le_bytes 4 (fil_parent r) @ [class_code (fil_class r)] @ zeros 3 @
     le_bytes 8 (str_offset (fil_name r)) @ le_bytes 4 (str_length (fil_name r)) @ le_bytes 4 (str_length (fil_key r)) @
     le_bytes 8 (str_offset (fil_key r)) @ le_bytes 8 (fil_logical_size r) @ le_bytes 8 (fil_stable_id r) @
     le_bytes 4 (fil_extent_start r) @ le_bytes 4 (fil_extent_count r) @ le_bytes 4 (fil_canonical_index r) @ zeros 4)"
  by (simp add: file_encode_def fill_simps del: append_assoc)

lemma file_decode_eq:
  "length bs = 64 \<Longrightarrow> file_decode bs =
     (if slice 5 3 bs \<noteq> zeros 3 \<or> slice 60 4 bs \<noteq> zeros 4 then Inl UnsupportedLayout
      else bind_result (decode_file_class (bs ! 4)) (\<lambda>c.
        Inr \<lparr>fil_parent = le_value (slice 0 4 bs), fil_class = c, fil_name = \<lparr>str_offset = le_value (slice 8 8 bs), str_length = le_value (slice 16 4 bs)\<rparr>,
          fil_key = \<lparr>str_offset = le_value (slice 24 8 bs), str_length = le_value (slice 20 4 bs)\<rparr>, fil_logical_size = le_value (slice 32 8 bs),
          fil_stable_id = le_value (slice 40 8 bs), fil_extent_start = le_value (slice 48 4 bs), fil_extent_count = le_value (slice 52 4 bs),
          fil_canonical_index = le_value (slice 56 4 bs)\<rparr>))"
  by (simp add: file_decode_def mount_reads)

lemma file_decode_encode: "file_ok r \<Longrightarrow> file_decode (encoded file_encode 64 r) = Inr r"
  by (simp add: encoded_def file_layout file_decode_eq layout_simps mount_ok_defs)

lemma if_bind_Inr: "(if P then Inl e else bind_result y (\<lambda>c. Inr (g c))) = Inr r \<Longrightarrow> \<not> P \<and> (\<exists>c. y = Inr c \<and> r = g c)"
  by (auto simp: bind_result_eq_Inr split: if_splits)

lemma file_encode_decode:
  assumes "file_decode bs = Inr r"
  shows "file_ok r \<and> encoded file_encode 64 r = bs"
proof -
  have len: "length bs = 64" using assms unfolding file_decode_def mount_sizes by (rule exact_width_bind)
  note f = if_bind_Inr [OF assms [unfolded file_decode_eq [OF len]]]
  then obtain c where c: "decode_file_class (bs ! 4) = Inr c" and r: "r = \<lparr>fil_parent = le_value (slice 0 4 bs), fil_class = c,
      fil_name = \<lparr>str_offset = le_value (slice 8 8 bs), str_length = le_value (slice 16 4 bs)\<rparr>,
      fil_key = \<lparr>str_offset = le_value (slice 24 8 bs), str_length = le_value (slice 20 4 bs)\<rparr>, fil_logical_size = le_value (slice 32 8 bs),
      fil_stable_id = le_value (slice 40 8 bs), fil_extent_start = le_value (slice 48 4 bs), fil_extent_count = le_value (slice 52 4 bs),
      fil_canonical_index = le_value (slice 56 4 bs)\<rparr>" by blast
  have "encoded file_encode 64 r = bs"
    by (rule eq_by_fields [of "[4, 1, 3, 8, 4, 4, 8, 8, 8, 4, 4, 4, 4]"])
      (use conjunct1 [OF f] len in \<open>simp_all add: r class_code_decode [OF c] slice_nth encoded_def file_layout layout_simps le_bytes_of_value\<close>)
  then show ?thesis using len by (simp add: r mount_ok_defs le_value_u32_bound le_value_u64_bound)
qed

lemma decode_codes [simp]: "decode_object_kind (object_kind_code k) = Inr k" "decode_codec (codec_code c) = Inr c"
  by (cases k, simp_all add: decode_object_kind_def) (cases c, simp_all add: decode_codec_def)

lemma codes_decode: "decode_object_kind b = Inr k \<Longrightarrow> object_kind_code k = b" "decode_codec b = Inr c \<Longrightarrow> codec_code c = b"
  by (auto simp: decode_object_kind_def decode_codec_def split: if_splits)

text \<open>The optional revision takes 16 bytes: an offset, a length and the flag.\<close>

definition revision_bytes :: "StringRef option \<Rightarrow> bytes" where
  "revision_bytes v = (case v of None \<Rightarrow> zeros 16 | Some r \<Rightarrow> le_bytes 8 (str_offset r) @ le_bytes 4 (str_length r) @ le_bytes 4 1)"

lemma length_revision [simp]: "length (revision_bytes v) = 16"
  by (simp add: revision_bytes_def split: option.splits)

lemma location_layout:
  "location_encode r (zeros 104) = Inr (le_bytes 8 (str_offset (loc_backend_id r)) @ le_bytes 4 (str_length (loc_backend_id r)) @
     le_bytes 4 (str_length (loc_provider_object_id r)) @ le_bytes 8 (str_offset (loc_provider_object_id r)) @
     revision_bytes (loc_immutable_revision r) @ le_bytes 8 (loc_object_length r) @ hash_bytes (loc_object_hash r) @
     [object_kind_code (loc_object_kind r)] @ [codec_code (loc_codec r)] @ zeros 6 @ le_bytes 8 (loc_pack_offset r) @
     le_bytes 8 (loc_encoded_length r))"
  by (cases "loc_immutable_revision r") (simp_all add: location_encode_def revision_bytes_def fill_simps del: append_assoc)

definition decode_revision :: "bytes \<Rightarrow> StringRef option result" where
  "decode_revision bs =
     (if le_value (slice 36 4 bs) = 0 then (if slice 24 12 bs = zeros 12 then Inr None else Inl UnsupportedLayout)
      else if le_value (slice 36 4 bs) = 1 then Inr (Some \<lparr>str_offset = le_value (slice 24 8 bs), str_length = le_value (slice 32 4 bs)\<rparr>)
      else Inl ManifestInvalid)"

lemma location_decode_eq:
  "length bs = 104 \<Longrightarrow> location_decode bs =
     (if slice 82 6 bs \<noteq> zeros 6 then Inl UnsupportedLayout
      else bind_result (decode_revision bs) (\<lambda>v.
        bind_result (decode_object_kind (bs ! 80)) (\<lambda>k.
        bind_result (decode_codec (bs ! 81)) (\<lambda>c.
        Inr \<lparr>loc_backend_id = \<lparr>str_offset = le_value (slice 0 8 bs), str_length = le_value (slice 8 4 bs)\<rparr>,
          loc_provider_object_id = \<lparr>str_offset = le_value (slice 16 8 bs), str_length = le_value (slice 12 4 bs)\<rparr>,
          loc_immutable_revision = v, loc_object_length = le_value (slice 40 8 bs), loc_object_hash = hash_of_bytes (slice 48 32 bs),
          loc_object_kind = k, loc_codec = c, loc_pack_offset = le_value (slice 88 8 bs), loc_encoded_length = le_value (slice 96 8 bs)\<rparr>))))"
  by (simp add: location_decode_def decode_revision_def mount_reads)

lemma zero_bytes: "length bs = n \<Longrightarrow> le_value bs = 0 \<longleftrightarrow> bs = zeros n"
  by (induction bs arbitrary: n) (auto simp: zeros_def unat_eq_0)

lemma decode_revision_iff:
  assumes "length bs = 104"
  shows "decode_revision bs = Inr v \<longleftrightarrow> slice 24 16 bs = revision_bytes v \<and> (case v of None \<Rightarrow> True | Some r \<Rightarrow> string_ref_ok r)"
proof -
  have cut: "slice 24 16 bs = xs @ ys \<longleftrightarrow> slice 24 12 bs = xs \<and> slice 36 4 bs = ys" if "length xs = 12" for xs ys
    using slice_split [of 24 12 4 bs] assms that by simp
  have cut': "slice 24 12 bs = xs @ ys \<longleftrightarrow> slice 24 8 bs = xs \<and> slice 32 4 bs = ys" if "length xs = 8" for xs ys
    using slice_split [of 24 8 4 bs] assms that by simp
  have z: "zeros 16 = zeros 12 @ zeros 4" by (simp add: zeros_def replicate_add [symmetric])
  have le: "le_value xs = n \<longleftrightarrow> xs = le_bytes k n" if "length xs = k" "n < 256 ^ k" for xs k n
    using that by (metis le_bytes_of_value le_value_le_bytes)
  have flag: "le_value (slice 36 4 bs) = 0 \<longleftrightarrow> slice 36 4 bs = zeros 4" "le_value (slice 36 4 bs) = 1 \<longleftrightarrow> slice 36 4 bs = le_bytes 4 1"
    using assms zero_bytes [of "slice 36 4 bs" 4] le [of "slice 36 4 bs" 4 1] by simp_all
  show ?thesis
  proof (cases v)
    case None
    then show ?thesis using flag by (auto simp: decode_revision_def revision_bytes_def z cut)
  next
    case (Some r)
    have "(str_offset r = le_value (slice 24 8 bs) \<and> str_length r = le_value (slice 32 4 bs)) \<longleftrightarrow>
        (slice 24 8 bs = le_bytes 8 (str_offset r) \<and> slice 32 4 bs = le_bytes 4 (str_length r) \<and> string_ref_ok r)"
      using assms le_value_u64_bound [of "slice 24 8 bs"] le_value_u32_bound [of "slice 32 4 bs"]
      by (auto simp: string_ref_ok_def le_bytes_of_value)
    moreover have "\<lparr>str_offset = le_value (slice 24 8 bs), str_length = le_value (slice 32 4 bs)\<rparr> = r \<longleftrightarrow>
        str_offset r = le_value (slice 24 8 bs) \<and> str_length r = le_value (slice 32 4 bs)" by (cases r) auto
    moreover have "slice 24 16 bs = revision_bytes v \<longleftrightarrow> slice 24 8 bs = le_bytes 8 (str_offset r) \<and>
        slice 32 4 bs = le_bytes 4 (str_length r) \<and> slice 36 4 bs = le_bytes 4 1"
      using cut [of "le_bytes 8 (str_offset r) @ le_bytes 4 (str_length r)" "le_bytes 4 1"] cut' [of "le_bytes 8 (str_offset r)"]
      by (simp only: revision_bytes_def Some option.case append_assoc length_append length_le_bytes) simp
    moreover have "le_bytes 4 (Suc 0) \<noteq> zeros 4"
      using zero_bytes [of "zeros 4" 4] le_value_u32 [of "Suc 0"] by (metis length_zeros nat.distinct(1) one_le_u32_max)
    ultimately show ?thesis using Some flag by (simp add: decode_revision_def)
  qed
qed

lemma location_decode_encode: "location_ok r \<Longrightarrow> location_decode (encoded location_encode 104 r) = Inr r"
proof -
  assume ok: "location_ok r"
  let ?b = "encoded location_encode 104 r"
  have "decode_revision ?b = Inr (loc_immutable_revision r)"
    using ok by (simp add: decode_revision_iff encoded_def location_layout layout_simps location_ok_def)
  then show ?thesis using ok
    by (simp add: encoded_def location_layout location_decode_eq layout_simps mount_ok_defs)
qed

lemma location_encode_decode:
  assumes "location_decode bs = Inr r"
  shows "location_ok r \<and> encoded location_encode 104 r = bs"
proof -
  have len: "length bs = 104" using assms unfolding location_decode_def mount_sizes by (rule exact_width_bind)
  from assms [unfolded location_decode_eq [OF len]] obtain v k c where z: "slice 82 6 bs = zeros 6" and v: "decode_revision bs = Inr v"
    and k: "decode_object_kind (bs ! 80) = Inr k" "decode_codec (bs ! 81) = Inr c"
    and r: "r = \<lparr>loc_backend_id = \<lparr>str_offset = le_value (slice 0 8 bs), str_length = le_value (slice 8 4 bs)\<rparr>,
          loc_provider_object_id = \<lparr>str_offset = le_value (slice 16 8 bs), str_length = le_value (slice 12 4 bs)\<rparr>,
          loc_immutable_revision = v, loc_object_length = le_value (slice 40 8 bs), loc_object_hash = hash_of_bytes (slice 48 32 bs),
          loc_object_kind = k, loc_codec = c, loc_pack_offset = le_value (slice 88 8 bs), loc_encoded_length = le_value (slice 96 8 bs)\<rparr>"
    by (auto simp: bind_result_eq_Inr split: if_splits)
  note rev = v [unfolded decode_revision_iff [OF len]]
  have "encoded location_encode 104 r = bs"
    by (rule eq_by_fields [of "[8, 4, 4, 8, 16, 8, 32, 1, 1, 6, 8, 8]"])
      (use z rev len in \<open>simp_all add: r codes_decode(1) [OF k(1)] codes_decode(2) [OF k(2)] slice_nth encoded_def location_layout
         layout_simps le_bytes_of_value hash_bytes_of_hash\<close>)
  then show ?thesis using len rev by (simp add: r mount_ok_defs le_value_u32_bound le_value_u64_bound)
qed

lemma encoded_lengths:
  "length (encoded directory_encode 56 d) = 56" "length (encoded file_encode 64 f) = 64" "length (encoded extent_encode 32 e) = 32"
  "length (encoded page_encode 48 p) = 48" "length (encoded location_encode 104 l) = 104"
  by (simp_all add: encoded_def directory_layout file_layout extent_layout page_layout location_layout)

interpretation directory_codec: record_codec "encoded directory_encode 56" directory_decode directory_ok 56
  by unfold_locales (simp_all add: encoded_lengths directory_decode_encode directory_encode_decode)

interpretation file_codec: record_codec "encoded file_encode 64" file_decode file_ok 64
  by unfold_locales (simp_all add: encoded_lengths file_decode_encode file_encode_decode)

interpretation extent_codec: record_codec "encoded extent_encode 32" extent_decode extent_ok 32
  by unfold_locales (simp_all add: encoded_lengths extent_decode_encode extent_encode_decode)

interpretation page_codec: record_codec "encoded page_encode 48" page_decode page_record_ok 48
  by unfold_locales (simp_all add: encoded_lengths page_decode_encode page_encode_decode)

interpretation location_codec: record_codec "encoded location_encode 104" location_decode location_ok 104
  by unfold_locales (simp_all add: encoded_lengths location_decode_encode location_encode_decode)

end
