(* ===== verification/Mount_Index.thy ===== *)
theory Mount_Index
  imports Mount_Format Name_Policy
begin

text \<open>Opening a mount index: \<open>mirage-index/src/reader.rs\<close> and the views of \<open>view.rs\<close>.  An index is the bytes of its
  file and the parsed header; a view is a record with its ordinal.  Opening checks the hash of the whole
  file and then every record, so that the accessors of an opened index cannot fail.\<close>

definition checked_add32 :: "u32 \<Rightarrow> u32 \<Rightarrow> u32 option" where
  "checked_add32 a b = (if a + b \<le> u32_max then Some (a + b) else None)"

lemma checked_add32_eq_Some [simp]: "checked_add32 a b = Some c \<longleftrightarrow> c = a + b \<and> a + b \<le> u32_max"
  by (auto simp: checked_add32_def)

definition for_each :: "('a \<Rightarrow> unit result) \<Rightarrow> 'a list \<Rightarrow> unit result" where
  "for_each f xs = fold_results (\<lambda>x _. f x) xs ()"

definition to_ordinal :: "u64 \<Rightarrow> u32 result" where
  "to_ordinal i = (if i \<le> u32_max then Inr i else Inl ManifestInvalid)"

section \<open>Views\<close>

record MountIndex =
  mi_bytes :: bytes
  mi_header :: MountHeader

definition index_count :: "MountIndex \<Rightarrow> SectionKind \<Rightarrow> u64" where
  "index_count mi kind = sec_count (header_section (mi_header mi) kind)"

definition record_bytes :: "MountIndex \<Rightarrow> SectionKind \<Rightarrow> u32 \<Rightarrow> bytes result" where
  "record_bytes mi kind i =
     (let sec = header_section (mi_header mi) kind in
      if i \<ge> sec_count sec then Inl InvalidArgument
      else bind_result (ok_or (checked_mul64 i (record_size kind)) ManifestInvalid) (\<lambda>relative.
           bind_result (ok_or (checked_add64 (sec_offset sec) relative) ManifestInvalid) (\<lambda>absolute.
           bytes_at (mi_bytes mi) absolute (record_size kind))))"

definition index_string :: "MountIndex \<Rightarrow> StringRef \<Rightarrow> bytes result" where
  "index_string mi r =
     (let sec = header_section (mi_header mi) Strings in
      bind_result (ok_or (checked_add64 (str_offset r) (str_length r)) ManifestInvalid) (\<lambda>relative_end.
      if relative_end > sec_length sec then Inl ManifestInvalid
      else bind_result (ok_or (checked_add64 (sec_offset sec) (str_offset r)) ManifestInvalid) (\<lambda>absolute.
           bind_result (bytes_at (mi_bytes mi) absolute (str_length r)) from_utf8)))"

record DirectoryView =
  dv_ordinal :: u32
  dv_record :: DirectoryRecord

record FileView =
  fv_ordinal :: u32
  fv_record :: FileRecord

record ExtentView =
  ev_ordinal :: u32
  ev_record :: ExtentRecord

record PageView =
  pv_ordinal :: u32
  pv_record :: PageRecord

record RemoteLocationView =
  lv_ordinal :: u32
  lv_record :: RemoteLocationRecord

definition directory_by_index :: "MountIndex \<Rightarrow> u32 \<Rightarrow> DirectoryView result" where
  "directory_by_index mi i =
     bind_result (record_bytes mi Directories i) (\<lambda>bs. bind_result (directory_decode bs) (\<lambda>r. Inr \<lparr>dv_ordinal = i, dv_record = r\<rparr>))"

definition file_by_index :: "MountIndex \<Rightarrow> u32 \<Rightarrow> FileView result" where
  "file_by_index mi i =
     bind_result (record_bytes mi Files i) (\<lambda>bs. bind_result (file_decode bs) (\<lambda>r. Inr \<lparr>fv_ordinal = i, fv_record = r\<rparr>))"

definition extent_by_index :: "MountIndex \<Rightarrow> u32 \<Rightarrow> ExtentView result" where
  "extent_by_index mi i =
     bind_result (record_bytes mi Extents i) (\<lambda>bs. bind_result (extent_decode bs) (\<lambda>r. Inr \<lparr>ev_ordinal = i, ev_record = r\<rparr>))"

definition page_by_ordinal :: "MountIndex \<Rightarrow> u32 \<Rightarrow> PageView result" where
  "page_by_ordinal mi i =
     bind_result (record_bytes mi Pages i) (\<lambda>bs. bind_result (page_decode bs) (\<lambda>r. Inr \<lparr>pv_ordinal = i, pv_record = r\<rparr>))"

definition remote_location_by_index :: "MountIndex \<Rightarrow> u32 \<Rightarrow> RemoteLocationView result" where
  "remote_location_by_index mi i =
     bind_result (record_bytes mi RemoteLocations i) (\<lambda>bs. bind_result (location_decode bs) (\<lambda>r. Inr \<lparr>lv_ordinal = i, lv_record = r\<rparr>))"

definition directory_name :: "MountIndex \<Rightarrow> DirectoryView \<Rightarrow> bytes result" where
  "directory_name mi v = index_string mi (dir_name (dv_record v))"

definition directory_key :: "MountIndex \<Rightarrow> DirectoryView \<Rightarrow> bytes result" where
  "directory_key mi v = index_string mi (dir_key (dv_record v))"

definition file_name :: "MountIndex \<Rightarrow> FileView \<Rightarrow> bytes result" where
  "file_name mi v = index_string mi (fil_name (fv_record v))"

definition file_key :: "MountIndex \<Rightarrow> FileView \<Rightarrow> bytes result" where
  "file_key mi v = index_string mi (fil_key (fv_record v))"

definition file_extent :: "MountIndex \<Rightarrow> FileView \<Rightarrow> u32 \<Rightarrow> ExtentView result" where
  "file_extent mi v relative =
     (if relative \<ge> fil_extent_count (fv_record v) then Inl InvalidArgument
      else bind_result (ok_or (checked_add32 (fil_extent_start (fv_record v)) relative) ManifestInvalid) (extent_by_index mi))"

definition extent_page :: "MountIndex \<Rightarrow> ExtentView \<Rightarrow> u32 \<Rightarrow> PageView result" where
  "extent_page mi v relative =
     (if relative \<ge> ext_page_count (ev_record v) then Inl InvalidArgument
      else bind_result (ok_or (checked_add32 (ext_page_start (ev_record v)) relative) ManifestInvalid) (page_by_ordinal mi))"

definition page_location :: "MountIndex \<Rightarrow> PageView \<Rightarrow> RemoteLocationView result" where
  "page_location mi v = remote_location_by_index mi (pag_remote_location (pv_record v))"

definition location_backend_id :: "MountIndex \<Rightarrow> RemoteLocationView \<Rightarrow> bytes result" where
  "location_backend_id mi v = index_string mi (loc_backend_id (lv_record v))"

definition location_provider_object_id :: "MountIndex \<Rightarrow> RemoteLocationView \<Rightarrow> bytes result" where
  "location_provider_object_id mi v = index_string mi (loc_provider_object_id (lv_record v))"

definition location_revision :: "MountIndex \<Rightarrow> RemoteLocationView \<Rightarrow> bytes option result" where
  "location_revision mi v =
     (case loc_immutable_revision (lv_record v) of None \<Rightarrow> Inr None
      | Some r \<Rightarrow> bind_result (index_string mi r) (\<lambda>s. Inr (Some s)))"

section \<open>Validation\<close>

definition validate_range :: "u32 \<Rightarrow> u32 \<Rightarrow> u64 \<Rightarrow> unit result" where
  "validate_range start cnt maximum =
     bind_result (ok_or (checked_add64 start cnt) ManifestInvalid) (\<lambda>e. if e > maximum then Inl ManifestInvalid else Inr ())"

text \<open>The name of the child with a given ordinal.\<close>

definition directory_name_at :: "MountIndex \<Rightarrow> u32 \<Rightarrow> bytes result" where
  "directory_name_at mi i = bind_result (directory_by_index mi i) (directory_name mi)"

definition file_name_at :: "MountIndex \<Rightarrow> u32 \<Rightarrow> bytes result" where
  "file_name_at mi i = bind_result (file_by_index mi i) (file_name mi)"

definition order_step ::
  "(bytes \<Rightarrow> bytes \<Rightarrow> ordering) \<Rightarrow> (u32 \<Rightarrow> bytes result) \<Rightarrow> u32 \<Rightarrow> bytes option \<Rightarrow> bytes option result" where
  "order_step wide name_at child previous =
     bind_result (name_at child) (\<lambda>name.
       if (case previous of None \<Rightarrow> False | Some p \<Rightarrow> compare_names wide p name \<noteq> Less) then Inl ManifestInvalid
       else Inr (Some name))"

function merge_check ::
  "(bytes \<Rightarrow> bytes \<Rightarrow> ordering) \<Rightarrow> MountIndex \<Rightarrow> u32 \<Rightarrow> u32 \<Rightarrow> u32 \<Rightarrow> u32 \<Rightarrow> unit result" where
  "merge_check wide mi directory_cursor directory_end file_cursor file_end =
     (if directory_cursor < directory_end \<and> file_cursor < file_end then
        bind_result (directory_name_at mi directory_cursor) (\<lambda>d.
        bind_result (file_name_at mi file_cursor) (\<lambda>f.
          case compare_ordinal_ignore_case wide d f of
            Less \<Rightarrow> merge_check wide mi (directory_cursor + 1) directory_end file_cursor file_end
          | Greater \<Rightarrow> merge_check wide mi directory_cursor directory_end (file_cursor + 1) file_end
          | Equal \<Rightarrow> Inl ManifestInvalid))
      else Inr ())"
  by pat_completeness auto
termination by (relation "measure (\<lambda>(_, _, dc, de, fc, fe). (de - dc) + (fe - fc))") auto

declare merge_check.simps [simp del]

definition validate_child_order :: "(bytes \<Rightarrow> bytes \<Rightarrow> ordering) \<Rightarrow> MountIndex \<Rightarrow> DirectoryView \<Rightarrow> unit result" where
  "validate_child_order wide mi v =
     (let d = dv_record v in
      bind_result (ok_or (checked_add32 (dir_first_directory d) (dir_directory_count d)) ManifestInvalid) (\<lambda>directory_end.
      bind_result (fold_results (order_step wide (directory_name_at mi)) [dir_first_directory d..<directory_end] None) (\<lambda>_.
      bind_result (ok_or (checked_add32 (dir_first_file d) (dir_file_count d)) ManifestInvalid) (\<lambda>file_end.
      bind_result (fold_results (order_step wide (file_name_at mi)) [dir_first_file d..<file_end] None) (\<lambda>_.
      merge_check wide mi (dir_first_directory d) directory_end (dir_first_file d) file_end)))))"

definition validate_directory ::
  "(nat \<Rightarrow> nat list) \<Rightarrow> (bytes \<Rightarrow> bytes \<Rightarrow> ordering) \<Rightarrow> MountIndex \<Rightarrow> nat \<Rightarrow> u64 \<times> u64 \<Rightarrow> (u64 \<times> u64) result" where
  "validate_directory upper wide mi i expected =
     bind_result (to_ordinal i) (\<lambda>i.
     bind_result (directory_by_index mi i) (\<lambda>v.
     let d = dv_record v in
     if dir_canonical_index d \<noteq> i then Inl ManifestInvalid
     else if (i = 0) \<noteq> (dir_parent d = NO_PARENT) then Inl ManifestInvalid
     else if i \<noteq> 0 \<and> dir_parent d \<ge> i then Inl ManifestInvalid
     else bind_result (directory_name mi v) (\<lambda>name.
     bind_result (if i = 0 then (if name \<noteq> [] then Inl ManifestInvalid else Inr ()) else validate_component upper name) (\<lambda>_.
     bind_result (validate_range (dir_first_directory d) (dir_directory_count d) (index_count mi Directories)) (\<lambda>_.
     bind_result (validate_range (dir_first_file d) (dir_file_count d) (index_count mi Files)) (\<lambda>_.
     if dir_first_directory d \<noteq> fst expected \<or> dir_first_file d \<noteq> snd expected then Inl ManifestInvalid
     else bind_result (ok_or (checked_add64 (fst expected) (dir_directory_count d)) ManifestInvalid) (\<lambda>next_directory.
     bind_result (ok_or (checked_add64 (snd expected) (dir_file_count d)) ManifestInvalid) (\<lambda>next_file.
     bind_result (directory_key mi v) (\<lambda>key.
     if ordinal_key upper name \<noteq> key then Inl ManifestInvalid
     else bind_result (ok_or (checked_add32 (dir_first_directory d) (dir_directory_count d)) ManifestInvalid) (\<lambda>directory_end.
     bind_result (for_each (\<lambda>child. bind_result (directory_by_index mi child) (\<lambda>c.
       if dir_parent (dv_record c) \<noteq> i then Inl ManifestInvalid else Inr ())) [dir_first_directory d..<directory_end]) (\<lambda>_.
     bind_result (ok_or (checked_add32 (dir_first_file d) (dir_file_count d)) ManifestInvalid) (\<lambda>file_end.
     bind_result (for_each (\<lambda>child. bind_result (file_by_index mi child) (\<lambda>c.
       if fil_parent (fv_record c) \<noteq> i then Inl ManifestInvalid else Inr ())) [dir_first_file d..<file_end]) (\<lambda>_.
     bind_result (validate_child_order wide mi v) (\<lambda>_.
     Inr (next_directory, next_file)))))))))))))))"

definition page_step :: "MountIndex \<Rightarrow> ExtentView \<Rightarrow> u32 \<Rightarrow> u64 \<Rightarrow> u64 result" where
  "page_step mi e page_index page_bytes =
     bind_result (extent_page mi e page_index) (\<lambda>p.
       if page_index + 1 \<noteq> ext_page_count (ev_record e) \<and> pag_logical_length (pv_record p) \<noteq> hdr_page_size (mi_header mi)
       then Inl ManifestInvalid
       else ok_or (checked_add64 page_bytes (pag_logical_length (pv_record p))) ManifestInvalid)"

definition extent_step :: "MountIndex \<Rightarrow> FileView \<Rightarrow> u32 \<Rightarrow> u64 \<Rightarrow> u64 result" where
  "extent_step mi f extent_index expected_offset =
     bind_result (file_extent mi f extent_index) (\<lambda>e.
       if ext_logical_offset (ev_record e) \<noteq> expected_offset \<or> ext_logical_length (ev_record e) = 0 then Inl ManifestInvalid
       else bind_result (fold_results (page_step mi e) [0..<ext_page_count (ev_record e)] 0) (\<lambda>page_bytes.
         if page_bytes \<noteq> ext_logical_length (ev_record e) then Inl ManifestInvalid
         else ok_or (checked_add64 expected_offset (ext_logical_length (ev_record e))) ManifestInvalid))"

definition validate_file_layout :: "MountIndex \<Rightarrow> FileView \<Rightarrow> unit result" where
  "validate_file_layout mi v =
     (let f = fv_record v in
      if \<not> is_virtual (fil_class f) then (if fil_extent_count f \<noteq> 0 then Inl ManifestInvalid else Inr ())
      else if fil_logical_size f = 0 then (if fil_extent_count f \<noteq> 0 then Inl ManifestInvalid else Inr ())
      else if fil_extent_count f = 0 then Inl ManifestInvalid
      else bind_result (fold_results (extent_step mi v) [0..<fil_extent_count f] 0) (\<lambda>expected_offset.
        if expected_offset \<noteq> fil_logical_size f then Inl ManifestInvalid else Inr ()))"

definition validate_file ::
  "(nat \<Rightarrow> nat list) \<Rightarrow> MountIndex \<Rightarrow> nat \<Rightarrow> u64 \<times> u64 set \<Rightarrow> (u64 \<times> u64 set) result" where
  "validate_file upper mi i st =
     bind_result (to_ordinal i) (\<lambda>ordinal.
     bind_result (file_by_index mi ordinal) (\<lambda>v.
     let f = fv_record v in
     if fil_canonical_index f \<noteq> ordinal then Inl ManifestInvalid
     else if fil_parent f \<ge> index_count mi Directories then Inl ManifestInvalid
     else bind_result (file_name mi v) (\<lambda>name.
     bind_result (validate_component upper name) (\<lambda>_.
     bind_result (file_key mi v) (\<lambda>key.
     if ordinal_key upper name \<noteq> key then Inl ManifestInvalid
     else bind_result (validate_range (fil_extent_start f) (fil_extent_count f) (index_count mi Extents)) (\<lambda>_.
     if fil_extent_start f \<noteq> fst st then Inl ManifestInvalid
     else bind_result (ok_or (checked_add64 (fst st) (fil_extent_count f)) ManifestInvalid) (\<lambda>next_extent.
     if fil_stable_id f \<in> snd st then Inl ManifestInvalid
     else bind_result (validate_file_layout mi v) (\<lambda>_. Inr (next_extent, insert (fil_stable_id f) (snd st)))))))))) "

definition validate_extent :: "MountIndex \<Rightarrow> nat \<Rightarrow> u64 \<Rightarrow> u64 result" where
  "validate_extent mi i expected_page_start =
     bind_result (to_ordinal i) (\<lambda>ordinal.
     bind_result (extent_by_index mi ordinal) (\<lambda>v.
     let e = ev_record v in
     bind_result (validate_range (ext_page_start e) (ext_page_count e) (index_count mi Pages)) (\<lambda>_.
     if ext_logical_length e = 0 \<or> ext_page_count e = 0 then Inl ManifestInvalid
     else if ext_page_start e \<noteq> expected_page_start then Inl ManifestInvalid
     else bind_result (ok_or (checked_add64 expected_page_start (ext_page_count e)) ManifestInvalid) (\<lambda>next_page.
     bind_result (extent_page mi v (ext_page_count e - 1)) (\<lambda>last_page.
     if ext_tail_length e \<noteq> pag_logical_length (pv_record last_page) then Inl ManifestInvalid else Inr next_page)))))"

definition validate_page :: "MountIndex \<Rightarrow> nat \<Rightarrow> unit result" where
  "validate_page mi i =
     bind_result (to_ordinal i) (\<lambda>ordinal.
     bind_result (page_by_ordinal mi ordinal) (\<lambda>v.
     if pag_logical_length (pv_record v) = 0 \<or> pag_logical_length (pv_record v) > hdr_page_size (mi_header mi) \<or>
        pag_remote_location (pv_record v) \<noteq> i then Inl ManifestInvalid else Inr ()))"

definition validate_location :: "MountIndex \<Rightarrow> nat \<Rightarrow> unit result" where
  "validate_location mi i =
     bind_result (to_ordinal i) (\<lambda>ordinal.
     bind_result (remote_location_by_index mi ordinal) (\<lambda>v.
     bind_result (location_backend_id mi v) (\<lambda>_.
     bind_result (location_provider_object_id mi v) (\<lambda>_.
     bind_result (location_revision mi v) (\<lambda>_.
     if loc_object_kind (lv_record v) \<noteq> PackObject \<or> loc_encoded_length (lv_record v) = 0 then Inl ManifestInvalid
     else bind_result (ok_or (checked_add64 (loc_pack_offset (lv_record v)) (loc_encoded_length (lv_record v))) ManifestInvalid) (\<lambda>e.
     if e > loc_object_length (lv_record v) then Inl ManifestInvalid else Inr ()))))))"

definition validate_records :: "(nat \<Rightarrow> nat list) \<Rightarrow> (bytes \<Rightarrow> bytes \<Rightarrow> ordering) \<Rightarrow> MountIndex \<Rightarrow> unit result" where
  "validate_records upper wide mi =
     (if length (mi_bytes mi) < HEADER_SIZE \<or> index_count mi Directories = 0 then Inl ManifestInvalid
      else bind_result (fold_results (validate_directory upper wide mi) [0..<index_count mi Directories] (1, 0)) (\<lambda>expected.
      if fst expected \<noteq> index_count mi Directories \<or> snd expected \<noteq> index_count mi Files then Inl ManifestInvalid
      else bind_result (fold_results (validate_file upper mi) [0..<index_count mi Files] (0, {})) (\<lambda>st.
      if fst st \<noteq> index_count mi Extents then Inl ManifestInvalid
      else bind_result (fold_results (validate_extent mi) [0..<index_count mi Extents] 0) (\<lambda>expected_page_start.
      if expected_page_start \<noteq> index_count mi Pages then Inl ManifestInvalid
      else if index_count mi RemoteLocations \<noteq> index_count mi Pages then Inl ManifestInvalid
      else bind_result (for_each (validate_page mi) [0..<index_count mi Pages]) (\<lambda>_.
      for_each (validate_location mi) [0..<index_count mi RemoteLocations])))))"

definition open_index ::
  "(bytes \<Rightarrow> page_hash) \<Rightarrow> (nat \<Rightarrow> nat list) \<Rightarrow> (bytes \<Rightarrow> bytes \<Rightarrow> ordering) \<Rightarrow> bytes \<Rightarrow> MountIndex result" where
  "open_index blake3 upper wide bs =
     bind_result (mount_header_parse blake3 bs) (\<lambda>h.
     bind_result (compute_index_hash blake3 bs) (\<lambda>actual.
     if actual \<noteq> hdr_index_hash h then Inl IntegrityMismatch
     else let mi = \<lparr>mi_bytes = bs, mi_header = h\<rparr> in
          bind_result (validate_records upper wide mi) (\<lambda>_. Inr mi)))"

section \<open>What validation establishes\<close>

lemma for_each_ok: "for_each f xs = Inr () \<longleftrightarrow> (\<forall>x\<in>set xs. f x = Inr ())"
  by (induction xs) (auto simp: for_each_def bind_result_eq_Inr)

lemma bind_unit: "bind_result r f = Inr y \<longleftrightarrow> r = Inr () \<and> f () = Inr y"
  by (cases r) auto

lemma to_ordinal_eq [simp]: "to_ordinal i = Inr j \<longleftrightarrow> j = i \<and> i \<le> u32_max"
  by (auto simp: to_ordinal_def)

lemma if_Inl_Inr: "(if P then Inl e else x) = Inr y \<longleftrightarrow> \<not> P \<and> x = Inr y"
  by simp

lemma bind_ResultE: "bind_result r f = Inr y \<Longrightarrow> (\<And>x. r = Inr x \<Longrightarrow> f x = Inr y \<Longrightarrow> P) \<Longrightarrow> P"
  by (cases r) auto

lemma if_ResultE: "(if b then Inl e else x) = Inr y \<Longrightarrow> (\<not> b \<Longrightarrow> x = Inr y \<Longrightarrow> P) \<Longrightarrow> P"
  by (simp split: if_splits)

lemma validate_range_ok: "validate_range a n m = Inr u \<longleftrightarrow> a + n \<le> m \<and> a + n \<le> u64_max"
  by (auto simp: validate_range_def bind_result_eq_Inr)

text \<open>Directory \<open>i\<close>, file \<open>i\<close>, extent \<open>i\<close> and page \<open>i\<close> of an index, and the names.\<close>

definition drec :: "MountIndex \<Rightarrow> nat \<Rightarrow> DirectoryRecord" where
  "drec mi i = dv_record (projr (directory_by_index mi i))"

definition frec :: "MountIndex \<Rightarrow> nat \<Rightarrow> FileRecord" where
  "frec mi i = fv_record (projr (file_by_index mi i))"

definition erec :: "MountIndex \<Rightarrow> nat \<Rightarrow> ExtentRecord" where
  "erec mi i = ev_record (projr (extent_by_index mi i))"

definition prec :: "MountIndex \<Rightarrow> nat \<Rightarrow> PageRecord" where
  "prec mi i = pv_record (projr (page_by_ordinal mi i))"

definition dname :: "MountIndex \<Rightarrow> nat \<Rightarrow> bytes" where
  "dname mi i = projr (directory_name_at mi i)"

definition fname :: "MountIndex \<Rightarrow> nat \<Rightarrow> bytes" where
  "fname mi i = projr (file_name_at mi i)"

lemma view_ordinal:
  "directory_by_index mi i = Inr v \<Longrightarrow> dv_ordinal v = i" "file_by_index mi i = Inr f \<Longrightarrow> fv_ordinal f = i"
  "extent_by_index mi i = Inr e \<Longrightarrow> ev_ordinal e = i" "page_by_ordinal mi i = Inr p \<Longrightarrow> pv_ordinal p = i"
  by (auto simp: directory_by_index_def file_by_index_def extent_by_index_def page_by_ordinal_def bind_result_eq_Inr)

lemma directory_by_index_Inr: "directory_by_index mi i = Inr v \<Longrightarrow> directory_by_index mi i = Inr \<lparr>dv_ordinal = i, dv_record = drec mi i\<rparr>"
  using view_ordinal(1) by (cases v) (fastforce simp: drec_def)

lemma file_by_index_Inr: "file_by_index mi i = Inr v \<Longrightarrow> file_by_index mi i = Inr \<lparr>fv_ordinal = i, fv_record = frec mi i\<rparr>"
  using view_ordinal(2) by (cases v) (fastforce simp: frec_def)

lemma extent_by_index_Inr: "extent_by_index mi i = Inr v \<Longrightarrow> extent_by_index mi i = Inr \<lparr>ev_ordinal = i, ev_record = erec mi i\<rparr>"
  using view_ordinal(3) by (cases v) (fastforce simp: erec_def)

lemma page_by_ordinal_Inr: "page_by_ordinal mi i = Inr v \<Longrightarrow> page_by_ordinal mi i = Inr \<lparr>pv_ordinal = i, pv_record = prec mi i\<rparr>"
  using view_ordinal(4) by (cases v) (fastforce simp: prec_def)

lemma validate_directory_views:
  "validate_directory upper wide mi i s = Inr t \<Longrightarrow> \<exists>w name. directory_by_index mi i = Inr w \<and> directory_name mi w = Inr name"
  unfolding validate_directory_def Let_def
  by (elim bind_ResultE if_ResultE) (simp only: to_ordinal_eq, blast)

lemma validate_directory_iff:
  assumes "directory_by_index mi i = Inr w" "directory_name mi w = Inr name"
  shows "validate_directory upper wide mi i s = Inr t \<longleftrightarrow>
    (let d = dv_record w; de = dir_first_directory d + dir_directory_count d; fe = dir_first_file d + dir_file_count d in
     i \<le> u32_max \<and> dir_canonical_index d = i \<and> ((i = 0) = (dir_parent d = NO_PARENT)) \<and> (i \<noteq> 0 \<longrightarrow> dir_parent d < i) \<and>
     (if i = 0 then name = [] else validate_component upper name = Inr ()) \<and>
     de \<le> index_count mi Directories \<and> fe \<le> index_count mi Files \<and> s = (dir_first_directory d, dir_first_file d) \<and> t = (de, fe) \<and>
     directory_key mi w = Inr (ordinal_key upper name) \<and> de \<le> u32_max \<and> fe \<le> u32_max \<and>
     (\<forall>c\<in>{dir_first_directory d..<de}. \<exists>x. directory_by_index mi c = Inr x \<and> dir_parent (dv_record x) = i) \<and>
     (\<forall>c\<in>{dir_first_file d..<fe}. \<exists>x. file_by_index mi c = Inr x \<and> fil_parent (fv_record x) = i) \<and>
     validate_child_order wide mi w = Inr ())"
proof (cases "i \<le> u32_max")
  case True
  have u: "x \<le> u32_max \<Longrightarrow> x \<le> u64_max" for x using u32_max_le_u64_max by simp
  show ?thesis using True
    by (auto simp: validate_directory_def assms to_ordinal_def Let_def if_Inl_Inr bind_unit bind_result_eq_Inr validate_range_ok for_each_ok u)
qed (auto simp: validate_directory_def bind_result_eq_Inr)

lemma validate_directory_facts:
  assumes "validate_directory upper wide mi i s = Inr t"
  shows "i \<le> u32_max" "directory_by_index mi i = Inr \<lparr>dv_ordinal = i, dv_record = drec mi i\<rparr>" "directory_name_at mi i = Inr (dname mi i)"
    "dir_first_directory (drec mi i) + dir_directory_count (drec mi i) \<le> min (index_count mi Directories) u32_max"
    "dir_first_file (drec mi i) + dir_file_count (drec mi i) \<le> min (index_count mi Files) u32_max"
    "validate_child_order wide mi \<lparr>dv_ordinal = i, dv_record = drec mi i\<rparr> = Inr ()"
    "\<forall>c\<in>{dir_first_directory (drec mi i)..<dir_first_directory (drec mi i) + dir_directory_count (drec mi i)}.
       \<exists>w. directory_by_index mi c = Inr w \<and> dir_parent (dv_record w) = i"
    "\<forall>c\<in>{dir_first_file (drec mi i)..<dir_first_file (drec mi i) + dir_file_count (drec mi i)}.
       \<exists>w. file_by_index mi c = Inr w \<and> fil_parent (fv_record w) = i"
    "i \<noteq> 0 \<Longrightarrow> validate_component upper (dname mi i) = Inr () \<and> dir_parent (drec mi i) < i"
    "t = (dir_first_directory (drec mi i) + dir_directory_count (drec mi i), dir_first_file (drec mi i) + dir_file_count (drec mi i))"
    "s = (dir_first_directory (drec mi i), dir_first_file (drec mi i))"
proof -
  from validate_directory_views [OF assms] obtain w name where w: "directory_by_index mi i = Inr w" and n: "directory_name mi w = Inr name" by blast
  have e: "w = \<lparr>dv_ordinal = i, dv_record = drec mi i\<rparr>" using directory_by_index_Inr [OF w] w by simp
  have dn: "dname mi i = name" "directory_name_at mi i = Inr name" using w n by (simp_all add: dname_def directory_name_at_def)
  note r = assms [unfolded validate_directory_iff [OF w n] Let_def]
  show "i \<le> u32_max" "directory_by_index mi i = Inr \<lparr>dv_ordinal = i, dv_record = drec mi i\<rparr>" "directory_name_at mi i = Inr (dname mi i)"
    using r w e dn by simp_all
  show "dir_first_directory (drec mi i) + dir_directory_count (drec mi i) \<le> min (index_count mi Directories) u32_max"
    "dir_first_file (drec mi i) + dir_file_count (drec mi i) \<le> min (index_count mi Files) u32_max"
    "validate_child_order wide mi \<lparr>dv_ordinal = i, dv_record = drec mi i\<rparr> = Inr ()" using r unfolding e by simp_all
  show "\<forall>c\<in>{dir_first_directory (drec mi i)..<dir_first_directory (drec mi i) + dir_directory_count (drec mi i)}.
       \<exists>w. directory_by_index mi c = Inr w \<and> dir_parent (dv_record w) = i" using r unfolding e by simp
  show "\<forall>c\<in>{dir_first_file (drec mi i)..<dir_first_file (drec mi i) + dir_file_count (drec mi i)}.
       \<exists>w. file_by_index mi c = Inr w \<and> fil_parent (fv_record w) = i" using r unfolding e by simp
  show "i \<noteq> 0 \<Longrightarrow> validate_component upper (dname mi i) = Inr () \<and> dir_parent (drec mi i) < i" using r unfolding e dn by simp
  show "t = (dir_first_directory (drec mi i) + dir_directory_count (drec mi i), dir_first_file (drec mi i) + dir_file_count (drec mi i))"
    "s = (dir_first_directory (drec mi i), dir_first_file (drec mi i))" using r unfolding e by (simp_all add: prod_eq_iff)
qed

section \<open>The order of children\<close>

lemma order_step_iff:
  "order_step wide name_at c prev = Inr y \<longleftrightarrow>
   (\<exists>m. name_at c = Inr m \<and> y = Some m \<and> (\<forall>p. prev = Some p \<longrightarrow> compare_names wide p m = Less))"
  by (auto simp: order_step_def bind_result_eq_Inr split: option.splits)

lemma order_loop:
  assumes "name_order wide key" "fold_results (order_step wide name_at) [a..<a + n] prev = Inr x"
  shows "(\<forall>i\<in>{a..<a + n}. \<exists>m. name_at i = Inr m) \<and>
    sorted_wrt (name_less key) ((case prev of None \<Rightarrow> [] | Some p \<Rightarrow> [p]) @ map (\<lambda>i. projr (name_at i)) [a..<a + n])"
  using assms(2)
proof (induction n arbitrary: a prev)
  case 0
  then show ?case by (simp split: option.splits)
next
  case (Suc n)
  have r: "[a..<a + Suc n] = a # [Suc a..<Suc a + n]" using upt_conv_Cons [of a "a + Suc n"] by simp
  from Suc.prems obtain m where m: "name_at a = Inr m" "\<And>p. prev = Some p \<Longrightarrow> name_less key p m"
    and rest: "fold_results (order_step wide name_at) [Suc a..<Suc a + n] (Some m) = Inr x"
    unfolding r fold_results.simps bind_result_eq_Inr order_step_iff compare_names_iff(1) [OF assms(1)] by blast
  note ih = Suc.IH [OF rest]
  have "\<forall>i\<in>{a..<a + Suc n}. \<exists>m. name_at i = Inr m"
  proof
    fix i assume "i \<in> {a..<a + Suc n}"
    then have "i = a \<or> i \<in> {Suc a..<Suc a + n}" by auto
    then show "\<exists>m. name_at i = Inr m" using ih m(1) by blast
  qed
  moreover have "sorted_wrt (name_less key) (m # map (\<lambda>i. projr (name_at i)) [Suc a..<Suc a + n])" using ih by simp
  moreover have "name_less key p y" if "prev = Some p" "y \<in> set (m # map (\<lambda>i. projr (name_at i)) [Suc a..<Suc a + n])" for p y
    using that m(2) calculation(2) by (auto dest: name_less_order(1))
  ultimately show ?case using m(1) unfolding r by (cases prev) auto
qed

text \<open>Both cursors only move forward over names that cannot collide any more.\<close>

lemma merge_check_ok:
  assumes "merge_check wide mi d0 de f0 fe = Inr ()" "name_order wide key" "d0 \<le> i" "i < de" "f0 \<le> j" "j < fe"
    and "\<And>i. d0 \<le> i \<Longrightarrow> i < de \<Longrightarrow> directory_name_at mi i = Inr (dn i)" "\<And>j. f0 \<le> j \<Longrightarrow> j < fe \<Longrightarrow> file_name_at mi j = Inr (fn j)"
    and "\<And>i j. d0 \<le> i \<Longrightarrow> i < j \<Longrightarrow> j < de \<Longrightarrow> key (dn i) \<le> key (dn j)"
    and "\<And>i j. f0 \<le> i \<Longrightarrow> i < j \<Longrightarrow> j < fe \<Longrightarrow> key (fn i) \<le> key (fn j)"
  shows "key (dn i) \<noteq> key (fn j)"
  using assms
proof (induction wide mi d0 de f0 fe rule: merge_check.induct)
  case (1 wide mi dc de fc fe)
  have lt: "dc < de" "fc < fe" using "1.prems"(3-6) by auto
  have dn: "directory_name_at mi dc = Inr (dn dc)" and fn: "file_name_at mi fc = Inr (fn fc)" using "1.prems"(7,8) lt by auto
  have o: "compare_ordinal_ignore_case wide (dn dc) (fn fc) = order_cmp (key (dn dc)) (key (fn fc))"
    using "1.prems"(2) by (simp add: name_order_def)
  have step: "(case compare_ordinal_ignore_case wide (dn dc) (fn fc) of
       Less \<Rightarrow> merge_check wide mi (dc + 1) de fc fe | Equal \<Rightarrow> Inl ManifestInvalid
     | Greater \<Rightarrow> merge_check wide mi dc de (fc + 1) fe) = Inr ()"
    using "1.prems"(1) lt by (subst (asm) merge_check.simps) (simp add: dn fn)
  consider "key (dn dc) < key (fn fc)" | "key (fn fc) < key (dn dc)" | "key (dn dc) = key (fn fc)" by fastforce
  then show ?case
  proof cases
    case 1
    then have c: "compare_ordinal_ignore_case wide (dn dc) (fn fc) = Less" using o by simp
    show ?thesis
    proof (cases "i = dc")
      case True
      have "key (fn fc) \<le> key (fn j)" using "1.prems"(5,6,10) by (cases "fc = j") auto
      then show ?thesis using 1 True by auto
    next
      case False
      show ?thesis by (rule "1.IH"(1) [OF conjI [OF lt] c]) (use "1.prems" False step c in auto)
    qed
  next
    case 2
    then have c: "compare_ordinal_ignore_case wide (dn dc) (fn fc) = Greater" using o by simp
    show ?thesis
    proof (cases "j = fc")
      case True
      have "key (dn dc) \<le> key (dn i)" using "1.prems"(3,4,9) by (cases "dc = i") auto
      then show ?thesis using 2 True by auto
    next
      case False
      show ?thesis by (rule "1.IH"(2) [OF conjI [OF lt] c]) (use "1.prems" False step c in auto)
    qed
  next
    case 3
    then have "compare_ordinal_ignore_case wide (dn dc) (fn fc) = Equal" using o by simp
    then show ?thesis using step by simp
  qed
qed

section \<open>The invariant of an opened index\<close>

definition dir_children :: "MountIndex \<Rightarrow> nat \<Rightarrow> nat set" where
  "dir_children mi i = {dir_first_directory (drec mi i)..<dir_first_directory (drec mi i) + dir_directory_count (drec mi i)}"

definition file_children :: "MountIndex \<Rightarrow> nat \<Rightarrow> nat set" where
  "file_children mi i = {dir_first_file (drec mi i)..<dir_first_file (drec mi i) + dir_file_count (drec mi i)}"

definition namespace_ok :: "(bytes \<Rightarrow> nat list) \<Rightarrow> MountIndex \<Rightarrow> nat \<Rightarrow> bool" where
  "namespace_ok key mi i \<longleftrightarrow>
     i \<le> u32_max \<and> directory_by_index mi i = Inr \<lparr>dv_ordinal = i, dv_record = drec mi i\<rparr> \<and> directory_name_at mi i = Inr (dname mi i) \<and>
     dir_first_directory (drec mi i) + dir_directory_count (drec mi i) \<le> min (index_count mi Directories) u32_max \<and>
     dir_first_file (drec mi i) + dir_file_count (drec mi i) \<le> min (index_count mi Files) u32_max \<and>
     (\<forall>c\<in>file_children mi i. file_name_at mi c = Inr (fname mi c)) \<and>
     sorted_wrt (name_less key) (map (dname mi) [dir_first_directory (drec mi i)..<dir_first_directory (drec mi i) + dir_directory_count (drec mi i)]) \<and>
     sorted_wrt (name_less key) (map (fname mi) [dir_first_file (drec mi i)..<dir_first_file (drec mi i) + dir_file_count (drec mi i)]) \<and>
     (\<forall>c\<in>dir_children mi i. \<forall>f\<in>file_children mi i. key (dname mi c) \<noteq> key (fname mi f))"

lemma sorted_upt: "sorted_wrt R (map f [a..<b]) \<Longrightarrow> a \<le> i \<Longrightarrow> i < j \<Longrightarrow> j < b \<Longrightarrow> R (f i) (f j)"
  using sorted_wrt_nth_less [of R "map f [a..<b]" "i - a" "j - a"] by simp

lemma validated_namespace:
  assumes "name_order wide key" "validate_directory upper wide mi i s = Inr t"
  shows "namespace_ok key mi i"
proof -
  note f = validate_directory_facts [OF assms(2)]
  let ?d = "drec mi i"
  let ?de = "dir_first_directory ?d + dir_directory_count ?d" and ?fe = "dir_first_file ?d + dir_file_count ?d"
  from f(6) f(4,5) obtain x y where l: "fold_results (order_step wide (directory_name_at mi)) [dir_first_directory ?d..<?de] None = Inr x"
    "fold_results (order_step wide (file_name_at mi)) [dir_first_file ?d..<?fe] None = Inr y"
    and m: "merge_check wide mi (dir_first_directory ?d) ?de (dir_first_file ?d) ?fe = Inr ()"
    by (auto simp: validate_child_order_def Let_def bind_result_eq_Inr)
  note ol = order_loop [OF assms(1) l(1)] order_loop [OF assms(1) l(2)]
  have n: "directory_name_at mi c = Inr (dname mi c)" if "c \<in> {dir_first_directory ?d..<?de}" for c using bspec [OF conjunct1 [OF ol(1)] that] by (auto simp: dname_def)
  have fn: "file_name_at mi c = Inr (fname mi c)" if "c \<in> {dir_first_file ?d..<?fe}" for c using bspec [OF conjunct1 [OF ol(2)] that] by (auto simp: fname_def)
  have so: "sorted_wrt (name_less key) (map (dname mi) [dir_first_directory ?d..<?de])" "sorted_wrt (name_less key) (map (fname mi) [dir_first_file ?d..<?fe])"
    using ol by (simp_all add: dname_def [abs_def] fname_def [abs_def])
  have le: "name_less key a b \<Longrightarrow> key a \<le> key b" for a b by (auto simp: name_less_def)
  have "key (dname mi c) \<noteq> key (fname mi g)" if "c \<in> {dir_first_directory ?d..<?de}" "g \<in> {dir_first_file ?d..<?fe}" for c g
    by (rule merge_check_ok [OF m assms(1), where dn = "dname mi" and fn = "fname mi"])
      (use that n fn so le in \<open>auto dest: sorted_upt\<close>)
  then show ?thesis using f(1-5) fn so unfolding namespace_ok_def dir_children_def file_children_def by blast
qed

lemma validated_directories:
  assumes "validate_records upper wide mi = Inr ()" "i < index_count mi Directories"
  shows "\<exists>s t. validate_directory upper wide mi i s = Inr t"
proof -
  from assms(1) obtain e where "fold_results (validate_directory upper wide mi) [0..<index_count mi Directories] (1, 0) = Inr e"
    unfolding validate_records_def by (elim if_ResultE bind_ResultE) blast
  from fold_results_range [OF this assms(2)] show ?thesis by blast
qed

lemma open_index_records:
  assumes "open_index blake3 upper wide bs = Inr mi"
  shows "validate_records upper wide mi = Inr ()" "mi_bytes mi = bs" "mount_header_parse blake3 bs = Inr (mi_header mi)"
    "compute_index_hash blake3 bs = Inr (hdr_index_hash (mi_header mi))"
  using assms unfolding open_index_def Let_def by (auto simp: bind_result_eq_Inr if_Inl_Inr bind_unit)

lemma opened_namespace:
  "open_index blake3 upper wide bs = Inr mi \<Longrightarrow> name_order wide key \<Longrightarrow> i < index_count mi Directories \<Longrightarrow> namespace_ok key mi i"
  by (metis validated_namespace validated_directories open_index_records(1))

end
