(* ===== verification/Mount_Image.thy ===== *)
theory Mount_Image
  imports Mount_Index
begin

text \<open>Writing a mount index: the string table of \<open>mirage-index/src/string_table.rs\<close> and the second half of
  \<open>compile_to_bytes\<close> in \<open>compiler.rs\<close>, which lays the record tables out as aligned sections behind the header
  and seals the file with its hash.  The lemmas say that every record and string written can be read
  back from the file, so that opening it is validating the records.\<close>

section \<open>Strings\<close>

record StringInterner =
  int_bytes :: bytes
  int_entries :: "bytes \<rightharpoonup> StringRef"

definition intern :: "bytes \<Rightarrow> StringInterner \<Rightarrow> (StringRef \<times> StringInterner) result" where
  "intern v st =
     (case int_entries st v of
        Some r \<Rightarrow> Inr (r, st)
      | None \<Rightarrow>
          if length v > u32_max then Inl ManifestInvalid
          else let r = \<lparr>str_offset = length (int_bytes st), str_length = length v\<rparr> in
               Inr (r, \<lparr>int_bytes = int_bytes st @ v, int_entries = (int_entries st)(v \<mapsto> r)\<rparr>))"

section \<open>Tables and sections\<close>

definition encode_records :: "('a \<Rightarrow> bytes \<Rightarrow> bytes result) \<Rightarrow> SectionKind \<Rightarrow> 'a list \<Rightarrow> bytes result" where
  "encode_records enc kind rs =
     (let width = record_size kind in
      bind_result (ok_or (checked_mul64 (length rs) width) ManifestInvalid) (\<lambda>len.
      fold_results (\<lambda>(i, r) output. bind_result (enc r (slice (i * width) width output)) (\<lambda>b. Inr (copy_into output (i * width) b)))
        (enumerate 0 rs) (zeros len)))"

definition push_section :: "SectionKind \<times> bytes \<times> nat option \<Rightarrow> bytes \<times> Section list \<Rightarrow> (bytes \<times> Section list) result" where
  "push_section = (\<lambda>(kind, payload, record_count) (output, sections).
     bind_result (align_up (length output) HEADER_ALIGNMENT) (\<lambda>aligned.
       Inr (output @ zeros (aligned - length output) @ payload,
            sections @ [\<lparr>sec_kind = kind, sec_offset = aligned, sec_length = length payload,
                         sec_count = (case record_count of Some c \<Rightarrow> c | None \<Rightarrow> length payload)\<rparr>])))"

definition write_index ::
  "(bytes \<Rightarrow> page_hash) \<Rightarrow> id16 \<Rightarrow> u64 \<Rightarrow> u64 \<Rightarrow> bytes \<Rightarrow> DirectoryRecord list \<Rightarrow> FileRecord list \<Rightarrow> ExtentRecord list \<Rightarrow>
   PageRecord list \<Rightarrow> RemoteLocationRecord list \<Rightarrow> bytes result" where
  "write_index blake3 repository_id generation_id page_size strings directories files extents pages locations =
     bind_result (encode_records directory_encode Directories directories) (\<lambda>ds.
     bind_result (encode_records file_encode Files files) (\<lambda>fs.
     bind_result (encode_records extent_encode Extents extents) (\<lambda>es.
     bind_result (encode_records page_encode Pages pages) (\<lambda>ps.
     bind_result (encode_records location_encode RemoteLocations locations) (\<lambda>ls.
     bind_result (fold_results push_section
         [(Strings, strings, None), (Directories, ds, Some (length directories)), (Files, fs, Some (length files)),
          (Extents, es, Some (length extents)), (Pages, ps, Some (length pages)), (RemoteLocations, ls, Some (length locations))]
         (zeros HEADER_SIZE, [])) (\<lambda>(output, sections).
     bind_result (mount_header_new repository_id generation_id page_size 0 (length output) sections) (\<lambda>header.
     bind_result (mount_header_encode blake3 header) (\<lambda>hb.
     bind_result (write_bytes output 0 hb) (\<lambda>output.
     bind_result (compute_index_hash blake3 output) (\<lambda>h.
     bind_result (mount_header_encode blake3 (header\<lparr>hdr_index_hash := h\<rparr>)) (\<lambda>hb.
     write_bytes output 0 hb)))))))))))"

section \<open>Strings can be read back\<close>

definition ref_to :: "bytes \<Rightarrow> StringRef \<Rightarrow> bytes \<Rightarrow> bool" where
  "ref_to table r v \<longleftrightarrow> str_offset r + str_length r \<le> length table \<and> slice (str_offset r) (str_length r) table = v \<and> str_length r \<le> u32_max"

definition interner_ok :: "StringInterner \<Rightarrow> bool" where
  "interner_ok st \<longleftrightarrow> (\<forall>v r. int_entries st v = Some r \<longrightarrow> ref_to (int_bytes st) r v)"

lemma slice_prefix: "a + n \<le> length xs \<Longrightarrow> slice a n (xs @ ys) = slice a n xs"
  by (simp add: slice_def)

lemma ref_to_extend: "ref_to table r v \<Longrightarrow> ref_to (table @ x) r v"
  by (auto simp: ref_to_def slice_prefix)

lemma intern_ok:
  assumes "intern v st = Inr (r, st')" "interner_ok st"
  shows "interner_ok st'" "ref_to (int_bytes st') r v" "\<exists>x. int_bytes st' = int_bytes st @ x"
proof -
  have new: "ref_to (int_bytes st @ v) \<lparr>str_offset = length (int_bytes st), str_length = length v\<rparr> v" if "length v \<le> u32_max"
    using that by (simp add: ref_to_def slice_def)
  have "interner_ok st' \<and> ref_to (int_bytes st') r v \<and> (\<exists>x. int_bytes st' = int_bytes st @ x)"
  proof (cases "int_entries st v")
    case None
    then have len: "length v \<le> u32_max" and r: "r = \<lparr>str_offset = length (int_bytes st), str_length = length v\<rparr>"
      and st': "st' = \<lparr>int_bytes = int_bytes st @ v, int_entries = (int_entries st)(v \<mapsto> r)\<rparr>"
      using assms(1) by (auto simp: intern_def Let_def split: if_splits)
    have "interner_ok st'" using assms(2) new [OF len] unfolding interner_ok_def st' r by (auto dest: ref_to_extend)
    then show ?thesis using new [OF len] by (simp add: st' r)
  qed (use assms in \<open>auto simp: intern_def interner_ok_def\<close>)
  then show "interner_ok st'" "ref_to (int_bytes st') r v" "\<exists>x. int_bytes st' = int_bytes st @ x" by blast+
qed

section \<open>Tables can be read back\<close>

lemma encode_loop:
  assumes "\<And>r. enc r (zeros w) = Inr (encoded enc w r)" "\<And>r. length (encoded enc w r) = w" "length p = k * w"
  shows "fold_results (\<lambda>(i, r) output. bind_result (enc r (slice (i * w) w output)) (\<lambda>b. Inr (copy_into output (i * w) b)))
      (enumerate k rs) (p @ zeros (length rs * w)) = Inr (p @ concat (map (encoded enc w) rs))"
  using assms(3)
proof (induction rs arbitrary: k p)
  case (Cons r rs)
  have z: "zeros (length (r # rs) * w) = zeros w @ zeros (length rs * w)" by (simp add: zeros_def replicate_add)
  have s: "slice (k * w) w (p @ zeros (length (r # rs) * w)) = zeros w" unfolding z using Cons.prems by (simp add: slice_def)
  have c: "copy_into (p @ zeros (length (r # rs) * w)) (k * w) (encoded enc w r) = (p @ encoded enc w r) @ zeros (length rs * w)"
    unfolding z using Cons.prems assms(2) by (simp add: copy_into_def)
  show ?case using Cons.IH [of "p @ encoded enc w r" "Suc k"] Cons.prems
    by (simp only: enumerate_simps fold_results.simps case_prod_conv s assms(1) bind_result_simps c) (simp add: assms(2))
qed simp

lemma encode_records_eq:
  assumes "\<And>r. enc r (zeros (record_size kind)) = Inr (encoded enc (record_size kind) r)" "\<And>r. length (encoded enc (record_size kind) r) = record_size kind"
  shows "encode_records enc kind rs = Inr t \<longleftrightarrow> length rs * record_size kind \<le> u64_max \<and> t = concat (map (encoded enc (record_size kind)) rs)"
  using encode_loop [of enc "record_size kind" "[]" 0 rs, OF assms] unfolding encode_records_def Let_def
  by (cases "length rs * record_size kind \<le> u64_max") (auto simp: checked_mul64_def)

lemma table_slice:
  assumes "\<And>r. length (f r) = w" "i < length rs"
  shows "slice (i * w) w (concat (map f rs)) = f (rs ! i)"
proof -
  have l: "length (concat (map f xs)) = length xs * w" for xs using assms(1) by (induction xs) simp_all
  have "concat (map f rs) = concat (map f (take i rs)) @ f (rs ! i) @ concat (map f (drop (Suc i) rs))"
    using id_take_nth_drop [OF assms(2)] by (metis concat.simps(2) concat_append list.simps(9) map_append)
  then show ?thesis using l [of "take i rs"] assms by (simp add: slice_def)
qed

section \<open>Sections lie where the header says\<close>

definition section_holds :: "bytes \<Rightarrow> Section \<Rightarrow> SectionKind \<times> bytes \<times> nat option \<Rightarrow> bool" where
  "section_holds out s = (\<lambda>(k, payload, c). sec_kind s = k \<and> sec_length s = length payload \<and>
     sec_count s = (case c of Some n \<Rightarrow> n | None \<Rightarrow> length payload) \<and> HEADER_SIZE \<le> sec_offset s \<and>
     sec_offset s + length payload \<le> length out \<and> slice (sec_offset s) (length payload) out = payload)"

lemma section_holds_extend: "section_holds out s p \<Longrightarrow> section_holds (out @ x) s p"
  by (auto simp: section_holds_def slice_prefix)

lemma align_up_64: "align_up v 64 = Inr a \<Longrightarrow> v \<le> a \<and> a mod 64 = 0"
proof -
  assume "align_up v 64 = Inr a"
  then have "a = (v + 63) div 64 * 64" by (auto simp: align_up_def split: if_splits)
  then show ?thesis by presburger
qed

lemma push_sections:
  assumes "fold_results push_section payloads (out, secs) = Inr (out', secs')" "list_all2 (section_holds out) secs ps" "HEADER_SIZE \<le> length out"
  shows "list_all2 (section_holds out') secs' (ps @ payloads) \<and> (\<exists>x. out' = out @ x)"
  using assms
proof (induction payloads arbitrary: out secs ps)
  case (Cons p payloads)
  obtain k payload c where p: "p = (k, payload, c)" by (cases p) auto
  from Cons.prems(1) obtain a where a: "align_up (length out) 64 = Inr a"
    and rest: "fold_results push_section payloads (out @ zeros (a - length out) @ payload, secs @ [\<lparr>sec_kind = k, sec_offset = a,
      sec_length = length payload, sec_count = (case c of Some c \<Rightarrow> c | None \<Rightarrow> length payload)\<rparr>]) = Inr (out', secs')"
    by (auto simp: p push_section_def bind_result_eq_Inr HEADER_ALIGNMENT_def)
  let ?out = "out @ zeros (a - length out) @ payload"
  have le: "length out \<le> a" using align_up_64 [OF a] by simp
  have "list_all2 (section_holds ?out) secs ps" by (rule list_all2_mono [OF Cons.prems(2)]) (rule section_holds_extend)
  moreover have "section_holds ?out \<lparr>sec_kind = k, sec_offset = a, sec_length = length payload,
      sec_count = (case c of Some c \<Rightarrow> c | None \<Rightarrow> length payload)\<rparr> p"
    using le Cons.prems(3) by (simp add: section_holds_def p slice_def)
  ultimately have "list_all2 (section_holds out') secs' ((ps @ [p]) @ payloads) \<and> (\<exists>x. out' = ?out @ x)"
    using Cons.prems(3) by (intro Cons.IH [OF rest]) (auto intro: list_all2_appendI)
  then show ?case by auto
qed auto

section \<open>The header can be read back\<close>

definition section_bytes :: "Section \<Rightarrow> bytes" where
  "section_bytes s = le_bytes 4 (kind_code (sec_kind s)) @ le_bytes 4 (record_size (sec_kind s)) @ le_bytes 8 (sec_offset s) @
     le_bytes 8 (sec_length s) @ le_bytes 8 (sec_count s)"

lemma length_section_bytes [simp]: "length (section_bytes s) = 32"
  by (simp add: section_bytes_def)

lemma write_sections:
  assumes "length p = 128 + 32 * k" "k + length ss \<le> 6"
  shows "fold_results write_section (enumerate k ss) (p @ zeros (32 * length ss)) = Inr (p @ concat (map section_bytes ss))"
  using assms
proof (induction ss arbitrary: k p)
  case (Cons s ss)
  let ?b = "128 + k * 32"
  have z: "p @ zeros (32 * length (s # ss)) = p @ zeros (32 + 32 * length ss)" by simp
  have "write_section (k, s) (p @ zeros (32 + 32 * length ss)) = Inr ((p @ section_bytes s) @ zeros (32 * length ss))"
    using Cons.prems unfolding write_section_def Let_def section_bytes_def SECTION_DIRECTORY_OFFSET_def SECTION_ENTRY_SIZE_def
    by (simp add: write_u32_def write_u64_def write_fill u64_max_def del: append_assoc)
  then show ?case using Cons.IH [of "p @ section_bytes s" "Suc k"] Cons.prems by (simp add: z)
qed simp

definition header_prefix :: "(bytes \<Rightarrow> page_hash) \<Rightarrow> MountHeader \<Rightarrow> bytes" where
  "header_prefix blake3 h = MOUNT_MAGIC @ le_bytes 4 2 @ le_bytes 4 320 @ id_bytes (hdr_repository h) @ le_bytes 8 (hdr_generation h) @
     le_bytes 8 (hdr_page_size h) @ le_bytes 4 6 @ le_bytes 4 0 @ hash_bytes (format_hash blake3) @ hash_bytes (hdr_index_hash h) @
     le_bytes 8 (hdr_file_length h)"

lemma length_magic [simp]: "length MOUNT_MAGIC = 8"
  by (simp add: MOUNT_MAGIC_def)

lemma length_header_prefix [simp]: "length (header_prefix blake3 h) = 128"
  by (simp add: header_prefix_def)

lemma mount_header_encode_eq:
  assumes "length (hdr_sections h) = 6"
  shows "mount_header_encode blake3 h =
    bind_result (validate_sections h) (\<lambda>_. Inr (header_prefix blake3 h @ concat (map section_bytes (hdr_sections h))))"
proof -
  have "mount_header_encode blake3 h = bind_result (validate_sections h) (\<lambda>_.
      fold_results write_section (enumerate 0 (hdr_sections h)) (header_prefix blake3 h @ zeros 192))"
    unfolding mount_header_encode_def Let_def header_prefix_def HEADER_SIZE_def FORMAT_VERSION_def SECTION_COUNT_def INDEX_HASH_OFFSET_def
    by (simp add: write_u32_def write_u64_def write_first write_fill del: append_assoc) simp
  also have "zeros 192 = zeros (32 * length (hdr_sections h))" using assms by simp
  finally show ?thesis using write_sections [of "header_prefix blake3 h" 0 "hdr_sections h"] assms by simp
qed

definition section_fits :: "Section \<Rightarrow> bool" where
  "section_fits s \<longleftrightarrow> sec_offset s \<le> u64_max \<and> sec_length s \<le> u64_max \<and> sec_count s \<le> u64_max"

lemma fold_results_steps: "(\<And>k. k < n \<Longrightarrow> f k (s k) = Inr (s (Suc k))) \<Longrightarrow> fold_results f [0..<n] (s 0) = Inr (s n)"
  by (induction n) (simp_all add: fold_results_append)

lemma kind_codes: "kind_from_u32 (kind_code k) = Inr k" "kind_code k \<le> u32_max" "record_size k \<le> u32_max" "kind_index k < 6" "ALL_KINDS ! kind_index k = k"
  by (cases k; simp add: kind_from_u32_def u32_max_def mount_sizes kind_index_def ALL_KINDS_def)+

lemma all_kinds_index: "i < 6 \<Longrightarrow> kind_index (ALL_KINDS ! i) = i"
  by (simp add: ALL_KINDS_def kind_index_def less_Suc_eq numeral_eq_Suc nth_Cons') auto

lemma parse_section_at:
  assumes "i < 6" "length ss = 6" "\<And>a n. a + n \<le> 192 \<Longrightarrow> slice (128 + a) n bs = slice a n (concat (map section_bytes ss))" "320 \<le> length bs"
    "sec_kind (ss ! i) = ALL_KINDS ! i" "section_fits (ss ! i)"
  shows "parse_section bs i (map Some (take i ss) @ replicate (6 - i) None) = Inr (map Some (take (Suc i) ss) @ replicate (6 - Suc i) None)"
proof -
  let ?s = "ss ! i"
  have entry: "slice (128 + i * 32 + c) n bs = slice c n (section_bytes ?s)" if "c + n \<le> 32" for c n
  proof -
    have "slice (128 + (i * 32 + c)) n bs = slice (i * 32 + c) n (concat (map section_bytes ss))" using that assms(1) by (intro assms(3)) simp
    also have "\<dots> = slice c n (slice (i * 32) 32 (concat (map section_bytes ss)))" using that by (simp add: slice_slice)
    also have "slice (i * 32) 32 (concat (map section_bytes ss)) = section_bytes ?s" using assms(1,2) by (intro table_slice) simp_all
    finally show ?thesis by (simp add: add.assoc)
  qed
  have big: "128 + i * 32 + 32 \<le> length bs" "128 + i * 32 + 32 \<le> u64_max" using assms(1,4) by (simp_all add: u64_max_def)
  have r32: "read_u32 bs (128 + i * 32 + c) = Inr (le_value (slice c 4 (section_bytes ?s)))" if "c + 4 \<le> 32" for c
    using reads_in(2) [of "128 + i * 32 + c" bs] entry [OF that] that big by simp
  have r64: "read_u64 bs (128 + i * 32 + c) = Inr (le_value (slice c 8 (section_bytes ?s)))" if "c + 8 \<le> 32" for c
    using reads_in(3) [of "128 + i * 32 + c" bs] entry [OF that] that big by simp
  have k: "kind_index (sec_kind ?s) = i" using assms(1,5) all_kinds_index by simp
  have none: "(map Some (take i ss) @ replicate (6 - i) None) ! i = None" using assms(1,2) by (simp add: nth_append)
  have upd: "(map Some (take i ss) @ replicate (6 - i) None)[i := Some ?s] = map Some (take (Suc i) ss) @ replicate (6 - Suc i) None"
  proof -
    have "replicate (6 - i) None = None # replicate (6 - Suc i) (None :: Section option)" using assms(1) by (simp add: Suc_diff_Suc [symmetric] flip: replicate_Suc)
    then show ?thesis using assms(1,2) by (simp add: list_update_append take_Suc_conv_app_nth)
  qed
  have eta: "\<lparr>sec_kind = ALL_KINDS ! i, sec_offset = sec_offset ?s, sec_length = sec_length ?s, sec_count = sec_count ?s\<rparr> = ?s"
    by (simp add: assms(5) [symmetric])
  show ?thesis unfolding parse_section_def Let_def SECTION_DIRECTORY_OFFSET_def SECTION_ENTRY_SIZE_def
    using r32 [of 0] r32 [of 4] r64 [of 8] r64 [of 16] r64 [of 24] assms(5,6) kind_codes k none upd
    by (simp add: eta section_bytes_def layout_simps section_fits_def)
qed

text \<open>The start of a file that begins with an encoded header.\<close>

lemma header_slice:
  assumes "slice 0 320 bs = header_prefix blake3 h @ t" "length t = 192" "320 \<le> length bs"
  shows "a + n \<le> 128 \<Longrightarrow> slice a n bs = slice a n (header_prefix blake3 h)" "a + n \<le> 192 \<Longrightarrow> slice (128 + a) n bs = slice a n t"
proof -
  have "slice a n bs = slice a n (slice 0 320 bs)" if "a + n \<le> 320" for a n using that by (simp add: slice_slice)
  note cut = this [unfolded assms(1)]
  show "a + n \<le> 128 \<Longrightarrow> slice a n bs = slice a n (header_prefix blake3 h)" using cut [of a n] by (simp add: slice_prefix)
  show "a + n \<le> 192 \<Longrightarrow> slice (128 + a) n bs = slice a n t" using cut [of "128 + a" n] by (simp add: slice_skip)
qed

lemma mount_header_parse_encode:
  assumes "mount_header_encode blake3 h = Inr hb" "slice 0 320 bs = hb" "length (hdr_sections h) = 6" "\<forall>s\<in>set (hdr_sections h). section_fits s"
    "hdr_generation h \<le> u64_max" "hdr_page_size h \<le> u64_max" "hdr_file_length h = length bs" "length bs \<le> u64_max"
  shows "mount_header_parse blake3 bs = Inr h"
proof -
  let ?ss = "hdr_sections h"
  have val: "validate_sections h = Inr ()" and hb: "hb = header_prefix blake3 h @ concat (map section_bytes ?ss)"
    using assms(1) unfolding mount_header_encode_eq [OF assms(3)] by (auto simp: bind_unit)
  have t: "length (concat (map section_bytes ?ss)) = 192" using assms(3) by (simp add: length_concat comp_def sum_list_triv)
  have len: "320 \<le> length bs"
  proof -
    have "length (slice 0 320 bs) = 320" using hb t assms(2) by simp
    then show ?thesis by (simp add: slice_def)
  qed
  note hs = header_slice [OF assms(2) [unfolded hb] t len]
  have kinds: "sec_kind (?ss ! i) = ALL_KINDS ! i" if "i < 6" for i
  proof -
    have k: "ALL_KINDS ! i \<in> set ALL_KINDS" using that nth_mem [of i ALL_KINDS] by (simp add: ALL_KINDS_def)
    have f: "fold_results (check_section h) ks sp = Inr w \<Longrightarrow> x \<in> set ks \<Longrightarrow> sec_kind (?ss ! kind_index x) = x" for ks sp w x
      by (induction ks arbitrary: sp) (auto simp: check_section_def Let_def bind_result_eq_Inr if_Inl_Inr)
    from val obtain w where "fold_results (check_section h) ALL_KINDS [] = Inr w" by (auto simp: validate_sections_def bind_result_eq_Inr)
    from f [OF this k] show ?thesis using all_kinds_index [OF that] by simp
  qed
  have "parse_section bs i (map Some (take i ?ss) @ replicate (6 - i) None) = Inr (map Some (take (Suc i) ?ss) @ replicate (6 - Suc i) None)" if "i < 6" for i
    by (rule parse_section_at [OF that assms(3) hs(2) len kinds [OF that]]) (use assms(3,4) that in auto)
  then have "fold_results (parse_section bs) [0..<6] (map Some (take 0 ?ss) @ replicate (6 - 0) None) = Inr (map Some (take 6 ?ss) @ replicate (6 - 6) None)"
    by (rule fold_results_steps [where s = "\<lambda>i. map Some (take i ?ss) @ replicate (6 - i) None"])
  then have secs: "fold_results (parse_section bs) [0..<6] (replicate 6 None) = Inr (map Some ?ss)" using assms(3) by simp
  have all: "map_results (\<lambda>s. ok_or s ManifestInvalid) (map Some ss) = Inr ss" for ss :: "Section list" by (induction ss) simp_all
  have r: "read_u32 bs a = Inr (le_value (slice a 4 (header_prefix blake3 h)))" if "a + 4 \<le> 128" for a using reads_in(2) [of a bs] hs(1) [OF that] that len by (simp add: u64_max_def)
  have q: "read_u64 bs a = Inr (le_value (slice a 8 (header_prefix blake3 h)))" if "a + 8 \<le> 128" for a using reads_in(3) [of a bs] hs(1) [OF that] that len by (simp add: u64_max_def)
  have b: "take_bytes n bs a = Inr (slice a n (header_prefix blake3 h))" if "a + n \<le> 128" for a n using take_bytes_in [of a n bs] hs(1) [OF that] that len by (simp add: u64_max_def)
  have eta: "\<lparr>hdr_repository = hdr_repository h, hdr_generation = hdr_generation h, hdr_page_size = hdr_page_size h,
      hdr_index_hash = hdr_index_hash h, hdr_file_length = length bs, hdr_sections = ?ss\<rparr> = h" using assms(7) by simp
  show ?thesis unfolding mount_header_parse_def HEADER_SIZE_def FORMAT_VERSION_def SECTION_COUNT_def INDEX_HASH_OFFSET_def
    using len hs(1) [of 0 8] r [of 8] r [of 12] r [of 48] r [of 52] b [of 56 32] q [of 120] b [of 16 16] q [of 32] q [of 40] b [of 88 32] secs all [of ?ss] val assms(5-8)
    by (simp add: eta header_prefix_def layout_simps u32_max_def Let_def)
qed

section \<open>A written index\<close>

record IndexTables =
  tab_strings :: bytes
  tab_directories :: "DirectoryRecord list"
  tab_files :: "FileRecord list"
  tab_extents :: "ExtentRecord list"
  tab_pages :: "PageRecord list"
  tab_locations :: "RemoteLocationRecord list"

definition tables_ok :: "IndexTables \<Rightarrow> bool" where
  "tables_ok t \<longleftrightarrow> list_all directory_ok (tab_directories t) \<and> list_all file_ok (tab_files t) \<and> list_all extent_ok (tab_extents t) \<and>
     list_all page_record_ok (tab_pages t) \<and> list_all location_ok (tab_locations t)"

text \<open>What can be read from an index: its tables.\<close>

definition holds_tables :: "MountIndex \<Rightarrow> IndexTables \<Rightarrow> bool" where
  "holds_tables mi t \<longleftrightarrow>
     index_count mi Directories = length (tab_directories t) \<and> index_count mi Files = length (tab_files t) \<and>
     index_count mi Extents = length (tab_extents t) \<and> index_count mi Pages = length (tab_pages t) \<and>
     index_count mi RemoteLocations = length (tab_locations t) \<and>
     (\<forall>i < length (tab_directories t). directory_by_index mi i = Inr \<lparr>dv_ordinal = i, dv_record = tab_directories t ! i\<rparr>) \<and>
     (\<forall>i < length (tab_files t). file_by_index mi i = Inr \<lparr>fv_ordinal = i, fv_record = tab_files t ! i\<rparr>) \<and>
     (\<forall>i < length (tab_extents t). extent_by_index mi i = Inr \<lparr>ev_ordinal = i, ev_record = tab_extents t ! i\<rparr>) \<and>
     (\<forall>i < length (tab_pages t). page_by_ordinal mi i = Inr \<lparr>pv_ordinal = i, pv_record = tab_pages t ! i\<rparr>) \<and>
     (\<forall>i < length (tab_locations t). remote_location_by_index mi i = Inr \<lparr>lv_ordinal = i, lv_record = tab_locations t ! i\<rparr>) \<and>
     (\<forall>r v. ref_to (tab_strings t) r v \<longrightarrow> index_string mi r = from_utf8 v)"

lemma table_read:
  assumes "section_holds bs (header_section h kind) (kind, concat (map f rs), Some (length rs))" "\<And>r. length (f r) = record_size kind"
    "length bs \<le> u64_max" "i < length rs"
  shows "record_bytes \<lparr>mi_bytes = bs, mi_header = h\<rparr> kind i = Inr (f (rs ! i))"
proof -
  let ?w = "record_size kind" and ?s = "header_section h kind"
  have l: "length (concat (map f rs)) = length rs * ?w" using assms(2) by (induction rs) simp_all
  have s: "sec_count ?s = length rs" "sec_offset ?s + length rs * ?w \<le> length bs" "slice (sec_offset ?s) (length rs * ?w) bs = concat (map f rs)"
    using assms(1) by (simp_all add: section_holds_def l)
  have le: "i * ?w + ?w \<le> length rs * ?w" using mult_le_mono1 [of "Suc i" "length rs" ?w] assms(4) by simp
  have "slice (sec_offset ?s + i * ?w) ?w bs = slice (i * ?w) ?w (slice (sec_offset ?s) (length rs * ?w) bs)" using le by (simp add: slice_slice)
  also have "\<dots> = f (rs ! i)" unfolding s(3) by (rule table_slice [OF assms(2,4)])
  finally show ?thesis using s(1,2) le assms(3,4)
    by (simp add: record_bytes_def Let_def bytes_at_def checked_mul64_def checked_add64_def)
qed

lemma string_read:
  assumes "section_holds bs (header_section h Strings) (Strings, table, None)" "ref_to table r v" "length bs \<le> u64_max"
  shows "index_string \<lparr>mi_bytes = bs, mi_header = h\<rparr> r = from_utf8 v"
proof -
  let ?s = "header_section h Strings"
  have s: "sec_length ?s = length table" "sec_offset ?s + length table \<le> length bs" "slice (sec_offset ?s) (length table) bs = table"
    using assms(1) by (simp_all add: section_holds_def)
  have r: "str_offset r + str_length r \<le> length table" "slice (str_offset r) (str_length r) table = v" using assms(2) by (simp_all add: ref_to_def)
  have "slice (sec_offset ?s + str_offset r) (str_length r) bs = slice (str_offset r) (str_length r) (slice (sec_offset ?s) (length table) bs)"
    using r(1) by (simp add: slice_slice)
  then have "slice (sec_offset ?s + str_offset r) (str_length r) bs = v" using s(3) r(2) by simp
  then show ?thesis using s(1,2) r(1) assms(3) by (simp add: index_string_def Let_def bytes_at_def checked_add64_def)
qed

lemma validate_sections_hash: "validate_sections (h\<lparr>hdr_index_hash := x\<rparr>) = validate_sections h"
proof -
  have "hdr_file_length (h\<lparr>hdr_index_hash := x\<rparr>) = hdr_file_length h" "hdr_sections (h\<lparr>hdr_index_hash := x\<rparr>) = hdr_sections h" by simp_all
  then have "check_section (h\<lparr>hdr_index_hash := x\<rparr>) = check_section h" by (intro ext) (simp only: check_section_def)
  then show ?thesis by (simp add: validate_sections_def)
qed

lemma encode_tables:
  "encode_records directory_encode Directories ds = Inr b \<longleftrightarrow> length ds * 56 \<le> u64_max \<and> b = concat (map (encoded directory_encode 56) ds)"
  "encode_records file_encode Files fs = Inr b \<longleftrightarrow> length fs * 64 \<le> u64_max \<and> b = concat (map (encoded file_encode 64) fs)"
  "encode_records extent_encode Extents es = Inr b \<longleftrightarrow> length es * 32 \<le> u64_max \<and> b = concat (map (encoded extent_encode 32) es)"
  "encode_records page_encode Pages ps = Inr b \<longleftrightarrow> length ps * 48 \<le> u64_max \<and> b = concat (map (encoded page_encode 48) ps)"
  "encode_records location_encode RemoteLocations ls = Inr b \<longleftrightarrow> length ls * 104 \<le> u64_max \<and> b = concat (map (encoded location_encode 104) ls)"
  by (subst encode_records_eq; simp add: encoded_def mount_sizes directory_layout file_layout extent_layout page_layout location_layout)+

text \<open>Sealing: the header is written with a zero hash, the file is hashed, and the header is written again.\<close>

lemma seal_file:
  assumes "length (hdr_sections h) = 6" "320 \<le> length output" "mount_header_encode blake3 h = Inr hb" "write_bytes output 0 hb = Inr out1"
    "compute_index_hash blake3 out1 = Inr x" "mount_header_encode blake3 (h\<lparr>hdr_index_hash := x\<rparr>) = Inr hb'" "write_bytes out1 0 hb' = Inr bs"
  shows "compute_index_hash blake3 bs = Inr x" "slice 0 320 bs = hb'" "drop 320 bs = drop 320 output" "length bs = length output"
proof -
  define secs where "secs = concat (map section_bytes (hdr_sections h))"
  have l: "length secs = 192" using assms(1) by (simp add: secs_def length_concat comp_def sum_list_triv)
  have v: "validate_sections h = Inr ()" and hb: "hb = header_prefix blake3 h @ secs"
    using assms(3) unfolding mount_header_encode_eq [OF assms(1)] by (auto simp: bind_unit secs_def)
  have hb': "hb' = header_prefix blake3 (h\<lparr>hdr_index_hash := x\<rparr>) @ secs"
    using assms(6) mount_header_encode_eq [of "h\<lparr>hdr_index_hash := x\<rparr>" blake3] assms(1) by (simp add: validate_sections_hash v secs_def)
  have o1: "out1 = hb @ drop 320 output" using assms(2,4) l by (simp add: hb write_in copy_into_def)
  have bs: "bs = hb' @ drop 320 output" using assms(2,7) l by (simp add: hb' o1 hb write_in copy_into_def)
  have pre: "take 88 (header_prefix blake3 (h\<lparr>hdr_index_hash := x\<rparr>)) = take 88 (header_prefix blake3 h)"
    "drop 120 (header_prefix blake3 (h\<lparr>hdr_index_hash := x\<rparr>)) = drop 120 (header_prefix blake3 h)" by (simp_all add: header_prefix_def)
  show "compute_index_hash blake3 bs = Inr x"
    using assms(2,5) l unfolding compute_index_hash_def bs o1 hb hb' INDEX_HASH_OFFSET_def INDEX_HASH_LENGTH_def by (simp add: pre)
  show "slice 0 320 bs = hb'" "drop 320 bs = drop 320 output" "length bs = length output" using l assms(2) by (simp_all add: bs hb' slice_def)
qed

lemma section_holds_behind:
  assumes "section_holds a s p" "drop 320 b = drop 320 a" "length b = length a"
  shows "section_holds b s p"
proof -
  have "slice off n b = slice off n a" if "320 \<le> off" for off n
  proof -
    have "drop off b = drop off a" using arg_cong [OF assms(2), of "drop (off - 320)"] that by simp
    then show ?thesis by (simp add: slice_def)
  qed
  then show ?thesis using assms(1,3) by (auto simp: section_holds_def HEADER_SIZE_def)
qed

lemma section_holds_fits:
  assumes "section_holds bs s p" "length bs \<le> u64_max" "case_option True (\<lambda>n. n \<le> length (fst (snd p))) (snd (snd p))"
  shows "section_fits s"
  using assms by (cases p) (auto simp: section_holds_def section_fits_def split: option.splits)

lemmas mount_tables = directory_codec.length_table file_codec.length_table extent_codec.length_table page_codec.length_table location_codec.length_table

lemma sections_hold_tables:
  assumes "tables_ok t" "length bs \<le> u64_max" "section_holds bs (header_section h Strings) (Strings, tab_strings t, None)"
    "section_holds bs (header_section h Directories) (Directories, concat (map (encoded directory_encode 56) (tab_directories t)), Some (length (tab_directories t)))"
    "section_holds bs (header_section h Files) (Files, concat (map (encoded file_encode 64) (tab_files t)), Some (length (tab_files t)))"
    "section_holds bs (header_section h Extents) (Extents, concat (map (encoded extent_encode 32) (tab_extents t)), Some (length (tab_extents t)))"
    "section_holds bs (header_section h Pages) (Pages, concat (map (encoded page_encode 48) (tab_pages t)), Some (length (tab_pages t)))"
    "section_holds bs (header_section h RemoteLocations) (RemoteLocations, concat (map (encoded location_encode 104) (tab_locations t)), Some (length (tab_locations t)))"
  shows "holds_tables \<lparr>mi_bytes = bs, mi_header = h\<rparr> t"
proof -
  have c: "sec_count (header_section h Directories) = length (tab_directories t)" "sec_count (header_section h Files) = length (tab_files t)"
    "sec_count (header_section h Extents) = length (tab_extents t)" "sec_count (header_section h Pages) = length (tab_pages t)"
    "sec_count (header_section h RemoteLocations) = length (tab_locations t)" using assms(4-8) by (simp_all add: section_holds_def)
  have ok: "i < length (tab_directories t) \<Longrightarrow> directory_ok (tab_directories t ! i)" "i < length (tab_files t) \<Longrightarrow> file_ok (tab_files t ! i)"
    "i < length (tab_extents t) \<Longrightarrow> extent_ok (tab_extents t ! i)" "i < length (tab_pages t) \<Longrightarrow> page_record_ok (tab_pages t ! i)"
    "i < length (tab_locations t) \<Longrightarrow> location_ok (tab_locations t ! i)" for i
    using assms(1) by (simp_all add: tables_ok_def list_all_length)
  note read = table_read [OF assms(4) _ assms(2)] table_read [OF assms(5) _ assms(2)] table_read [OF assms(6) _ assms(2)]
    table_read [OF assms(7) _ assms(2)] table_read [OF assms(8) _ assms(2)]
  show ?thesis unfolding holds_tables_def
    by (simp add: c ok read mount_sizes encoded_lengths index_count_def directory_by_index_def file_by_index_def extent_by_index_def
        page_by_ordinal_def remote_location_by_index_def directory_decode_encode file_decode_encode extent_decode_encode
        page_decode_encode location_decode_encode string_read [OF assms(3) _ assms(2)])
qed

text \<open>What the compiler writes is a file that opens onto the tables it wrote, as far as the records
  themselves validate.\<close>

lemma written_index:
  assumes "write_index blake3 rid gen psize (tab_strings t) (tab_directories t) (tab_files t) (tab_extents t) (tab_pages t) (tab_locations t) = Inr bs"
    "tables_ok t" "gen \<le> u64_max" "psize \<le> u64_max" "length bs \<le> u64_max"
  obtains h where "hdr_repository h = rid" "hdr_generation h = gen" "hdr_page_size h = psize" "holds_tables \<lparr>mi_bytes = bs, mi_header = h\<rparr> t"
    "\<And>upper wide. open_index blake3 upper wide bs = bind_result (validate_records upper wide \<lparr>mi_bytes = bs, mi_header = h\<rparr>) (\<lambda>_. Inr \<lparr>mi_bytes = bs, mi_header = h\<rparr>)"
proof -
  let ?ps = "[(Strings, tab_strings t, None), (Directories, concat (map (encoded directory_encode 56) (tab_directories t)), Some (length (tab_directories t))),
     (Files, concat (map (encoded file_encode 64) (tab_files t)), Some (length (tab_files t))),
     (Extents, concat (map (encoded extent_encode 32) (tab_extents t)), Some (length (tab_extents t))),
     (Pages, concat (map (encoded page_encode 48) (tab_pages t)), Some (length (tab_pages t))),
     (RemoteLocations, concat (map (encoded location_encode 104) (tab_locations t)), Some (length (tab_locations t)))]"
  from assms(1) obtain image sections h0 hb out1 x hb' where
    push: "fold_results push_section ?ps (zeros HEADER_SIZE, []) = Inr (image, sections)" and
    hdr: "mount_header_new rid gen psize 0 (length image) sections = Inr h0" and
    seal: "mount_header_encode blake3 h0 = Inr hb" "write_bytes image 0 hb = Inr out1" "compute_index_hash blake3 out1 = Inr x"
      "mount_header_encode blake3 (h0\<lparr>hdr_index_hash := x\<rparr>) = Inr hb'" "write_bytes out1 0 hb' = Inr bs"
    unfolding write_index_def by (elim bind_ResultE) (simp add: encode_tables split: prod.splits, elim bind_ResultE, blast)
  let ?h = "h0\<lparr>hdr_index_hash := x\<rparr>"
  have h0: "hdr_repository h0 = rid" "hdr_generation h0 = gen" "hdr_page_size h0 = psize" "hdr_file_length h0 = length image" "hdr_sections h0 = sections"
    using hdr by (auto simp: mount_header_new_def Let_def bind_unit)
  have held: "list_all2 (section_holds image) sections ?ps" and out: "320 \<le> length image"
    using push_sections [OF push, of "[]"] by (auto simp: HEADER_SIZE_def)
  have six: "length (hdr_sections h0) = 6" using list_all2_lengthD [OF held] h0(5) by simp
  note sealed = seal_file [OF six out seal]
  have sec: "section_holds bs (sections ! i) (?ps ! i)" if "i < 6" for i
    using list_all2_nthD2 [OF held, of i] that by (intro section_holds_behind [OF _ sealed(3,4)]) simp
  have fits: "\<forall>s\<in>set sections. section_fits s"
  proof -
    have "section_fits (sections ! i)" if "i < 6" for i
    proof (rule section_holds_fits [OF sec [OF that] assms(5)])
      have "i = 0 \<or> i = 1 \<or> i = 2 \<or> i = 3 \<or> i = 4 \<or> i = 5" using that by presburger
      then show "case_option True (\<lambda>n. n \<le> length (fst (snd (?ps ! i)))) (snd (snd (?ps ! i)))" by (elim disjE) (simp_all add: mount_tables)
    qed
    then show ?thesis using six h0(5) by (auto simp: in_set_conv_nth)
  qed
  have parse: "mount_header_parse blake3 bs = Inr ?h"
    using mount_header_parse_encode [OF seal(4) sealed(2)] six fits h0 sealed(4) assms(3-5) by simp
  have at: "header_section ?h k = sections ! kind_index k" for k by (simp add: header_section_def h0(5))
  have "holds_tables \<lparr>mi_bytes = bs, mi_header = ?h\<rparr> t"
    using sec [of 0] sec [of 1] sec [of 2] sec [of 3] sec [of 4] sec [of 5]
    by (intro sections_hold_tables [OF assms(2,5)]) (simp_all add: at kind_index_def ALL_KINDS_def)
  then show thesis using that [of ?h] h0 parse sealed(1) by (simp add: open_index_def Let_def)
qed

text \<open>C9: the index file is a faithful container.  When well-formed record tables and strings are laid out and sealed,
  the file that results parses, its hash verifies, and through its views every record and every string
  of the table is read back at its position, so that opening it depends only on whether the records themselves
  validate.\<close>

theorem mount_index_round_trip:
  assumes "write_index blake3 rid gen psize (tab_strings t) (tab_directories t) (tab_files t) (tab_extents t) (tab_pages t) (tab_locations t) = Inr bs"
    "tables_ok t" "gen \<le> u64_max" "psize \<le> u64_max" "length bs \<le> u64_max"
  shows "\<exists>mi. mi_bytes mi = bs \<and> hdr_repository (mi_header mi) = rid \<and> hdr_generation (mi_header mi) = gen \<and> hdr_page_size (mi_header mi) = psize \<and>
    holds_tables mi t \<and> (\<forall>upper wide. open_index blake3 upper wide bs = bind_result (validate_records upper wide mi) (\<lambda>_. Inr mi))"
proof (rule written_index [OF assms])
  fix h assume "hdr_repository h = rid" "hdr_generation h = gen" "hdr_page_size h = psize" "holds_tables \<lparr>mi_bytes = bs, mi_header = h\<rparr> t"
    "\<And>upper wide. open_index blake3 upper wide bs = bind_result (validate_records upper wide \<lparr>mi_bytes = bs, mi_header = h\<rparr>) (\<lambda>_. Inr \<lparr>mi_bytes = bs, mi_header = h\<rparr>)"
  then show ?thesis by (intro exI [of _ "\<lparr>mi_bytes = bs, mi_header = h\<rparr>"]) simp
qed

end
