(* ===== verification/Mount_Lookup.thy ===== *)
theory Mount_Lookup
  imports Mount_Index
begin

text \<open>Finding and listing names in an opened mount index: \<open>mirage-index/src/lookup.rs\<close> and \<open>enumerate.rs\<close>.\<close>

datatype NodeIndex = DirectoryNode u32 | FileNode u32

section \<open>Lookup\<close>

function search_names ::
  "(bytes \<Rightarrow> bytes \<Rightarrow> ordering) \<Rightarrow> u32 \<Rightarrow> bytes \<Rightarrow> (u32 \<Rightarrow> bytes result) \<Rightarrow> u32 \<Rightarrow> u32 \<Rightarrow> u32 option result" where
  "search_names wide first needle key_at low high =
     (if low < high then
        let middle = low + (high - low) div 2 in
        bind_result (ok_or (checked_add32 first middle) ManifestInvalid) (\<lambda>ordinal.
        bind_result (key_at ordinal) (\<lambda>name.
          case compare_ordinal_ignore_case wide name needle of
            Less \<Rightarrow> search_names wide first needle key_at (middle + 1) high
          | Equal \<Rightarrow> Inr (Some ordinal)
          | Greater \<Rightarrow> search_names wide first needle key_at low middle))
      else Inr None)"
  by pat_completeness auto
termination by (relation "measure (\<lambda>(_, _, _, _, low, high). high - low)") auto

declare search_names.simps [simp del]

definition binary_search_names ::
  "(bytes \<Rightarrow> bytes \<Rightarrow> ordering) \<Rightarrow> u32 \<Rightarrow> u32 \<Rightarrow> bytes \<Rightarrow> (u32 \<Rightarrow> bytes result) \<Rightarrow> u32 option result" where
  "binary_search_names wide first cnt needle key_at = search_names wide first needle key_at 0 cnt"

definition lookup_child ::
  "(bytes \<Rightarrow> bytes \<Rightarrow> ordering) \<Rightarrow> MountIndex \<Rightarrow> DirectoryView \<Rightarrow> bytes \<Rightarrow> NodeIndex option result" where
  "lookup_child wide mi v name =
     bind_result (validate_lookup_component name) (\<lambda>_.
     bind_result (binary_search_names wide (dir_first_directory (dv_record v)) (dir_directory_count (dv_record v)) name (directory_name_at mi)) (\<lambda>dm.
     bind_result (binary_search_names wide (dir_first_file (dv_record v)) (dir_file_count (dv_record v)) name (file_name_at mi)) (\<lambda>fm.
       case (dm, fm) of
         (Some _, Some _) \<Rightarrow> Inl RepositoryConflict
       | (Some i, None) \<Rightarrow> Inr (Some (DirectoryNode i))
       | (None, Some i) \<Rightarrow> Inr (Some (FileNode i))
       | (None, None) \<Rightarrow> Inr None)))"

definition is_separator :: "byte \<Rightarrow> bool" where
  "is_separator b \<longleftrightarrow> b = 0x2F \<or> b = 0x5C"

definition trim_separators :: "bytes \<Rightarrow> bytes" where
  "trim_separators p = rev (dropWhile is_separator (rev (dropWhile is_separator p)))"

fun split_path :: "bytes \<Rightarrow> bytes list" where
  "split_path [] = [[]]"
| "split_path (b # bs) =
     (if is_separator b then [] # split_path bs
      else case split_path bs of [] \<Rightarrow> [[b]] | c # cs \<Rightarrow> (b # c) # cs)"

fun lookup_components ::
  "(bytes \<Rightarrow> bytes \<Rightarrow> ordering) \<Rightarrow> MountIndex \<Rightarrow> DirectoryView \<Rightarrow> bytes list \<Rightarrow> NodeIndex option result" where
  "lookup_components wide mi current [] = Inr (Some (DirectoryNode (dv_ordinal current)))"
| "lookup_components wide mi current (c # cs) =
     bind_result (lookup_child wide mi current c) (\<lambda>found.
       case (found, cs \<noteq> []) of
         (Some (DirectoryNode i), True) \<Rightarrow> bind_result (directory_by_index mi i) (\<lambda>next. lookup_components wide mi next cs)
       | (Some node, False) \<Rightarrow> Inr (Some node)
       | (Some (FileNode _), True) \<Rightarrow> Inr None
       | (None, _) \<Rightarrow> Inr None)"

definition lookup_path :: "(bytes \<Rightarrow> bytes \<Rightarrow> ordering) \<Rightarrow> MountIndex \<Rightarrow> bytes \<Rightarrow> NodeIndex option result" where
  "lookup_path wide mi path =
     (let trimmed = trim_separators path in
      if trimmed = [] then Inr (Some (DirectoryNode 0))
      else bind_result (directory_by_index mi 0) (\<lambda>current. lookup_components wide mi current (split_path trimmed)))"

section \<open>Enumeration\<close>

datatype DirectoryEntry = DirectoryChild (entry_index: u32) (entry_name: bytes) | FileChild (entry_index: u32) (entry_name: bytes)

function bound_search ::
  "(bytes \<Rightarrow> bytes \<Rightarrow> ordering) \<Rightarrow> u32 \<Rightarrow> bytes \<Rightarrow> (u32 \<Rightarrow> bytes result) \<Rightarrow> u32 \<Rightarrow> u32 \<Rightarrow> u32 result" where
  "bound_search wide first marker name_at low high =
     (if low < high then
        let middle = low + (high - low) div 2 in
        bind_result (ok_or (checked_add32 first middle) ManifestInvalid) (\<lambda>ordinal.
        bind_result (name_at ordinal) (\<lambda>name.
          if compare_names wide name marker = Greater then bound_search wide first marker name_at low middle
          else bound_search wide first marker name_at (middle + 1) high))
      else ok_or (checked_add32 first low) ManifestInvalid)"
  by pat_completeness auto
termination by (relation "measure (\<lambda>(_, _, _, _, low, high). high - low)") auto

declare bound_search.simps [simp del]

definition upper_bound ::
  "(bytes \<Rightarrow> bytes \<Rightarrow> ordering) \<Rightarrow> u32 \<Rightarrow> u32 \<Rightarrow> bytes \<Rightarrow> (u32 \<Rightarrow> bytes result) \<Rightarrow> u32 result" where
  "upper_bound wide first cnt marker name_at = bound_search wide first marker name_at 0 cnt"

text \<open>The loop that fills the output; the last argument is the room left in it.\<close>

fun take_children ::
  "(bytes \<Rightarrow> bytes \<Rightarrow> ordering) \<Rightarrow> MountIndex \<Rightarrow> u32 \<Rightarrow> u32 \<Rightarrow> u32 \<Rightarrow> u32 \<Rightarrow> nat \<Rightarrow> DirectoryEntry list result" where
  "take_children wide mi dc de fc fe 0 = Inr []"
| "take_children wide mi dc de fc fe (Suc n) =
     (if dc < de \<or> fc < fe then
        bind_result
          (if dc < de \<and> \<not> fc < fe then Inr True
           else if \<not> dc < de then Inr False
           else bind_result (directory_name_at mi dc) (\<lambda>d. bind_result (file_name_at mi fc) (\<lambda>f.
                  Inr (compare_names wide d f \<noteq> Greater)))) (\<lambda>take_directory.
        if take_directory then
          bind_result (directory_by_index mi dc) (\<lambda>v. bind_result (directory_name mi v) (\<lambda>name.
          bind_result (take_children wide mi (dc + 1) de fc fe n) (\<lambda>rest. Inr (DirectoryChild (dv_ordinal v) name # rest))))
        else
          bind_result (file_by_index mi fc) (\<lambda>v. bind_result (file_name mi v) (\<lambda>name.
          bind_result (take_children wide mi dc de (fc + 1) fe n) (\<lambda>rest. Inr (FileChild (fv_ordinal v) name # rest)))))
      else Inr [])"

definition children_after_marker ::
  "(bytes \<Rightarrow> bytes \<Rightarrow> ordering) \<Rightarrow> MountIndex \<Rightarrow> DirectoryView \<Rightarrow> bytes option \<Rightarrow> nat \<Rightarrow> DirectoryEntry list result" where
  "children_after_marker wide mi v marker limit =
     (let d = dv_record v in
      if limit > 4096 then Inl InvalidArgument
      else bind_result (ok_or (checked_add32 (dir_first_directory d) (dir_directory_count d)) ManifestInvalid) (\<lambda>directory_end.
      bind_result (ok_or (checked_add32 (dir_first_file d) (dir_file_count d)) ManifestInvalid) (\<lambda>file_end.
      bind_result
        (case marker of None \<Rightarrow> Inr (dir_first_directory d, dir_first_file d)
         | Some m \<Rightarrow>
             bind_result (upper_bound wide (dir_first_directory d) (dir_directory_count d) m (directory_name_at mi)) (\<lambda>dc.
             bind_result (upper_bound wide (dir_first_file d) (dir_file_count d) m (file_name_at mi)) (\<lambda>fc.
             Inr (dc, fc)))) (\<lambda>(directory_cursor, file_cursor).
      bind_result (ok_or (checked_add64 (dir_directory_count d) (dir_file_count d)) ManifestInvalid) (\<lambda>_.
      take_children wide mi directory_cursor directory_end file_cursor file_end limit)))))"

section \<open>The binary search\<close>

lemma search_names_exact:
  assumes "name_order wide key" "first + high \<le> u32_max"
    and "\<And>k. k < high \<Longrightarrow> key_at (first + k) = Inr (nm k)" "\<And>k l. k < l \<Longrightarrow> l < high \<Longrightarrow> key (nm k) \<le> key (nm l)"
  shows "(search_names wide first needle key_at low high = Inr None \<and> (\<forall>k. low \<le> k \<longrightarrow> k < high \<longrightarrow> key (nm k) \<noteq> key needle)) \<or>
    (\<exists>k. search_names wide first needle key_at low high = Inr (Some (first + k)) \<and> low \<le> k \<and> k < high \<and> key (nm k) = key needle)"
  using assms
proof (induction wide first needle key_at low high rule: search_names.induct)
  case (1 wide first needle key_at low high)
  show ?case
  proof (cases "low < high")
    case False
    then show ?thesis by (simp add: search_names.simps [of wide first needle key_at low high])
  next
    case True
    let ?m = "low + (high - low) div 2"
    have m: "low \<le> ?m" "?m < high" "first + ?m \<le> u32_max" using True "1.prems"(2) by auto
    have n: "key_at (first + ?m) = Inr (nm ?m)" using "1.prems"(3) m(2) by simp
    have c: "compare_ordinal_ignore_case wide (nm ?m) needle = order_cmp (key (nm ?m)) (key needle)" using "1.prems"(1) by (simp add: name_order_def)
    have step: "search_names wide first needle key_at low high =
        (case order_cmp (key (nm ?m)) (key needle) of Less \<Rightarrow> search_names wide first needle key_at (?m + 1) high
         | Equal \<Rightarrow> Inr (Some (first + ?m)) | Greater \<Rightarrow> search_names wide first needle key_at low ?m)"
      using True m(3) n c by (subst search_names.simps) (simp add: Let_def checked_add32_def)
    consider "key (nm ?m) < key needle" | "key (nm ?m) = key needle" | "key needle < key (nm ?m)" by fastforce
    then show ?thesis
    proof cases
      case 1
      then have o: "order_cmp (key (nm ?m)) (key needle) = Less" by simp
      have below: "key (nm k) \<noteq> key needle" if "k \<le> ?m" for k
        using that 1 "1.prems"(4) [of k ?m] m(2) by (cases "k = ?m") auto
      consider "search_names wide first needle key_at (?m + 1) high = Inr None" "\<forall>k. ?m + 1 \<le> k \<longrightarrow> k < high \<longrightarrow> key (nm k) \<noteq> key needle"
        | k where "search_names wide first needle key_at (?m + 1) high = Inr (Some (first + k))" "?m + 1 \<le> k" "k < high" "key (nm k) = key needle"
        using "1.IH"(1) [OF True refl c [unfolded o] "1.prems"] by blast
      then show ?thesis
      proof cases
        case 1
        have "key (nm k) \<noteq> key needle" if "k < high" for k using 1(2) below [of k] that by (cases "k \<le> ?m") auto
        then show ?thesis using 1(1) unfolding step o by auto
      next
        case (2 k)
        then have "low \<le> k" by linarith
        then show ?thesis using 2 unfolding step o by auto
      qed
    next
      case 2
      then have o: "order_cmp (key (nm ?m)) (key needle) = Equal" by simp
      show ?thesis using 2 m(1,2) unfolding step o by auto
    next
      case 3
      then have o: "order_cmp (key (nm ?m)) (key needle) = Greater" by simp
      have above: "key (nm k) \<noteq> key needle" if "?m \<le> k" "k < high" for k
        using that 3 "1.prems"(4) [of ?m k] by (cases "k = ?m") auto
      have "search_names wide first needle key_at low ?m = Inr None \<and> (\<forall>k. low \<le> k \<longrightarrow> k < ?m \<longrightarrow> key (nm k) \<noteq> key needle) \<or>
        (\<exists>k. search_names wide first needle key_at low ?m = Inr (Some (first + k)) \<and> low \<le> k \<and> k < ?m \<and> key (nm k) = key needle)"
        by (rule "1.IH"(2) [OF True refl c [unfolded o] "1.prems"(1)]) (use "1.prems" m in auto)
      then show ?thesis using above m(2) unfolding step o by (auto simp: not_less)
    qed
  qed
qed

section \<open>Children of a directory\<close>

lemma namespace_names:
  assumes "namespace_ok key mi i" and "\<And>j. j < index_count mi Directories \<Longrightarrow> namespace_ok key mi j"
  shows "c \<in> dir_children mi i \<Longrightarrow> c < index_count mi Directories \<and> directory_name_at mi c = Inr (dname mi c)"
    "c \<in> file_children mi i \<Longrightarrow> file_name_at mi c = Inr (fname mi c)"
  using assms by (auto simp: namespace_ok_def dir_children_def file_children_def)

lemma sorted_keys: "sorted_wrt (name_less key) (map f [a..<a + n]) \<Longrightarrow> k < l \<Longrightarrow> l < n \<Longrightarrow> key (f (a + k)) \<le> key (f (a + l))"
  using sorted_upt [of "name_less key" f a "a + n" "a + k" "a + l"] by (auto simp: name_less_def)

lemma search_children:
  assumes "name_order wide key" "a + n \<le> u32_max" "\<And>c. c \<in> {a..<a + n} \<Longrightarrow> name_at c = Inr (f c)"
    "sorted_wrt (name_less key) (map f [a..<a + n])"
  shows "(binary_search_names wide a n name name_at = Inr None \<and> (\<forall>c\<in>{a..<a + n}. key (f c) \<noteq> key name)) \<or>
    (\<exists>c\<in>{a..<a + n}. binary_search_names wide a n name name_at = Inr (Some c) \<and> key (f c) = key name)"
proof -
  have "(search_names wide a name name_at 0 n = Inr None \<and> (\<forall>k. 0 \<le> k \<longrightarrow> k < n \<longrightarrow> key (f (a + k)) \<noteq> key name)) \<or>
    (\<exists>k. search_names wide a name name_at 0 n = Inr (Some (a + k)) \<and> 0 \<le> k \<and> k < n \<and> key (f (a + k)) = key name)"
    by (rule search_names_exact [OF assms(1,2)]) (use assms(3) sorted_keys [OF assms(4)] in auto)
  moreover have "c \<in> {a..<a + n} \<Longrightarrow> a + (c - a) = c \<and> c - a < n" for c by auto
  ultimately show ?thesis unfolding binary_search_names_def by (metis atLeastLessThan_iff le_add1 nat_add_left_cancel_less zero_le)
qed

definition child_named :: "(bytes \<Rightarrow> nat list) \<Rightarrow> MountIndex \<Rightarrow> nat \<Rightarrow> bytes \<Rightarrow> NodeIndex \<Rightarrow> bool" where
  "child_named key mi i name node \<longleftrightarrow>
     (case node of DirectoryNode c \<Rightarrow> c \<in> dir_children mi i \<and> key (dname mi c) = key name
      | FileNode c \<Rightarrow> c \<in> file_children mi i \<and> key (fname mi c) = key name)"

lemma child_named_simps:
  "child_named key mi i name (DirectoryNode c) \<longleftrightarrow> c \<in> dir_children mi i \<and> key (dname mi c) = key name"
  "child_named key mi i name (FileNode c) \<longleftrightarrow> c \<in> file_children mi i \<and> key (fname mi c) = key name"
  by (simp_all add: child_named_def)

lemma all_nodes: "(\<forall>n. P n) \<longleftrightarrow> (\<forall>c. P (DirectoryNode c)) \<and> (\<forall>c. P (FileNode c))"
  by (metis NodeIndex.exhaust)

lemma lookup_child_exact:
  assumes "name_order wide key" "\<And>j. j < index_count mi Directories \<Longrightarrow> namespace_ok key mi j" "i < index_count mi Directories"
    "dv_record v = drec mi i" "validate_lookup_component name = Inr ()"
  shows "(lookup_child wide mi v name = Inr None \<and> (\<forall>n. \<not> child_named key mi i name n)) \<or>
    (\<exists>n. lookup_child wide mi v name = Inr (Some n) \<and> child_named key mi i name n)"
proof -
  note ok = assms(2) [OF assms(3)]
  let ?d = "drec mi i"
  note names = namespace_names [OF ok assms(2)]
  have d: "(binary_search_names wide (dir_first_directory ?d) (dir_directory_count ?d) name (directory_name_at mi) = Inr None \<and>
        (\<forall>c\<in>dir_children mi i. key (dname mi c) \<noteq> key name)) \<or>
      (\<exists>c\<in>dir_children mi i. binary_search_names wide (dir_first_directory ?d) (dir_directory_count ?d) name (directory_name_at mi) = Inr (Some c) \<and>
        key (dname mi c) = key name)"
    unfolding dir_children_def by (rule search_children [OF assms(1)]) (use ok names(1) in \<open>auto simp: namespace_ok_def dir_children_def\<close>)
  have f: "(binary_search_names wide (dir_first_file ?d) (dir_file_count ?d) name (file_name_at mi) = Inr None \<and>
        (\<forall>c\<in>file_children mi i. key (fname mi c) \<noteq> key name)) \<or>
      (\<exists>c\<in>file_children mi i. binary_search_names wide (dir_first_file ?d) (dir_file_count ?d) name (file_name_at mi) = Inr (Some c) \<and>
        key (fname mi c) = key name)"
    unfolding file_children_def by (rule search_children [OF assms(1)]) (use ok names(2) in \<open>auto simp: namespace_ok_def file_children_def\<close>)
  have apart: "c \<in> dir_children mi i \<Longrightarrow> g \<in> file_children mi i \<Longrightarrow> key (dname mi c) \<noteq> key (fname mi g)" for c g
    using ok by (simp add: namespace_ok_def)
  have l: "lookup_child wide mi v name =
      bind_result (binary_search_names wide (dir_first_directory ?d) (dir_directory_count ?d) name (directory_name_at mi)) (\<lambda>dm.
      bind_result (binary_search_names wide (dir_first_file ?d) (dir_file_count ?d) name (file_name_at mi)) (\<lambda>fm.
        case (dm, fm) of (Some _, Some _) \<Rightarrow> Inl RepositoryConflict | (Some i, None) \<Rightarrow> Inr (Some (DirectoryNode i))
        | (None, Some i) \<Rightarrow> Inr (Some (FileNode i)) | (None, None) \<Rightarrow> Inr None))"
    using assms(4,5) by (simp add: lookup_child_def)
  from d show ?thesis
  proof (elim disjE conjE bexE)
    fix c assume c: "c \<in> dir_children mi i" "key (dname mi c) = key name"
      "binary_search_names wide (dir_first_directory ?d) (dir_directory_count ?d) name (directory_name_at mi) = Inr (Some c)"
    then have "\<not> (\<exists>g\<in>file_children mi i. key (fname mi g) = key name)" using apart by metis
    with f have "binary_search_names wide (dir_first_file ?d) (dir_file_count ?d) name (file_name_at mi) = Inr None" by blast
    then have "lookup_child wide mi v name = Inr (Some (DirectoryNode c))" using c(3) unfolding l by simp
    then show ?thesis using c(1,2) by (intro disjI2 exI [of _ "DirectoryNode c"]) (simp add: child_named_simps)
  next
    assume n: "binary_search_names wide (dir_first_directory ?d) (dir_directory_count ?d) name (directory_name_at mi) = Inr None"
      "\<forall>c\<in>dir_children mi i. key (dname mi c) \<noteq> key name"
    from f show ?thesis
    proof (elim disjE conjE bexE)
      fix g assume g: "g \<in> file_children mi i" "key (fname mi g) = key name"
        "binary_search_names wide (dir_first_file ?d) (dir_file_count ?d) name (file_name_at mi) = Inr (Some g)"
      then have "lookup_child wide mi v name = Inr (Some (FileNode g))" using n(1) unfolding l by simp
      then show ?thesis using g(1,2) by (intro disjI2 exI [of _ "FileNode g"]) (simp add: child_named_simps)
    next
      assume "binary_search_names wide (dir_first_file ?d) (dir_file_count ?d) name (file_name_at mi) = Inr None"
        "\<forall>c\<in>file_children mi i. key (fname mi c) \<noteq> key name"
      then show ?thesis using n unfolding l all_nodes by (intro disjI1) (auto simp: child_named_simps)
    qed
  qed
qed

section \<open>Paths\<close>

inductive path_to :: "(bytes \<Rightarrow> nat list) \<Rightarrow> MountIndex \<Rightarrow> nat \<Rightarrow> bytes list \<Rightarrow> NodeIndex \<Rightarrow> bool" for key mi where
  path_last: "child_named key mi i c n \<Longrightarrow> path_to key mi i [c] n"
| path_down: "child_named key mi i c (DirectoryNode j) \<Longrightarrow> path_to key mi j cs n \<Longrightarrow> path_to key mi i (c # cs) n"

inductive_cases path_toE: "path_to key mi i (c # cs) n"

definition siblings_distinct :: "(bytes \<Rightarrow> nat list) \<Rightarrow> MountIndex \<Rightarrow> bool" where
  "siblings_distinct key mi \<longleftrightarrow> (\<forall>i < index_count mi Directories.
     inj_on (key \<circ> dname mi) (dir_children mi i) \<and> inj_on (key \<circ> fname mi) (file_children mi i))"

lemma path_to_nonempty: "path_to key mi i cs n \<Longrightarrow> cs \<noteq> []"
  by (induction rule: path_to.induct) simp_all

lemma child_named_unique:
  assumes "siblings_distinct key mi" "namespace_ok key mi i" "i < index_count mi Directories" "child_named key mi i c m" "child_named key mi i c n"
  shows "m = n"
proof -
  have inj: "inj_on (key \<circ> dname mi) (dir_children mi i)" "inj_on (key \<circ> fname mi) (file_children mi i)"
    using assms(1,3) by (simp_all add: siblings_distinct_def)
  have apart: "a \<in> dir_children mi i \<Longrightarrow> g \<in> file_children mi i \<Longrightarrow> key (dname mi a) \<noteq> key (fname mi g)" for a g
    using assms(2) by (simp add: namespace_ok_def)
  show ?thesis
  proof (cases m)
    case (DirectoryNode a)
    then show ?thesis using assms(4,5) apart inj_onD [OF inj(1)] by (cases n) (auto simp: child_named_simps, metis)
  next
    case (FileNode a)
    then show ?thesis using assms(4,5) apart inj_onD [OF inj(2)] by (cases n) (auto simp: child_named_simps, metis)
  qed
qed

lemma lookup_components_exact:
  assumes "name_order wide key" "\<And>j. j < index_count mi Directories \<Longrightarrow> namespace_ok key mi j" "siblings_distinct key mi"
  shows "i < index_count mi Directories \<Longrightarrow> dv_record v = drec mi i \<Longrightarrow> cs \<noteq> [] \<Longrightarrow> \<forall>c\<in>set cs. validate_lookup_component c = Inr () \<Longrightarrow>
    \<exists>r. lookup_components wide mi v cs = Inr r \<and> (\<forall>n. r = Some n \<longleftrightarrow> path_to key mi i cs n)"
proof (induction cs arbitrary: i v)
  case (Cons c cs)
  note ok = assms(2) [OF Cons.prems(1)]
  have "validate_lookup_component c = Inr ()" using Cons.prems(4) by simp
  from lookup_child_exact [OF assms(1,2) Cons.prems(1,2) this]
  consider "lookup_child wide mi v c = Inr None" "\<And>n. \<not> child_named key mi i c n"
    | n where "lookup_child wide mi v c = Inr (Some n)" "child_named key mi i c n" by blast
  then show ?case
  proof cases
    case 1
    have "\<not> path_to key mi i (c # cs) n" for n using 1(2) by (blast elim: path_toE)
    then show ?thesis using 1(1) by simp
  next
    case (2 n)
    note uniq = child_named_unique [OF assms(3) ok Cons.prems(1) 2(2)]
    show ?thesis
    proof (cases "cs = []")
      case True
      have "path_to key mi i [c] m \<longleftrightarrow> n = m" for m using 2(2) uniq by (blast intro: path_last elim: path_toE dest: path_to_nonempty)
      then show ?thesis using 2(1) True by (cases n) simp_all
    next
      case False
      show ?thesis
      proof (cases n)
        case (FileNode f)
        have "\<not> path_to key mi i (c # cs) m" for m using False uniq FileNode by (blast elim: path_toE)
        then show ?thesis using 2(1) FileNode False by simp
      next
        case (DirectoryNode j)
        have j: "j < index_count mi Directories" using namespace_names(1) [OF ok assms(2)] 2(2) DirectoryNode by (auto simp: child_named_simps)
        then have jv: "directory_by_index mi j = Inr \<lparr>dv_ordinal = j, dv_record = drec mi j\<rparr>" using assms(2) by (simp add: namespace_ok_def)
        obtain r where r: "lookup_components wide mi \<lparr>dv_ordinal = j, dv_record = drec mi j\<rparr> cs = Inr r"
          "\<forall>m. r = Some m \<longleftrightarrow> path_to key mi j cs m"
          using Cons.IH [OF j _ False, of "\<lparr>dv_ordinal = j, dv_record = drec mi j\<rparr>"] Cons.prems(4) by auto
        have "path_to key mi i (c # cs) m \<longleftrightarrow> path_to key mi j cs m" for m
          using 2(2) DirectoryNode False uniq by (blast intro: path_down elim: path_toE)
        then show ?thesis using 2(1) DirectoryNode False r jv by simp
      qed
    qed
  qed
qed simp

section \<open>Enumeration merges two sorted ranges\<close>

lemma bound_search_exact:
  assumes "name_order wide key" "first + high \<le> u32_max" "low \<le> high"
    and "\<And>k. k < high \<Longrightarrow> name_at (first + k) = Inr (nm k)" "\<And>k l. k < l \<Longrightarrow> l < high \<Longrightarrow> name_less key (nm k) (nm l)"
  shows "\<exists>l. bound_search wide first marker name_at low high = Inr (first + l) \<and> low \<le> l \<and> l \<le> high \<and>
    (\<forall>k. low \<le> k \<longrightarrow> k < l \<longrightarrow> \<not> name_less key marker (nm k)) \<and> (\<forall>k. l \<le> k \<longrightarrow> k < high \<longrightarrow> name_less key marker (nm k))"
  using assms
proof (induction wide first marker name_at low high rule: bound_search.induct)
  case (1 wide first marker name_at low high)
  show ?case
  proof (cases "low < high")
    case False
    then have "bound_search wide first marker name_at low high = Inr (first + low)"
      using "1.prems"(2,3) by (subst bound_search.simps) (simp add: checked_add32_def)
    then show ?thesis using "1.prems"(3) False by auto
  next
    case True
    let ?m = "low + (high - low) div 2"
    have m: "low \<le> ?m" "?m < high" "first + ?m \<le> u32_max" using True "1.prems"(2) by auto
    have n: "name_at (first + ?m) = Inr (nm ?m)" using "1.prems"(4) m(2) by simp
    have c: "compare_names wide (nm ?m) marker = Greater \<longleftrightarrow> name_less key marker (nm ?m)" using compare_names_iff(2) [OF "1.prems"(1)] .
    have step: "bound_search wide first marker name_at low high =
        (if name_less key marker (nm ?m) then bound_search wide first marker name_at low ?m
         else bound_search wide first marker name_at (?m + 1) high)"
      using True m(3) n c by (subst bound_search.simps) (simp add: Let_def checked_add32_def)
    show ?thesis
    proof (cases "name_less key marker (nm ?m)")
      case up: True
      have "\<exists>l. bound_search wide first marker name_at low ?m = Inr (first + l) \<and> low \<le> l \<and> l \<le> ?m \<and>
        (\<forall>k. low \<le> k \<longrightarrow> k < l \<longrightarrow> \<not> name_less key marker (nm k)) \<and> (\<forall>k. l \<le> k \<longrightarrow> k < ?m \<longrightarrow> name_less key marker (nm k))"
        by (rule "1.IH"(1) [OF True refl _ "1.prems"(1)]) (use "1.prems" m c up in auto)
      then obtain l where l: "bound_search wide first marker name_at low ?m = Inr (first + l)" "low \<le> l" "l \<le> ?m"
        "\<forall>k. low \<le> k \<longrightarrow> k < l \<longrightarrow> \<not> name_less key marker (nm k)" "\<forall>k. l \<le> k \<longrightarrow> k < ?m \<longrightarrow> name_less key marker (nm k)" by blast
      have "name_less key marker (nm k)" if "l \<le> k" "k < high" for k
        using that l(5) up "1.prems"(5) [of ?m k] name_less_order(1) [of key marker "nm ?m" "nm k"] by (cases k ?m rule: linorder_cases) auto
      then show ?thesis using l m(2) up unfolding step by auto
    next
      case down: False
      have "\<exists>l. bound_search wide first marker name_at (?m + 1) high = Inr (first + l) \<and> ?m + 1 \<le> l \<and> l \<le> high \<and>
        (\<forall>k. ?m + 1 \<le> k \<longrightarrow> k < l \<longrightarrow> \<not> name_less key marker (nm k)) \<and> (\<forall>k. l \<le> k \<longrightarrow> k < high \<longrightarrow> name_less key marker (nm k))"
        by (rule "1.IH"(2) [OF True refl _ "1.prems"(1)]) (use "1.prems" m c down in auto)
      then obtain l where l: "bound_search wide first marker name_at (?m + 1) high = Inr (first + l)" "?m + 1 \<le> l" "l \<le> high"
        "\<forall>k. ?m + 1 \<le> k \<longrightarrow> k < l \<longrightarrow> \<not> name_less key marker (nm k)" "\<forall>k. l \<le> k \<longrightarrow> k < high \<longrightarrow> name_less key marker (nm k)" by blast
      have "\<not> name_less key marker (nm k)" if "k < l" for k
        using that l(3,4) down m(2) "1.prems"(5) [of k ?m] name_less_order(1) [of key marker "nm k" "nm ?m"] by (cases k ?m rule: linorder_cases) auto
      then show ?thesis using l m(1) down unfolding step by auto
    qed
  qed
qed

fun merge_entries :: "('a \<Rightarrow> 'a \<Rightarrow> bool) \<Rightarrow> 'a list \<Rightarrow> 'a list \<Rightarrow> 'a list" where
  "merge_entries lt [] ys = ys"
| "merge_entries lt xs [] = xs"
| "merge_entries lt (x # xs) (y # ys) =
     (if lt y x then y # merge_entries lt (x # xs) ys else x # merge_entries lt xs (y # ys))"

lemma merge_entries_Nil2 [simp]: "merge_entries lt xs [] = xs"
  by (cases xs) simp_all

lemma set_merge_entries: "set (merge_entries lt xs ys) = set xs \<union> set ys"
  by (induction lt xs ys rule: merge_entries.induct) auto

lemma sorted_merge_entries:
  assumes "\<And>a b c. lt a b \<Longrightarrow> lt b c \<Longrightarrow> lt a c"
  shows "sorted_wrt lt xs \<Longrightarrow> sorted_wrt lt ys \<Longrightarrow> (\<forall>x\<in>set xs. \<forall>y\<in>set ys. lt x y \<or> lt y x) \<Longrightarrow> sorted_wrt lt (merge_entries lt xs ys)"
  using assms
proof (induction lt xs ys rule: merge_entries.induct)
  case (3 lt x xs y ys)
  show ?case
  proof (cases "lt y x")
    case True
    have "sorted_wrt lt (merge_entries lt (x # xs) ys)" by (rule "3.IH"(1) [OF True]) (use "3.prems" in auto)
    moreover have "lt y z" if z: "z \<in> set (x # xs) \<union> set ys" for z
    proof -
      consider "z = x" | "z \<in> set xs" | "z \<in> set ys" using z by auto
      then show ?thesis using True "3.prems"(4) [of y x z] "3.prems"(1,2) by cases auto
    qed
    ultimately show ?thesis using True by (simp add: set_merge_entries)
  next
    case False
    have "lt x y" using False "3.prems"(3) by auto
    have "sorted_wrt lt (merge_entries lt xs (y # ys))" by (rule "3.IH"(2) [OF False]) (use "3.prems" in auto)
    moreover have "lt x z" if z: "z \<in> set xs \<union> set (y # ys)" for z
    proof -
      consider "z = y" | "z \<in> set xs" | "z \<in> set ys" using z by auto
      then show ?thesis using \<open>lt x y\<close> "3.prems"(4) [of x y z] "3.prems"(1,2) by cases auto
    qed
    ultimately show ?thesis using False by (simp add: set_merge_entries)
  qed
qed simp_all

lemma sorted_wrt_unique:
  assumes "\<And>a b c. lt a b \<Longrightarrow> lt b c \<Longrightarrow> lt a c" "\<And>a. \<not> lt a a"
  shows "sorted_wrt lt xs \<Longrightarrow> sorted_wrt lt ys \<Longrightarrow> set xs = set ys \<Longrightarrow> xs = ys"
proof (induction xs arbitrary: ys)
  case (Cons x xs)
  then obtain y zs where y: "ys = y # zs" by (cases ys) auto
  have e: "x = y"
  proof (rule ccontr)
    assume "x \<noteq> y"
    then have "x \<in> set zs" "y \<in> set xs" using Cons.prems(3) y by auto
    then have "lt x y" "lt y x" using Cons.prems(1,2) y by auto
    then show False using assms(1) [of x y x] assms(2) by simp
  qed
  have "x \<notin> set xs" "y \<notin> set zs" using Cons.prems(1,2) assms(2) y by auto
  then have "set xs = set zs" using Cons.prems(3) y e by auto
  then show ?case using Cons.IH [of zs] Cons.prems y e by simp
qed simp

text \<open>The children of directory \<open>i\<close> as entries, in the order of their names.\<close>

definition dir_entries :: "MountIndex \<Rightarrow> nat \<Rightarrow> nat \<Rightarrow> DirectoryEntry list" where
  "dir_entries mi a b = map (\<lambda>c. DirectoryChild c (dname mi c)) [a..<b]"

definition file_entries :: "MountIndex \<Rightarrow> nat \<Rightarrow> nat \<Rightarrow> DirectoryEntry list" where
  "file_entries mi a b = map (\<lambda>c. FileChild c (fname mi c)) [a..<b]"

definition entry_less :: "(bytes \<Rightarrow> nat list) \<Rightarrow> DirectoryEntry \<Rightarrow> DirectoryEntry \<Rightarrow> bool" where
  "entry_less key a b = name_less key (entry_name a) (entry_name b)"

lemma entry_lists_Cons:
  "a < b \<Longrightarrow> dir_entries mi a b = DirectoryChild a (dname mi a) # dir_entries mi (Suc a) b"
  "a < b \<Longrightarrow> file_entries mi a b = FileChild a (fname mi a) # file_entries mi (Suc a) b"
  "\<not> a < b \<Longrightarrow> dir_entries mi a b = []" "\<not> a < b \<Longrightarrow> file_entries mi a b = []"
  by (simp_all add: dir_entries_def file_entries_def upt_conv_Cons)

lemma take_children_merge:
  assumes "name_order wide key"
    and "\<And>c. dc \<le> c \<Longrightarrow> c < de \<Longrightarrow> directory_by_index mi c = Inr \<lparr>dv_ordinal = c, dv_record = drec mi c\<rparr> \<and> directory_name_at mi c = Inr (dname mi c)"
    and "\<And>c. fc \<le> c \<Longrightarrow> c < fe \<Longrightarrow> file_name_at mi c = Inr (fname mi c)"
  shows "take_children wide mi dc de fc fe n = Inr (take n (merge_entries (entry_less key) (dir_entries mi dc de) (file_entries mi fc fe)))"
  using assms(2,3)
proof (induction n arbitrary: dc fc)
  case (Suc n)
  have d: "directory_name mi \<lparr>dv_ordinal = dc, dv_record = drec mi dc\<rparr> = Inr (dname mi dc)"
    "directory_by_index mi dc = Inr \<lparr>dv_ordinal = dc, dv_record = drec mi dc\<rparr>" "directory_name_at mi dc = Inr (dname mi dc)" if "dc < de"
    using Suc.prems(1) [of dc] that by (auto simp: directory_name_at_def)
  have f: "\<exists>v. file_by_index mi fc = Inr v \<and> fv_ordinal v = fc \<and> file_name mi v = Inr (fname mi fc)" "file_name_at mi fc = Inr (fname mi fc)"
    if "fc < fe" using Suc.prems(2) [of fc] that view_ordinal(2) by (auto simp: file_name_at_def bind_result_eq_Inr)
  have d': "take_children wide mi (dc + 1) de fc fe n =
      Inr (take n (merge_entries (entry_less key) (dir_entries mi (Suc dc) de) (file_entries mi fc fe)))"
    using Suc.IH [of "dc + 1" fc] Suc.prems by simp
  have f': "take_children wide mi dc de (fc + 1) fe n =
      Inr (take n (merge_entries (entry_less key) (dir_entries mi dc de) (file_entries mi (Suc fc) fe)))"
    using Suc.IH [of dc "fc + 1"] Suc.prems by simp
  consider "dc < de" "fc < fe" | "dc < de" "\<not> fc < fe" | "\<not> dc < de" "fc < fe" | "\<not> dc < de" "\<not> fc < fe" by blast
  then show ?case
  proof cases
    case 1
    have c: "compare_names wide (dname mi dc) (fname mi fc) = Greater \<longleftrightarrow>
        entry_less key (FileChild fc (fname mi fc)) (DirectoryChild dc (dname mi dc))"
      using compare_names_iff(2) [OF assms(1)] by (simp add: entry_less_def)
    obtain v where v: "file_by_index mi fc = Inr v" "fv_ordinal v = fc" "file_name mi v = Inr (fname mi fc)" using f(1) 1(2) by blast
    show ?thesis using 1 d f(2) d' f' v c by (simp add: entry_lists_Cons)
  next
    case 2
    show ?thesis using 2 d d' by (simp add: entry_lists_Cons)
  next
    case 3
    obtain v where v: "file_by_index mi fc = Inr v" "fv_ordinal v = fc" "file_name mi v = Inr (fname mi fc)" using f(1) 3(2) by blast
    show ?thesis using 3 f' v by (simp add: entry_lists_Cons)
  next
    case 4
    then show ?thesis by (simp add: entry_lists_Cons)
  qed
qed simp

definition after_marker :: "(bytes \<Rightarrow> nat list) \<Rightarrow> bytes option \<Rightarrow> DirectoryEntry \<Rightarrow> bool" where
  "after_marker key marker e = (case marker of None \<Rightarrow> True | Some m \<Rightarrow> name_less key m (entry_name e))"

definition children_of :: "MountIndex \<Rightarrow> nat \<Rightarrow> DirectoryEntry set" where
  "children_of mi i = (\<lambda>c. DirectoryChild c (dname mi c)) ` dir_children mi i \<union> (\<lambda>c. FileChild c (fname mi c)) ` file_children mi i"

lemma upper_bound_suffix:
  assumes "name_order wide key" "a + n \<le> u32_max" "\<And>c. c \<in> {a..<a + n} \<Longrightarrow> name_at c = Inr (f c)"
    "sorted_wrt (name_less key) (map f [a..<a + n])"
  obtains l where "upper_bound wide a n m name_at = Inr l" "a \<le> l" "l \<le> a + n" "\<And>c. c \<in> {a..<a + n} \<Longrightarrow> l \<le> c \<longleftrightarrow> name_less key m (f c)"
proof -
  have "\<exists>l. bound_search wide a m name_at 0 n = Inr (a + l) \<and> 0 \<le> l \<and> l \<le> n \<and>
    (\<forall>k. 0 \<le> k \<longrightarrow> k < l \<longrightarrow> \<not> name_less key m (f (a + k))) \<and> (\<forall>k. l \<le> k \<longrightarrow> k < n \<longrightarrow> name_less key m (f (a + k)))"
    by (rule bound_search_exact [OF assms(1,2)]) (use assms(3) sorted_upt [OF assms(4)] in auto)
  then obtain l where l: "bound_search wide a m name_at 0 n = Inr (a + l)" "l \<le> n" "\<And>k. k < l \<Longrightarrow> \<not> name_less key m (f (a + k))"
    "\<And>k. l \<le> k \<Longrightarrow> k < n \<Longrightarrow> name_less key m (f (a + k))" by auto
  have "a + l \<le> c \<longleftrightarrow> name_less key m (f c)" if c: "c \<in> {a..<a + n}" for c
  proof -
    obtain k where "c = a + k" "k < n" using c by (auto simp: le_iff_add)
    then show ?thesis using l(3) [of k] l(4) [of k] by (cases "l \<le> k") auto
  qed
  then show thesis using that [of "a + l"] l(1,2) by (simp add: upper_bound_def)
qed

lemma children_enumerated:
  assumes "name_order wide key" "\<And>j. j < index_count mi Directories \<Longrightarrow> namespace_ok key mi j" "i < index_count mi Directories"
  shows "\<exists>es. sorted_wrt (entry_less key) es \<and> set es = children_of mi i \<and>
    (\<forall>marker limit. limit \<le> 4096 \<longrightarrow>
      children_after_marker wide mi \<lparr>dv_ordinal = i, dv_record = drec mi i\<rparr> marker limit = Inr (take limit (filter (after_marker key marker) es)))"
proof -
  note ok = assms(2) [OF assms(3)]
  let ?d = "drec mi i" and ?merge = "merge_entries (entry_less key)"
  define a where "a = dir_first_directory ?d"
  define n where "n = dir_directory_count ?d"
  define b where "b = dir_first_file ?d"
  define k where "k = dir_file_count ?d"
  have c: "dir_children mi i = {a..<a + n}" "file_children mi i = {b..<b + k}" by (simp_all add: dir_children_def file_children_def a_def n_def b_def k_def)
  have bounds: "a + n \<le> u32_max" "b + k \<le> u32_max" "a + n \<le> index_count mi Directories"
    and so: "sorted_wrt (name_less key) (map (dname mi) [a..<a + n])" "sorted_wrt (name_less key) (map (fname mi) [b..<b + k])"
    and apart: "\<And>x y. x \<in> {a..<a + n} \<Longrightarrow> y \<in> {b..<b + k} \<Longrightarrow> key (dname mi x) \<noteq> key (fname mi y)"
    and fn: "\<And>y. y \<in> {b..<b + k} \<Longrightarrow> file_name_at mi y = Inr (fname mi y)"
    using ok unfolding namespace_ok_def c by (simp_all add: a_def n_def b_def k_def)
  have nk: "n + k \<le> u64_max" using bounds(1,2) by (simp add: u32_max_def u64_max_def)
  have dn: "directory_by_index mi x = Inr \<lparr>dv_ordinal = x, dv_record = drec mi x\<rparr>" "directory_name_at mi x = Inr (dname mi x)" if "x \<in> {a..<a + n}" for x
    using assms(2) [of x] that bounds(3) by (auto simp: namespace_ok_def)
  have sd: "sorted_wrt (entry_less key) (dir_entries mi l (a + n))" if "a \<le> l" for l
    using sorted_upt [OF so(1)] that by (auto simp: dir_entries_def entry_less_def sorted_wrt_iff_nth_less)
  have sf: "sorted_wrt (entry_less key) (file_entries mi l (b + k))" if "b \<le> l" for l
    using sorted_upt [OF so(2)] that by (auto simp: file_entries_def entry_less_def sorted_wrt_iff_nth_less)
  have trans: "entry_less key x y \<Longrightarrow> entry_less key y z \<Longrightarrow> entry_less key x z" for x y z
    unfolding entry_less_def by (rule name_less_order(1))
  have tot: "entry_less key x y \<or> entry_less key y x"
    if xy: "x \<in> set (dir_entries mi l (a + n))" "y \<in> set (file_entries mi m (b + k))" and lm: "a \<le> l" "b \<le> m" for x y l m
  proof -
    obtain p q where p: "p \<in> {a..<a + n}" "x = DirectoryChild p (dname mi p)" and q: "q \<in> {b..<b + k}" "y = FileChild q (fname mi q)"
      using xy lm by (auto simp: dir_entries_def file_entries_def)
    have "dname mi p \<noteq> fname mi q" using apart [OF p(1) q(1)] by auto
    then show ?thesis using name_less_order(3) [of key "dname mi p" "fname mi q"] p(2) q(2) by (simp add: entry_less_def)
  qed
  have sm: "sorted_wrt (entry_less key) (?merge (dir_entries mi l (a + n)) (file_entries mi m (b + k)))" if "a \<le> l" "b \<le> m" for l m
    by (rule sorted_merge_entries [OF trans sd [OF that(1)] sf [OF that(2)]]) (use tot that in blast)+
  let ?es = "?merge (dir_entries mi a (a + n)) (file_entries mi b (b + k))"
  have es: "sorted_wrt (entry_less key) ?es" "set ?es = children_of mi i"
    using sm by (auto simp: set_merge_entries children_of_def c dir_entries_def file_entries_def)
  have "children_after_marker wide mi \<lparr>dv_ordinal = i, dv_record = drec mi i\<rparr> marker limit = Inr (take limit (filter (after_marker key marker) ?es))"
    if lim: "limit \<le> 4096" for marker limit
  proof -
    obtain l m where lm: "a \<le> l" "b \<le> m" "(case marker of None \<Rightarrow> Inr (a, b) | Some x \<Rightarrow>
          bind_result (upper_bound wide a n x (directory_name_at mi)) (\<lambda>dc. bind_result (upper_bound wide b k x (file_name_at mi)) (\<lambda>fc. Inr (dc, fc)))) = Inr (l, m)"
      "\<And>x. x \<in> {a..<a + n} \<Longrightarrow> l \<le> x \<longleftrightarrow> after_marker key marker (DirectoryChild x (dname mi x))"
      "\<And>x. x \<in> {b..<b + k} \<Longrightarrow> m \<le> x \<longleftrightarrow> after_marker key marker (FileChild x (fname mi x))"
    proof (cases marker)
      case None
      then show thesis using that [of a b] by (simp add: after_marker_def)
    next
      case (Some x)
      obtain l where l: "upper_bound wide a n x (directory_name_at mi) = Inr l" "a \<le> l" "\<And>c. c \<in> {a..<a + n} \<Longrightarrow> l \<le> c \<longleftrightarrow> name_less key x (dname mi c)"
        using upper_bound_suffix [OF assms(1) bounds(1) dn(2) so(1)] by metis
      obtain m where m: "upper_bound wide b k x (file_name_at mi) = Inr m" "b \<le> m" "\<And>c. c \<in> {b..<b + k} \<Longrightarrow> m \<le> c \<longleftrightarrow> name_less key x (fname mi c)"
        using upper_bound_suffix [OF assms(1) bounds(2) fn so(2)] by metis
      show thesis by (rule that [of l m]) (use l m Some in \<open>simp_all add: after_marker_def\<close>)
    qed
    have "children_after_marker wide mi \<lparr>dv_ordinal = i, dv_record = drec mi i\<rparr> marker limit = take_children wide mi l (a + n) m (b + k) limit"
      using lim bounds(1,2) nk
      unfolding children_after_marker_def Let_def DirectoryView.select_convs a_def [symmetric] b_def [symmetric] n_def [symmetric] k_def [symmetric] lm(3)
      by (simp add: checked_add32_def checked_add64_def)
    also have "\<dots> = Inr (take limit (?merge (dir_entries mi l (a + n)) (file_entries mi m (b + k))))"
      by (rule take_children_merge [OF assms(1)]) (use dn fn lm(1,2) in auto)
    also have "?merge (dir_entries mi l (a + n)) (file_entries mi m (b + k)) = filter (after_marker key marker) ?es"
    proof (rule sorted_wrt_unique [of "entry_less key"])
      show "set (?merge (dir_entries mi l (a + n)) (file_entries mi m (b + k))) = set (filter (after_marker key marker) ?es)"
      proof -
        have "{l..<a + n} = {c \<in> {a..<a + n}. after_marker key marker (DirectoryChild c (dname mi c))}" 
          using lm(1) by (auto simp: lm(4) [symmetric])
        moreover have "{m..<b + k} = {c \<in> {b..<b + k}. after_marker key marker (FileChild c (fname mi c))}" 
          using lm(2) by (auto simp: lm(5) [symmetric])
        ultimately show ?thesis by (auto simp: set_merge_entries dir_entries_def file_entries_def simp del: atLeastLessThan_iff)
      qed
    qed (use sm [OF lm(1,2)] es(1) trans in \<open>simp_all add: sorted_wrt_filter, simp_all add: entry_less_def name_less_order(2)\<close>)
    finally show ?thesis .
  qed
  then show ?thesis using es by blast
qed

section \<open>Opened indexes\<close>

lemma split_path_nonempty: "split_path p \<noteq> []"
  by (cases p) (auto split: list.splits)

lemma opened_root: "open_index blake3 upper wide bs = Inr mi \<Longrightarrow> 0 < index_count mi Directories"
  using open_index_records(1) [of blake3 upper wide bs mi] by (auto simp: validate_records_def if_Inl_Inr)

text \<open>C7: looking up a path is exact.  In an index that opens and whose siblings differ under the lookup
  order, a path of valid components never fails, and it finds a node exactly when its components lead
  to that node from the root, each matching the name of a child without regard to case.\<close>

theorem mount_lookup_exact:
  assumes "open_index blake3 upper wide bs = Inr mi" "name_order wide key" "siblings_distinct key mi"
    "trim_separators p \<noteq> []" "\<forall>c\<in>set (split_path (trim_separators p)). validate_lookup_component c = Inr ()"
  shows "\<exists>r. lookup_path wide mi p = Inr r \<and> (\<forall>n. r = Some n \<longleftrightarrow> path_to key mi 0 (split_path (trim_separators p)) n)"
proof -
  note ns = opened_namespace [OF assms(1,2)]
  note root = opened_root [OF assms(1)]
  let ?v = "\<lparr>dv_ordinal = 0, dv_record = drec mi 0\<rparr>"
  have v: "directory_by_index mi 0 = Inr ?v" using ns [OF root] by (simp add: namespace_ok_def)
  have "\<exists>r. lookup_components wide mi ?v (split_path (trim_separators p)) = Inr r \<and>
      (\<forall>n. r = Some n \<longleftrightarrow> path_to key mi 0 (split_path (trim_separators p)) n)"
    by (rule lookup_components_exact [OF assms(2) ns assms(3) root _ split_path_nonempty assms(5)]) simp_all
  then show ?thesis using v assms(4) by (simp add: lookup_path_def Let_def)
qed

text \<open>C8: listing a directory is exact and resumable.  For every directory of an index that opens there
  is one list of its children, directories and files together, strictly ascending in the order of names, such
  that every call with a limit of at most 4096 returns its entries after the marker, up to the limit.  So pages taken with the
  last returned name as the next marker contain every child once.\<close>

theorem mount_enumeration_exact:
  assumes "open_index blake3 upper wide bs = Inr mi" "name_order wide key" "directory_by_index mi i = Inr v"
  shows "\<exists>es. sorted_wrt (entry_less key) es \<and> set es = children_of mi i \<and>
    (\<forall>marker limit. limit \<le> 4096 \<longrightarrow> children_after_marker wide mi v marker limit = Inr (take limit (filter (after_marker key marker) es)))"
proof -
  have i: "i < index_count mi Directories"
    using assms(3) by (auto simp: directory_by_index_def record_bytes_def index_count_def Let_def bind_result_eq_Inr if_Inl_Inr)
  have v: "v = \<lparr>dv_ordinal = i, dv_record = drec mi i\<rparr>" using directory_by_index_Inr [OF assms(3)] assms(3) by simp
  show ?thesis unfolding v by (rule children_enumerated [OF assms(2) opened_namespace [OF assms(1,2)] i])
qed

end
