(* ===== verification/Mount_Resolve.thy ===== *)
theory Mount_Resolve
  imports Mount_Index
begin

text \<open>From a byte range of a file to the pages that hold it: \<open>mirage-index/src/resolve.rs\<close>.\<close>

definition MAX_RESOLVED_SPANS :: nat where
  "MAX_RESOLVED_SPANS = 1048576"

record ResolvedSpan =
  span_page_ordinal :: u32
  span_page_offset :: u32
  span_len :: u32
  span_dst_offset :: u32

definition try_u32 :: "nat \<Rightarrow> u32 result" where
  "try_u32 n = (if n \<le> u32_max then Inr n else Inl ManifestInvalid)"

text \<open>The division is by the page size of the header, which is positive in every opened index that has a
  page, and so in every extent.\<close>

definition first_page_for_offset :: "MountIndex \<Rightarrow> ExtentView \<Rightarrow> u64 \<Rightarrow> u32 result" where
  "first_page_for_offset mi e offset =
     (if offset \<le> ext_logical_offset (ev_record e) then Inr 0
      else bind_result (try_u32 ((offset - ext_logical_offset (ev_record e)) div hdr_page_size (mi_header mi))) (\<lambda>page.
        if page \<ge> ext_page_count (ev_record e) then Inl ManifestInvalid else Inr page))"

text \<open>The address of a page of an extent: \<open>logical_offset + page * page_size\<close>, checked.\<close>

definition page_address :: "MountIndex \<Rightarrow> ExtentView \<Rightarrow> u32 \<Rightarrow> u64 result" where
  "page_address mi e page =
     bind_result (ok_or (checked_mul64 page (hdr_page_size (mi_header mi))) ManifestInvalid) (\<lambda>seek.
       ok_or (checked_add64 (ext_logical_offset (ev_record e)) seek) ManifestInvalid)"

text \<open>The loops over the pages of an extent and over the extents.  The first component of a counting result
  says that the function has returned because the bound was passed.\<close>

fun count_pages :: "MountIndex \<Rightarrow> ExtentView \<Rightarrow> u64 \<Rightarrow> u64 \<Rightarrow> u64 \<Rightarrow> nat \<Rightarrow> u32 list \<Rightarrow> (bool \<times> nat) result" where
  "count_pages mi e offset clipped_end address cnt [] = Inr (False, cnt)"
| "count_pages mi e offset clipped_end address cnt (page_index # rest) =
     bind_result (extent_page mi e page_index) (\<lambda>page.
     bind_result (ok_or (checked_add64 address (pag_logical_length (pv_record page))) ManifestInvalid) (\<lambda>page_end.
     bind_result
       (if max address offset < min page_end clipped_end
        then ok_or (checked_add64 cnt 1) InvalidArgument else Inr cnt) (\<lambda>cnt'.
     if cnt' \<noteq> cnt \<and> cnt' > MAX_RESOLVED_SPANS then Inr (True, cnt')
     else if page_end \<ge> clipped_end then Inr (False, cnt')
     else count_pages mi e offset clipped_end page_end cnt' rest)))"

fun count_extents :: "MountIndex \<Rightarrow> FileView \<Rightarrow> u64 \<Rightarrow> u64 \<Rightarrow> nat \<Rightarrow> u32 list \<Rightarrow> nat result" where
  "count_extents mi f offset clipped_end cnt [] = Inr cnt"
| "count_extents mi f offset clipped_end cnt (extent_index # rest) =
     bind_result (file_extent mi f extent_index) (\<lambda>e.
     if ext_logical_offset (ev_record e) \<ge> clipped_end then Inr cnt
     else bind_result (first_page_for_offset mi e offset) (\<lambda>first_page.
     bind_result (page_address mi e first_page) (\<lambda>address.
     bind_result (count_pages mi e offset clipped_end address cnt [first_page..<ext_page_count (ev_record e)]) (\<lambda>(returned, cnt').
     if returned then Inr cnt' else count_extents mi f offset clipped_end cnt' rest))))"

definition count_spans :: "MountIndex \<Rightarrow> FileView \<Rightarrow> u32 \<Rightarrow> u64 \<Rightarrow> u64 \<Rightarrow> nat result" where
  "count_spans mi f first_extent offset clipped_end =
     count_extents mi f offset clipped_end 0 [first_extent..<fil_extent_count (fv_record f)]"

definition page_span :: "PageView \<Rightarrow> u64 \<Rightarrow> u64 \<Rightarrow> u64 \<Rightarrow> u64 \<Rightarrow> ResolvedSpan list result" where
  "page_span page address page_end offset clipped_end =
     (let s = max address offset; e = min page_end clipped_end in
      if s < e then
        bind_result (try_u32 (s - address)) (\<lambda>page_offset.
        bind_result (try_u32 (e - s)) (\<lambda>len.
        bind_result (try_u32 (s - offset)) (\<lambda>dst.
          Inr [\<lparr>span_page_ordinal = pv_ordinal page, span_page_offset = page_offset, span_len = len, span_dst_offset = dst\<rparr>])))
      else Inr [])"

fun resolve_pages :: "MountIndex \<Rightarrow> ExtentView \<Rightarrow> u64 \<Rightarrow> u64 \<Rightarrow> u64 \<Rightarrow> u32 list \<Rightarrow> ResolvedSpan list result" where
  "resolve_pages mi e offset clipped_end address [] = Inr []"
| "resolve_pages mi e offset clipped_end address (page_index # rest) =
     bind_result (extent_page mi e page_index) (\<lambda>page.
     bind_result (ok_or (checked_add64 address (pag_logical_length (pv_record page))) ManifestInvalid) (\<lambda>page_end.
     bind_result (page_span page address page_end offset clipped_end) (\<lambda>spans.
     if page_end \<ge> clipped_end then Inr spans
     else bind_result (resolve_pages mi e offset clipped_end page_end rest) (\<lambda>more. Inr (spans @ more)))))"

fun resolve_extents :: "MountIndex \<Rightarrow> FileView \<Rightarrow> u64 \<Rightarrow> u64 \<Rightarrow> u32 list \<Rightarrow> ResolvedSpan list result" where
  "resolve_extents mi f offset clipped_end [] = Inr []"
| "resolve_extents mi f offset clipped_end (extent_index # rest) =
     bind_result (file_extent mi f extent_index) (\<lambda>e.
     if ext_logical_offset (ev_record e) \<ge> clipped_end then Inr []
     else bind_result (first_page_for_offset mi e offset) (\<lambda>first_page.
     bind_result (page_address mi e first_page) (\<lambda>address.
     bind_result (resolve_pages mi e offset clipped_end address [first_page..<ext_page_count (ev_record e)]) (\<lambda>spans.
     bind_result (resolve_extents mi f offset clipped_end rest) (\<lambda>more. Inr (spans @ more))))))"

text \<open>The binary search for the first extent that ends after the offset.\<close>

function extent_search :: "MountIndex \<Rightarrow> FileView \<Rightarrow> u64 \<Rightarrow> u32 \<Rightarrow> u32 \<Rightarrow> u32 result" where
  "extent_search mi f offset low high =
     (if low < high then
        let middle = low + (high - low) div 2 in
        bind_result (file_extent mi f middle) (\<lambda>e.
        bind_result (ok_or (checked_add64 (ext_logical_offset (ev_record e)) (ext_logical_length (ev_record e))) ManifestInvalid) (\<lambda>extent_end.
          if extent_end \<le> offset then extent_search mi f offset (middle + 1) high
          else extent_search mi f offset low middle))
      else Inr low)"
  by pat_completeness auto
termination by (relation "measure (\<lambda>(_, _, _, low, high). high - low)") auto

declare extent_search.simps [simp del]

definition resolve_range :: "MountIndex \<Rightarrow> FileView \<Rightarrow> u64 \<Rightarrow> u64 \<Rightarrow> ResolvedSpan list result" where
  "resolve_range mi f offset len =
     (if len = 0 then Inr []
      else bind_result (ok_or (checked_add64 offset len) InvalidArgument) (\<lambda>requested_end.
      if offset \<ge> fil_logical_size (fv_record f) then Inr []
      else
        let clipped_end = min requested_end (fil_logical_size (fv_record f));
            clipped_length = clipped_end - offset in
        if clipped_length > u32_max then Inl InvalidArgument
        else bind_result (extent_search mi f offset 0 (fil_extent_count (fv_record f))) (\<lambda>low.
        bind_result (count_spans mi f low offset clipped_end) (\<lambda>span_count.
        if span_count > MAX_RESOLVED_SPANS then Inl InvalidArgument
        else bind_result (resolve_extents mi f offset clipped_end [low..<fil_extent_count (fv_record f)]) (\<lambda>output.
        if try_sum64 0 (map span_len output) \<noteq> Some clipped_length then Inl ManifestInvalid
        else Inr output)))))"

section \<open>What validation says about a file\<close>

lemma fold_results_sum:
  fixes g :: "nat \<Rightarrow> nat"
  assumes "\<And>k s t. k < m \<Longrightarrow> f k s = Inr t \<Longrightarrow> t = s + g k" "fold_results f [0..<m] 0 = Inr x"
  shows "x = (\<Sum>i<m. g i) \<and> (\<forall>k<m. f k (\<Sum>i<k. g i) = Inr (\<Sum>i<Suc k. g i))"
  using assms
proof (induction m arbitrary: x)
  case (Suc m)
  from fold_results_range [OF Suc.prems(2) lessI] obtain y where y: "fold_results f [0..<m] 0 = Inr y" "f m y = Inr x"
    using Suc.prems(2) by fastforce
  have "y = (\<Sum>i<m. g i) \<and> (\<forall>k<m. f k (\<Sum>i<k. g i) = Inr (\<Sum>i<Suc k. g i))"
    by (rule Suc.IH [OF Suc.prems(1) y(1)]) simp_all
  then have ih: "y = (\<Sum>i<m. g i)" "\<forall>k<m. f k (\<Sum>i<k. g i) = Inr (\<Sum>i<Suc k. g i)" by blast+
  have x: "x = y + g m" by (rule Suc.prems(1) [OF lessI y(2)])
  show ?case
  proof (intro conjI allI impI)
    show "x = (\<Sum>i<Suc m. g i)" using x ih(1) by simp
    fix k assume "k < Suc m"
    then show "f k (\<Sum>i<k. g i) = Inr (\<Sum>i<Suc k. g i)" using ih y(2) x by (cases "k = m") simp_all
  qed
qed simp

abbreviation psize :: "MountIndex \<Rightarrow> nat" where
  "psize mi \<equiv> hdr_page_size (mi_header mi)"

abbreviation plen :: "MountIndex \<Rightarrow> nat \<Rightarrow> nat" where
  "plen mi p \<equiv> pag_logical_length (prec mi p)"

lemma validated_pages:
  assumes "validate_records upper wide mi = Inr ()" "p < index_count mi Pages"
  shows "p \<le> u32_max" "page_by_ordinal mi p = Inr \<lparr>pv_ordinal = p, pv_record = prec mi p\<rparr>" "0 < plen mi p" "plen mi p \<le> psize mi"
proof -
  from assms have "validate_page mi p = Inr ()"
    unfolding validate_records_def by (elim if_ResultE bind_ResultE) (simp add: for_each_ok)
  then obtain v where v: "page_by_ordinal mi p = Inr v" "p \<le> u32_max" "0 < pag_logical_length (pv_record v)" "pag_logical_length (pv_record v) \<le> psize mi"
    unfolding validate_page_def by (elim if_ResultE bind_ResultE) auto
  then show "p \<le> u32_max" "page_by_ordinal mi p = Inr \<lparr>pv_ordinal = p, pv_record = prec mi p\<rparr>" "0 < plen mi p" "plen mi p \<le> psize mi"
    using page_by_ordinal_Inr by (auto simp: prec_def)
qed

lemma validated_extents:
  assumes "validate_records upper wide mi = Inr ()" "x < index_count mi Extents"
  shows "x \<le> u32_max" "extent_by_index mi x = Inr \<lparr>ev_ordinal = x, ev_record = erec mi x\<rparr>" "0 < ext_page_count (erec mi x)"
    "ext_page_start (erec mi x) + ext_page_count (erec mi x) \<le> index_count mi Pages"
proof -
  from assms(1) obtain e where "fold_results (validate_extent mi) [0..<index_count mi Extents] 0 = Inr e"
    unfolding validate_records_def by (elim if_ResultE bind_ResultE) blast
  from fold_results_range [OF this assms(2)] obtain s t where "validate_extent mi x s = Inr t" by blast
  then obtain v where v: "extent_by_index mi x = Inr v" "x \<le> u32_max" "0 < ext_page_count (ev_record v)"
    "ext_page_start (ev_record v) + ext_page_count (ev_record v) \<le> index_count mi Pages"
    unfolding validate_extent_def Let_def by (elim if_ResultE bind_ResultE) (auto simp: validate_range_ok)
  then show "x \<le> u32_max" "extent_by_index mi x = Inr \<lparr>ev_ordinal = x, ev_record = erec mi x\<rparr>" "0 < ext_page_count (erec mi x)"
    "ext_page_start (erec mi x) + ext_page_count (erec mi x) \<le> index_count mi Pages"
    using extent_by_index_Inr by (auto simp: erec_def)
qed

lemma validated_files:
  assumes "validate_records upper wide mi = Inr ()" "i < index_count mi Files"
  shows "file_by_index mi i = Inr \<lparr>fv_ordinal = i, fv_record = frec mi i\<rparr>" "file_name_at mi i = Inr (fname mi i)"
    "fil_extent_start (frec mi i) + fil_extent_count (frec mi i) \<le> index_count mi Extents"
    "validate_file_layout mi \<lparr>fv_ordinal = i, fv_record = frec mi i\<rparr> = Inr ()" "fil_logical_size (frec mi i) \<le> u64_max"
proof -
  from assms(1) obtain e where "fold_results (validate_file upper mi) [0..<index_count mi Files] (0, {}) = Inr e"
    unfolding validate_records_def by (elim if_ResultE bind_ResultE) blast
  from fold_results_range [OF this assms(2)] obtain s t where "validate_file upper mi i s = Inr t" by blast
  then obtain v n where v: "file_by_index mi i = Inr v" "file_name mi v = Inr n"
    "fil_extent_start (fv_record v) + fil_extent_count (fv_record v) \<le> index_count mi Extents" "validate_file_layout mi v = Inr ()"
    unfolding validate_file_def Let_def by (elim if_ResultE bind_ResultE) (auto simp: validate_range_ok)
  have e: "v = \<lparr>fv_ordinal = i, fv_record = frec mi i\<rparr>" using file_by_index_Inr [OF v(1)] v(1) by simp
  from v(1) obtain bs where "file_decode bs = Inr (fv_record v)" by (auto simp: file_by_index_def bind_result_eq_Inr)
  then have "file_ok (fv_record v)" by (simp add: file_codec.decode_iff)
  then show "fil_logical_size (frec mi i) \<le> u64_max" by (simp add: e file_ok_def)
  show "file_by_index mi i = Inr \<lparr>fv_ordinal = i, fv_record = frec mi i\<rparr>" "file_name_at mi i = Inr (fname mi i)"
    "fil_extent_start (frec mi i) + fil_extent_count (frec mi i) \<le> index_count mi Extents"
    "validate_file_layout mi \<lparr>fv_ordinal = i, fv_record = frec mi i\<rparr> = Inr ()"
    using v e by (simp_all add: fname_def file_name_at_def)
qed

text \<open>The pages of an extent: all but the last are full, and the lengths add up.\<close>

definition extent_layout_ok :: "MountIndex \<Rightarrow> ExtentRecord \<Rightarrow> bool" where
  "extent_layout_ok mi e \<longleftrightarrow> 0 < ext_page_count e \<and> ext_page_start e + ext_page_count e \<le> u32_max + 1 \<and>
     (\<forall>j < ext_page_count e. page_by_ordinal mi (ext_page_start e + j) =
        Inr \<lparr>pv_ordinal = ext_page_start e + j, pv_record = prec mi (ext_page_start e + j)\<rparr> \<and>
        0 < plen mi (ext_page_start e + j) \<and> plen mi (ext_page_start e + j) \<le> psize mi \<and>
        (j + 1 \<noteq> ext_page_count e \<longrightarrow> plen mi (ext_page_start e + j) = psize mi)) \<and>
     ext_logical_length e = (\<Sum>j<ext_page_count e. plen mi (ext_page_start e + j))"

definition file_layout_ok :: "MountIndex \<Rightarrow> FileRecord \<Rightarrow> bool" where
  "file_layout_ok mi f \<longleftrightarrow> fil_extent_start f + fil_extent_count f \<le> u32_max + 1 \<and> fil_logical_size f \<le> u64_max \<and>
     (\<forall>k < fil_extent_count f. extent_by_index mi (fil_extent_start f + k) =
        Inr \<lparr>ev_ordinal = fil_extent_start f + k, ev_record = erec mi (fil_extent_start f + k)\<rparr> \<and>
        extent_layout_ok mi (erec mi (fil_extent_start f + k)) \<and>
        ext_logical_offset (erec mi (fil_extent_start f + k)) = (\<Sum>i<k. ext_logical_length (erec mi (fil_extent_start f + i)))) \<and>
     fil_logical_size f = (\<Sum>i<fil_extent_count f. ext_logical_length (erec mi (fil_extent_start f + i)))"

lemma extent_page_in:
  "extent_layout_ok mi e \<Longrightarrow> j < ext_page_count e \<Longrightarrow> extent_page mi \<lparr>ev_ordinal = x, ev_record = e\<rparr> j =
     Inr \<lparr>pv_ordinal = ext_page_start e + j, pv_record = prec mi (ext_page_start e + j)\<rparr>"
  by (auto simp: extent_page_def extent_layout_ok_def checked_add32_def)

lemma file_extent_in:
  "file_layout_ok mi (fv_record f) \<Longrightarrow> k < fil_extent_count (fv_record f) \<Longrightarrow> file_extent mi f k =
     Inr \<lparr>ev_ordinal = fil_extent_start (fv_record f) + k, ev_record = erec mi (fil_extent_start (fv_record f) + k)\<rparr>"
  by (auto simp: file_extent_def file_layout_ok_def checked_add32_def)

lemma page_step_Inr:
  "page_step mi e j s = Inr t \<Longrightarrow> \<exists>p. extent_page mi e j = Inr p \<and> t = s + pag_logical_length (pv_record p) \<and>
     (j + 1 \<noteq> ext_page_count (ev_record e) \<longrightarrow> pag_logical_length (pv_record p) = psize mi)"
  unfolding page_step_def by (elim bind_ResultE if_ResultE) auto

lemma extent_step_Inr:
  "extent_step mi f k s = Inr t \<Longrightarrow> \<exists>e. file_extent mi f k = Inr e \<and> t = s + ext_logical_length (ev_record e) \<and>
     ext_logical_offset (ev_record e) = s \<and>
     fold_results (page_step mi e) [0..<ext_page_count (ev_record e)] 0 = Inr (ext_logical_length (ev_record e))"
  unfolding extent_step_def by (elim bind_ResultE if_ResultE) auto

lemma validated_extent_layout:
  assumes "validate_records upper wide mi = Inr ()" "x < index_count mi Extents"
    and "fold_results (page_step mi \<lparr>ev_ordinal = x, ev_record = erec mi x\<rparr>) [0..<ext_page_count (erec mi x)] 0 = Inr (ext_logical_length (erec mi x))"
  shows "extent_layout_ok mi (erec mi x)"
proof -
  let ?e = "erec mi x" and ?v = "\<lparr>ev_ordinal = x, ev_record = erec mi x\<rparr>"
  note v = validated_extents [OF assms(1,2)]
  have in_range: "ext_page_start ?e + j < index_count mi Pages" if "j < ext_page_count ?e" for j using v(4) that by simp
  have p: "page_by_ordinal mi (ext_page_start ?e + j) = Inr \<lparr>pv_ordinal = ext_page_start ?e + j, pv_record = prec mi (ext_page_start ?e + j)\<rparr>"
    "0 < plen mi (ext_page_start ?e + j)" "plen mi (ext_page_start ?e + j) \<le> psize mi" "ext_page_start ?e + j \<le> u32_max" if "j < ext_page_count ?e" for j
    using validated_pages [OF assms(1) in_range [OF that]] by auto
  have last: "ext_page_start ?e + ext_page_count ?e \<le> u32_max + 1" using p(4) [of "ext_page_count ?e - 1"] v(3) by simp
  have ep: "extent_page mi ?v j = Inr \<lparr>pv_ordinal = ext_page_start ?e + j, pv_record = prec mi (ext_page_start ?e + j)\<rparr>" if "j < ext_page_count ?e" for j
    using p(1,4) [OF that] that by (simp add: extent_page_def checked_add32_def)
  have step: "t = s + plen mi (ext_page_start ?e + j) \<and> (j + 1 \<noteq> ext_page_count ?e \<longrightarrow> plen mi (ext_page_start ?e + j) = psize mi)"
    if "j < ext_page_count ?e" "page_step mi ?v j s = Inr t" for j s t
    using page_step_Inr [OF that(2)] ep [OF that(1)] by simp
  have sum: "ext_logical_length ?e = (\<Sum>j<ext_page_count ?e. plen mi (ext_page_start ?e + j)) \<and>
    (\<forall>k<ext_page_count ?e. page_step mi ?v k (\<Sum>i<k. plen mi (ext_page_start ?e + i)) = Inr (\<Sum>i<Suc k. plen mi (ext_page_start ?e + i)))"
    by (rule fold_results_sum [OF conjunct1 [OF step] assms(3)])
  then have "\<forall>j<ext_page_count ?e. j + 1 \<noteq> ext_page_count ?e \<longrightarrow> plen mi (ext_page_start ?e + j) = psize mi" using step by blast
  then show ?thesis using v(3) last p(1-3) sum unfolding extent_layout_ok_def by blast
qed

lemma validated_file_layout:
  assumes "validate_records upper wide mi = Inr ()" "i < index_count mi Files" "is_virtual (fil_class (frec mi i))"
  shows "file_layout_ok mi (frec mi i)"
proof -
  let ?f = "frec mi i" and ?v = "\<lparr>fv_ordinal = i, fv_record = frec mi i\<rparr>"
  note v = validated_files [OF assms(1,2)]
  have in_range: "fil_extent_start ?f + k < index_count mi Extents" if "k < fil_extent_count ?f" for k using v(3) that by simp
  note x = validated_extents [OF assms(1) in_range]
  have last: "fil_extent_start ?f + fil_extent_count ?f \<le> u32_max + 1 \<or> fil_extent_count ?f = 0"
    using x(1) [of "fil_extent_count ?f - 1"] by (cases "fil_extent_count ?f") auto
  have fe: "file_extent mi ?v k = Inr \<lparr>ev_ordinal = fil_extent_start ?f + k, ev_record = erec mi (fil_extent_start ?f + k)\<rparr>" if "k < fil_extent_count ?f" for k
    using x(1,2) [OF that] that by (simp add: file_extent_def checked_add32_def)
  show ?thesis
  proof (cases "fil_logical_size ?f = 0")
    case True
    then have "fil_extent_count ?f = 0" using v(4) assms(3) by (auto simp: validate_file_layout_def Let_def split: if_splits)
    moreover from v(1) have "file_ok ?f" using file_codec.decode_iff by (auto simp: file_by_index_def bind_result_eq_Inr)
    ultimately show ?thesis using True by (simp add: file_layout_ok_def file_ok_def)
  next
    case False
    then have fold: "fold_results (extent_step mi ?v) [0..<fil_extent_count ?f] 0 = Inr (fil_logical_size ?f)" and "fil_extent_count ?f \<noteq> 0"
      using v(4) assms(3) by (auto simp: validate_file_layout_def Let_def bind_result_eq_Inr split: if_splits)
    have step: "t = s + ext_logical_length (erec mi (fil_extent_start ?f + k)) \<and> ext_logical_offset (erec mi (fil_extent_start ?f + k)) = s \<and>
        extent_layout_ok mi (erec mi (fil_extent_start ?f + k))"
      if "k < fil_extent_count ?f" "extent_step mi ?v k s = Inr t" for k s t
      using extent_step_Inr [OF that(2)] fe [OF that(1)] validated_extent_layout [OF assms(1) in_range [OF that(1)]] by simp
    have "fil_logical_size ?f = (\<Sum>i<fil_extent_count ?f. ext_logical_length (erec mi (fil_extent_start ?f + i))) \<and>
      (\<forall>k<fil_extent_count ?f. extent_step mi ?v k (\<Sum>i<k. ext_logical_length (erec mi (fil_extent_start ?f + i))) =
         Inr (\<Sum>i<Suc k. ext_logical_length (erec mi (fil_extent_start ?f + i))))"
      by (rule fold_results_sum [OF conjunct1 [OF step] fold])
    then show ?thesis using step x(2) last v(5) \<open>fil_extent_count ?f \<noteq> 0\<close> unfolding file_layout_ok_def by blast
  qed
qed

section \<open>The reference: every page, clipped\<close>

definition span_of :: "nat \<Rightarrow> nat \<Rightarrow> nat \<Rightarrow> nat \<Rightarrow> nat \<Rightarrow> ResolvedSpan list" where
  "span_of off cend p start len =
     (if max start off < min (start + len) cend
      then [\<lparr>span_page_ordinal = p, span_page_offset = max start off - start, span_len = min (start + len) cend - max start off,
             span_dst_offset = max start off - off\<rparr>] else [])"

definition ext_span :: "MountIndex \<Rightarrow> ExtentRecord \<Rightarrow> nat \<Rightarrow> nat \<Rightarrow> nat \<Rightarrow> ResolvedSpan list" where
  "ext_span mi e off cend j =
     span_of off cend (ext_page_start e + j) (ext_logical_offset e + j * psize mi) (plen mi (ext_page_start e + j))"

definition ext_spans :: "MountIndex \<Rightarrow> ExtentRecord \<Rightarrow> nat \<Rightarrow> nat \<Rightarrow> ResolvedSpan list" where
  "ext_spans mi e off cend = concat (map (ext_span mi e off cend) [0..<ext_page_count e])"

definition file_spans :: "MountIndex \<Rightarrow> FileRecord \<Rightarrow> nat \<Rightarrow> nat \<Rightarrow> ResolvedSpan list" where
  "file_spans mi f off cend = concat (map (\<lambda>k. ext_spans mi (erec mi (fil_extent_start f + k)) off cend) [0..<fil_extent_count f])"

lemma span_of_outside: "start + len \<le> off \<or> cend \<le> start \<Longrightarrow> span_of off cend p start len = []"
  by (auto simp: span_of_def)

lemma concat_map_empty: "(\<And>x. x \<in> set xs \<Longrightarrow> f x = []) \<Longrightarrow> concat (map f xs) = []"
  by simp

lemma prefix_full:
  assumes "extent_layout_ok mi e" "j < ext_page_count e"
  shows "(\<Sum>i<j. plen mi (ext_page_start e + i)) = j * psize mi"
proof -
  have "(\<Sum>i<j. plen mi (ext_page_start e + i)) = (\<Sum>i<j. psize mi)"
    using assms by (intro sum.cong) (auto simp: extent_layout_ok_def)
  then show ?thesis by simp
qed

lemma page_inside:
  assumes "extent_layout_ok mi e" "j < ext_page_count e"
  shows "j * psize mi + plen mi (ext_page_start e + j) \<le> ext_logical_length e"
proof -
  have "(\<Sum>i<Suc j. plen mi (ext_page_start e + i)) \<le> (\<Sum>i<ext_page_count e. plen mi (ext_page_start e + i))"
    using assms(2) by (intro sum_mono2) auto
  then show ?thesis using prefix_full [OF assms] assms(1) by (simp add: extent_layout_ok_def)
qed

text \<open>A page starts where the previous one ends, or later.\<close>

lemma page_order:
  assumes "extent_layout_ok mi e" "j < i" "i < ext_page_count e"
  shows "j * psize mi + plen mi (ext_page_start e + j) \<le> i * psize mi" "j + 1 < ext_page_count e \<Longrightarrow> plen mi (ext_page_start e + j) = psize mi"
proof -
  have "plen mi (ext_page_start e + j) = psize mi" using assms by (auto simp: extent_layout_ok_def)
  moreover have "(j + 1) * psize mi \<le> i * psize mi" using assms(2) by (intro mult_le_mono1) simp
  ultimately show "j * psize mi + plen mi (ext_page_start e + j) \<le> i * psize mi"
    "j + 1 < ext_page_count e \<Longrightarrow> plen mi (ext_page_start e + j) = psize mi" by auto
qed

lemma spans_after:
  assumes "extent_layout_ok mi e" "cend \<le> ext_logical_offset e + (j * psize mi + plen mi (ext_page_start e + j))" "j < ext_page_count e"
  shows "concat (map (ext_span mi e off cend) [Suc j..<ext_page_count e]) = []"
proof (rule concat_map_empty)
  fix i assume "i \<in> set [Suc j..<ext_page_count e]"
  then have "j * psize mi + plen mi (ext_page_start e + j) \<le> i * psize mi" by (intro page_order(1) [OF assms(1)]) auto
  then show "ext_span mi e off cend i = []" using assms(2) unfolding ext_span_def by (intro span_of_outside disjI2) linarith
qed

lemma plen_u32: "page_by_ordinal mi p = Inr v \<Longrightarrow> plen mi p \<le> u32_max"
proof -
  assume v: "page_by_ordinal mi p = Inr v"
  then obtain bs where "page_decode bs = Inr (prec mi p)" by (auto simp: page_by_ordinal_def bind_result_eq_Inr prec_def)
  then show ?thesis by (simp add: page_codec.decode_iff page_record_ok_def)
qed

lemma page_span_eq:
  assumes "off \<le> cend" "cend - off \<le> u32_max" "len \<le> u32_max" "pv_ordinal v = p"
  shows "page_span v start (start + len) off cend = Inr (span_of off cend p start len)"
  using assms by (auto simp: page_span_def span_of_def Let_def try_u32_def)

lemma resolve_pages_eq:
  assumes "extent_layout_ok mi e" "off \<le> cend" "cend - off \<le> u32_max" "ext_logical_offset e + ext_logical_length e \<le> u64_max"
  shows "j < ext_page_count e \<Longrightarrow> resolve_pages mi \<lparr>ev_ordinal = x, ev_record = e\<rparr> off cend (ext_logical_offset e + j * psize mi) [j..<ext_page_count e] =
    Inr (concat (map (ext_span mi e off cend) [j..<ext_page_count e]))"
proof (induction "ext_page_count e - j" arbitrary: j)
  case (Suc n)
  let ?p = "ext_page_start e + j" and ?v = "\<lparr>pv_ordinal = ext_page_start e + j, pv_record = prec mi (ext_page_start e + j)\<rparr>"
  have u: "[j..<ext_page_count e] = j # [Suc j..<ext_page_count e]" using Suc.prems by (simp add: upt_conv_Cons)
  note pg = extent_page_in [OF assms(1) Suc.prems]
  have l: "plen mi ?p \<le> u32_max" using assms(1) Suc.prems plen_u32 by (auto simp: extent_layout_ok_def)
  have fit: "ext_logical_offset e + j * psize mi + plen mi ?p \<le> u64_max" using page_inside [OF assms(1) Suc.prems] assms(4) by linarith
  have sp: "page_span ?v (ext_logical_offset e + j * psize mi) (ext_logical_offset e + j * psize mi + plen mi ?p) off cend = Inr (ext_span mi e off cend j)"
    unfolding ext_span_def by (rule page_span_eq [OF assms(2,3) l]) simp
  show ?case
  proof (cases "cend \<le> ext_logical_offset e + j * psize mi + plen mi ?p")
    case True
    then have "concat (map (ext_span mi e off cend) [Suc j..<ext_page_count e]) = []" using spans_after [OF assms(1) _ Suc.prems] by simp
    then show ?thesis using True pg fit sp unfolding u by (simp add: checked_add64_def)
  next
    case False
    have "resolve_pages mi \<lparr>ev_ordinal = x, ev_record = e\<rparr> off cend (ext_logical_offset e + j * psize mi + plen mi ?p) [Suc j..<ext_page_count e] =
      Inr (concat (map (ext_span mi e off cend) [Suc j..<ext_page_count e]))"
    proof (cases "Suc j < ext_page_count e")
      case True
      then have "plen mi ?p = psize mi" using page_order(2) [OF assms(1) lessI True] by simp
      then show ?thesis using Suc.hyps(1) [of "Suc j"] Suc.hyps(2) True by (simp add: algebra_simps)
    qed simp
    then show ?thesis using False pg fit sp unfolding u by (simp add: checked_add64_def)
  qed
qed simp

text \<open>Counting agrees with the reference until the bound is passed.\<close>

definition counted :: "nat \<Rightarrow> nat \<Rightarrow> bool \<times> nat \<Rightarrow> bool" where
  "counted cnt extra r \<longleftrightarrow> (if cnt + extra \<le> MAX_RESOLVED_SPANS then r = (False, cnt + extra) else r = (True, MAX_RESOLVED_SPANS + 1))"

lemma length_ext_span: "length (ext_span mi e off cend j) =
    (if max (ext_logical_offset e + j * psize mi) off < min (ext_logical_offset e + j * psize mi + plen mi (ext_page_start e + j)) cend then 1 else 0)"
  by (simp add: ext_span_def span_of_def)

lemma count_pages_eq:
  assumes "extent_layout_ok mi e" "ext_logical_offset e + ext_logical_length e \<le> u64_max"
  shows "j < ext_page_count e \<Longrightarrow> cnt \<le> MAX_RESOLVED_SPANS \<Longrightarrow>
    \<exists>r. count_pages mi \<lparr>ev_ordinal = x, ev_record = e\<rparr> off cend (ext_logical_offset e + j * psize mi) cnt [j..<ext_page_count e] = Inr r \<and>
      counted cnt (length (concat (map (ext_span mi e off cend) [j..<ext_page_count e]))) r"
proof (induction "ext_page_count e - j" arbitrary: j cnt)
  case (Suc n)
  let ?p = "ext_page_start e + j" and ?a = "ext_logical_offset e + j * psize mi"
  define c where "c = (if max ?a off < min (?a + plen mi ?p) cend then cnt + 1 else cnt)"
  have u: "[j..<ext_page_count e] = j # [Suc j..<ext_page_count e]" using Suc.prems by (simp add: upt_conv_Cons)
  define r where "r = length (concat (map (ext_span mi e off cend) [Suc j..<ext_page_count e]))"
  have tot: "length (concat (map (ext_span mi e off cend) [j..<ext_page_count e])) = length (ext_span mi e off cend j) + r"
    unfolding u r_def by simp
  note pg = extent_page_in [OF assms(1) Suc.prems(1)]
  have fit: "?a + plen mi ?p \<le> u64_max" using page_inside [OF assms(1) Suc.prems(1)] assms(2) by linarith
  have le: "length (ext_span mi e off cend j) + cnt = c" by (simp add: c_def length_ext_span)
  have small: "cnt + 1 \<le> u64_max" using Suc.prems(2) by (simp add: MAX_RESOLVED_SPANS_def u64_max_def)
  have step: "count_pages mi \<lparr>ev_ordinal = x, ev_record = e\<rparr> off cend ?a cnt [j..<ext_page_count e] =
      (if c \<noteq> cnt \<and> c > MAX_RESOLVED_SPANS then Inr (True, c)
       else if cend \<le> ?a + plen mi ?p then Inr (False, c)
       else count_pages mi \<lparr>ev_ordinal = x, ev_record = e\<rparr> off cend (?a + plen mi ?p) c [Suc j..<ext_page_count e])"
    unfolding u using pg fit small by (simp add: checked_add64_def c_def)
  show ?case
  proof (cases "c \<le> MAX_RESOLVED_SPANS")
    case False
    then have "c = MAX_RESOLVED_SPANS + 1" "c \<noteq> cnt" using Suc.prems(2) by (auto simp: c_def split: if_splits)
    then show ?thesis using le unfolding step tot by (auto simp: counted_def)
  next
    case c: True
    show ?thesis
    proof (cases "cend \<le> ?a + plen mi ?p")
      case True
      then have "r = 0" unfolding r_def by (subst spans_after [OF assms(1) _ Suc.prems(1)]) simp_all
      then show ?thesis using True c le unfolding step tot by (auto simp: counted_def)
    next
      case False
      have "\<exists>w. count_pages mi \<lparr>ev_ordinal = x, ev_record = e\<rparr> off cend (?a + plen mi ?p) c [Suc j..<ext_page_count e] = Inr w \<and>
        counted c r w"
      proof (cases "Suc j < ext_page_count e")
        case True
        then have "plen mi ?p = psize mi" using page_order(2) [OF assms(1) lessI True] by simp
        then show ?thesis using Suc.hyps(1) [of "Suc j" c] Suc.hyps(2) True c unfolding r_def by (simp add: algebra_simps)
      qed (use c in \<open>simp add: counted_def r_def\<close>)
      then obtain w where w: "count_pages mi \<lparr>ev_ordinal = x, ev_record = e\<rparr> off cend (?a + plen mi ?p) c [Suc j..<ext_page_count e] = Inr w"
        "counted c r w" by blast
      have "cnt + (length (ext_span mi e off cend j) + r) = c + r" using le by simp
      then have "counted cnt (length (ext_span mi e off cend j) + r) w" using w(2) unfolding counted_def by simp
      moreover have "count_pages mi \<lparr>ev_ordinal = x, ev_record = e\<rparr> off cend ?a cnt [j..<ext_page_count e] = Inr w"
        unfolding step w(1) using False c by simp
      ultimately show ?thesis unfolding tot by blast
    qed
  qed
qed simp

text \<open>The page an extent is entered at.\<close>

lemma first_page_eq:
  assumes "extent_layout_ok mi e" "off < ext_logical_offset e + ext_logical_length e"
    "ext_logical_offset e + ext_logical_length e \<le> u64_max"
  obtains j where "first_page_for_offset mi \<lparr>ev_ordinal = x, ev_record = e\<rparr> off = Inr j" "j < ext_page_count e"
    "page_address mi \<lparr>ev_ordinal = x, ev_record = e\<rparr> j = Inr (ext_logical_offset e + j * psize mi)"
    "\<And>i. i < j \<Longrightarrow> ext_span mi e off cend i = []"
proof -
  have pos: "0 < ext_page_count e" and psz: "0 < psize mi" using assms(1) by (auto simp: extent_layout_ok_def)
  define j where "j = (off - ext_logical_offset e) div psize mi"
  have len: "ext_logical_length e \<le> ext_page_count e * psize mi"
  proof -
    have "(\<Sum>i<ext_page_count e. plen mi (ext_page_start e + i)) \<le> (\<Sum>i<ext_page_count e. psize mi)"
      using assms(1) by (intro sum_mono) (auto simp: extent_layout_ok_def)
    then show ?thesis using assms(1) by (simp add: extent_layout_ok_def)
  qed
  have j: "j < ext_page_count e"
  proof -
    have "off - ext_logical_offset e < ext_page_count e * psize mi" using assms(2) len pos psz by (cases "off \<le> ext_logical_offset e") auto
    then show ?thesis unfolding j_def by (simp add: less_mult_imp_div_less)
  qed
  have a: "j * psize mi \<le> off - ext_logical_offset e" unfolding j_def by (rule div_times_less_eq_dividend)
  have u32: "ext_page_count e \<le> u32_max + 1" using assms(1) by (simp add: extent_layout_ok_def)
  have addr: "page_address mi \<lparr>ev_ordinal = x, ev_record = e\<rparr> j = Inr (ext_logical_offset e + j * psize mi)"
    using a assms(2,3) by (simp add: page_address_def checked_mul64_def checked_add64_def)
  have fp: "first_page_for_offset mi \<lparr>ev_ordinal = x, ev_record = e\<rparr> off = Inr j"
    using j u32 by (auto simp: first_page_for_offset_def try_u32_def j_def)
  have "ext_span mi e off cend i = []" if "i < j" for i
  proof -
    have "i * psize mi + plen mi (ext_page_start e + i) \<le> j * psize mi" by (rule page_order(1) [OF assms(1) that j])
    moreover have "ext_logical_offset e + j * psize mi \<le> off"
    proof -
      have "0 < j * psize mi" using that psz by simp
      then show ?thesis using a by arith
    qed
    ultimately show ?thesis unfolding ext_span_def by (intro span_of_outside disjI1) linarith
  qed
  then show thesis using that fp j addr by blast
qed

section \<open>The loops over extents\<close>

lemma ext_spans_outside:
  assumes "extent_layout_ok mi e" "cend \<le> ext_logical_offset e \<or> ext_logical_offset e + ext_logical_length e \<le> off"
  shows "ext_spans mi e off cend = []"
  unfolding ext_spans_def
proof (rule concat_map_empty)
  fix j assume "j \<in> set [0..<ext_page_count e]"
  then have "j * psize mi + plen mi (ext_page_start e + j) \<le> ext_logical_length e" by (intro page_inside [OF assms(1)]) simp
  then show "ext_span mi e off cend j = []" using assms(2) unfolding ext_span_def by (intro span_of_outside) linarith
qed

lemma ext_spans_from: "j \<le> ext_page_count e \<Longrightarrow> (\<And>i. i < j \<Longrightarrow> ext_span mi e off cend i = []) \<Longrightarrow>
    ext_spans mi e off cend = concat (map (ext_span mi e off cend) [j..<ext_page_count e])"
  unfolding ext_spans_def using upt_split [of 0 j "ext_page_count e"] by simp

definition extent_at :: "MountIndex \<Rightarrow> FileRecord \<Rightarrow> nat \<Rightarrow> ExtentRecord" where
  "extent_at mi f k = erec mi (fil_extent_start f + k)"

definition extent_end :: "MountIndex \<Rightarrow> FileRecord \<Rightarrow> nat \<Rightarrow> nat" where
  "extent_end mi f k = ext_logical_offset (extent_at mi f k) + ext_logical_length (extent_at mi f k)"

lemma extent_facts:
  assumes "file_layout_ok mi f" "k < fil_extent_count f"
  shows "extent_layout_ok mi (extent_at mi f k)" "extent_end mi f k \<le> fil_logical_size f" "extent_end mi f k \<le> u64_max"
    "i < k \<Longrightarrow> extent_end mi f i \<le> ext_logical_offset (extent_at mi f k)"
proof -
  have o: "ext_logical_offset (extent_at mi f j) = (\<Sum>i<j. ext_logical_length (extent_at mi f i))" if "j < fil_extent_count f" for j
    using assms(1) that by (simp add: file_layout_ok_def extent_at_def)
  have e: "extent_end mi f j = (\<Sum>i<Suc j. ext_logical_length (extent_at mi f i))" if "j < fil_extent_count f" for j
    using o [OF that] by (simp add: extent_end_def)
  show "extent_layout_ok mi (extent_at mi f k)" using assms by (simp add: file_layout_ok_def extent_at_def)
  have "extent_end mi f k \<le> (\<Sum>i<fil_extent_count f. ext_logical_length (extent_at mi f i))"
    unfolding e [OF assms(2)] using assms(2) by (intro sum_mono2) auto
  then show "extent_end mi f k \<le> fil_logical_size f" using assms(1) by (simp add: file_layout_ok_def extent_at_def)
  then show "extent_end mi f k \<le> u64_max" using assms(1) by (simp add: file_layout_ok_def)
  show "extent_end mi f i \<le> ext_logical_offset (extent_at mi f k)" if "i < k"
    unfolding e [OF order.strict_trans [OF that assms(2)]] o [OF assms(2)] using that by (intro sum_mono2) auto
qed

lemma extent_mono: "file_layout_ok mi f \<Longrightarrow> i \<le> k \<Longrightarrow> k < fil_extent_count f \<Longrightarrow> extent_end mi f i \<le> extent_end mi f k"
  using extent_facts(4) [of mi f k i] by (cases "i = k") (auto simp: extent_end_def)

lemma spans_past:
  assumes "file_layout_ok mi f" "cend \<le> ext_logical_offset (extent_at mi f k)"
  shows "concat (map (\<lambda>k. ext_spans mi (extent_at mi f k) off cend) [k..<fil_extent_count f]) = []"
proof (rule concat_map_empty)
  fix i assume i: "i \<in> set [k..<fil_extent_count f]"
  then have "ext_logical_offset (extent_at mi f k) \<le> ext_logical_offset (extent_at mi f i)"
    using extent_facts(4) [OF assms(1), of i k] by (cases "i = k") (auto simp: extent_end_def)
  then show "ext_spans mi (extent_at mi f i) off cend = []"
    using extent_facts(1) [OF assms(1), of i] i assms(2) by (intro ext_spans_outside disjI1) auto
qed

lemma resolve_extents_eq:
  assumes "file_layout_ok mi (fv_record f)" "off \<le> cend" "cend - off \<le> u32_max"
  shows "k \<le> fil_extent_count (fv_record f) \<Longrightarrow> (k < fil_extent_count (fv_record f) \<Longrightarrow> off < extent_end mi (fv_record f) k) \<Longrightarrow>
    resolve_extents mi f off cend [k..<fil_extent_count (fv_record f)] =
      Inr (concat (map (\<lambda>k. ext_spans mi (extent_at mi (fv_record f) k) off cend) [k..<fil_extent_count (fv_record f)]))"
proof (induction "fil_extent_count (fv_record f) - k" arbitrary: k)
  case (Suc n)
  let ?r = "fv_record f"
  let ?e = "extent_at mi ?r k"
  have k: "k < fil_extent_count ?r" using Suc.hyps(2) by simp
  have u: "[k..<fil_extent_count ?r] = k # [Suc k..<fil_extent_count ?r]" using k by (simp add: upt_conv_Cons)
  note fe = file_extent_in [OF assms(1) k, folded extent_at_def]
  note facts = extent_facts [OF assms(1) k]
  show ?case
  proof (cases "cend \<le> ext_logical_offset ?e")
    case True
    have "resolve_extents mi f off cend [k..<fil_extent_count ?r] = Inr []" unfolding u using fe True by simp
    then show ?thesis by (simp only: spans_past [OF assms(1) True])
  next
    case False
    have inside: "off < ext_logical_offset ?e + ext_logical_length ?e" "ext_logical_offset ?e + ext_logical_length ?e \<le> u64_max"
      using Suc.prems(2) [OF k] facts(3) by (simp_all add: extent_end_def)
    obtain j where j: "first_page_for_offset mi \<lparr>ev_ordinal = fil_extent_start ?r + k, ev_record = ?e\<rparr> off = Inr j" "j < ext_page_count ?e"
      "page_address mi \<lparr>ev_ordinal = fil_extent_start ?r + k, ev_record = ?e\<rparr> j = Inr (ext_logical_offset ?e + j * psize mi)"
      "\<And>i. i < j \<Longrightarrow> ext_span mi ?e off cend i = []"
      using first_page_eq [OF facts(1) inside] by metis
    have "ext_spans mi ?e off cend = concat (map (ext_span mi ?e off cend) [j..<ext_page_count ?e])"
      by (rule ext_spans_from) (use j(2,4) in auto)
    note rp = resolve_pages_eq [OF facts(1) assms(2,3) inside(2) j(2), folded this]
    have "resolve_extents mi f off cend [Suc k..<fil_extent_count ?r] =
      Inr (concat (map (\<lambda>k. ext_spans mi (extent_at mi ?r k) off cend) [Suc k..<fil_extent_count ?r]))"
      by (rule Suc.hyps(1)) (use Suc.hyps(2) k Suc.prems(2) [OF k] extent_mono [OF assms(1), of k "Suc k"] in auto)
    then show ?thesis unfolding u using fe False j(1,3) rp by simp
  qed
qed simp

definition counted_total :: "nat \<Rightarrow> nat \<Rightarrow> nat \<Rightarrow> bool" where
  "counted_total cnt extra c \<longleftrightarrow> c = (if cnt + extra \<le> MAX_RESOLVED_SPANS then cnt + extra else MAX_RESOLVED_SPANS + 1)"

lemma count_extents_eq:
  assumes "file_layout_ok mi (fv_record f)"
  shows "k \<le> fil_extent_count (fv_record f) \<Longrightarrow> (k < fil_extent_count (fv_record f) \<Longrightarrow> off < extent_end mi (fv_record f) k) \<Longrightarrow>
    cnt \<le> MAX_RESOLVED_SPANS \<Longrightarrow>
    \<exists>c. count_extents mi f off cend cnt [k..<fil_extent_count (fv_record f)] = Inr c \<and>
      counted_total cnt (length (concat (map (\<lambda>k. ext_spans mi (extent_at mi (fv_record f) k) off cend) [k..<fil_extent_count (fv_record f)]))) c"
proof (induction "fil_extent_count (fv_record f) - k" arbitrary: k cnt)
  case 0
  then show ?case by (simp add: counted_total_def)
next
  case (Suc n)
  let ?r = "fv_record f"
  let ?e = "extent_at mi ?r k"
  have k: "k < fil_extent_count ?r" using Suc.hyps(2) by simp
  have u: "[k..<fil_extent_count ?r] = k # [Suc k..<fil_extent_count ?r]" using k by (simp add: upt_conv_Cons)
  note fe = file_extent_in [OF assms(1) k, folded extent_at_def]
  note facts = extent_facts [OF assms(1) k]
  show ?case
  proof (cases "cend \<le> ext_logical_offset ?e")
    case True
    have "count_extents mi f off cend cnt [k..<fil_extent_count ?r] = Inr cnt" unfolding u using fe True by simp
    then show ?thesis using Suc.prems(3) by (simp only: spans_past [OF assms(1) True]) (simp add: counted_total_def)
  next
    case False
    have inside: "off < ext_logical_offset ?e + ext_logical_length ?e" "ext_logical_offset ?e + ext_logical_length ?e \<le> u64_max"
      using Suc.prems(2) [OF k] facts(3) by (simp_all add: extent_end_def)
    obtain j where j: "first_page_for_offset mi \<lparr>ev_ordinal = fil_extent_start ?r + k, ev_record = ?e\<rparr> off = Inr j" "j < ext_page_count ?e"
      "page_address mi \<lparr>ev_ordinal = fil_extent_start ?r + k, ev_record = ?e\<rparr> j = Inr (ext_logical_offset ?e + j * psize mi)"
      "\<And>i. i < j \<Longrightarrow> ext_span mi ?e off cend i = []"
      using first_page_eq [OF facts(1) inside] by metis
    have es: "ext_spans mi ?e off cend = concat (map (ext_span mi ?e off cend) [j..<ext_page_count ?e])"
      by (rule ext_spans_from) (use j(2,4) in auto)
    define l where "l = length (ext_spans mi ?e off cend)"
    define m where "m = length (concat (map (\<lambda>k. ext_spans mi (extent_at mi ?r k) off cend) [Suc k..<fil_extent_count ?r]))"
    have tot: "length (concat (map (\<lambda>k. ext_spans mi (extent_at mi ?r k) off cend) [k..<fil_extent_count ?r])) = l + m"
      unfolding u l_def m_def by simp
    obtain ret c where p: "count_pages mi \<lparr>ev_ordinal = fil_extent_start ?r + k, ev_record = ?e\<rparr> off cend (ext_logical_offset ?e + j * psize mi) cnt
        [j..<ext_page_count ?e] = Inr (ret, c)" "counted cnt l (ret, c)"
      using count_pages_eq [OF facts(1) inside(2) j(2) Suc.prems(3), of "fil_extent_start ?r + k" off cend, folded es l_def] by auto
    have step: "count_extents mi f off cend cnt [k..<fil_extent_count ?r] =
        (if ret then Inr c else count_extents mi f off cend c [Suc k..<fil_extent_count ?r])"
      unfolding u using fe False j(1,3) p(1) by simp
    show ?thesis
    proof (cases "cnt + l \<le> MAX_RESOLVED_SPANS")
      case True
      then have c: "ret = False" "c = cnt + l" using p(2) by (auto simp: counted_def)
      have "\<exists>d. count_extents mi f off cend c [Suc k..<fil_extent_count ?r] = Inr d \<and> counted_total c m d"
        unfolding m_def by (rule Suc.hyps(1)) (use Suc.hyps(2) k c True Suc.prems(2) [OF k] extent_mono [OF assms(1), of k "Suc k"] in auto)
      then show ?thesis unfolding step tot c counted_total_def by (simp add: add.assoc)
    next
      case over: False
      then have "ret" "c = MAX_RESOLVED_SPANS + 1" using p(2) by (auto simp: counted_def)
      then show ?thesis unfolding step tot using over by (auto simp: counted_total_def)
    qed
  qed
qed

lemma extent_search_exact:
  "file_layout_ok mi (fv_record f) \<Longrightarrow> low \<le> high \<Longrightarrow> high \<le> fil_extent_count (fv_record f) \<Longrightarrow>
    \<exists>l. extent_search mi f off low high = Inr l \<and> low \<le> l \<and> l \<le> high \<and> (\<forall>k. low \<le> k \<longrightarrow> k < l \<longrightarrow> extent_end mi (fv_record f) k \<le> off) \<and>
      (\<forall>k. l \<le> k \<longrightarrow> k < high \<longrightarrow> off < extent_end mi (fv_record f) k)"
proof (induction mi f off low high rule: extent_search.induct)
  case (1 mi f off low high)
  show ?case
  proof (cases "low < high")
    case False
    then have "extent_search mi f off low high = Inr low" by (subst extent_search.simps) simp
    then show ?thesis using False "1.prems" by auto
  next
    case True
    let ?m = "low + (high - low) div 2" and ?r = "fv_record f"
    have m: "low \<le> ?m" "?m < high" "?m < fil_extent_count ?r" using True "1.prems"(3) by auto
    note fe = file_extent_in [OF "1.prems"(1) m(3), folded extent_at_def]
    have step: "extent_search mi f off low high =
        (if extent_end mi ?r ?m \<le> off then extent_search mi f off (?m + 1) high else extent_search mi f off low ?m)"
      using True fe extent_facts(3) [OF "1.prems"(1) m(3)]
      by (subst extent_search.simps) (simp add: Let_def extent_end_def checked_add64_def)
    have ck: "checked_add64 (ext_logical_offset (extent_at mi ?r ?m)) (ext_logical_length (extent_at mi ?r ?m)) = Some (extent_end mi ?r ?m)"
      using extent_facts(3) [OF "1.prems"(1) m(3)] by (simp add: extent_end_def)
    show ?thesis
    proof (cases "extent_end mi ?r ?m \<le> off")
      case up: True
      have "\<exists>l. extent_search mi f off (?m + 1) high = Inr l \<and> ?m + 1 \<le> l \<and> l \<le> high \<and>
          (\<forall>k. ?m + 1 \<le> k \<longrightarrow> k < l \<longrightarrow> extent_end mi ?r k \<le> off) \<and> (\<forall>k. l \<le> k \<longrightarrow> k < high \<longrightarrow> off < extent_end mi ?r k)"
        by (rule "1.IH"(1) [OF True refl up]) (use "1.prems" m in auto)
      then obtain l where l: "extent_search mi f off (?m + 1) high = Inr l" "?m + 1 \<le> l" "l \<le> high"
          "\<forall>k. ?m + 1 \<le> k \<longrightarrow> k < l \<longrightarrow> extent_end mi ?r k \<le> off" "\<forall>k. l \<le> k \<longrightarrow> k < high \<longrightarrow> off < extent_end mi ?r k" by blast
      have "extent_end mi ?r k \<le> off" if "k < l" for k
        using that l(4) up extent_mono [OF "1.prems"(1), of k ?m] m(3) by (cases "k \<le> ?m") auto
      then show ?thesis using l(1-3,5) m(1) up unfolding step by auto
    next
      case down: False
      have "\<exists>l. extent_search mi f off low ?m = Inr l \<and> low \<le> l \<and> l \<le> ?m \<and>
          (\<forall>k. low \<le> k \<longrightarrow> k < l \<longrightarrow> extent_end mi ?r k \<le> off) \<and> (\<forall>k. l \<le> k \<longrightarrow> k < ?m \<longrightarrow> off < extent_end mi ?r k)"
        by (rule "1.IH"(2) [OF True refl down]) (use "1.prems" m in auto)
      then obtain l where l: "extent_search mi f off low ?m = Inr l" "low \<le> l" "l \<le> ?m"
          "\<forall>k. low \<le> k \<longrightarrow> k < l \<longrightarrow> extent_end mi ?r k \<le> off" "\<forall>k. l \<le> k \<longrightarrow> k < ?m \<longrightarrow> off < extent_end mi ?r k" by blast
      have "off < extent_end mi ?r k" if "l \<le> k" "k < high" for k
        using that l(5) down extent_mono [OF "1.prems"(1), of ?m k] "1.prems"(3) by (cases "k < ?m") auto
      then show ?thesis using l(1-4) m(2) down unfolding step by auto
    qed
  qed
qed

section \<open>The spans read the file\<close>

fun tiled :: "nat \<Rightarrow> ResolvedSpan list \<Rightarrow> nat \<Rightarrow> bool" where
  "tiled a [] b \<longleftrightarrow> a = b"
| "tiled a (s # ss) b \<longleftrightarrow> span_dst_offset s = a \<and> tiled (a + span_len s) ss b"

lemma tiled_append: "tiled a xs b \<Longrightarrow> tiled b ys c \<Longrightarrow> tiled a (xs @ ys) c"
  by (induction xs arbitrary: a) auto

lemma tiled_sum: "tiled a ss b \<Longrightarrow> b = a + sum_list (map span_len ss)"
  by (induction ss arbitrary: a) (fastforce simp: add.assoc)+

definition clip :: "nat \<Rightarrow> nat \<Rightarrow> nat \<Rightarrow> nat" where
  "clip off cend z = min (max z off) cend - off"

lemma tiled_span: "off < cend \<Longrightarrow> tiled (clip off cend start) (span_of off cend p start len) (clip off cend (start + len))"
  by (auto simp: span_of_def clip_def)

text \<open>The part of the data of \<open>[x, x + length d)\<close> that lies in \<open>[off, cend)\<close>.\<close>

definition seg :: "nat \<Rightarrow> nat \<Rightarrow> nat \<Rightarrow> 'a list \<Rightarrow> 'a list" where
  "seg off cend x d = take (cend - max x off) (drop (off - x) d)"

lemma seg_append: "seg off cend x (d @ d') = seg off cend x d @ seg off cend (x + length d) d'"
proof -
  have "off - x - length d = off - (x + length d)" by simp
  moreover have "cend - max x off - (length d - (off - x)) = cend - max (x + length d) off" by (auto simp: max_def)
  ultimately show ?thesis unfolding seg_def by (simp only: drop_append take_append length_drop)
qed

definition read_span :: "(nat \<Rightarrow> bytes) \<Rightarrow> ResolvedSpan \<Rightarrow> bytes" where
  "read_span data s = slice (span_page_offset s) (span_len s) (data (span_page_ordinal s))"

definition read_spans :: "(nat \<Rightarrow> bytes) \<Rightarrow> nat \<Rightarrow> ResolvedSpan list \<Rightarrow> bytes" where
  "read_spans data n ss = fold (\<lambda>s buf. copy_into buf (span_dst_offset s) (read_span data s)) ss (zeros n)"

lemma read_span_of:
  assumes "length (data p) = len"
  shows "concat (map (read_span data) (span_of off cend p start len)) = seg off cend start (data p)"
    "s \<in> set (span_of off cend p start len) \<Longrightarrow> length (read_span data s) = span_len s"
proof -
  show "concat (map (read_span data) (span_of off cend p start len)) = seg off cend start (data p)"
  proof (cases "max start off < min (start + len) cend")
    case True
    have "max start off - start = off - start" by auto
    moreover have "take (min (start + len) cend - max start off) (drop (off - start) (data p)) = take (cend - max start off) (drop (off - start) (data p))"
      using assms by (cases "start + len \<le> cend") (auto simp: min_def max_def)
    ultimately show ?thesis using True by (simp add: span_of_def read_span_def seg_def slice_def)
  next
    case False
    then have "cend \<le> start \<or> start + len \<le> off \<or> cend \<le> off \<or> len = 0" by auto
    then show ?thesis using False assms by (auto simp: span_of_def seg_def)
  qed
  show "s \<in> set (span_of off cend p start len) \<Longrightarrow> length (read_span data s) = span_len s"
    using assms by (auto simp: span_of_def read_span_def slice_def split: if_splits)
qed

lemma fill_spans:
  assumes "tiled a ss b" "\<And>s. s \<in> set ss \<Longrightarrow> length (read_span data s) = span_len s" "length buf = a"
  shows "fold (\<lambda>s buf. copy_into buf (span_dst_offset s) (read_span data s)) ss (buf @ zeros (b - a)) = buf @ concat (map (read_span data) ss)"
  using assms
proof (induction ss arbitrary: a buf)
  case (Cons s ss)
  let ?v = "read_span data s"
  have t: "span_dst_offset s = a" "tiled (a + span_len s) ss b" "length ?v = span_len s" using Cons.prems by auto
  have le: "a + span_len s \<le> b" using tiled_sum [OF t(2)] by simp
  have "copy_into (buf @ zeros (b - a)) a ?v = (buf @ ?v) @ zeros (b - (a + span_len s))"
    using Cons.prems(3) t(3) le by (simp add: copy_into_def zeros_def)
  then show ?case using Cons.IH [OF t(2), of "buf @ ?v"] Cons.prems t by simp
qed simp

definition extent_data :: "(nat \<Rightarrow> bytes) \<Rightarrow> ExtentRecord \<Rightarrow> bytes" where
  "extent_data data e = concat (map (\<lambda>j. data (ext_page_start e + j)) [0..<ext_page_count e])"

definition file_data :: "(nat \<Rightarrow> bytes) \<Rightarrow> MountIndex \<Rightarrow> FileRecord \<Rightarrow> bytes" where
  "file_data data mi f = concat (map (\<lambda>k. extent_data data (extent_at mi f k)) [0..<fil_extent_count f])"

lemma extent_tiles:
  assumes "extent_layout_ok mi e" "off < cend" "\<And>j. j < ext_page_count e \<Longrightarrow> length (data (ext_page_start e + j)) = plen mi (ext_page_start e + j)"
  shows "n \<le> ext_page_count e \<Longrightarrow>
    length (concat (map (\<lambda>j. data (ext_page_start e + j)) [0..<n])) = (\<Sum>j<n. plen mi (ext_page_start e + j)) \<and>
    tiled (clip off cend (ext_logical_offset e)) (concat (map (ext_span mi e off cend) [0..<n]))
      (clip off cend (ext_logical_offset e + (\<Sum>j<n. plen mi (ext_page_start e + j)))) \<and>
    concat (map (read_span data) (concat (map (ext_span mi e off cend) [0..<n]))) =
      seg off cend (ext_logical_offset e) (concat (map (\<lambda>j. data (ext_page_start e + j)) [0..<n])) \<and>
    (\<forall>s\<in>set (concat (map (ext_span mi e off cend) [0..<n])). length (read_span data s) = span_len s)"
proof (induction n)
  case 0
  then show ?case by (simp add: seg_def)
next
  case (Suc n)
  have n: "n < ext_page_count e" using Suc.prems by simp
  let ?p = "ext_page_start e + n" and ?sum = "\<Sum>j<n. plen mi (ext_page_start e + j)"
  have a: "?sum = n * psize mi" by (rule prefix_full [OF assms(1) n])
  note d = assms(3) [OF n]
  have es: "ext_span mi e off cend n = span_of off cend ?p (ext_logical_offset e + ?sum) (plen mi ?p)" unfolding ext_span_def a ..
  note ih = Suc.IH [OF less_imp_le [OF n]]
  have "tiled (clip off cend (ext_logical_offset e)) (concat (map (ext_span mi e off cend) [0..<n]) @ ext_span mi e off cend n)
      (clip off cend (ext_logical_offset e + ?sum + plen mi ?p))"
    by (rule tiled_append [where b = "clip off cend (ext_logical_offset e + ?sum)"]) (use ih tiled_span [OF assms(2)] es in auto)
  moreover have "concat (map (read_span data) (ext_span mi e off cend n)) = seg off cend (ext_logical_offset e + ?sum) (data ?p)"
    unfolding es by (rule read_span_of(1) [where data = data, OF d])
  moreover have "\<forall>s\<in>set (ext_span mi e off cend n). length (read_span data s) = span_len s" unfolding es using read_span_of(2) [where data = data, OF d] by blast
  ultimately show ?case using ih d by (auto simp: seg_append add.assoc)
qed

lemma file_tiles:
  assumes "file_layout_ok mi f" "off < cend"
    "\<And>k j. k < fil_extent_count f \<Longrightarrow> j < ext_page_count (extent_at mi f k) \<Longrightarrow>
      length (data (ext_page_start (extent_at mi f k) + j)) = plen mi (ext_page_start (extent_at mi f k) + j)"
  shows "n \<le> fil_extent_count f \<Longrightarrow>
    length (concat (map (\<lambda>k. extent_data data (extent_at mi f k)) [0..<n])) = (\<Sum>k<n. ext_logical_length (extent_at mi f k)) \<and>
    tiled (clip off cend 0) (concat (map (\<lambda>k. ext_spans mi (extent_at mi f k) off cend) [0..<n]))
      (clip off cend (\<Sum>k<n. ext_logical_length (extent_at mi f k))) \<and>
    concat (map (read_span data) (concat (map (\<lambda>k. ext_spans mi (extent_at mi f k) off cend) [0..<n]))) =
      seg off cend 0 (concat (map (\<lambda>k. extent_data data (extent_at mi f k)) [0..<n])) \<and>
    (\<forall>s\<in>set (concat (map (\<lambda>k. ext_spans mi (extent_at mi f k) off cend) [0..<n])). length (read_span data s) = span_len s)"
proof (induction n)
  case 0
  then show ?case by (simp add: seg_def)
next
  case (Suc n)
  have n: "n < fil_extent_count f" using Suc.prems by simp
  let ?e = "extent_at mi f n" and ?sum = "\<Sum>k<n. ext_logical_length (extent_at mi f k)"
  have o: "ext_logical_offset ?e = ?sum" using assms(1) n by (simp add: file_layout_ok_def extent_at_def)
  have len: "ext_logical_length ?e = (\<Sum>j<ext_page_count ?e. plen mi (ext_page_start ?e + j))"
    using extent_facts(1) [OF assms(1) n] by (simp add: extent_layout_ok_def)
  note et = extent_tiles [OF extent_facts(1) [OF assms(1) n] assms(2) assms(3) [OF n] order.refl, folded ext_spans_def extent_data_def len, unfolded o]
  note ih = Suc.IH [OF less_imp_le [OF n]]
  have "tiled (clip off cend 0) (concat (map (\<lambda>k. ext_spans mi (extent_at mi f k) off cend) [0..<n]) @ ext_spans mi ?e off cend)
      (clip off cend (?sum + ext_logical_length ?e))"
    by (rule tiled_append [where b = "clip off cend ?sum"]) (use ih et in auto)
  then show ?case using ih et by (auto simp: seg_append)
qed

lemma resolve_range_eq:
  assumes "file_layout_ok mi (fv_record v)" "0 < len" "off + len \<le> u64_max" "off < fil_logical_size (fv_record v)"
    and n: "n = min (off + len) (fil_logical_size (fv_record v)) - off" "n \<le> u32_max"
    and sum: "sum_list (map span_len (file_spans mi (fv_record v) off (off + n))) = n"
  shows "resolve_range mi v off len =
    (if MAX_RESOLVED_SPANS < length (file_spans mi (fv_record v) off (off + n)) then Inl InvalidArgument
     else Inr (file_spans mi (fv_record v) off (off + n)))"
proof -
  let ?f = "fv_record v"
  let ?N = "fil_extent_count ?f" and ?spans = "\<lambda>k. ext_spans mi (extent_at mi ?f k) off (off + n)"
  have cend: "min (off + len) (fil_logical_size ?f) = off + n" using n(1) assms(2,4) by simp
  obtain l where l: "extent_search mi v off 0 ?N = Inr l" "l \<le> ?N" "\<And>k. k < l \<Longrightarrow> extent_end mi ?f k \<le> off"
    "\<And>k. l \<le> k \<Longrightarrow> k < ?N \<Longrightarrow> off < extent_end mi ?f k"
    using extent_search_exact [OF assms(1), of 0 ?N off] by auto
  have "concat (map ?spans [0..<l]) = []"
    by (rule concat_map_empty) (use extent_facts(1) [OF assms(1)] l(2,3) in \<open>auto intro!: ext_spans_outside simp: extent_end_def\<close>)
  then have fs: "file_spans mi ?f off (off + n) = concat (map ?spans [l..<?N])"
    using upt_split [of 0 l ?N] l(2) by (simp add: file_spans_def extent_at_def [symmetric])
  have ex: "resolve_extents mi v off (off + n) [l..<?N] = Inr (file_spans mi ?f off (off + n))"
    unfolding fs by (rule resolve_extents_eq [OF assms(1)]) (use l n(2) in auto)
  obtain c where c: "count_spans mi v l off (off + n) = Inr c" "counted_total 0 (length (file_spans mi ?f off (off + n))) c"
    using count_extents_eq [OF assms(1) l(2), of off 0 "off + n"] l(2,4) unfolding fs count_spans_def by auto
  have "c > MAX_RESOLVED_SPANS \<longleftrightarrow> MAX_RESOLVED_SPANS < length (file_spans mi ?f off (off + n))"
    using c(2) by (auto simp: counted_total_def)
  moreover have "n \<le> u64_max" using n(2) u32_max_le_u64_max by simp
  ultimately show ?thesis using assms(2-4) n(2) l(1) c(1) ex sum
    unfolding resolve_range_def Let_def by (simp add: checked_add64_def cend try_sum64_eq)
qed

text \<open>C6: resolving a range reads the file.  In every index that opens, for every virtual file and every
  non-empty range that begins inside it, ends within 64 bits and covers at most \<open>u32::MAX\<close> bytes of it, either more than the allowed number of pages would be touched, and the
  request is refused as such, or the returned spans, copied from the pages to their destinations,
  give exactly the requested bytes of the file, cut off at its end.  The content of a page is
  arbitrary up to its recorded length, and the file is the concatenation of its pages.\<close>

theorem resolve_reads_file:
  assumes "open_index blake3 upper wide bs = Inr mi" "file_by_index mi i = Inr v" "is_virtual (fil_class (fv_record v))"
    "0 < len" "off + len \<le> u64_max" "off < fil_logical_size (fv_record v)"
    "n = min (off + len) (fil_logical_size (fv_record v)) - off" "n \<le> u32_max"
    "\<forall>p < index_count mi Pages. length (data p) = pag_logical_length (prec mi p)"
  shows "length (file_data data mi (fv_record v)) = fil_logical_size (fv_record v) \<and>
    (if MAX_RESOLVED_SPANS < length (file_spans mi (fv_record v) off (off + n)) then resolve_range mi v off len = Inl InvalidArgument
     else \<exists>ss. resolve_range mi v off len = Inr ss \<and> read_spans data n ss = slice off n (file_data data mi (fv_record v)))"
proof -
  let ?f = "fv_record v"
  have val: "validate_records upper wide mi = Inr ()" using open_index_records(1) [OF assms(1)] .
  have i: "i < index_count mi Files" using assms(2) by (auto simp: file_by_index_def record_bytes_def index_count_def Let_def bind_result_eq_Inr if_Inl_Inr)
  have f: "?f = frec mi i" using assms(2) by (simp add: frec_def)
  have lay: "file_layout_ok mi ?f" using validated_file_layout [OF val i] assms(3) by (simp add: f)
  have in_pages: "ext_page_start (extent_at mi ?f k) + j < index_count mi Pages" if "k < fil_extent_count ?f" "j < ext_page_count (extent_at mi ?f k)" for k j
    using validated_extents(4) [OF val, of "fil_extent_start ?f + k"] validated_files(3) [OF val i] that by (simp add: f extent_at_def)
  have pos: "off < off + n" using assms(4,6,7) by auto
  note tiles = file_tiles [OF lay pos, of data, OF _ order.refl, folded file_data_def]
  have tl: "length (file_data data mi ?f) = fil_logical_size ?f" "tiled 0 (file_spans mi ?f off (off + n)) n"
    "concat (map (read_span data) (file_spans mi ?f off (off + n))) = slice off n (file_data data mi ?f)"
    "\<And>s. s \<in> set (file_spans mi ?f off (off + n)) \<Longrightarrow> length (read_span data s) = span_len s"
    using tiles assms(9) in_pages lay assms(7) assms(6)
    by (auto simp: file_spans_def extent_at_def file_layout_ok_def clip_def seg_def slice_def)
  have sum: "sum_list (map span_len (file_spans mi ?f off (off + n))) = n" using tiled_sum [OF tl(2)] by simp
  note r = resolve_range_eq [OF lay assms(4-8) sum]
  have "read_spans data n (file_spans mi ?f off (off + n)) = slice off n (file_data data mi ?f)"
    using fill_spans [OF tl(2,4), of "[]"] tl(3) by (simp add: read_spans_def)
  then show ?thesis using r tl(1) by simp
qed

end
