(* ===== verification/Mount_Sample.thy ===== *)
theory Mount_Sample
  imports Mount_Image Mount_Lookup Mount_Resolve
begin

text \<open>A small mount index, written and opened: a root with the directory \<open>d\<close> and the virtual file
  \<open>f\<close> of one page, and the native file \<open>g\<close> below \<open>d\<close>.  The properties of lookup, listing and range resolution
  are applied to it.\<close>

section \<open>The tables\<close>

definition sample_upper :: "nat \<Rightarrow> nat list" where
  "sample_upper c = [if 0x61 \<le> c \<and> c \<le> 0x7A then c - 0x20 else c]"

abbreviation sample_wide :: "bytes \<Rightarrow> bytes \<Rightarrow> ordering" where
  "sample_wide \<equiv> fallback_compare sample_upper"

abbreviation sample_key :: "bytes \<Rightarrow> nat list" where
  "sample_key \<equiv> \<lambda>v. map unat (ordinal_key sample_upper v)"

abbreviation sref :: "nat \<Rightarrow> nat \<Rightarrow> StringRef" where
  "sref off len \<equiv> \<lparr>str_offset = off, str_length = len\<rparr>"

definition sample_directories :: "DirectoryRecord list" where
  "sample_directories =
    [\<lparr>dir_parent = NO_PARENT, dir_name = sref 0 0, dir_key = sref 0 0, dir_first_directory = 1, dir_directory_count = 1,
      dir_first_file = 0, dir_file_count = 1, dir_canonical_index = 0\<rparr>,
     \<lparr>dir_parent = 0, dir_name = sref 0 1, dir_key = sref 1 1, dir_first_directory = 2, dir_directory_count = 0,
      dir_first_file = 1, dir_file_count = 1, dir_canonical_index = 1\<rparr>]"

definition sample_files :: "FileRecord list" where
  "sample_files =
    [\<lparr>fil_parent = 0, fil_class = VirtualAsset, fil_name = sref 2 1, fil_key = sref 3 1, fil_logical_size = 3, fil_stable_id = 7,
      fil_extent_start = 0, fil_extent_count = 1, fil_canonical_index = 0\<rparr>,
     \<lparr>fil_parent = 1, fil_class = NativeExecutable, fil_name = sref 4 1, fil_key = sref 5 1, fil_logical_size = 5, fil_stable_id = 8,
      fil_extent_start = 1, fil_extent_count = 0, fil_canonical_index = 1\<rparr>]"

definition sample_tables :: IndexTables where
  "sample_tables = \<lparr>tab_strings = [0x64, 0x44, 0x66, 0x46, 0x67, 0x47, 0x70], tab_directories = sample_directories, tab_files = sample_files,
     tab_extents = [\<lparr>ext_logical_offset = 0, ext_logical_length = 3, ext_page_start = 0, ext_page_count = 1, ext_tail_length = 3\<rparr>],
     tab_pages = [\<lparr>pag_hash = 9, pag_logical_length = 3, pag_remote_location = 0\<rparr>],
     tab_locations = [\<lparr>loc_backend_id = sref 6 1, loc_provider_object_id = sref 6 1, loc_immutable_revision = None, loc_object_length = 100,
       loc_object_hash = 1, loc_object_kind = PackObject, loc_codec = CodecNone, loc_pack_offset = 0, loc_encoded_length = 3\<rparr>]\<rparr>"

definition sample_written :: "bytes result" where
  "sample_written = write_index (\<lambda>_. 0) 1 2 4096 (tab_strings sample_tables) (tab_directories sample_tables) (tab_files sample_tables)
     (tab_extents sample_tables) (tab_pages sample_tables) (tab_locations sample_tables)"

lemmas sample_defs = sample_tables_def sample_directories_def sample_files_def

lemma sample_tables_ok: "tables_ok sample_tables"
  by (simp add: tables_ok_def sample_defs mount_ok_defs u32_max_def u64_max_def NO_PARENT_def)

definition sample_sections :: "Section list" where
  "sample_sections =
    [\<lparr>sec_kind = Strings, sec_offset = 320, sec_length = 7, sec_count = 7\<rparr>,
     \<lparr>sec_kind = Directories, sec_offset = 384, sec_length = 112, sec_count = 2\<rparr>,
     \<lparr>sec_kind = Files, sec_offset = 512, sec_length = 128, sec_count = 2\<rparr>,
     \<lparr>sec_kind = Extents, sec_offset = 640, sec_length = 32, sec_count = 1\<rparr>,
     \<lparr>sec_kind = Pages, sec_offset = 704, sec_length = 48, sec_count = 1\<rparr>,
     \<lparr>sec_kind = RemoteLocations, sec_offset = 768, sec_length = 104, sec_count = 1\<rparr>]"

lemma align_small: "v < 1000 \<Longrightarrow> align_up v 64 = Inr ((v + 63) div 64 * 64)"
proof -
  have "is_power_of_two 64" unfolding is_power_of_two_iff by (rule exI [of _ 6]) simp
  then show "v < 1000 \<Longrightarrow> ?thesis" by (simp add: align_up_def checked_add64_def u64_max_def)
qed

lemma sample_pushed:
  assumes "length a = 7" "length b = 112" "length c = 128" "length d = 32" "length e = 48" "length f = 104"
  shows "\<exists>image. fold_results push_section [(Strings, a, None), (Directories, b, Some 2), (Files, c, Some 2), (Extents, d, Some 1), (Pages, e, Some 1), (RemoteLocations, f, Some 1)]
    (zeros HEADER_SIZE, []) = Inr (image, sample_sections) \<and> length image = 872"
  using assms by (simp add: push_section_def align_small HEADER_ALIGNMENT_def HEADER_SIZE_def sample_sections_def)

lemma sample_header:
  "validate_sections \<lparr>hdr_repository = 1, hdr_generation = 2, hdr_page_size = 4096, hdr_index_hash = 0, hdr_file_length = 872, hdr_sections = sample_sections\<rparr> = Inr ()"
  by (simp add: validate_sections_def check_section_def sample_sections_def ALL_KINDS_def kind_index_def HEADER_SIZE_def HEADER_ALIGNMENT_def
      mount_sizes checked_mul64_def section_end_def checked_add64_def u64_max_def)

lemma sample_writes: "\<exists>bs. sample_written = Inr bs \<and> length bs = 872"
proof -
  let ?h = "\<lparr>hdr_repository = 1, hdr_generation = 2, hdr_page_size = 4096, hdr_index_hash = 0, hdr_file_length = 872, hdr_sections = sample_sections\<rparr>"
  have six: "length (hdr_sections ?h) = 6" by (simp add: sample_sections_def)
  define t where "t = concat (map section_bytes sample_sections)"
  have t: "length t = 192" by (simp add: t_def sample_sections_def)
  have e: "mount_header_encode (\<lambda>_. 0) ?h = Inr (header_prefix (\<lambda>_. 0) ?h @ t)"
    using sample_header mount_header_encode_eq [OF six] by (simp add: t_def)
  have l: "length (tab_strings sample_tables) = 7" "length (tab_directories sample_tables) = 2" "length (tab_files sample_tables) = 2"
    "length (tab_extents sample_tables) = 1" "length (tab_pages sample_tables) = 1" "length (tab_locations sample_tables) = 1" by (simp_all add: sample_defs)
  from sample_pushed [of "tab_strings sample_tables" "concat (map (encoded directory_encode 56) (tab_directories sample_tables))"
      "concat (map (encoded file_encode 64) (tab_files sample_tables))" "concat (map (encoded extent_encode 32) (tab_extents sample_tables))"
      "concat (map (encoded page_encode 48) (tab_pages sample_tables))" "concat (map (encoded location_encode 104) (tab_locations sample_tables))"]
  obtain image where push: "fold_results push_section [(Strings, tab_strings sample_tables, None),
      (Directories, concat (map (encoded directory_encode 56) (tab_directories sample_tables)), Some 2),
      (Files, concat (map (encoded file_encode 64) (tab_files sample_tables)), Some 2),
      (Extents, concat (map (encoded extent_encode 32) (tab_extents sample_tables)), Some 1),
      (Pages, concat (map (encoded page_encode 48) (tab_pages sample_tables)), Some 1),
      (RemoteLocations, concat (map (encoded location_encode 104) (tab_locations sample_tables)), Some 1)] (zeros HEADER_SIZE, []) = Inr (image, sample_sections)"
    and image: "length image = 872" using l by (auto simp: mount_tables)
  have tabs: "encode_records directory_encode Directories (tab_directories sample_tables) = Inr (concat (map (encoded directory_encode 56) (tab_directories sample_tables)))"
    "encode_records file_encode Files (tab_files sample_tables) = Inr (concat (map (encoded file_encode 64) (tab_files sample_tables)))"
    "encode_records extent_encode Extents (tab_extents sample_tables) = Inr (concat (map (encoded extent_encode 32) (tab_extents sample_tables)))"
    "encode_records page_encode Pages (tab_pages sample_tables) = Inr (concat (map (encoded page_encode 48) (tab_pages sample_tables)))"
    "encode_records location_encode RemoteLocations (tab_locations sample_tables) = Inr (concat (map (encoded location_encode 104) (tab_locations sample_tables)))"
    by (simp_all add: encode_tables l)
  show ?thesis unfolding sample_written_def write_index_def
    by (simp add: tabs l push [simplified] image Let_def mount_header_new_def sample_header e t write_in copy_into_def compute_index_hash_def INDEX_HASH_OFFSET_def INDEX_HASH_LENGTH_def)
qed

lemma sample_opens:
  obtains mi where "holds_tables mi sample_tables" "hdr_page_size (mi_header mi) = 4096" "length (mi_bytes mi) = 872"
    "open_index (\<lambda>_. 0) sample_upper sample_wide (projr sample_written) = bind_result (validate_records sample_upper sample_wide mi) (\<lambda>_. Inr mi)"
proof -
  obtain bs where bs: "sample_written = Inr bs" "length bs = 872" using sample_writes by blast
  show thesis
  proof (rule written_index [OF bs(1) [unfolded sample_written_def] sample_tables_ok])
    fix h assume "hdr_page_size h = 4096" "holds_tables \<lparr>mi_bytes = bs, mi_header = h\<rparr> sample_tables"
      "\<And>upper wide. open_index (\<lambda>_. 0) upper wide bs = bind_result (validate_records upper wide \<lparr>mi_bytes = bs, mi_header = h\<rparr>) (\<lambda>_. Inr \<lparr>mi_bytes = bs, mi_header = h\<rparr>)"
    then show thesis using bs(2) by (intro that [of "\<lparr>mi_bytes = bs, mi_header = h\<rparr>"]) (simp_all add: bs(1))
  qed (simp_all add: bs(2) u64_max_def)
qed

section \<open>Reading it\<close>

lemma sample_reads:
  assumes "holds_tables mi sample_tables"
  shows "index_count mi Directories = 2" "index_count mi Files = 2" "index_count mi Extents = 1" "index_count mi Pages = 1" "index_count mi RemoteLocations = 1"
    "directory_by_index mi 0 = Inr \<lparr>dv_ordinal = 0, dv_record = sample_directories ! 0\<rparr>"
    "directory_by_index mi 1 = Inr \<lparr>dv_ordinal = 1, dv_record = sample_directories ! 1\<rparr>"
    "file_by_index mi 0 = Inr \<lparr>fv_ordinal = 0, fv_record = sample_files ! 0\<rparr>"
    "file_by_index mi 1 = Inr \<lparr>fv_ordinal = 1, fv_record = sample_files ! 1\<rparr>"
    "extent_by_index mi 0 = Inr \<lparr>ev_ordinal = 0, ev_record = tab_extents sample_tables ! 0\<rparr>"
    "page_by_ordinal mi 0 = Inr \<lparr>pv_ordinal = 0, pv_record = tab_pages sample_tables ! 0\<rparr>"
    "remote_location_by_index mi 0 = Inr \<lparr>lv_ordinal = 0, lv_record = tab_locations sample_tables ! 0\<rparr>"
  using assms unfolding holds_tables_def by (simp_all add: sample_defs)

lemma sample_strings:
  assumes "holds_tables mi sample_tables"
  shows "index_string mi (sref 0 0) = Inr []" "index_string mi (sref 0 1) = Inr [0x64]" "index_string mi (sref 1 1) = Inr [0x44]"
    "index_string mi (sref 2 1) = Inr [0x66]" "index_string mi (sref 3 1) = Inr [0x46]" "index_string mi (sref 4 1) = Inr [0x67]"
    "index_string mi (sref 5 1) = Inr [0x47]" "index_string mi (sref 6 1) = Inr [0x70]"
proof -
  have r: "ref_to (tab_strings sample_tables) r v \<Longrightarrow> utf8_chars v \<noteq> None \<Longrightarrow> index_string mi r = Inr v" for r v
    using assms by (auto simp: holds_tables_def from_utf8_def)
  show "index_string mi (sref 0 0) = Inr []" "index_string mi (sref 0 1) = Inr [0x64]" "index_string mi (sref 1 1) = Inr [0x44]"
    "index_string mi (sref 2 1) = Inr [0x66]" "index_string mi (sref 3 1) = Inr [0x46]" "index_string mi (sref 4 1) = Inr [0x67]"
    "index_string mi (sref 5 1) = Inr [0x47]" "index_string mi (sref 6 1) = Inr [0x70]"
    by (rule r; simp add: sample_tables_def ref_to_def slice_def u32_max_def)+
qed

lemma sample_upper_ascii: "upper_ascii sample_upper"
  by (simp add: upper_ascii_def sample_upper_def)

lemma sample_keys: "ordinal_key sample_upper [] = []" "ordinal_key sample_upper [0x64] = [0x44]" "ordinal_key sample_upper [0x66] = [0x46]"
  "ordinal_key sample_upper [0x67] = [0x47]"
  by (subst ordinal_key_ascii [OF sample_upper_ascii]; simp add: is_ascii_def to_ascii_uppercase_def)+

lemma sample_components: "validate_component sample_upper [0x64] = Inr ()" "validate_component sample_upper [0x66] = Inr ()"
  "validate_component sample_upper [0x67] = Inr ()"
  by (simp_all add: validate_component_def fold_name_def sample_keys utf16_units_def MAX_NAME_UNITS_def chars_def is_control_def RESERVED_STEMS_def)

lemma sample_compare: "compare_ordinal_ignore_case sample_wide [0x64] [0x66] = Less"
  by (simp add: compare_ordinal_ignore_case_def compare_ascii_ignore_case_def is_ascii_def to_ascii_uppercase_def)

lemmas sample_eval = sample_reads sample_strings

lemmas sample_records = sample_directories_def sample_files_def sample_tables_def

lemmas sample_checks = sample_records sample_keys sample_components sample_compare Let_def checked_add32_def checked_add64_def u32_max_def u64_max_def
  NO_PARENT_def validate_range_def for_each_def to_ordinal_def

lemma sample_child_order:
  assumes "holds_tables mi sample_tables"
  shows "validate_child_order sample_wide mi \<lparr>dv_ordinal = 0, dv_record = sample_directories ! 0\<rparr> = Inr ()"
    "validate_child_order sample_wide mi \<lparr>dv_ordinal = 1, dv_record = sample_directories ! 1\<rparr> = Inr ()"
  by (simp_all add: validate_child_order_def order_step_def directory_name_at_def file_name_at_def merge_check.simps directory_name_def file_name_def
      sample_checks sample_eval [OF assms] sample_eval [OF assms, simplified One_nat_def])

lemma sample_directory:
  assumes "holds_tables mi sample_tables"
  shows "validate_directory sample_upper sample_wide mi 0 (1, 0) = Inr (2, 1)" "validate_directory sample_upper sample_wide mi 1 (2, 1) = Inr (2, 2)"
  using sample_child_order [OF assms]
  by (simp_all add: validate_directory_def directory_name_def directory_key_def sample_checks sample_eval [OF assms] sample_eval [OF assms, simplified One_nat_def])

lemma sample_file:
  assumes "holds_tables mi sample_tables"
  shows "validate_file sample_upper mi 0 (0, {}) = Inr (1, {7})" "validate_file sample_upper mi 1 (1, {7}) = Inr (1, {7, 8})"
  by (auto simp: validate_file_def validate_file_layout_def extent_step_def page_step_def file_extent_def extent_page_def file_name_def file_key_def
      sample_checks sample_eval [OF assms] sample_eval [OF assms, simplified One_nat_def])

lemma sample_rest:
  assumes "holds_tables mi sample_tables" "hdr_page_size (mi_header mi) = 4096"
  shows "validate_extent mi 0 0 = Inr 1" "validate_page mi 0 = Inr ()" "validate_location mi 0 = Inr ()"
  by (simp_all add: validate_extent_def validate_page_def validate_location_def extent_page_def location_backend_id_def location_provider_object_id_def
      location_revision_def assms(2) sample_checks sample_eval [OF assms(1)] sample_eval [OF assms(1), simplified One_nat_def])

lemma sample_valid:
  assumes "holds_tables mi sample_tables" "hdr_page_size (mi_header mi) = 4096" "length (mi_bytes mi) = 872"
  shows "validate_records sample_upper sample_wide mi = Inr ()"
proof -
  have "[0..<2] = [0, 1 :: nat]" "[0..<1] = [0 :: nat]" by (simp_all add: upt_rec)
  then show ?thesis using sample_directory [OF assms(1)] sample_file [OF assms(1)] sample_rest [OF assms(1,2)]
    unfolding validate_records_def sample_reads [OF assms(1)] by (simp add: assms(3) HEADER_SIZE_def for_each_def)
qed

lemma sample_open:
  obtains mi where "holds_tables mi sample_tables" "open_index (\<lambda>_. 0) sample_upper sample_wide (projr sample_written) = Inr mi"
  using sample_valid by (metis sample_opens bind_result_simps(2))

section \<open>The properties at the sample\<close>

lemma sample_view:
  assumes "holds_tables mi sample_tables"
  shows "drec mi 0 = sample_directories ! 0" "drec mi 1 = sample_directories ! 1" "frec mi 0 = sample_files ! 0"
    "erec mi 0 = tab_extents sample_tables ! 0" "prec mi 0 = tab_pages sample_tables ! 0"
    "dname mi 1 = [0x64]" "fname mi 0 = [0x66]" "fname mi 1 = [0x67]"
  by (simp_all add: drec_def frec_def erec_def prec_def dname_def fname_def directory_name_at_def file_name_at_def directory_name_def file_name_def
      sample_records sample_eval [OF assms] sample_eval [OF assms, simplified One_nat_def])

lemma sample_children:
  assumes "holds_tables mi sample_tables"
  shows "dir_children mi 0 = {1}" "file_children mi 0 = {0}" "dir_children mi 1 = {}" "file_children mi 1 = {1}"
  by (auto simp: dir_children_def file_children_def sample_view [OF assms] sample_view [OF assms, simplified One_nat_def] sample_records)

lemma sample_distinct:
  assumes "holds_tables mi sample_tables"
  shows "siblings_distinct key mi"
proof -
  have "inj_on (key \<circ> dname mi) (dir_children mi i) \<and> inj_on (key \<circ> fname mi) (file_children mi i)" if "i < 2" for i
  proof -
    consider "i = 0" | "i = 1" using \<open>i < 2\<close> by linarith
    then show ?thesis by cases (simp_all only: sample_children [OF assms] inj_on_empty inj_on_insert, simp_all)
  qed
  then show ?thesis by (simp add: siblings_distinct_def sample_reads [OF assms])
qed

lemmas sample_order = fallback_name_order [OF sample_upper_ascii]

text \<open>The path \<open>/D/g\<close> leads to the file below the directory.\<close>

theorem mount_lookup_exact_witness:
  "\<exists>mi. open_index (\<lambda>_. 0) sample_upper sample_wide (projr sample_written) = Inr mi \<and> lookup_path sample_wide mi [0x2F, 0x44, 0x2F, 0x67] = Inr (Some (FileNode 1))"
proof (rule sample_open)
  fix mi assume h: "holds_tables mi sample_tables" "open_index (\<lambda>_. 0) sample_upper sample_wide (projr sample_written) = Inr mi"
  let ?p = "[0x2F, 0x44, 0x2F, 0x67] :: bytes"
  have s: "trim_separators ?p = [0x44, 0x2F, 0x67]" "split_path [0x44, 0x2F, 0x67] = [[0x44], [0x67]]"
    by (simp_all add: trim_separators_def is_separator_def)
  have v: "validate_lookup_component [0x44] = Inr ()" "validate_lookup_component [0x67] = Inr ()"
    by (simp_all add: validate_lookup_component_def MAX_COMPONENT_BYTES_def chars_def)
  have k: "ordinal_key sample_upper [0x44] = [0x44]" by (subst ordinal_key_ascii [OF sample_upper_ascii]; simp add: is_ascii_def to_ascii_uppercase_def)
  have "path_to sample_key mi 0 [[0x44], [0x67]] (FileNode 1)"
    by (rule path_down [of _ _ _ _ 1], simp_all add: child_named_simps sample_children [OF h(1)] sample_children [OF h(1), simplified One_nat_def]
        sample_view [OF h(1)] sample_view [OF h(1), simplified One_nat_def] sample_keys k path_to.path_last)
  then have "lookup_path sample_wide mi ?p = Inr (Some (FileNode 1))"
    using mount_lookup_exact [OF h(2) sample_order sample_distinct [OF h(1)], of ?p, unfolded s] v by auto
  then show ?thesis using h(2) by blast
qed

lemma two_sorted:
  assumes "sorted_wrt R xs" "set xs = {a, b}" "R a b" "\<not> R b a" "\<not> R a a" "\<not> R b b"
  shows "xs = [a, b]"
proof -
  have ne: "a \<noteq> b" using assms(3,4) by auto
  obtain x ys where xs: "xs = x # ys" using assms(2) by (cases xs) auto
  have x: "x = a" using assms(1,2,4,6) ne unfolding xs by auto
  have ys: "set ys = {b}" using assms(1,2,5) ne unfolding xs x by auto
  obtain y zs where yz: "ys = y # zs" using ys by (cases ys) auto
  have "zs = []" using assms(1,6) ys unfolding xs yz by (cases zs) auto
  then show ?thesis using x ys by (simp add: xs yz)
qed

text \<open>The root lists its directory before its file.\<close>

theorem mount_enumeration_exact_witness:
  "\<exists>mi v. open_index (\<lambda>_. 0) sample_upper sample_wide (projr sample_written) = Inr mi \<and> directory_by_index mi 0 = Inr v \<and>
     children_after_marker sample_wide mi v None 10 = Inr [DirectoryChild 1 [0x64], FileChild 0 [0x66]]"
proof (rule sample_open)
  fix mi assume h: "holds_tables mi sample_tables" "open_index (\<lambda>_. 0) sample_upper sample_wide (projr sample_written) = Inr mi"
  let ?d = "DirectoryChild 1 [0x64]" and ?f = "FileChild 0 [0x66]" and ?v = "\<lparr>dv_ordinal = 0, dv_record = sample_directories ! 0\<rparr>"
  from mount_enumeration_exact [OF h(2) sample_order sample_reads(6) [OF h(1)]] obtain es where
    es: "sorted_wrt (entry_less sample_key) es" "set es = {?d, ?f}" "\<And>marker limit. limit \<le> 4096 \<Longrightarrow>
      children_after_marker sample_wide mi ?v marker limit = Inr (take limit (filter (after_marker sample_key marker) es))"
    by (auto simp: children_of_def sample_children [OF h(1)] sample_view [OF h(1)] sample_view [OF h(1), simplified One_nat_def])
  have less: "entry_less sample_key ?d ?f" "\<not> entry_less sample_key ?f ?d" "\<not> entry_less sample_key ?d ?d" "\<not> entry_less sample_key ?f ?f"
    by (simp_all add: entry_less_def name_less_def sample_keys)
  have "es = [?d, ?f]"
    using two_sorted [OF es(1,2) less] .
  then show ?thesis using es(3) [of 10 None] h(2) sample_reads(6) [OF h(1)] by (auto simp: after_marker_def)
qed

text \<open>Two bytes from the second on.\<close>

theorem resolve_reads_file_witness:
  "\<exists>mi v ss. open_index (\<lambda>_. 0) sample_upper sample_wide (projr sample_written) = Inr mi \<and> file_by_index mi 0 = Inr v \<and>
     resolve_range mi v 1 9 = Inr ss \<and> read_spans (\<lambda>_. [5, 6, 7]) 2 ss = [6, 7]"
proof (rule sample_open)
  fix mi assume h: "holds_tables mi sample_tables" "open_index (\<lambda>_. 0) sample_upper sample_wide (projr sample_written) = Inr mi"
  let ?v = "\<lparr>fv_ordinal = 0, fv_record = sample_files ! 0\<rparr>"
  have d: "file_data (\<lambda>_. [5, 6, 7]) mi (sample_files ! 0) = [5, 6, 7]"
    by (simp add: file_data_def extent_at_def extent_data_def sample_view [OF h(1)] sample_records)
  have n: "length (file_spans mi (sample_files ! 0) 1 (1 + 2)) \<le> 1"
    by (simp add: file_spans_def ext_spans_def ext_span_def span_of_def sample_view [OF h(1)] sample_records)
  have f: "is_virtual (fil_class (sample_files ! 0))" "fil_logical_size (sample_files ! 0) = 3" by (simp_all add: sample_files_def)
  have pages: "\<forall>p < index_count mi Pages. length [5, 6, 7 :: byte] = pag_logical_length (prec mi p)"
    by (simp add: sample_reads [OF h(1)] sample_view [OF h(1)] sample_tables_def)
  have m: "\<not> MAX_RESOLVED_SPANS < length (file_spans mi (sample_files ! 0) 1 (1 + 2))" using n unfolding MAX_RESOLVED_SPANS_def by linarith
  have "length (file_data (\<lambda>_. [5, 6, 7]) mi (fv_record ?v)) = fil_logical_size (fv_record ?v) \<and>
    (if MAX_RESOLVED_SPANS < length (file_spans mi (fv_record ?v) 1 (1 + 2)) then resolve_range mi ?v 1 9 = Inl InvalidArgument
     else \<exists>ss. resolve_range mi ?v 1 9 = Inr ss \<and> read_spans (\<lambda>_. [5, 6, 7]) 2 ss = slice 1 2 (file_data (\<lambda>_. [5, 6, 7]) mi (fv_record ?v)))"
    by (rule resolve_reads_file [OF h(2) sample_reads(8) [OF h(1)]]) (use pages f in \<open>simp_all add: u64_max_def u32_max_def\<close>)
  then obtain ss where "resolve_range mi ?v 1 9 = Inr ss" "read_spans (\<lambda>_. [5, 6, 7]) 2 ss = slice 1 2 [5, 6, 7]"
    unfolding FileView.select_convs d using m by (simp only: if_False) blast
  moreover have "slice 1 2 [5, 6, 7] = [6, 7 :: byte]" by (simp add: slice_def)
  ultimately have "resolve_range mi ?v 1 9 = Inr ss \<and> read_spans (\<lambda>_. [5, 6, 7]) 2 ss = [6, 7]" by simp
  then show ?thesis using h(2) sample_reads(8) [OF h(1)] by blast
qed

text \<open>The sample is read back from its file.\<close>

theorem mount_index_round_trip_witness:
  "\<exists>mi. sample_written = Inr (mi_bytes mi) \<and> tables_ok sample_tables \<and> holds_tables mi sample_tables \<and>
     open_index (\<lambda>_. 0) sample_upper sample_wide (mi_bytes mi) = Inr mi"
proof -
  obtain bs where bs: "sample_written = Inr bs" "length bs = 872" using sample_writes by blast
  have "length bs \<le> u64_max" "(2 :: nat) \<le> u64_max" "(4096 :: nat) \<le> u64_max" using bs(2) by (simp_all add: u64_max_def)
  from mount_index_round_trip [OF bs(1) [unfolded sample_written_def] sample_tables_ok this(2,3,1)]
  obtain mi where mi: "mi_bytes mi = bs" "hdr_page_size (mi_header mi) = 4096" "holds_tables mi sample_tables"
    "open_index (\<lambda>_. 0) sample_upper sample_wide bs = bind_result (validate_records sample_upper sample_wide mi) (\<lambda>_. Inr mi)" by blast
  then show ?thesis using sample_valid [OF mi(3,2)] bs sample_tables_ok by (intro exI [of _ mi]) simp
qed

end
