(* ===== verification/Spec2Isabelle.thy ===== *)
theory Spec2Isabelle
  imports Byte_Range Lifecycle Extent_Map Policy_Core Segmented_Recency Reservation_Ledger Space_Lease Cache_Reconcile Resident_Gate Pin_Registry Range_Plan Import_Restores Verified_Sector Mount_Sample
begin

text \<open>
  \<^bold>\<open>A verification library for MirageSSD\<close>

  MirageSSD presents large file trees whose content lives in immutable remote packs and keeps a bounded
  set of pages in a local cache.  Source trees are imported into packs; a mounted volume overlays
  local writes on the imported base; pages fetched from packs are verified, stored in an arena of
  fixed slots, indexed, pinned, leased to readers, evicted and, after a crash, reconciled.  The
  library follows that structure.  Paths below are relative to \<open>src/crates\<close>.

  \<^bold>\<open>Theories and the code they model\<close>

  \<^item> \<open>Prelude\<close>: \<open>Result\<close> as a sum with the error kinds of \<open>mirage-types/src/error.rs\<close>, panics as a
    second error layer, \<open>u64\<close> and \<open>u32\<close> as natural numbers with checked, saturating and wrapping
    operations written out.  \<open>Ordered_Map\<close>: \<open>BTreeMap\<close> as a sorted association list.
    \<open>Sorted_Search\<close>: \<open>slice::binary_search_by\<close>.  \<open>Byte_Codec\<close>: little-endian fields, buffers, and the
    locale of fixed-width record codecs that the format theories interpret.
  \<^item> \<open>Byte_Range\<close>: \<open>mirage-types/src/range.rs\<close> and \<open>bytes.rs\<close>.  \<open>Hash_Text\<close>: \<open>hash.rs\<close> and \<open>id.rs\<close>.
    \<open>Lifecycle\<close>: \<open>state.rs\<close> and \<open>transition.rs\<close>, with the update commit protocol.
  \<^item> \<open>Extent_Map\<close>: \<open>mirage-engine/src/extent_map.rs\<close>, the overlay of written extents on a base file, refined
    to a function from byte positions to contents.
  \<^item> \<open>Policy_Core\<close> and \<open>Segmented_Recency\<close>: \<open>mirage-cache/src/policy_core.rs\<close>, \<open>segments.rs\<close> and \<open>recency.rs\<close>, the
    replacement policies and the bounded touch queue.  \<open>Reservation_Ledger\<close>: \<open>budget.rs\<close> and
    \<open>reservation_ledger.rs\<close>.  \<open>Space_Lease\<close>: \<open>space_lease.rs\<close>.
  \<^item> \<open>Arena_Format\<close>, \<open>Cache_Slots\<close>, \<open>Arena_Shard\<close>, \<open>Cache_Insert\<close>, \<open>Cache_Reconcile\<close>: \<open>mirage-cache/src/format.rs\<close>, the slot
    table of \<open>mirage-db/src/cache.rs\<close>, \<open>shard.rs\<close>, \<open>insert.rs\<close>, \<open>reconcile.rs\<close> and \<open>recover.rs\<close>.  These share
    one world of database rows, arena files and a script of injected faults.
  \<^item> \<open>Resident_Gate\<close>: \<open>resident.rs\<close>, the lease word of a resident page as interleaved atomic steps.
    \<open>Pin_Registry\<close>: \<open>pin.rs\<close> of \<open>mirage-db\<close> and of \<open>mirage-cache\<close>, and \<open>session_pin.rs\<close>.
  \<^item> \<open>Pack_Format\<close>, \<open>Pack_File\<close>, \<open>Range_Plan\<close>, \<open>Pack_Import\<close>, \<open>Import_Restores\<close>: \<open>mirage-pack\<close>: the fixed structures and
    frames, the writer and the reader, ranged reads, the import of a source tree, and the theorem
    that an imported tree can be restored.  \<open>Verified_Sector\<close>: \<open>verified_sector.rs\<close>, single sectors of
    an encrypted frame checked against its BLAKE3 tree.
  \<^item> \<open>Name_Policy\<close>: \<open>fold_name\<close> of \<open>mirage-types/src/inode.rs\<close>, its wrapper in \<open>mirage-manifest/src/path.rs\<close> and the order of
    names in \<open>mirage-index/src/name.rs\<close>.  \<open>Manifest_Types\<close>: classes of files and objects.
  \<^item> \<open>Mount_Format\<close>, \<open>Mount_Index\<close>, \<open>Mount_Lookup\<close>, \<open>Mount_Resolve\<close>, \<open>Mount_Image\<close>: \<open>mirage-index\<close>, the compiled index a mounted
    volume is served from: \<open>checked_slice.rs\<close>, \<open>format.rs\<close>, \<open>record.rs\<close> and \<open>header.rs\<close>; opening, validation and
    views (\<open>reader.rs\<close>, \<open>view.rs\<close>); \<open>lookup.rs\<close> and \<open>enumerate.rs\<close>; \<open>resolve.rs\<close>; string interning and the
    layout and sealing of the file (\<open>string_table.rs\<close> and the second half of \<open>compile_to_bytes\<close> in
    \<open>compiler.rs\<close>).  \<open>Mount_Sample\<close> writes, opens and reads a small index.

  \<^bold>\<open>How state and operations correspond\<close>

  A struct is a record with its fields, an enum a datatype with its variants, and each function or
  method is one definition that returns the updated state.  Early returns and \<open>?\<close> are \<open>bind_result\<close>;
  \<open>ok_or\<close> keeps its name.  Hashes and identifiers are words whose order is the byte order of the source.
  Disk access in the arena theories is an action that consumes one element of a fault script; a fault
  ends the operation with an error or stops the process in the middle of it, and what has been
  written before stays.  Concurrent operations are sequences of atomic steps.  CRC-32, BLAKE3, the
  cipher, random bytes, the clock, the Unicode upper-case table, the operating system's comparison of
  names and the file system outside the arena are parameters of the definitions
  that use them; what is assumed of them is a named hypothesis of the theorem, met by a
  concrete instance in its witness.

  \<^bold>\<open>What is shown\<close>

  \<^item> Crash safety of the cache: under every fault script an insertion leaves the slot table and the arena
    consistent, a fault-free insertion succeeds, and reconciliation settles every slot.
  \<^item> Round trips: pack and arena codecs decode exactly the encodings of well-formed values; a pack gives
    back the pages appended to it or is refused as a whole when one of them was malformed; an imported tree is restored byte for byte; a created shard
    opens; the extents of a file survive storage; a written mount index gives back its records and strings.
  \<^item> Serving a mount: in every index that opens, a path is found exactly when its components lead to a node,
    a listing is a window of one sorted list of children, and the spans of a read copy exactly the
    requested bytes of the file.
  \<^item> Refinement: the extent map to a byte function, the recency index to an ordered list, the pin
    registry to its durable rows.
  \<^item> Safety and conservation: no leased page is evicted, no stale slot handle is honoured, budgets are
    conserved and never exceeded, lifecycle states are reached only through their guards.
  \<^item> Equivalence and error behaviour: unbuffered and plain reads agree, ranged and direct pack reads
    agree except on a frame that carries another pack identity, the cache is refused to a new id under
    2Q in exactly two situations, read plans are the greedy ones, hexadecimal forms are canonical, and refusals
    name their cause.

  \<^bold>\<open>Bounds and fuel\<close>

  No definition uses fuel.  Loops recurse on their data or carry a termination measure; the page loop
  of the import is a partial function into \<open>option\<close>, and that it always returns is a theorem.  Lengths and
  offsets are bounded by \<open>u64\<close>; where an addition is checked in the source its overflow branch is
  in the model.

  \<^bold>\<open>Not modelled\<close>

  Network clients, the SQLite engine beyond the statements of the modelled tables, thread
  pools and timers, operating-system calls of Windows, serialisation by third-party libraries, the
  command line, the service host and the user interface.  Of the import the encoding of the final manifest and the
  report are left out.  Of the mount index compiler the first half, which
  orders the directories and renumbers the records of a manifest, and the memory mapping are left out.  Lock poisoning and memory exhaustion are left out
  everywhere, and pack files are written without disk faults.
\<close>

end
